(* ===== verification/Prelude.thy ===== *)
theory Prelude
  imports Main "HOL-Library.Word" "HOL-Library.List_Lexorder" "HOL-Library.Code_Target_Numeral"
begin

section \<open>Bytes, machine integers and sorted association lists\<close>

text \<open>
  The shared vocabulary of the development.  A Go byte bslice is a list of 8-bit words and
  \<^verbatim>\<open>bytes.Compare\<close> is the lexicographic order that \<open>List_Lexorder\<close> gives such lists.
  The fixed-width integers of the program (\<^verbatim>\<open>uint64\<close> timestamps, \<^verbatim>\<open>uint32\<close> lengths) are
  words of that width.  The theory also holds the two byte orders of
  \<^verbatim>\<open>encoding/binary\<close>, slices, and the sorted association lists that serve as the abstract
  view of every ordered store (skiplist, memtable, sorted table).
\<close>

type_synonym byte = "8 word"
type_synonym bytes = "8 word list"
type_synonym u32 = "32 word"
type_synonym u64 = "64 word"

named_theorems codec_simps \<open>lengths and inverses of the byte-level codecs\<close>
named_theorems kv_simps \<open>rewriting of sorted association lists\<close>

subsection \<open>Slices\<close>

text \<open>The Go bslice expression \<^verbatim>\<open>b[lo:hi]\<close>, used only where \<^verbatim>\<open>lo <= hi <= len(b)\<close>.\<close>

definition bslice :: "nat \<Rightarrow> nat \<Rightarrow> 'a list \<Rightarrow> 'a list" where
  "bslice lo hi b = take (hi - lo) (drop lo b)"

lemma length_bslice [codec_simps]: "hi \<le> length b \<Longrightarrow> length (bslice lo hi b) = hi - lo"
  by (simp add: bslice_def)

lemma bslice_append_at:
  "lo = length xs \<Longrightarrow> hi = lo + length ys \<Longrightarrow> bslice lo hi (xs @ ys @ zs) = ys"
  by (simp add: bslice_def)

lemma bslice_append_prefix: "hi \<le> length xs \<Longrightarrow> bslice lo hi (xs @ ys) = bslice lo hi xs"
  by (cases "lo \<le> hi") (simp_all add: bslice_def)

lemma bslice_join:
  assumes "lo \<le> mid" "mid \<le> hi"
  shows "bslice lo mid b @ bslice mid hi b = bslice lo hi b"
proof -
  have "bslice lo hi b = take ((mid - lo) + (hi - mid)) (drop lo b)"
    using assms by (simp add: bslice_def)
  also have "\<dots> = bslice lo mid b @ bslice mid hi b"
    using assms by (simp only: take_add drop_drop bslice_def) simp
  finally show ?thesis ..
qed

lemma bslice_0: "bslice 0 n b = take n b"
  by (simp add: bslice_def)

lemma bslice_take: "hi \<le> n \<Longrightarrow> bslice lo hi (take n b) = bslice lo hi b"
  by (simp add: bslice_def drop_take min_def)

lemma bslice_update_outside: "i < lo \<or> hi \<le> i \<Longrightarrow> bslice lo hi (b[i := x]) = bslice lo hi b"
  by (cases "i < lo") (auto simp: bslice_def drop_update_cancel take_update_cancel drop_update_swap)

lemma bslice_update_inside:
  "lo \<le> i \<Longrightarrow> bslice lo hi (b[i := x]) = (bslice lo hi b)[i - lo := x]"
  by (simp add: bslice_def drop_update_swap take_update_swap)

lemma nth_bslice: "i < hi - lo \<Longrightarrow> bslice lo hi b ! i = b ! (lo + i)" if "hi \<le> length b" for b
  using that by (simp add: bslice_def)

subsection \<open>Little and big endian\<close>

primrec put_le :: "nat \<Rightarrow> nat \<Rightarrow> bytes" where
  "put_le 0 v = []"
| "put_le (Suc n) v = word_of_nat v # put_le n (v div 256)"

primrec get_le :: "bytes \<Rightarrow> nat" where
  "get_le [] = 0"
| "get_le (b # bs) = unat b + 256 * get_le bs"

primrec put_be :: "nat \<Rightarrow> nat \<Rightarrow> bytes" where
  "put_be 0 v = []"
| "put_be (Suc n) v = word_of_nat (v div 256 ^ n) # put_be n v"

primrec get_be :: "bytes \<Rightarrow> nat" where
  "get_be [] = 0"
| "get_be (b # bs) = unat b * 256 ^ length bs + get_be bs"

lemma length_put_le [simp, codec_simps]: "length (put_le n v) = n"
  by (induction n arbitrary: v) auto

lemma length_put_be [simp, codec_simps]: "length (put_be n v) = n"
  by (induction n) auto

lemma unat_byte_of_nat: "unat (word_of_nat v :: byte) = v mod 256"
  by (simp add: unat_of_nat)

lemma unat_byte_less: "unat (b :: byte) < 256"
  using unsigned_less [of b, where ?'a = nat] by simp

lemma get_le_put_le [codec_simps]: "get_le (put_le n v) = v mod 256 ^ n"
proof (induction n arbitrary: v)
  case (Suc n)
  have "get_le (put_le (Suc n) v) = v mod 256 + 256 * (v div 256 mod 256 ^ n)"
    by (simp add: Suc unat_byte_of_nat)
  also have "\<dots> = v mod (256 * 256 ^ n)"
    by (simp add: mod_mult2_eq)
  finally show ?case by simp
qed simp

lemma get_le_bound: "get_le bs < 256 ^ length bs"
proof (induction bs)
  case (Cons b bs)
  have "unat b + 256 * get_le bs < 256 + 256 * get_le bs"
    using unat_byte_less [of b] by simp
  also have "\<dots> = 256 * Suc (get_le bs)" by simp
  also have "\<dots> \<le> 256 * 256 ^ length bs"
    using Cons by (simp only: mult_le_mono2 Suc_leI)
  finally show ?case by simp
qed simp

lemma put_le_get_le [codec_simps]: "n = length bs \<Longrightarrow> put_le n (get_le bs) = bs"
proof (induction bs arbitrary: n)
  case (Cons b bs)
  have "word_of_nat (unat b + 256 * get_le bs) = (word_of_nat (unat b) :: byte)"
    by (simp only: word_of_nat_eq_iff take_bit_eq_mod) simp
  moreover have "(unat b + 256 * get_le bs) div 256 = get_le bs"
    using unat_byte_less [of b] by simp
  ultimately show ?case using Cons by simp
qed simp

lemma get_be_put_be [codec_simps]: "get_be (put_be n v) = v mod 256 ^ n"
proof (induction n)
  case (Suc n)
  have "get_be (put_be (Suc n) v) = v div 256 ^ n mod 256 * 256 ^ n + v mod 256 ^ n"
    by (simp add: Suc unat_byte_of_nat)
  also have "\<dots> = v mod (256 ^ n * 256)"
    by (simp add: mod_mult2_eq)
  finally show ?case by (simp add: mult.commute)
qed simp

lemma get_be_bound: "get_be bs < 256 ^ length bs"
proof (induction bs)
  case (Cons b bs)
  have "unat b * 256 ^ length bs + get_be bs < unat b * 256 ^ length bs + 256 ^ length bs"
    using Cons by simp
  also have "\<dots> = Suc (unat b) * 256 ^ length bs" by simp
  also have "\<dots> \<le> 256 * 256 ^ length bs"
    using unat_byte_less [of b] by (intro mult_le_mono1) simp
  finally show ?case by simp
qed simp

text \<open>On byte strings of one length the lexicographic order is the big-endian numeric order.\<close>

lemma get_be_less_iff:
  "length xs = length ys \<Longrightarrow> get_be xs < get_be ys \<longleftrightarrow> xs < (ys :: bytes)"
proof (induction xs ys rule: list_induct2)
  case (Cons x xs y ys)
  have bx: "get_be xs < 256 ^ length ys" and "by": "get_be ys < 256 ^ length ys"
    using get_be_bound [of xs] get_be_bound [of ys] Cons.hyps by simp_all
  have step: "a * 256 ^ length ys + get_be us < b * 256 ^ length ys + get_be vs"
    if "a < b" "get_be us < 256 ^ length ys" for a b us vs
  proof -
    have "a * 256 ^ length ys + get_be us < Suc a * 256 ^ length ys" using that by simp
    also have "\<dots> \<le> b * 256 ^ length ys" using that by (intro mult_le_mono1) simp
    finally show ?thesis by simp
  qed
  consider "x < y" | "x = y" | "y < x" by fastforce
  then show ?case
  proof cases
    case 1
    then have "unat x < unat y" by (simp add: word_less_nat_alt)
    then show ?thesis using 1 step [OF _ bx] Cons.hyps by simp
  next
    case 2
    then show ?thesis using Cons by simp
  next
    case 3
    then have "unat y < unat x" by (simp add: word_less_nat_alt)
    then have "get_be (y # ys) < get_be (x # xs)" using step [OF _ "by"] Cons.hyps by simp
    moreover have "\<not> x # xs < y # ys" using 3 by auto
    ultimately show ?thesis by simp
  qed
qed simp

lemma put_be_get_be [codec_simps]:
  assumes "n = length bs"
  shows "put_be n (get_be bs) = bs"
proof -
  have "get_be (put_be n (get_be bs)) = get_be bs"
    using get_be_bound [of bs] assms by (simp add: get_be_put_be)
  then have "\<not> put_be n (get_be bs) < bs" and "\<not> bs < put_be n (get_be bs)"
    using get_be_less_iff [of "put_be n (get_be bs)" bs] get_be_less_iff [of bs "put_be n (get_be bs)"]
      assms by simp_all
  then show ?thesis by (simp add: not_less)
qed

lemma put_be_less_iff:
  "v < 256 ^ n \<Longrightarrow> w < 256 ^ n \<Longrightarrow> put_be n v < put_be n w \<longleftrightarrow> v < w"
  using get_be_less_iff [of "put_be n v" "put_be n w"] by (simp add: get_be_put_be)

text \<open>
  \<^verbatim>\<open>binary.LittleEndian\<close> and \<^verbatim>\<open>binary.BigEndian\<close> at the widths the program uses.  The readers
  look at the leading bytes of their argument, as the Go functions do.
\<close>

definition le_PutUint32 :: "u32 \<Rightarrow> bytes" where "le_PutUint32 w = put_le 4 (unat w)"
definition le_Uint32 :: "bytes \<Rightarrow> u32" where "le_Uint32 b = word_of_nat (get_le (take 4 b))"
definition le_PutUint64 :: "u64 \<Rightarrow> bytes" where "le_PutUint64 w = put_le 8 (unat w)"
definition le_Uint64 :: "bytes \<Rightarrow> u64" where "le_Uint64 b = word_of_nat (get_le (take 8 b))"
definition be_PutUint64 :: "u64 \<Rightarrow> bytes" where "be_PutUint64 w = put_be 8 (unat w)"
definition be_Uint64 :: "bytes \<Rightarrow> u64" where "be_Uint64 b = word_of_nat (get_be (take 8 b))"

lemma length_PutUint [simp, codec_simps]:
  "length (le_PutUint32 w) = 4" "length (le_PutUint64 v) = 8" "length (be_PutUint64 v) = 8"
  by (simp_all add: le_PutUint32_def le_PutUint64_def be_PutUint64_def)

lemma unat_u32_less: "unat (w :: u32) < 4294967296"
  using unsigned_less [of w, where ?'a = nat] by simp

lemma add_21_wraps:
  assumes "k < (4294967296 :: nat)"
  shows "(21 + k) mod 4294967296 < 21 \<longleftrightarrow> 4294967275 \<le> k"
proof (cases "4294967275 \<le> k")
  case True
  then have "(21 + k) mod 4294967296 = (21 + k - 4294967296) mod 4294967296"
    by (intro le_mod_geq) simp
  then show ?thesis using True assms by simp
qed simp

lemma unat_21_add: "unat (21 + w :: u32) = (21 + unat w) mod 4294967296"
  by (simp add: unat_word_ariths)

lemma unat_u64_less: "unat (w :: u64) < 18446744073709551616"
  using unsigned_less [of w, where ?'a = nat] by simp

lemma le_Uint32_Put [simp, codec_simps]: "le_Uint32 (le_PutUint32 w @ r) = w"
  using unat_u32_less [of w] by (simp add: le_Uint32_def le_PutUint32_def get_le_put_le)

lemma le_Uint64_Put [simp, codec_simps]: "le_Uint64 (le_PutUint64 w @ r) = w"
  using unat_u64_less [of w] by (simp add: le_Uint64_def le_PutUint64_def get_le_put_le)

lemma be_Uint64_Put [simp, codec_simps]: "be_Uint64 (be_PutUint64 w @ r) = w"
  using unat_u64_less [of w] by (simp add: be_Uint64_def be_PutUint64_def get_be_put_be)

lemmas le_Uint32_Put0 [simp, codec_simps] = le_Uint32_Put [where r = "[]", simplified]
lemmas le_Uint64_Put0 [simp, codec_simps] = le_Uint64_Put [where r = "[]", simplified]
lemmas be_Uint64_Put0 [simp, codec_simps] = be_Uint64_Put [where r = "[]", simplified]

lemma le_PutUint32_Uint32: "length b = 4 \<Longrightarrow> le_PutUint32 (le_Uint32 b) = b"
  using get_le_bound [of b]
  by (simp add: le_PutUint32_def le_Uint32_def unat_of_nat put_le_get_le)

lemma le_Uint32_inject: "length b = 4 \<Longrightarrow> length c = 4 \<Longrightarrow> le_Uint32 b = le_Uint32 c \<longleftrightarrow> b = c"
  by (metis le_PutUint32_Uint32)

lemma le_PutUint64_Uint64: "length b = 8 \<Longrightarrow> le_PutUint64 (le_Uint64 b) = b"
  using get_le_bound [of b]
  by (simp add: le_PutUint64_def le_Uint64_def unat_of_nat put_le_get_le)

lemma be_PutUint64_Uint64: "length b = 8 \<Longrightarrow> be_PutUint64 (be_Uint64 b) = b"
  using get_be_bound [of b]
  by (simp add: be_PutUint64_def be_Uint64_def unat_of_nat put_be_get_be)

lemma be_PutUint64_less_iff: "be_PutUint64 v < be_PutUint64 w \<longleftrightarrow> v < w"
  using unat_u64_less [of v] unat_u64_less [of w]
  by (simp add: be_PutUint64_def put_be_less_iff word_less_nat_alt)

subsection \<open>Sorted association lists\<close>

text \<open>
  The abstract view of an ordered byte-string map: an association list strictly ascending in
  its keys.  \<open>kv_put\<close> and \<open>kv_del\<close> are the reference update and removal,
  \<open>kv_seek\<close> the reference \<^verbatim>\<open>SeekGE\<close>.
\<close>

type_synonym 'v kvs = "(bytes \<times> 'v) list"

abbreviation kv_sorted :: "(bytes \<times> 'v) list \<Rightarrow> bool" where
  "kv_sorted ps \<equiv> sorted_wrt (<) (map fst ps)"

fun kv_put :: "bytes \<Rightarrow> 'v \<Rightarrow> 'v kvs \<Rightarrow> 'v kvs" where
  "kv_put k v [] = [(k, v)]"
| "kv_put k v (p # ps) =
     (if fst p < k then p # kv_put k v ps
      else if fst p = k then (k, v) # ps
      else (k, v) # p # ps)"

definition kv_del :: "bytes \<Rightarrow> 'v kvs \<Rightarrow> 'v kvs" where
  "kv_del k ps = filter (\<lambda>p. fst p \<noteq> k) ps"

definition kv_seek :: "bytes \<Rightarrow> 'v kvs \<Rightarrow> 'v kvs" where
  "kv_seek k ps = dropWhile (\<lambda>p. fst p < k) ps"

lemma set_fst_kv_put [kv_simps]: "fst ` set (kv_put k v ps) = insert k (fst ` set ps)"
  by (induction ps) auto

lemma kv_sorted_put [kv_simps]: "kv_sorted ps \<Longrightarrow> kv_sorted (kv_put k v ps)"
proof (induction ps)
  case (Cons p ps)
  have "\<forall>x\<in>fst ` set (kv_put k v ps). x = k \<or> x \<in> fst ` set ps"
    by (auto simp: set_fst_kv_put)
  with Cons show ?case by (auto 4 3 simp: image_iff)
qed simp

lemma map_of_kv_put [kv_simps]: "map_of (kv_put k v ps) = (map_of ps)(k \<mapsto> v)"
  by (induction ps) (auto simp: fun_eq_iff)

lemma kv_sorted_filter [kv_simps]: "kv_sorted ps \<Longrightarrow> kv_sorted (filter P ps)"
  by (induction ps) auto

lemma kv_sorted_del [kv_simps]: "kv_sorted ps \<Longrightarrow> kv_sorted (kv_del k ps)"
  by (simp add: kv_del_def kv_sorted_filter)

lemma kv_sorted_distinct: "kv_sorted ps \<Longrightarrow> distinct (map fst ps)"
  by (induction ps) auto

lemma kv_sorted_append:
  "kv_sorted (xs @ ys) \<longleftrightarrow>
     kv_sorted xs \<and> kv_sorted ys \<and> (\<forall>x\<in>set xs. \<forall>y\<in>set ys. fst x < fst y)"
  by (auto simp: sorted_wrt_append)

text \<open>A sorted list splits at any key into the entries below it and the entries from it on.\<close>

lemma kv_split_below:
  "kv_sorted ps \<Longrightarrow> takeWhile (\<lambda>p. fst p < k) ps = filter (\<lambda>p. fst p < k) ps"
proof (induction ps)
  case (Cons p ps)
  have "filter (\<lambda>p. fst p < k) ps = []" if "\<not> fst p < k"
    using that Cons.prems by (auto simp: filter_empty_conv not_less image_iff)
  with Cons show ?case by auto
qed simp

lemma kv_seek_filter: "kv_sorted ps \<Longrightarrow> kv_seek k ps = filter (\<lambda>p. k \<le> fst p) ps"
proof (induction ps)
  case (Cons p ps)
  have "filter (\<lambda>p. k \<le> fst p) ps = ps" if "\<not> fst p < k"
    using that Cons.prems by (auto simp: filter_id_conv not_less image_iff intro: less_imp_le le_less_trans)
  with Cons show ?case by (auto simp: kv_seek_def not_less)
qed (simp add: kv_seek_def)

lemma kv_put_append_below:
  "\<forall>p\<in>set ps. fst p < k \<Longrightarrow> kv_put k v (ps @ qs) = ps @ kv_put k v qs"
  by (induction ps) auto

lemma kv_seek_append_below:
  "\<forall>p\<in>set ps. fst p < k \<Longrightarrow> kv_seek k (ps @ qs) = kv_seek k qs"
  by (induction ps) (auto simp: kv_seek_def)

lemma length_kv_put:
  "kv_sorted ps \<Longrightarrow> length (kv_put k v ps) = length ps + (if map_of ps k = None then 1 else 0)"
proof (induction ps)
  case (Cons p ps)
  obtain a b where p: "p = (a, b)" by (cases p)
  have "map_of ps k = None" if "\<not> a < k"
    using that Cons.prems by (auto simp: p map_of_eq_None_iff not_less image_iff)
  with Cons p show ?case by (cases "a < k"; cases "a = k") auto
qed simp


subsection \<open>The interface of an ordered store\<close>

text \<open>
  What the memtable relies on: a mutable structure that represents a sorted association list and
  whose update, removal and lookup return (do not panic or diverge) and act as the reference
  operations.  A history of updates and removals then has the meaning \<open>kv_run\<close> gives it.
\<close>

datatype store_op = StPut bytes bytes | StDel bytes

primrec kv_op :: "store_op \<Rightarrow> bytes kvs \<Rightarrow> bytes kvs" where
  "kv_op (StPut k v) ps = kv_put k v ps"
| "kv_op (StDel k) ps = kv_del k ps"

definition kv_run :: "store_op list \<Rightarrow> bytes kvs \<Rightarrow> bytes kvs" where
  "kv_run ops ps = fold kv_op ops ps"

fun store_run ::
  "('s \<Rightarrow> bytes \<Rightarrow> bytes \<Rightarrow> 's option) \<Rightarrow> ('s \<Rightarrow> bytes \<Rightarrow> (bool \<times> 's) option) \<Rightarrow>
     store_op list \<Rightarrow> 's \<Rightarrow> 's option" where
  "store_run put del [] s = Some s"
| "store_run put del (StPut k v # ops) s =
     (case put s k v of None \<Rightarrow> None | Some s' \<Rightarrow> store_run put del ops s')"
| "store_run put del (StDel k # ops) s =
     (case del s k of None \<Rightarrow> None | Some (_, s') \<Rightarrow> store_run put del ops s')"

text \<open>The meaning of a history at one key: the last operation on it decides.\<close>

fun last_write :: "store_op list \<Rightarrow> bytes \<Rightarrow> bytes option \<Rightarrow> bytes option" where
  "last_write [] k old = old"
| "last_write (StPut k' v # ops) k old = last_write ops k (if k' = k then Some v else old)"
| "last_write (StDel k' # ops) k old = last_write ops k (if k' = k then None else old)"

lemma map_of_kv_del [kv_simps]: "map_of (kv_del k ps) = (map_of ps)(k := None)"
  by (induction ps) (auto simp: kv_del_def fun_eq_iff)

lemma map_of_kv_run: "map_of (kv_run ops ps) k = last_write ops k (map_of ps k)"
proof (induction ops arbitrary: ps)
  case (Cons op ops)
  then show ?case by (cases op) (simp_all add: kv_run_def kv_simps)
qed (simp add: kv_run_def)

locale ordered_store =
  fixes repr :: "'s \<Rightarrow> bytes kvs \<Rightarrow> bool"
    and put :: "'s \<Rightarrow> bytes \<Rightarrow> bytes \<Rightarrow> 's option"
    and del :: "'s \<Rightarrow> bytes \<Rightarrow> (bool \<times> 's) option"
    and get :: "'s \<Rightarrow> bytes \<Rightarrow> bytes option option"
  assumes sorted: "repr s ps \<Longrightarrow> kv_sorted ps"
    and put: "repr s ps \<Longrightarrow> \<exists>s'. put s k v = Some s' \<and> repr s' (kv_put k v ps)"
    and del: "repr s ps \<Longrightarrow> \<exists>s'. del s k = Some (map_of ps k \<noteq> None, s') \<and> repr s' (kv_del k ps)"
    and get: "repr s ps \<Longrightarrow> get s k = Some (map_of ps k)"
begin

lemma run: "repr s ps \<Longrightarrow> \<exists>s'. store_run put del ops s = Some s' \<and> repr s' (kv_run ops ps)"
proof (induction ops arbitrary: s ps)
  case (Cons op ops)
  show ?case
  proof (cases op)
    case (StPut k v)
    then show ?thesis using Cons.IH put [OF Cons.prems, of k v] by (fastforce simp: kv_run_def)
  next
    case (StDel k)
    then show ?thesis using Cons.IH del [OF Cons.prems, of k] by (fastforce simp: kv_run_def)
  qed
qed (simp add: kv_run_def)

lemma get_after_run:
  "repr s ps \<Longrightarrow> \<exists>s'. store_run put del ops s = Some s' \<and> get s' k = Some (last_write ops k (map_of ps k))"
  using run [of s ps ops] get by (fastforce simp: map_of_kv_run)

end

end
