(* ===== verification/MvccKey.thy ===== *)
theory MvccKey
  imports Prelude "HOL-Library.Sublist"
begin

unbundle bit_operations_syntax

section \<open>MVCC keys (\<open>internal/mvcckey\<close>)\<close>

text \<open>
  A stored key is the user key followed by the big-endian complement of its timestamp.
  The theory models the four functions of \<^verbatim>\<open>mvcckey.go\<close>, shows that encoding and decoding are
  inverse to each other, and settles how encoded keys are ordered: newest version first within a
  user key, user-key order between keys of which neither is a prefix of the other, and, for keys
  free of the byte \<open>0xFF\<close> and timestamps below \<open>2 ^ 56\<close>, a total order in which an
  extension of a key comes \<^emph>\<open>before\<close> the key itself.
\<close>

subsection \<open>The codec\<close>

abbreviation TimestampSize :: nat where "TimestampSize \<equiv> 8"

definition mvcc_Encode :: "bytes \<Rightarrow> u64 \<Rightarrow> bytes" where
  "mvcc_Encode userKey timestamp = userKey @ be_PutUint64 (NOT timestamp)"

definition mvcc_Decode :: "bytes \<Rightarrow> bytes \<times> u64 \<times> bool" where
  "mvcc_Decode enc =
     (if length enc < TimestampSize then ([], 0, False)
      else let cut = length enc - TimestampSize
           in (take cut enc, NOT (be_Uint64 (drop cut enc)), True))"

definition mvcc_UserKey :: "bytes \<Rightarrow> bytes" where
  "mvcc_UserKey enc =
     (if length enc < TimestampSize then [] else take (length enc - TimestampSize) enc)"

definition mvcc_Timestamp :: "bytes \<Rightarrow> u64" where
  "mvcc_Timestamp enc =
     (if length enc < TimestampSize then 0
      else NOT (be_Uint64 (drop (length enc - TimestampSize) enc)))"

lemma length_mvcc_Encode [simp, codec_simps]: "length (mvcc_Encode k t) = length k + 8"
  by (simp add: mvcc_Encode_def)

lemma mvcc_Encode_neq_Nil [simp]: "mvcc_Encode k t \<noteq> []"
  by (simp add: mvcc_Encode_def flip: length_greater_0_conv)

lemma mvcc_Decode_Encode [simp, codec_simps]: "mvcc_Decode (mvcc_Encode k t) = (k, t, True)"
  by (simp add: mvcc_Decode_def mvcc_Encode_def)

lemma mvcc_Encode_inject [simp]: "mvcc_Encode k t = mvcc_Encode k' t' \<longleftrightarrow> k = k' \<and> t = t'"
  by (metis mvcc_Decode_Encode prod.inject)

lemma mvcc_Encode_Decode:
  assumes "mvcc_Decode enc = (k, t, True)"
  shows "mvcc_Encode k t = enc"
proof -
  let ?cut = "length enc - 8"
  from assms have len: "8 \<le> length enc" and k: "k = take ?cut enc"
    and t: "t = NOT (be_Uint64 (drop ?cut enc))"
    by (auto simp: mvcc_Decode_def Let_def split: if_splits)
  have "length (drop ?cut enc) = 8" using len by simp
  then have "be_PutUint64 (NOT t) = drop ?cut enc" by (simp add: t be_PutUint64_Uint64)
  then show ?thesis by (simp add: mvcc_Encode_def k)
qed

lemma mvcc_Decode_ok_iff: "snd (snd (mvcc_Decode enc)) \<longleftrightarrow> (\<exists>k t. enc = mvcc_Encode k t)"
proof
  assume ok: "snd (snd (mvcc_Decode enc))"
  then obtain k t where "mvcc_Decode enc = (k, t, True)" by (cases "mvcc_Decode enc") auto
  then show "\<exists>k t. enc = mvcc_Encode k t" using mvcc_Encode_Decode by metis
qed auto

lemma mvcc_UserKey_Encode [simp]: "mvcc_UserKey (mvcc_Encode k t) = k"
  by (simp add: mvcc_UserKey_def mvcc_Encode_def)

lemma mvcc_Timestamp_Encode [simp]: "mvcc_Timestamp (mvcc_Encode k t) = t"
  by (simp add: mvcc_Timestamp_def mvcc_Encode_def)

subsection \<open>Order of encoded keys\<close>

lemma append_less_same [simp]: "xs @ ys < xs @ zs \<longleftrightarrow> ys < (zs :: 'a::linorder list)"
  by (induction xs) auto

lemma unat_not_u64: "unat (NOT w) = 18446744073709551615 - unat (w :: u64)"
proof -
  have t: "take_bit 64 (uint w) = uint w"
    using unsigned_less [of w, where ?'a = int] by (simp add: take_bit_int_eq_self)
  have u: "uint (NOT w) = 18446744073709551615 - uint w"
    by (simp add: unsigned_not_eq take_bit_not_eq_mask_diff mask_eq_exp_minus_1 t)
  have "nat (18446744073709551615 - uint w) = nat 18446744073709551615 - nat (uint w)"
    by (rule nat_diff_distrib') simp_all
  then show ?thesis unfolding unat_eq_nat_uint u by simp
qed

lemma not_less_u64: "(NOT a :: u64) < NOT b \<longleftrightarrow> b < a"
  using unat_u64_less [of a] unat_u64_less [of b] by (auto simp: word_less_nat_alt unat_not_u64)

text \<open>Within one user key the newest version comes first.\<close>

lemma mvcc_Encode_same_key_less [simp]:
  "mvcc_Encode k t < mvcc_Encode k t' \<longleftrightarrow> t' < t"
  by (simp add: mvcc_Encode_def be_PutUint64_less_iff not_less_u64)

text \<open>Between two keys that are not prefixes of each other the timestamps do not matter.\<close>

lemma parallel_append_less:
  "\<not> prefix xs ys \<Longrightarrow> \<not> prefix ys xs \<Longrightarrow> xs @ us < ys @ vs \<longleftrightarrow> xs < (ys :: 'a::linorder list)"
  by (induction xs ys rule: list_induct2') auto

lemma mvcc_Encode_parallel_less:
  "\<not> prefix k k' \<Longrightarrow> \<not> prefix k' k \<Longrightarrow> mvcc_Encode k t < mvcc_Encode k' t' \<longleftrightarrow> k < k'"
  by (simp add: mvcc_Encode_def parallel_append_less)

text \<open>
  Keys free of the byte \<open>0xFF\<close> (every valid UTF-8 string is one) and timestamps below
  \<open>2 ^ 56\<close>: the complemented timestamp then starts with \<open>0xFF\<close>, so it acts as a
  terminator that is larger than every key byte.
\<close>

definition ff_free :: "bytes \<Rightarrow> bool" where "ff_free k \<longleftrightarrow> 255 \<notin> set k"

definition small_ts :: "u64 \<Rightarrow> bool" where "small_ts t \<longleftrightarrow> unat t < 2 ^ 56"

lemma small_ts_le: "t \<le> s \<Longrightarrow> small_ts s \<Longrightarrow> small_ts t"
  by (simp add: small_ts_def word_le_nat_alt)

lemma be_PutUint64_small_ts:
  assumes "small_ts t"
  obtains r where "be_PutUint64 (NOT t) = 255 # r"
proof -
  have "unat (NOT t) div 256 ^ 7 = 255"
    using assms by (simp add: small_ts_def unat_not_u64)
  moreover have "be_PutUint64 (NOT t) = word_of_nat (unat (NOT t) div 256 ^ 7) # put_be 7 (unat (NOT t))"
    using put_be.simps(2) [of 7 "unat (NOT t)"] by (simp add: be_PutUint64_def del: put_be.simps)
  ultimately show ?thesis using that by simp
qed

definition key_before :: "bytes \<Rightarrow> bytes \<Rightarrow> bool" where
  "key_before k k' \<longleftrightarrow> k @ [255] < k' @ [255]"

lemma byte_le_255: "(b :: byte) \<le> 255"
  using unat_byte_less [of b] by (simp add: word_le_nat_alt)

lemma append_ff_less:
  "ff_free k \<Longrightarrow> ff_free k' \<Longrightarrow> k \<noteq> k' \<Longrightarrow>
     k @ 255 # us < k' @ 255 # vs \<longleftrightarrow> key_before k k'"
proof (induction k k' rule: list_induct2')
  case (2 x xs)
  then show ?case using byte_le_255 [of x] by (auto simp: key_before_def ff_free_def)
next
  case (3 y ys)
  then show ?case using byte_le_255 [of y] by (auto simp: key_before_def ff_free_def)
qed (auto simp: key_before_def ff_free_def)

lemma mvcc_Encode_less_iff:
  assumes "ff_free k" "ff_free k'" "small_ts t" "small_ts t'"
  shows "mvcc_Encode k t < mvcc_Encode k' t' \<longleftrightarrow> key_before k k' \<or> k = k' \<and> t' < t"
proof (cases "k = k'")
  case True
  then show ?thesis by (simp add: key_before_def)
next
  case False
  obtain r r' where "be_PutUint64 (NOT t) = 255 # r" "be_PutUint64 (NOT t') = 255 # r'"
    using assms(3,4) by (metis be_PutUint64_small_ts)
  then show ?thesis using False assms(1,2) by (simp add: mvcc_Encode_def append_ff_less)
qed

lemma key_before_irrefl [simp]: "\<not> key_before k k"
  by (simp add: key_before_def)

lemma key_before_trans: "key_before a b \<Longrightarrow> key_before b c \<Longrightarrow> key_before a c"
  unfolding key_before_def by (rule less_trans)

lemma key_before_linear: "k = k' \<or> key_before k k' \<or> key_before k' k"
  using linorder_cases [of "k @ [255]" "k' @ [255]"] by (auto simp: key_before_def)

text \<open>An extension by a byte other than \<open>0xFF\<close> comes before the key it extends.\<close>

lemma key_before_extension: "c \<noteq> 255 \<Longrightarrow> key_before (k @ c # r) k"
  using byte_le_255 [of c] by (simp add: key_before_def)

lemma key_before_parallel:
  "\<not> prefix k k' \<Longrightarrow> \<not> prefix k' k \<Longrightarrow> key_before k k' \<longleftrightarrow> k < k'"
  by (simp add: key_before_def parallel_append_less)

text \<open>
  The versions of one clean key are contiguous: nothing else sorts between a version of \<open>k\<close>
  and the position that \<open>Encode k s\<close> of a snapshot \<open>s\<close> denotes.
\<close>

lemma mvcc_Encode_between:
  assumes "ff_free k" "ff_free k'" "small_ts s" "small_ts t" "small_ts t'"
    and "mvcc_Encode k s \<le> mvcc_Encode k' t'" "mvcc_Encode k' t' \<le> mvcc_Encode k t"
  shows "k' = k \<and> t \<le> t' \<and> t' \<le> s"
proof -
  have "\<not> mvcc_Encode k' t' < mvcc_Encode k s" "\<not> mvcc_Encode k t < mvcc_Encode k' t'"
    using assms(6,7) by auto
  then have 1: "\<not> (key_before k' k \<or> k' = k \<and> s < t')"
    and 2: "\<not> (key_before k k' \<or> k = k' \<and> t' < t)"
    using assms(1-5) by (simp_all add: mvcc_Encode_less_iff)
  then show ?thesis using key_before_linear [of k k'] by auto
qed


subsection \<open>Properties\<close>

text \<open>C33: the encoding of (user key, timestamp) is a bijection onto the byte strings that \<^verbatim>\<open>Decode\<close>
  accepts: \<^verbatim>\<open>Decode\<close> inverts \<^verbatim>\<open>Encode\<close>, and nothing else decodes.\<close>

theorem mvcc_codec: "mvcc_Decode enc = (k, t, True) \<longleftrightarrow> enc = mvcc_Encode k t"
  using mvcc_Encode_Decode mvcc_Decode_Encode by metis

text \<open>On keys without the byte \<open>0xFF\<close> and timestamps below \<open>2 ^ 56\<close>, byte order of encoded keys
  groups the versions of a key together, newest first, and orders different keys by comparing them
  with a terminator \<open>0xFF\<close> appended, whatever their timestamps.\<close>

theorem mvcc_order:
  assumes "ff_free k" "ff_free k'" "small_ts t" "small_ts t'"
  shows "mvcc_Encode k t < mvcc_Encode k' t' \<longleftrightarrow> k @ [255] < k' @ [255] \<or> k = k' \<and> t' < t"
  using mvcc_Encode_less_iff [OF assms] by (simp add: key_before_def)

theorem mvcc_order_witness:
  "mvcc_Encode [97, 98] 3 < mvcc_Encode [97] 7 \<and> mvcc_Encode [97] 7 < mvcc_Encode [97] 4"
proof -
  have c: "ff_free [97, 98]" "ff_free [97]" "small_ts 3" "small_ts 7" "small_ts 4"
    by (simp_all add: ff_free_def small_ts_def)
  show ?thesis using mvcc_order [OF c(1,2,3,4)] mvcc_order [OF c(2,2,4,5)] by simp
qed

text \<open>C34: a user key is smaller than its extensions, but every version of an extension sorts before
  every version of the key, so encoded order is not ascending in the user key.\<close>

theorem mvcc_extension_first:
  assumes "ff_free (k @ c # r)" "small_ts t" "small_ts t'"
  shows "k < k @ c # r \<and> mvcc_Encode (k @ c # r) t < mvcc_Encode k t'"
proof -
  have "c \<noteq> 255" "ff_free k" using assms(1) by (auto simp: ff_free_def)
  then have "mvcc_Encode (k @ c # r) t < mvcc_Encode k t'"
    using mvcc_Encode_less_iff [OF assms(1) _ assms(2,3)] key_before_extension by blast
  moreover have "k < k @ c # r" using append_less_same [of k "[]" "c # r"] by simp
  ultimately show ?thesis by simp
qed

theorem mvcc_extension_first_witness:
  "[97] < [97, 98 :: byte] \<and> mvcc_Encode [97, 98] 1 < mvcc_Encode [97] 2"
  using mvcc_extension_first [of "[97]" 98 "[]" 1 2] by (simp add: ff_free_def small_ts_def)

end
