(* ===== verification/Record_Format.thy ===== *)
theory Record_Format
  imports Prelude
begin

unbundle bit_operations_syntax

section \<open>The record format (\<open>internal/record\<close>)\<close>

text \<open>
  A record is \<^verbatim>\<open>CRC32 (4) | Op (1) | Timestamp (8) | KeyLen (4) | ValueLen (4) | Key | Value\<close>,
  little-endian.  The theory models \<^verbatim>\<open>Encode\<close>, \<^verbatim>\<open>Decode\<close> and \<^verbatim>\<open>HeaderLengths\<close> of
  \<^verbatim>\<open>record.go\<close> with every error they return, and the CRC-32C of \<^verbatim>\<open>hash/crc32\<close> they rest on.
  It shows the round trip, that the decoder accepts only canonical encodings, that every torn
  prefix of a record is recognised as one, and that a change of one byte outside the length fields
  is always reported as corruption.
\<close>

subsection \<open>CRC-32C\<close>

text \<open>
  \<^verbatim>\<open>crc32.MakeTable(crc32.Castagnoli)\<close> fills entry \<open>b\<close> by eight shift steps on the reversed
  polynomial; \<^verbatim>\<open>crc32.Checksum\<close> folds the table over the bytes from the complement of zero and
  complements the result.
\<close>

definition crc_poly :: u32 where "crc_poly = 0x82F63B78"

definition crc_shift :: "u32 \<Rightarrow> u32" where
  "crc_shift c = (if bit c 0 then drop_bit 1 c XOR crc_poly else drop_bit 1 c)"

definition crc_table :: "byte \<Rightarrow> u32" where
  "crc_table b = (crc_shift ^^ 8) (ucast b)"

definition crc_update :: "u32 \<Rightarrow> byte \<Rightarrow> u32" where
  "crc_update c b = crc_table (ucast c XOR b) XOR drop_bit 8 c"

definition crc32_Checksum :: "bytes \<Rightarrow> u32" where
  "crc32_Checksum data = NOT (fold (\<lambda>b c. crc_update c b) data (NOT 0))"

text \<open>The shift step is linear over \<open>XOR\<close> and loses no information.\<close>

lemma crc_shift_xor: "crc_shift (a XOR b) = crc_shift a XOR crc_shift b"
  by (rule bit_word_eqI) (auto simp: crc_shift_def bit_xor_iff bit_drop_bit_eq)

lemma crc_shift_pow_xor: "(crc_shift ^^ n) (a XOR b) = (crc_shift ^^ n) a XOR (crc_shift ^^ n) b"
  by (induction n) (simp_all add: crc_shift_xor)

lemma bit_crc_poly_31: "bit crc_poly 31"
  by (simp add: crc_poly_def)

lemma crc_shift_eq_0: "crc_shift c = 0 \<Longrightarrow> c = 0"
proof (rule bit_word_eqI)
  fix n assume z: "crc_shift c = 0" and n: "n < LENGTH(32)"
  have top: "bit (crc_shift c) 31 \<longleftrightarrow> bit c 0"
    using bit_imp_le_length [of c 32]
    by (auto simp: crc_shift_def bit_xor_iff bit_drop_bit_eq bit_crc_poly_31)
  then have c0: "\<not> bit c 0" by (simp add: z)
  then have d: "drop_bit 1 c = 0" using z by (simp add: crc_shift_def)
  have "\<not> bit c (Suc m)" for m
    using arg_cong [OF d, of "\<lambda>w. bit w m"] by (simp add: bit_drop_bit_eq)
  then show "bit c n = bit (0 :: u32) n"
    using c0 by (cases n) auto
qed

lemma crc_shift_pow_eq_0: "(crc_shift ^^ n) c = 0 \<Longrightarrow> c = 0"
  by (induction n) (auto dest: crc_shift_eq_0)

lemma xor_eq_0_imp: "a XOR b = 0 \<Longrightarrow> a = (b :: u32)"
  by (metis bit.xor_left_self xor.right_neutral)

lemma crc_shift_pow_inj: "(crc_shift ^^ n) a = (crc_shift ^^ n) b \<Longrightarrow> a = b"
  using crc_shift_pow_eq_0 [of n "a XOR b"] by (simp add: crc_shift_pow_xor xor_eq_0_imp)

text \<open>Shifting a value whose low bits are clear is plain shifting.\<close>

lemma crc_shift_pow_clear:
  "\<forall>i<n. \<not> bit c i \<Longrightarrow> (crc_shift ^^ n) c = drop_bit n c"
proof (induction n arbitrary: c)
  case (Suc n)
  have "crc_shift c = drop_bit 1 c" using Suc.prems by (simp add: crc_shift_def)
  moreover have "\<forall>i<n. \<not> bit (drop_bit 1 c) i"
    using Suc.prems by (simp add: bit_drop_bit_eq)
  ultimately show ?case
    using Suc.IH [of "drop_bit 1 c"] by (simp add: funpow_Suc_right drop_bit_drop_bit del: funpow.simps)
qed simp

text \<open>So the table-driven update is eight shifts of the register with the byte mixed in.\<close>

lemma crc_update_shift: "crc_update c b = (crc_shift ^^ 8) (c XOR ucast b)"
proof -
  let ?hi = "push_bit 8 (drop_bit 8 c)"
  have split: "c = ucast (ucast c :: byte) XOR ?hi"
    by (rule bit_word_eqI)
      (auto simp: bit_xor_iff bit_ucast_iff bit_push_bit_iff bit_drop_bit_eq not_less)
  have mix: "ucast (ucast c XOR b) = ucast (ucast c :: byte) XOR (ucast b :: u32)"
    by (rule bit_word_eqI) (auto simp: bit_xor_iff bit_ucast_iff)
  have "(crc_shift ^^ 8) ?hi = drop_bit 8 ?hi"
    by (rule crc_shift_pow_clear) (simp add: bit_push_bit_iff)
  also have "\<dots> = drop_bit 8 c"
    by (rule bit_word_eqI) (auto simp: bit_push_bit_iff bit_drop_bit_eq dest: bit_imp_le_length)
  finally have hi: "(crc_shift ^^ 8) ?hi = drop_bit 8 c" .
  have "ucast (ucast c XOR b) XOR ?hi = (ucast (ucast c :: byte) XOR ?hi) XOR ucast b"
    unfolding mix by (simp only: ac_simps)
  also have "\<dots> = c XOR ucast b"
    by (simp only: split [symmetric])
  finally have "c XOR ucast b = ucast (ucast c XOR b) XOR ?hi" ..
  then show ?thesis
    by (simp add: crc_update_def crc_table_def crc_shift_pow_xor hi)
qed

lemma xor_cancel: "a XOR b = a' XOR b \<longleftrightarrow> a = a'" "b XOR a = b XOR a' \<longleftrightarrow> a = a'" for a b :: u32
  by (metis bit.xor_left_self xor.commute)+

lemma ucast_byte_inj: "(ucast a :: u32) = ucast b \<Longrightarrow> a = (b :: byte)"
  by (rule bit_word_eqI) (auto simp: bit_ucast_iff bit_eq_iff)

lemma crc_update_inj1: "crc_update c b = crc_update c' b \<Longrightarrow> c = c'"
  unfolding crc_update_shift by (drule crc_shift_pow_inj) (simp add: xor_cancel)

lemma crc_update_inj2: "crc_update c b = crc_update c b' \<Longrightarrow> b = b'"
  unfolding crc_update_shift by (drule crc_shift_pow_inj) (simp add: xor_cancel ucast_byte_inj)

lemma crc_fold_inj:
  "fold (\<lambda>b c. crc_update c b) d c = fold (\<lambda>b c. crc_update c b) d c' \<Longrightarrow> c = c'"
  by (induction d arbitrary: c c') (auto dest: crc_update_inj1)

text \<open>Two messages that differ in exactly one byte have different checksums.\<close>

lemma crc32_single_byte:
  assumes "b \<noteq> b'"
  shows "crc32_Checksum (xs @ b # ys) \<noteq> crc32_Checksum (xs @ b' # ys)"
proof
  assume "crc32_Checksum (xs @ b # ys) = crc32_Checksum (xs @ b' # ys)"
  then have "crc_update (fold (\<lambda>b c. crc_update c b) xs (NOT 0)) b =
      crc_update (fold (\<lambda>b c. crc_update c b) xs (NOT 0)) b'"
    by (auto simp: crc32_Checksum_def bit.compl_eq_compl_iff dest: crc_fold_inj)
  then show False using assms crc_update_inj2 by blast
qed

subsection \<open>Records\<close>

text \<open>\<^verbatim>\<open>Op\<close> is a byte type in the source, so an unknown operation is a value like any other.\<close>

type_synonym Op = byte

abbreviation OpPut :: Op where "OpPut \<equiv> 1"
abbreviation OpDelete :: Op where "OpDelete \<equiv> 2"
abbreviation OpCommit :: Op where "OpCommit \<equiv> 3"

abbreviation HeaderSize :: nat where "HeaderSize \<equiv> 21"

record Record =
  rec_Op :: Op
  rec_Timestamp :: u64
  rec_Key :: bytes
  rec_Value :: bytes

definition mkRecord :: "Op \<Rightarrow> u64 \<Rightarrow> bytes \<Rightarrow> bytes \<Rightarrow> Record" where
  "mkRecord op ts key val = \<lparr>rec_Op = op, rec_Timestamp = ts, rec_Key = key, rec_Value = val\<rparr>"

lemma mkRecord_sel [simp]:
  "rec_Op (mkRecord op ts k v) = op" "rec_Timestamp (mkRecord op ts k v) = ts"
  "rec_Key (mkRecord op ts k v) = k" "rec_Value (mkRecord op ts k v) = v"
  by (simp_all add: mkRecord_def)

lemma mkRecord_collapse: "mkRecord (rec_Op r) (rec_Timestamp r) (rec_Key r) (rec_Value r) = r"
  by (simp add: mkRecord_def)

text \<open>
  \<^verbatim>\<open>Decode\<close>'s errors.  \<open>DecodePanic\<close> is the runtime panic of the bslice expression
  \<^verbatim>\<open>b[HeaderSize:HeaderSize+keyLen]\<close>, whose upper bound is computed in \<^verbatim>\<open>uint32\<close> and wraps
  for key lengths of \<open>2 ^ 32 - 21\<close> and more.
\<close>

datatype decode_error = EOF | ErrUnexpectedEOF | ErrCorrupt | ErrInvalidOp | DecodePanic

definition rec_body :: "Record \<Rightarrow> bytes" where
  "rec_body r =
     [rec_Op r] @ le_PutUint64 (rec_Timestamp r)
     @ le_PutUint32 (word_of_nat (length (rec_Key r)))
     @ le_PutUint32 (word_of_nat (length (rec_Value r)))
     @ rec_Key r @ rec_Value r"

definition rec_Encode :: "Record \<Rightarrow> bytes" where
  "rec_Encode r = (let body = rec_body r in le_PutUint32 (crc32_Checksum body) @ body)"

definition rec_Decode :: "bytes \<Rightarrow> decode_error + (Record \<times> nat)" where
  "rec_Decode b =
     (if length b = 0 then Inl EOF
      else if length b < HeaderSize then Inl ErrUnexpectedEOF
      else let
        storedCRC = le_Uint32 (bslice 0 4 b);
        op = b ! 4;
        timestamp = le_Uint64 (bslice 5 13 b);
        keyLen = le_Uint32 (bslice 13 17 b);
        valueLen = le_Uint32 (bslice 17 21 b);
        total = HeaderSize + unat keyLen + unat valueLen
      in if length b < total then Inl ErrUnexpectedEOF
      else if crc32_Checksum (bslice 4 total b) \<noteq> storedCRC then Inl ErrCorrupt
      else if op \<noteq> OpPut \<and> op \<noteq> OpDelete \<and> op \<noteq> OpCommit then Inl ErrInvalidOp
      else let keyEnd = unat (21 + keyLen) in
        if keyEnd < HeaderSize then Inl DecodePanic
        else Inr (mkRecord op timestamp (bslice HeaderSize keyEnd b) (bslice keyEnd total b), total))"

definition rec_HeaderLengths :: "bytes \<Rightarrow> decode_error + (u32 \<times> u32)" where
  "rec_HeaderLengths hdr =
     (if length hdr < HeaderSize then Inl ErrUnexpectedEOF
      else Inr (le_Uint32 (bslice 13 17 hdr), le_Uint32 (bslice 17 21 hdr)))"

subsection \<open>Well-formed records and the round trip\<close>

definition valid_op :: "Op \<Rightarrow> bool" where
  "valid_op op \<longleftrightarrow> op = OpPut \<or> op = OpDelete \<or> op = OpCommit"

definition rec_ok :: "Record \<Rightarrow> bool" where
  "rec_ok r \<longleftrightarrow> valid_op (rec_Op r) \<and> length (rec_Key r) < 2 ^ 32 - 21 \<and> length (rec_Value r) < 2 ^ 32"

abbreviation rec_size :: "Record \<Rightarrow> nat" where
  "rec_size r \<equiv> HeaderSize + length (rec_Key r) + length (rec_Value r)"

lemma length_rec_body [simp, codec_simps]:
  "length (rec_body r) = 17 + length (rec_Key r) + length (rec_Value r)"
  by (simp add: rec_body_def)

lemma length_rec_Encode [simp, codec_simps]: "length (rec_Encode r) = rec_size r"
  by (simp add: rec_Encode_def Let_def)

lemma rec_Encode_neq_Nil [simp]: "rec_Encode r \<noteq> []"
  by (simp flip: length_greater_0_conv)

text \<open>The fields of any byte string that starts with an encoded record.\<close>

lemma rec_Encode_fields:
  fixes r rest
  defines "b \<equiv> rec_Encode r @ rest"
  shows "le_Uint32 (bslice 0 4 b) = crc32_Checksum (rec_body r)"
    and "b ! 4 = rec_Op r"
    and "le_Uint64 (bslice 5 13 b) = rec_Timestamp r"
    and "le_Uint32 (bslice 13 17 b) = word_of_nat (length (rec_Key r))"
    and "le_Uint32 (bslice 17 21 b) = word_of_nat (length (rec_Value r))"
    and "bslice 4 (rec_size r) b = rec_body r"
    and "bslice 21 (21 + length (rec_Key r)) b = rec_Key r"
    and "bslice (21 + length (rec_Key r)) (rec_size r) b = rec_Value r"
proof -
  let ?C = "le_PutUint32 (crc32_Checksum (rec_body r))" and ?o = "[rec_Op r]"
    and ?T = "le_PutUint64 (rec_Timestamp r)" and ?K = "le_PutUint32 (word_of_nat (length (rec_Key r)))"
    and ?V = "le_PutUint32 (word_of_nat (length (rec_Value r)))"
    and ?k = "rec_Key r" and ?v = "rec_Value r"
  have lay: "b = ?C @ ?o @ ?T @ ?K @ ?V @ ?k @ ?v @ rest" and lay': "b = ?C @ rec_body r @ rest"
    by (simp_all add: b_def rec_Encode_def rec_body_def Let_def)
  show "le_Uint32 (bslice 0 4 b) = crc32_Checksum (rec_body r)"
    by (simp add: lay' bslice_0)
  show "b ! 4 = rec_Op r" by (simp add: lay nth_append)
  show "le_Uint64 (bslice 5 13 b) = rec_Timestamp r"
    using bslice_append_at [of 5 "?C @ ?o" 13 ?T "?K @ ?V @ ?k @ ?v @ rest"] by (simp add: lay)
  show "le_Uint32 (bslice 13 17 b) = word_of_nat (length ?k)"
    using bslice_append_at [of 13 "?C @ ?o @ ?T" 17 ?K "?V @ ?k @ ?v @ rest"] by (simp add: lay)
  show "le_Uint32 (bslice 17 21 b) = word_of_nat (length ?v)"
    using bslice_append_at [of 17 "?C @ ?o @ ?T @ ?K" 21 ?V "?k @ ?v @ rest"] by (simp add: lay)
  show "bslice 4 (rec_size r) b = rec_body r"
    using bslice_append_at [of 4 ?C "rec_size r" "rec_body r" rest] by (simp add: lay')
  show "bslice 21 (21 + length ?k) b = ?k"
    using bslice_append_at [of 21 "?C @ ?o @ ?T @ ?K @ ?V" "21 + length ?k" ?k "?v @ rest"] by (simp add: lay)
  show "bslice (21 + length ?k) (rec_size r) b = ?v"
    using bslice_append_at [of "21 + length ?k" "?C @ ?o @ ?T @ ?K @ ?V @ ?k" "rec_size r" ?v rest]
    by (simp add: lay)
qed

lemma rec_Decode_Encode:
  assumes "rec_ok r"
  shows "rec_Decode (rec_Encode r @ rest) = Inr (r, rec_size r)"
proof -
  have k: "unat (word_of_nat (length (rec_Key r)) :: u32) = length (rec_Key r)"
    and v: "unat (word_of_nat (length (rec_Value r)) :: u32) = length (rec_Value r)"
    and ke: "unat (21 + word_of_nat (length (rec_Key r)) :: u32) = 21 + length (rec_Key r)"
    using assms by (simp_all add: rec_ok_def unat_of_nat unat_word_ariths)
  show ?thesis
    using assms
    by (simp add: rec_Decode_def rec_Encode_fields k v ke Let_def rec_ok_def valid_op_def mkRecord_collapse)
qed

lemmas rec_Decode_Encode0 = rec_Decode_Encode [where rest = "[]", simplified]

text \<open>Conversely, what the decoder accepts is the canonical encoding of what it returns.\<close>

lemma rec_Decode_sound:
  assumes "rec_Decode b = Inr (r, n)"
  shows "n \<le> length b" and "rec_Encode r = take n b" and "rec_ok r" and "n = rec_size r"
proof -
  let ?kl = "le_Uint32 (bslice 13 17 b)" and ?vl = "le_Uint32 (bslice 17 21 b)"
  let ?ke = "21 + unat ?kl" and ?total = "21 + unat ?kl + unat ?vl"
  from assms have len: "?total \<le> length b" "21 \<le> length b"
    and n: "n = ?total"
    and crc: "crc32_Checksum (bslice 4 ?total b) = le_Uint32 (bslice 0 4 b)"
    and op: "valid_op (b ! 4)"
    and r: "r = mkRecord (b ! 4) (le_Uint64 (bslice 5 13 b))
        (bslice 21 (unat (21 + ?kl)) b) (bslice (unat (21 + ?kl)) ?total b)"
    and wrap: "\<not> unat (21 + ?kl) < 21"
    by (auto simp: rec_Decode_def Let_def valid_op_def split: if_splits)
  have klen: "unat ?kl < 2 ^ 32 - 21"
    using wrap unat_u32_less [of ?kl] by (simp add: unat_21_add add_21_wraps)
  then have ke: "unat (21 + ?kl) = ?ke" by (simp add: unat_21_add)
  have key: "rec_Key r = bslice 21 ?ke b" and val: "rec_Value r = bslice ?ke ?total b"
    by (simp_all add: r ke)
  have lk: "length (rec_Key r) = unat ?kl" and lv: "length (rec_Value r) = unat ?vl"
    using len by (simp_all add: key val length_bslice)
  have ks: "le_PutUint32 (word_of_nat (length (rec_Key r))) = bslice 13 17 b"
    and vs: "le_PutUint32 (word_of_nat (length (rec_Value r))) = bslice 17 21 b"
    and ts: "le_PutUint64 (rec_Timestamp r) = bslice 5 13 b"
    using len by (simp_all add: lk lv length_bslice le_PutUint32_Uint32) (simp add: r length_bslice le_PutUint64_Uint64)
  have o: "[rec_Op r] = bslice 4 5 b"
    using len by (simp add: r bslice_def take_Suc_conv_app_nth hd_drop_conv_nth take_Suc flip: hd_conv_nth)
  have "rec_body r = bslice 4 5 b @ bslice 5 13 b @ bslice 13 17 b @ bslice 17 21 b
      @ bslice 21 ?ke b @ bslice ?ke ?total b"
    unfolding rec_body_def ks vs ts o key [symmetric] val [symmetric] ..
  also have "\<dots> = bslice 4 ?total b" by (simp add: bslice_join)
  finally have body: "rec_body r = bslice 4 ?total b" .
  have "rec_Encode r = bslice 0 4 b @ bslice 4 ?total b"
    using len by (simp add: rec_Encode_def Let_def body crc le_PutUint32_Uint32 length_bslice)
  also have "\<dots> = take n b" using bslice_join [of 0 4 ?total b] by (simp add: n bslice_0)
  finally show "rec_Encode r = take n b" .
  show "n \<le> length b" using len n by simp
  show "rec_ok r"
    using klen unat_u32_less [of ?vl] op by (simp add: rec_ok_def lk lv) (simp add: r)
  show "n = rec_size r" by (simp add: n lk lv)
qed

subsection \<open>Torn and damaged records\<close>

lemma unat_rec_lengths:
  assumes "rec_ok r"
  shows "unat (word_of_nat (length (rec_Key r)) :: u32) = length (rec_Key r)"
    and "unat (word_of_nat (length (rec_Value r)) :: u32) = length (rec_Value r)"
  using assms by (simp_all add: rec_ok_def unat_of_nat)

lemma rec_Decode_torn:
  assumes "rec_ok r" and "n < rec_size r"
  shows "rec_Decode (take n (rec_Encode r)) = Inl (if n = 0 then EOF else ErrUnexpectedEOF)"
proof (cases "n < 21")
  case True
  then show ?thesis by (simp add: rec_Decode_def)
next
  case False
  have fields: "bslice lo hi (take n (rec_Encode r)) = bslice lo hi (rec_Encode r @ [])" if "hi \<le> 21" for lo hi
    using False that by (simp add: bslice_take)
  have "le_Uint32 (bslice 13 17 (take n (rec_Encode r))) = word_of_nat (length (rec_Key r))"
    and "le_Uint32 (bslice 17 21 (take n (rec_Encode r))) = word_of_nat (length (rec_Value r))"
    by (subst fields; simp add: rec_Encode_fields del: append_Nil2)+
  then show ?thesis
    using False assms by (simp add: rec_Decode_def Let_def unat_rec_lengths)
qed

text \<open>Changing one byte of an encoded record outside its two length fields is reported as corruption.\<close>

lemma rec_Decode_damaged:
  assumes ok: "rec_ok r" and i: "i < rec_size r" "i < 13 \<or> 21 \<le> i"
    and x: "x \<noteq> (rec_Encode r @ rest) ! i"
  shows "rec_Decode ((rec_Encode r @ rest)[i := x]) = Inl ErrCorrupt"
proof -
  let ?b = "rec_Encode r @ rest"
  let ?c = "?b[i := x]"
  have lens: "bslice 13 17 ?c = bslice 13 17 ?b" "bslice 17 21 ?c = bslice 17 21 ?b"
    using i by (auto intro: bslice_update_outside)
  have bad: "crc32_Checksum (bslice 4 (rec_size r) ?c) \<noteq> le_Uint32 (bslice 0 4 ?c)"
  proof (cases "i < 4")
    case True
    have "bslice 0 4 ?c ! i = x" "bslice 0 4 ?b ! i = ?b ! i"
      using True by (simp_all add: bslice_0 nth_append)
    then have "bslice 0 4 ?c \<noteq> bslice 0 4 ?b" using x by auto
    then have "le_Uint32 (bslice 0 4 ?c) \<noteq> le_Uint32 (bslice 0 4 ?b)"
      by (subst le_Uint32_inject) (simp_all add: length_bslice)
    then show ?thesis
      using True by (simp add: bslice_update_outside rec_Encode_fields(1,6))
  next
    case False
    let ?j = "i - 4"
    have j: "?j < length (rec_body r)" using i False by auto
    have same: "rec_body r ! ?j = ?b ! i"
      using nth_bslice [of "rec_size r" ?b ?j 4] j False by (simp add: rec_Encode_fields)
    have "bslice 4 (rec_size r) ?c = (rec_body r)[?j := x]"
      using False by (simp add: bslice_update_inside rec_Encode_fields)
    also have "\<dots> = take ?j (rec_body r) @ x # drop (Suc ?j) (rec_body r)"
      using j by (simp add: upd_conv_take_nth_drop)
    finally have new: "bslice 4 (rec_size r) ?c = take ?j (rec_body r) @ x # drop (Suc ?j) (rec_body r)" .
    have old: "rec_body r = take ?j (rec_body r) @ ?b ! i # drop (Suc ?j) (rec_body r)"
      using j same by (metis id_take_nth_drop)
    have "crc32_Checksum (bslice 4 (rec_size r) ?c) \<noteq> crc32_Checksum (rec_body r)"
      using crc32_single_byte [OF x] new old by metis
    then show ?thesis
      using False by (simp add: bslice_update_outside rec_Encode_fields(1))
  qed
  show ?thesis
    using bad ok by (simp add: rec_Decode_def Let_def lens rec_Encode_fields unat_rec_lengths add.assoc)
qed

text \<open>On inputs shorter than \<open>2 ^ 32\<close> bytes the decoder does not panic.\<close>

lemma rec_Decode_no_panic:
  assumes "length b < 2 ^ 32"
  shows "rec_Decode b \<noteq> Inl DecodePanic"
proof
  assume "rec_Decode b = Inl DecodePanic"
  then have "21 + unat (le_Uint32 (bslice 13 17 b)) \<le> length b"
    and "unat (21 + le_Uint32 (bslice 13 17 b)) < 21"
    by (auto simp: rec_Decode_def Let_def split: if_splits)
  then show False
    using assms unat_u32_less [of "le_Uint32 (bslice 13 17 b)"] by (simp add: unat_21_add add_21_wraps)
qed

lemma rec_Decode_progress: "rec_Decode b = Inr (r, n) \<Longrightarrow> 21 \<le> n \<and> n \<le> length b"
  by (auto simp: rec_Decode_def Let_def split: if_splits)


subsection \<open>Properties\<close>

text \<open>C30: \<^verbatim>\<open>Decode\<close> accepts exactly the buffers that start with the encoding of a record of valid
  operation and representable lengths, and returns that record and the size of its encoding.  So
  encode/decode round trips, with any bytes after the record, and every record has one encoding.\<close>

theorem rec_codec:
  "rec_Decode b = Inr (r, n) \<longleftrightarrow> rec_ok r \<and> n = rec_size r \<and> take n b = rec_Encode r"
proof
  assume "rec_Decode b = Inr (r, n)"
  then show "rec_ok r \<and> n = rec_size r \<and> take n b = rec_Encode r"
    using rec_Decode_sound by metis
next
  assume "rec_ok r \<and> n = rec_size r \<and> take n b = rec_Encode r"
  then show "rec_Decode b = Inr (r, n)"
    using rec_Decode_Encode [of r "drop n b"] by (metis append_take_drop_id)
qed

text \<open>A record cut short by a crash is reported as a clean end of file when nothing of it is left
  and as an unexpected end otherwise, never as a record and never as corruption.\<close>

theorem rec_torn:
  assumes "rec_ok r" and "n < rec_size r"
  shows "rec_Decode (take n (rec_Encode r)) = Inl (if n = 0 then EOF else ErrUnexpectedEOF)"
  using assms by (rule rec_Decode_torn)

theorem rec_torn_witness:
  "rec_Decode (take 22 (rec_Encode (mkRecord OpPut 7 [97] [98]))) = Inl ErrUnexpectedEOF"
  using rec_torn [of "mkRecord OpPut 7 [97] [98]" 22] by (simp add: rec_ok_def valid_op_def mkRecord_def)

text \<open>C31: changing any one byte of an encoded record outside its two length fields, whatever follows
  the record, makes \<^verbatim>\<open>Decode\<close> report corruption (CRC-32C detects every single-byte error).\<close>

theorem rec_damaged:
  assumes "rec_ok r" "i < rec_size r" "i < 13 \<or> 21 \<le> i" "x \<noteq> (rec_Encode r @ rest) ! i"
  shows "rec_Decode ((rec_Encode r @ rest)[i := x]) = Inl ErrCorrupt"
  using assms by (rule rec_Decode_damaged)

theorem rec_damaged_witness:
  "rec_Decode ((rec_Encode (mkRecord OpPut 7 [97] [98]) @ [])[4 := OpDelete]) = Inl ErrCorrupt"
proof (rule rec_damaged)
  show "OpDelete \<noteq> (rec_Encode (mkRecord OpPut 7 [97] [98]) @ []) ! 4"
    by (simp add: rec_Encode_def rec_body_def mkRecord_def Let_def nth_append)
qed (simp_all add: rec_ok_def valid_op_def mkRecord_def)

text \<open>\<^verbatim>\<open>Decode\<close> does not panic on any buffer shorter than 4 GiB, valid or not.\<close>

theorem rec_no_panic:
  assumes "length b < 2 ^ 32"
  shows "rec_Decode b \<noteq> Inl DecodePanic"
  using assms by (rule rec_Decode_no_panic)

theorem rec_no_panic_witness: "rec_Decode (replicate 30 255) \<noteq> Inl DecodePanic"
  using rec_no_panic [of "replicate 30 255"] by simp

end
