(* ===== verification/Bloom.thy ===== *)
theory Bloom
  imports Prelude
begin

unbundle bit_operations_syntax

section \<open>Bloom filters (\<open>internal/bloom\<close>)\<close>

text \<open>
  The filter an SSTable carries: a bit array of \<open>m = 8 * len(bits)\<close> bits probed at \<open>k\<close>
  positions derived from one 64-bit FNV-1a hash.  The theory models \<^verbatim>\<open>New\<close>, \<^verbatim>\<open>Add\<close>,
  \<^verbatim>\<open>MayContain\<close>, \<^verbatim>\<open>Bytes\<close> and \<^verbatim>\<open>Load\<close> of \<^verbatim>\<open>bloom.go\<close> with their 64-bit
  arithmetic, states what a client relies on as the locale \<open>membership_filter\<close>, and interprets
  the locale on the model: there are no false negatives, also after a filter has been written
  out and loaded again.
\<close>

subsection \<open>The interface\<close>

text \<open>
  A membership filter promises that an added key is reported from then on, and that saving
  and loading returns the same filter.
\<close>

locale membership_filter =
  fixes add :: "'f \<Rightarrow> 'k \<Rightarrow> 'f"
    and query :: "'f \<Rightarrow> 'k \<Rightarrow> bool"
    and save :: "'f \<Rightarrow> 'b"
    and restore :: "'b \<Rightarrow> 'e + 'f"
    and inv :: "'f \<Rightarrow> bool"
  assumes inv_add: "inv f \<Longrightarrow> inv (add f k)"
    and query_added: "inv f \<Longrightarrow> query (add f k) k"
    and query_mono: "inv f \<Longrightarrow> query f k' \<Longrightarrow> query (add f k) k'"
    and restore_save: "inv f \<Longrightarrow> restore (save f) = Inr f"
begin

lemma inv_fold: "inv f \<Longrightarrow> inv (fold (\<lambda>k f. add f k) ks f)"
  by (induction ks arbitrary: f) (auto intro: inv_add)

lemma query_fold_mono: "inv f \<Longrightarrow> query f k \<Longrightarrow> query (fold (\<lambda>k f. add f k) ks f) k"
  by (induction ks arbitrary: f) (auto intro: inv_add query_mono)

lemma no_false_negative:
  "inv f \<Longrightarrow> k \<in> set ks \<Longrightarrow> query (fold (\<lambda>k f. add f k) ks f) k"
proof (induction ks arbitrary: f)
  case (Cons a ks)
  then show ?case by (auto intro: inv_add query_added query_fold_mono)
qed simp

lemma no_false_negative_restored:
  assumes "inv f" "k \<in> set ks"
  shows "\<exists>g. restore (save (fold (\<lambda>k f. add f k) ks f)) = Inr g \<and> query g k"
  using assms by (simp add: inv_fold restore_save no_false_negative)

end

subsection \<open>The model\<close>

record Filter =
  flt_bits :: bytes
  flt_m :: u64
  flt_k :: byte

text \<open>
  The number of hash functions is \<^verbatim>\<open>math.Round(float64(bitsPerKey) * math.Ln2)\<close>.  For the clamped
  range 1 to 64 no product is near a half, so rounding the exact product with 21 digits of
  \<^verbatim>\<open>math.Ln2\<close> gives the same integer.
\<close>

definition bloom_k :: "int \<Rightarrow> int" where
  "bloom_k bitsPerKey =
     (let k = (2 * bitsPerKey * 693147180559945309417 + 10 ^ 21) div (2 * 10 ^ 21)
      in if k < 1 then 1 else if k > 30 then 30 else k)"

definition bloom_New :: "int \<Rightarrow> int \<Rightarrow> Filter" where
  "bloom_New expectedKeys bitsPerKey =
     (let n = (if expectedKeys < 1 then 1 else expectedKeys);
          b1 = (if bitsPerKey < 1 then 1 else bitsPerKey);
          b = (if b1 > 64 then 64 else b1);
          mBits = word_of_int n * word_of_int b :: u64;
          mBytes0 = (mBits + 7) div 8;
          mBytes = (if mBytes0 < 1 then 1 else mBytes0)
      in \<lparr>flt_bits = replicate (unat mBytes) 0, flt_m = mBytes * 8, flt_k = word_of_int (bloom_k b)\<rparr>)"

definition fnv1a :: "bytes \<Rightarrow> u64" where
  "fnv1a key = fold (\<lambda>b h. (h XOR ucast b) * 1099511628211) key 14695981039346656037"

definition hashPair :: "bytes \<Rightarrow> u64 \<times> u64" where
  "hashPair key = (let sum = fnv1a key in (sum AND 0xFFFFFFFF, drop_bit 32 sum))"

text \<open>The bit positions probed for a key, in the order of the loop over \<^verbatim>\<open>i\<close>.\<close>

definition bloom_positions :: "Filter \<Rightarrow> bytes \<Rightarrow> u64 list" where
  "bloom_positions f key =
     (let (h1, h2) = hashPair key
      in map (\<lambda>i. (h1 + word_of_nat i * h2) mod flt_m f) [0..<unat (flt_k f)])"

definition set_pos :: "u64 \<Rightarrow> bytes \<Rightarrow> bytes" where
  "set_pos pos bs =
     (let j = unat (drop_bit 3 pos) in bs[j := bs ! j OR push_bit (unat (pos AND 7)) 1])"

definition test_pos :: "bytes \<Rightarrow> u64 \<Rightarrow> bool" where
  "test_pos bs pos \<longleftrightarrow> bs ! unat (drop_bit 3 pos) AND push_bit (unat (pos AND 7)) 1 \<noteq> 0"

definition bloom_Add :: "Filter \<Rightarrow> bytes \<Rightarrow> Filter" where
  "bloom_Add f key = f\<lparr>flt_bits := fold set_pos (bloom_positions f key) (flt_bits f)\<rparr>"

definition bloom_MayContain :: "Filter \<Rightarrow> bytes \<Rightarrow> bool" where
  "bloom_MayContain f key =
     (if flt_m f = 0 then False else list_all (test_pos (flt_bits f)) (bloom_positions f key))"

definition bloom_NumBits :: "Filter \<Rightarrow> int" where "bloom_NumBits f = sint (flt_m f)"

definition bloom_NumHashes :: "Filter \<Rightarrow> nat" where "bloom_NumHashes f = unat (flt_k f)"

definition bloom_Bytes :: "Filter \<Rightarrow> bytes" where
  "bloom_Bytes f = flt_k f # flt_bits f"

datatype bloom_error = BloomEmptyData | BloomInvalidK byte

definition bloom_Load :: "bytes \<Rightarrow> bloom_error + Filter" where
  "bloom_Load data =
     (case data of
        [] \<Rightarrow> Inl BloomEmptyData
      | k # bits \<Rightarrow>
          if k < 1 \<or> k > 30 then Inl (BloomInvalidK k)
          else Inr \<lparr>flt_bits = bits, flt_m = word_of_nat (length bits) * 8, flt_k = k\<rparr>)"

subsection \<open>The representation invariant\<close>

definition filter_ok :: "Filter \<Rightarrow> bool" where
  "filter_ok f \<longleftrightarrow>
     unat (flt_m f) = 8 * length (flt_bits f) \<and> flt_bits f \<noteq> [] \<and> 1 \<le> flt_k f \<and> flt_k f \<le> 30"

lemma filter_ok_m: "filter_ok f \<Longrightarrow> flt_m f = word_of_nat (length (flt_bits f)) * 8"
  by (metis filter_ok_def mult.commute of_nat_mult of_nat_numeral of_nat_unat ucast_id)

lemma unat_drop_bit_3: "unat (drop_bit 3 (w :: u64)) = unat w div 8"
  by (simp add: drop_bit_eq_div unat_div_distrib)

lemma unat_and_7: "unat (w AND 7 :: u64) = unat w mod 8"
proof -
  have "w AND 7 = take_bit 3 w" by (simp add: take_bit_eq_mask mask_eq_exp_minus_1)
  then show ?thesis by (simp add: take_bit_eq_mod unat_mod_distrib)
qed

text \<open>Every probed position lies inside the bit array: the index operations cannot panic.\<close>

lemma bloom_positions_in_range:
  assumes "filter_ok f" "pos \<in> set (bloom_positions f key)"
  shows "unat (drop_bit 3 pos) < length (flt_bits f)"
proof -
  have "0 < unat (flt_m f)" using assms(1) by (simp add: filter_ok_def)
  moreover from assms(2) obtain w where "pos = w mod flt_m f"
    by (auto simp: bloom_positions_def Let_def split: prod.splits)
  ultimately have "unat pos < 8 * length (flt_bits f)"
    using assms(1) by (simp add: unat_mod_distrib filter_ok_def)
  then show ?thesis by (simp add: unat_drop_bit_3)
qed

lemma length_set_pos [simp]: "length (set_pos pos bs) = length bs"
  by (simp add: set_pos_def Let_def)

lemma length_fold_set_pos [simp]: "length (fold set_pos ps bs) = length bs"
  by (induction ps arbitrary: bs) auto

text \<open>A probe is a test of one bit of one byte.\<close>

lemma test_pos_bit: "test_pos bs pos \<longleftrightarrow> bit (bs ! (unat pos div 8)) (unat pos mod 8)"
proof -
  have "b AND push_bit n 1 \<noteq> 0 \<longleftrightarrow> bit b n" for b :: byte and n
    by (simp add: and_exp_eq_0_iff_not_bit push_bit_eq_mult)
  then show ?thesis by (simp add: test_pos_def unat_drop_bit_3 unat_and_7)
qed

lemma test_pos_set_same:
  "unat (drop_bit 3 pos) < length bs \<Longrightarrow> test_pos (set_pos pos bs) pos"
  by (simp add: test_pos_bit set_pos_def Let_def unat_drop_bit_3 unat_and_7 bit_or_iff bit_exp_iff)

lemma test_pos_set_mono: "test_pos bs q \<Longrightarrow> test_pos (set_pos pos bs) q"
  by (cases "unat (drop_bit 3 pos) < length bs")
    (auto simp: test_pos_bit set_pos_def Let_def nth_list_update list_update_beyond bit_or_iff)

lemma test_pos_fold_mono: "test_pos bs q \<Longrightarrow> test_pos (fold set_pos ps bs) q"
  by (induction ps arbitrary: bs) (auto intro: test_pos_set_mono)

lemma test_pos_fold_added:
  "\<forall>p\<in>set ps. unat (drop_bit 3 p) < length bs \<Longrightarrow> q \<in> set ps \<Longrightarrow> test_pos (fold set_pos ps bs) q"
proof (induction ps arbitrary: bs)
  case (Cons p ps)
  then show ?case by (auto intro: test_pos_fold_mono test_pos_set_same)
qed simp

lemma bloom_positions_update [simp]:
  "bloom_positions (f\<lparr>flt_bits := bs\<rparr>) key = bloom_positions f key"
  by (simp add: bloom_positions_def)

lemma filter_ok_Add: "filter_ok f \<Longrightarrow> filter_ok (bloom_Add f key)"
  by (simp add: filter_ok_def bloom_Add_def flip: length_greater_0_conv)

interpretation bloom: membership_filter bloom_Add bloom_MayContain bloom_Bytes bloom_Load filter_ok
proof unfold_locales
  fix f k k'
  assume ok: "filter_ok f"
  then have m: "flt_m f \<noteq> 0" by (auto simp: filter_ok_def)
  show "filter_ok (bloom_Add f k)" using ok by (rule filter_ok_Add)
  show "bloom_MayContain (bloom_Add f k) k"
    using ok m by (auto simp: bloom_MayContain_def bloom_Add_def list_all_iff
        intro: test_pos_fold_added bloom_positions_in_range)
  show "bloom_MayContain (bloom_Add f k) k'" if "bloom_MayContain f k'"
    using that m by (auto simp: bloom_MayContain_def bloom_Add_def list_all_iff intro: test_pos_fold_mono)
  show "bloom_Load (bloom_Bytes f) = Inr f"
    using ok filter_ok_m [OF ok] by (auto simp: bloom_Load_def bloom_Bytes_def filter_ok_def not_less)
qed

subsection \<open>Construction\<close>

lemma bloom_k_range: "1 \<le> bloom_k b \<and> bloom_k b \<le> 30"
  by (simp add: bloom_k_def Let_def)

lemma byte_of_bloom_k: "1 \<le> (word_of_int (bloom_k b) :: byte) \<and> (word_of_int (bloom_k b) :: byte) \<le> 30"
proof -
  have "uint (word_of_int (bloom_k b) :: byte) = bloom_k b"
    using bloom_k_range [of b] by (simp add: uint_word_of_int)
  then show ?thesis using bloom_k_range [of b] by (simp add: word_le_def)
qed

lemma unat_times_8: "w \<le> 2305843009213693951 \<Longrightarrow> unat (w * 8 :: u64) = unat w * 8"
  by (simp add: word_le_nat_alt unat_word_ariths)

lemma div_8_bound: "(w :: u64) div 8 \<le> 2305843009213693951"
  using unat_u64_less [of w] by (simp add: word_le_nat_alt unat_div_distrib)

lemma filter_ok_New: "filter_ok (bloom_New n b)"
proof -
  have "unat ((if w div 8 < 1 then 1 else w div 8) * 8 :: u64) =
      8 * unat (if w div 8 < 1 then 1 else w div 8)" for w :: u64
    using div_8_bound [of w] by (auto simp: unat_times_8)
  moreover have "0 < unat (if w div 8 < 1 then 1 else w div 8 :: u64)" for w :: u64
    by (auto simp: word_less_nat_alt)
  ultimately show ?thesis
    using byte_of_bloom_k by (simp add: filter_ok_def bloom_New_def Let_def)
qed

text \<open>The array has room for the requested number of bits per key.\<close>

lemma bloom_New_size:
  assumes "0 < n" "1 \<le> b" "b \<le> 64" "n * b \<le> 2 ^ 64 - 8"
  shows "n * b \<le> int (8 * length (flt_bits (bloom_New n b)))"
proof -
  let ?w = "word_of_int n * word_of_int b :: u64"
  have nb: "0 < n * b" using assms by simp
  have "uint ?w = n * b mod 2 ^ 64"
    by (simp add: uint_word_of_int flip: of_int_mult)
  then have w: "uint ?w = n * b" using nb assms(4) by (simp add: mod_pos_pos_trivial)
  then have "unat ?w = nat (n * b)" by (simp add: unat_eq_nat_uint)
  then have "unat (?w + 7) = nat (n * b) + 7" using assms(4) nb by (simp add: unat_word_ariths nat_less_iff)
  then have l: "unat ((?w + 7) div 8) = (nat (n * b) + 7) div 8" by (simp add: unat_div_distrib)
  then have "1 \<le> (?w + 7) div 8" using nb by (simp add: word_le_nat_alt Suc_le_eq div_greater_zero_iff)
  then have "length (flt_bits (bloom_New n b)) = (nat (n * b) + 7) div 8"
    using assms l by (auto simp: bloom_New_def Let_def not_less)
  then show ?thesis using nb by linarith
qed


subsection \<open>Properties\<close>

text \<open>C32: a filter created by \<^verbatim>\<open>New\<close> with any arguments, filled by \<^verbatim>\<open>Add\<close>, written with \<^verbatim>\<open>Bytes\<close> and
  read back by \<^verbatim>\<open>Load\<close> loads without error and answers \<^verbatim>\<open>MayContain\<close> with true for every added
  key: the filter has no false negatives, before or after the round trip.\<close>

theorem bloom_no_false_negatives:
  assumes "k \<in> set keys"
  shows "bloom_MayContain (fold (\<lambda>k f. bloom_Add f k) keys (bloom_New n b)) k \<and>
    (\<exists>f. bloom_Load (bloom_Bytes (fold (\<lambda>k f. bloom_Add f k) keys (bloom_New n b))) = Inr f \<and>
         bloom_MayContain f k)"
  using bloom.no_false_negative [OF filter_ok_New assms]
    bloom.no_false_negative_restored [OF filter_ok_New assms] by blast

theorem bloom_no_false_negatives_witness:
  "bloom_MayContain (fold (\<lambda>k f. bloom_Add f k) [[97], [98]] (bloom_New 2 10)) [97]"
  using bloom_no_false_negatives [of "[97]" "[[97], [98]]" 2 10] by simp

end
