(* ===== verification/Skiplist.thy ===== *)
theory Skiplist
  imports Prelude "HOL-Library.Monad_Syntax"
begin

section \<open>The skiplist (\<open>internal/skiplist\<close>)\<close>

text \<open>
  A pointer structure, modelled with an explicit heap from addresses to nodes.  The operations run
  in the option monad: \<open>None\<close> is a nil dereference, an index out of range or a walk that does not
  end.  The coin flips of \<^verbatim>\<open>randomHeight\<close> are a stream in the state.  The representation
  invariant says that every level is the sublist of level 0 that reaches the level; under it every
  operation returns, keeps the invariant, and acts on the list of entries as its reference
  definition on sorted association lists does.
\<close>

subsection \<open>State\<close>

abbreviation maxHeight :: nat where "maxHeight \<equiv> 32"

type_synonym addr = nat

record Node =
  node_key :: bytes
  node_value :: bytes
  node_next :: "addr option list"

type_synonym heap = "addr \<rightharpoonup> Node"

record Skiplist =
  sl_heap :: heap
  sl_head :: addr
  sl_height :: nat
  sl_length :: nat
  sl_fresh :: addr
  sl_coins :: "nat \<Rightarrow> bool"

text \<open>\<open>next_at h a i\<close> is \<^verbatim>\<open>a.next[i]\<close>: the outer option is the panic, the inner one nil.\<close>

definition next_at :: "heap \<Rightarrow> addr \<Rightarrow> nat \<Rightarrow> addr option option" where
  "next_at h a i =
     (case h a of
        None \<Rightarrow> None
      | Some n \<Rightarrow> if i < length (node_next n) then Some (node_next n ! i) else None)"

definition set_next :: "heap \<Rightarrow> addr \<Rightarrow> nat \<Rightarrow> addr option \<Rightarrow> heap option" where
  "set_next h a i v =
     (case h a of
        None \<Rightarrow> None
      | Some n \<Rightarrow> if i < length (node_next n)
                  then Some (h(a \<mapsto> n\<lparr>node_next := (node_next n)[i := v]\<rparr>)) else None)"

subsection \<open>Operations\<close>

definition sl_New :: "(nat \<Rightarrow> bool) \<Rightarrow> Skiplist" where
  "sl_New coins =
     \<lparr>sl_heap = [0 \<mapsto> \<lparr>node_key = [], node_value = [], node_next = replicate maxHeight None\<rparr>],
      sl_head = 0, sl_height = 1, sl_length = 0, sl_fresh = 1, sl_coins = coins\<rparr>"

definition sl_Len :: "Skiplist \<Rightarrow> nat" where "sl_Len s = sl_length s"

text \<open>The inner loop shared by \<^verbatim>\<open>findPredecessors\<close>, \<^verbatim>\<open>Get\<close> and \<^verbatim>\<open>SeekGE\<close>: walk level \<open>i\<close>
  while the next key is below the target.\<close>

partial_function (option) walk :: "heap \<Rightarrow> nat \<Rightarrow> bytes \<Rightarrow> addr \<Rightarrow> addr option" where
  "walk h i key cur =
     do { nx \<leftarrow> next_at h cur i;
          case nx of
            None \<Rightarrow> Some cur
          | Some p \<Rightarrow> do { n \<leftarrow> h p; if node_key n < key then walk h i key p else Some cur } }"

declare walk.simps [code]

primrec descend :: "heap \<Rightarrow> bytes \<Rightarrow> nat \<Rightarrow> addr \<Rightarrow> addr list option" where
  "descend h key 0 cur = Some []"
| "descend h key (Suc i) cur =
     do { c \<leftarrow> walk h i key cur; ps \<leftarrow> descend h key i c; Some (ps @ [c]) }"

definition findPredecessors :: "Skiplist \<Rightarrow> bytes \<Rightarrow> addr list option" where
  "findPredecessors s key = descend (sl_heap s) key (sl_height s) (sl_head s)"

primrec descend_cur :: "heap \<Rightarrow> bytes \<Rightarrow> nat \<Rightarrow> addr \<Rightarrow> addr option" where
  "descend_cur h key 0 cur = Some cur"
| "descend_cur h key (Suc i) cur = do { c \<leftarrow> walk h i key cur; descend_cur h key i c }"

text \<open>\<^verbatim>\<open>randomHeight\<close>: a coin is \<^verbatim>\<open>rand.Float64() < 0.5\<close>.\<close>

function randomHeight_from :: "nat \<Rightarrow> (nat \<Rightarrow> bool) \<Rightarrow> nat \<times> (nat \<Rightarrow> bool)" where
  "randomHeight_from h coins =
     (if h < maxHeight
      then (if coins 0 then randomHeight_from (Suc h) (\<lambda>n. coins (Suc n)) else (h, \<lambda>n. coins (Suc n)))
      else (h, coins))"
  by pat_completeness auto
termination
  by (relation "measure (\<lambda>(h, coins). maxHeight - h)") auto

declare randomHeight_from.simps [simp del]

definition randomHeight :: "(nat \<Rightarrow> bool) \<Rightarrow> nat \<times> (nat \<Rightarrow> bool)" where
  "randomHeight coins = randomHeight_from 1 coins"

text \<open>The splice loop of \<^verbatim>\<open>Put\<close>: level by level, the new node takes over its predecessor's link.\<close>

fun link_levels :: "heap \<Rightarrow> addr \<Rightarrow> nat \<Rightarrow> addr list \<Rightarrow> heap option" where
  "link_levels h a i [] = Some h"
| "link_levels h a i (p # ps) =
     do { nx \<leftarrow> next_at h p i;
          h1 \<leftarrow> set_next h a i nx;
          h2 \<leftarrow> set_next h1 p i (Some a);
          link_levels h2 a (Suc i) ps }"

definition sl_Put :: "Skiplist \<Rightarrow> bytes \<Rightarrow> bytes \<Rightarrow> Skiplist option" where
  "sl_Put s key value =
     do { prev \<leftarrow> findPredecessors s key;
          p0 \<leftarrow> (case prev of [] \<Rightarrow> None | p # _ \<Rightarrow> Some p);
          cand \<leftarrow> next_at (sl_heap s) p0 0;
          hit \<leftarrow> (case cand of
                    None \<Rightarrow> Some None
                  | Some c \<Rightarrow> do { n \<leftarrow> sl_heap s c; Some (if node_key n = key then Some (c, n) else None) });
          case hit of
            Some (c, n) \<Rightarrow> Some (s\<lparr>sl_heap := (sl_heap s)(c \<mapsto> n\<lparr>node_value := value\<rparr>)\<rparr>)
          | None \<Rightarrow>
              (let (ht, coins') = randomHeight (sl_coins s);
                   prev' = (if ht > sl_height s then prev @ replicate (ht - sl_height s) (sl_head s) else prev);
                   height' = (if ht > sl_height s then ht else sl_height s);
                   a = sl_fresh s;
                   h0 = (sl_heap s)(a \<mapsto> \<lparr>node_key = key, node_value = value, node_next = replicate ht None\<rparr>)
               in do { h' \<leftarrow> link_levels h0 a 0 (take ht prev');
                       Some (s\<lparr>sl_heap := h', sl_height := height', sl_length := sl_length s + 1,
                               sl_fresh := Suc a, sl_coins := coins'\<rparr>) }) }"

definition sl_SeekGE :: "Skiplist \<Rightarrow> bytes \<Rightarrow> addr option option" where
  "sl_SeekGE s target =
     do { cur \<leftarrow> descend_cur (sl_heap s) target (sl_height s) (sl_head s);
          next_at (sl_heap s) cur 0 }"

definition sl_Next :: "Skiplist \<Rightarrow> addr option \<Rightarrow> addr option option" where
  "sl_Next s n = (case n of None \<Rightarrow> Some None | Some a \<Rightarrow> next_at (sl_heap s) a 0)"

definition sl_Get :: "Skiplist \<Rightarrow> bytes \<Rightarrow> bytes option option" where
  "sl_Get s key =
     do { cur \<leftarrow> descend_cur (sl_heap s) key (sl_height s) (sl_head s);
          cand \<leftarrow> next_at (sl_heap s) cur 0;
          case cand of
            None \<Rightarrow> Some None
          | Some c \<Rightarrow> do { n \<leftarrow> sl_heap s c;
                           Some (if node_key n = key then Some (node_value n) else None) } }"

fun unlink_levels :: "heap \<Rightarrow> addr \<Rightarrow> nat \<Rightarrow> addr list \<Rightarrow> heap option" where
  "unlink_levels h t i [] = Some h"
| "unlink_levels h t i (p # ps) =
     do { nx \<leftarrow> next_at h t i; h1 \<leftarrow> set_next h p i nx; unlink_levels h1 t (Suc i) ps }"

fun lower_height :: "heap \<Rightarrow> addr \<Rightarrow> nat \<Rightarrow> nat option" where
  "lower_height h head (Suc (Suc n)) =
     do { nx \<leftarrow> next_at h head (Suc n);
          if nx = None then lower_height h head (Suc n) else Some (Suc (Suc n)) }"
| "lower_height h head n = Some n"

definition sl_Delete :: "Skiplist \<Rightarrow> bytes \<Rightarrow> (bool \<times> Skiplist) option" where
  "sl_Delete s key =
     do { prev \<leftarrow> findPredecessors s key;
          p0 \<leftarrow> (case prev of [] \<Rightarrow> None | p # _ \<Rightarrow> Some p);
          target \<leftarrow> next_at (sl_heap s) p0 0;
          hit \<leftarrow> (case target of
                    None \<Rightarrow> Some None
                  | Some t \<Rightarrow> do { n \<leftarrow> sl_heap s t; Some (if node_key n = key then Some (t, n) else None) });
          case hit of
            None \<Rightarrow> Some (False, s)
          | Some (t, n) \<Rightarrow>
              if length (node_next n) > length prev then None
              else do { h' \<leftarrow> unlink_levels (sl_heap s) t 0 (take (length (node_next n)) prev);
                        ht \<leftarrow> lower_height h' (sl_head s) (sl_height s);
                        Some (True, s\<lparr>sl_heap := h', sl_height := ht, sl_length := sl_length s - 1\<rparr>) } }"

text \<open>\<^verbatim>\<open>Iterate\<close> with a callback that threads a state and may ask to stop.\<close>

partial_function (option) iterate_from ::
  "heap \<Rightarrow> (bytes \<Rightarrow> bytes \<Rightarrow> 'a \<Rightarrow> 'a \<times> bool) \<Rightarrow> addr option \<Rightarrow> 'a \<Rightarrow> 'a option" where
  "iterate_from h fn cur st =
     (case cur of
        None \<Rightarrow> Some st
      | Some a \<Rightarrow>
          do { n \<leftarrow> h a;
               let r = fn (node_key n) (node_value n) st;
               if snd r then do { nx \<leftarrow> next_at h a 0; iterate_from h fn nx (fst r) }
               else Some (fst r) })"

declare iterate_from.simps [code]

definition sl_Iterate :: "Skiplist \<Rightarrow> (bytes \<Rightarrow> bytes \<Rightarrow> 'a \<Rightarrow> 'a \<times> bool) \<Rightarrow> 'a \<Rightarrow> 'a option" where
  "sl_Iterate s fn st =
     do { first \<leftarrow> next_at (sl_heap s) (sl_head s) 0; iterate_from (sl_heap s) fn first st }"

subsection \<open>Linked levels\<close>

definition key_of :: "heap \<Rightarrow> addr \<Rightarrow> bytes" where
  "key_of h a = (case h a of None \<Rightarrow> [] | Some n \<Rightarrow> node_key n)"

definition val_of :: "heap \<Rightarrow> addr \<Rightarrow> bytes" where
  "val_of h a = (case h a of None \<Rightarrow> [] | Some n \<Rightarrow> node_value n)"

definition height_of :: "heap \<Rightarrow> addr \<Rightarrow> nat" where
  "height_of h a = (case h a of None \<Rightarrow> 0 | Some n \<Rightarrow> length (node_next n))"

fun linked :: "heap \<Rightarrow> nat \<Rightarrow> addr \<Rightarrow> addr list \<Rightarrow> bool" where
  "linked h i a [] \<longleftrightarrow> next_at h a i = Some None"
| "linked h i a (b # bs) \<longleftrightarrow> next_at h a i = Some (Some b) \<and> linked h i b bs"

abbreviation level :: "heap \<Rightarrow> nat \<Rightarrow> addr list \<Rightarrow> addr list" where
  "level h i L \<equiv> filter (\<lambda>a. i < height_of h a) L"

definition pred_at :: "heap \<Rightarrow> addr \<Rightarrow> addr list \<Rightarrow> nat \<Rightarrow> addr" where
  "pred_at h head P i = last (head # level h i P)"

lemma linked_suffix: "linked h i a (xs @ b # ys) \<Longrightarrow> linked h i b ys"
  by (induction xs arbitrary: a) auto

lemma linked_next_last:
  "linked h i a (xs @ ys) \<Longrightarrow> next_at h (last (a # xs)) i = Some (case ys of [] \<Rightarrow> None | y # _ \<Rightarrow> Some y)"
  by (induction xs arbitrary: a) (auto split: list.splits)

lemma linked_cong:
  "(\<And>x. x \<in> set (a # xs) \<Longrightarrow> next_at h' x i = next_at h x i) \<Longrightarrow> linked h' i a xs = linked h i a xs"
  by (induction xs arbitrary: a) auto

lemma linked_insert:
  assumes "linked h i a (xs @ ys)" "distinct (a # xs @ ys)" "n \<notin> set (a # xs @ ys)"
    and "next_at h' n i = next_at h (last (a # xs)) i"
    and "next_at h' (last (a # xs)) i = Some (Some n)"
    and "\<And>x. x \<in> set (a # xs @ ys) \<Longrightarrow> x \<noteq> last (a # xs) \<Longrightarrow> next_at h' x i = next_at h x i"
  shows "linked h' i a (xs @ n # ys)"
  using assms
proof (induction xs arbitrary: a)
  case Nil
  then show ?case
  proof (cases ys)
    case (Cons y ys')
    then have "linked h' i y ys' = linked h i y ys'"
      using Nil.prems by (intro linked_cong) auto
    then show ?thesis using Nil.prems Cons by simp
  qed simp
next
  case (Cons b xs)
  have "a \<noteq> last (b # xs)" using Cons.prems(2) last_in_set [of "b # xs"] by (auto simp del: last.simps)
  then have "next_at h' a i = Some (Some b)" using Cons.prems(1,6) by simp
  moreover have "linked h' i b (xs @ n # ys)"
    using Cons.prems by (intro Cons.IH) auto
  ultimately show ?case by simp
qed

lemma linked_remove:
  assumes "linked h i a (xs @ t # ys)" "distinct (a # xs @ t # ys)"
    and "next_at h' (last (a # xs)) i = next_at h t i"
    and "\<And>x. x \<in> set (a # xs @ ys) \<Longrightarrow> x \<noteq> last (a # xs) \<Longrightarrow> next_at h' x i = next_at h x i"
  shows "linked h' i a (xs @ ys)"
  using assms
proof (induction xs arbitrary: a)
  case Nil
  then show ?case
  proof (cases ys)
    case (Cons y ys')
    then have "linked h' i y ys' = linked h i y ys'"
      using Nil.prems by (intro linked_cong) auto
    then show ?thesis using Nil.prems Cons by simp
  qed simp
next
  case (Cons b xs)
  have "a \<noteq> last (b # xs)" using Cons.prems(2) last_in_set [of "b # xs"] by (auto simp del: last.simps)
  then have "next_at h' a i = Some (Some b)" using Cons.prems(1,4) by simp
  moreover have "linked h' i b (xs @ ys)"
    using Cons.prems by (intro Cons.IH) auto
  ultimately show ?case by simp
qed


subsection \<open>The representation invariant\<close>

definition sl_inv :: "Skiplist \<Rightarrow> addr list \<Rightarrow> bool" where
  "sl_inv s L \<longleftrightarrow>
     height_of (sl_heap s) (sl_head s) = maxHeight \<and> sl_head s \<notin> set L \<and>
     sorted_wrt (\<lambda>a b. key_of (sl_heap s) a < key_of (sl_heap s) b) L \<and>
     (\<forall>a\<in>set L. 1 \<le> height_of (sl_heap s) a \<and> height_of (sl_heap s) a \<le> sl_height s) \<and>
     (\<forall>i<maxHeight. linked (sl_heap s) i (sl_head s) (level (sl_heap s) i L)) \<and>
     1 \<le> sl_height s \<and> sl_height s \<le> maxHeight \<and> sl_length s = length L \<and>
     (\<forall>a\<ge>sl_fresh s. sl_heap s a = None)"

definition entries_of :: "heap \<Rightarrow> addr list \<Rightarrow> bytes kvs" where
  "entries_of h L = map (\<lambda>a. (key_of h a, val_of h a)) L"

text \<open>\<open>sl_repr s kvs\<close>: the skiplist \<open>s\<close> represents the sorted association list \<open>kvs\<close>.\<close>

definition sl_repr :: "Skiplist \<Rightarrow> bytes kvs \<Rightarrow> bool" where
  "sl_repr s kvs \<longleftrightarrow> (\<exists>L. sl_inv s L \<and> kvs = entries_of (sl_heap s) L)"

lemma height_pos_alloc: "0 < height_of h a \<Longrightarrow> \<exists>n. h a = Some n"
  by (auto simp: height_of_def split: option.splits)

lemma next_at_dom: "i < height_of h a \<longleftrightarrow> (\<exists>v. next_at h a i = Some v)"
  by (auto simp: height_of_def next_at_def split: option.splits)

lemma map_fst_entries_of [simp]: "map fst (entries_of h L) = map (key_of h) L"
  by (simp add: entries_of_def comp_def)

lemma sl_inv_distinct: "sl_inv s L \<Longrightarrow> distinct (sl_head s # L)"
proof -
  assume inv: "sl_inv s L"
  then have "sorted_wrt (<) (map (key_of (sl_heap s)) L)" by (simp add: sl_inv_def sorted_wrt_map)
  then have "distinct (map (key_of (sl_heap s)) L)" by (simp add: strict_sorted_iff)
  then show ?thesis using inv by (simp add: sl_inv_def distinct_map)
qed

lemma sl_repr_sorted: "sl_repr s kvs \<Longrightarrow> kv_sorted kvs"
  unfolding sl_repr_def sl_inv_def by (auto simp: sorted_wrt_map entries_of_def)

lemma walk_linked:
  assumes "linked h i cur (P @ S)" "\<forall>a\<in>set (P @ S). 0 < height_of h a"
    and "\<forall>a\<in>set P. key_of h a < key" "\<forall>a\<in>set S. \<not> key_of h a < key"
  shows "walk h i key cur = Some (last (cur # P))"
  using assms
proof (induction P arbitrary: cur)
  case Nil
  then show ?case
    by (cases S) (auto simp: walk.simps key_of_def dest!: height_pos_alloc)
next
  case (Cons b P)
  obtain n where "h b = Some n" "node_key n < key"
    using Cons.prems(2,3) by (auto simp: key_of_def dest!: height_pos_alloc)
  then show ?case using Cons.prems Cons.IH [of b] by (subst walk.simps) auto
qed

text \<open>A walk on a level may start at any of its nodes to the left of the target.\<close>

lemma walk_from:
  assumes "linked h i head (level h i (P @ S))" "cur = head \<or> cur \<in> set (level h i P)"
    and "\<forall>a\<in>set P. key_of h a < key" "\<forall>a\<in>set S. \<not> key_of h a < key"
  shows "walk h i key cur = Some (pred_at h head P i)"
proof (cases "cur = head")
  case True
  then show ?thesis using walk_linked [of h i head "level h i P" "level h i S" key] assms by (fastforce simp: pred_at_def)
next
  case False
  then obtain A B where AB: "level h i P = A @ cur # B" using assms(2) by (meson split_list)
  then have "linked h i cur (B @ level h i S)"
    using assms(1) by (auto intro: linked_suffix)
  moreover have "set B \<subseteq> set (level h i P)" using AB by auto
  ultimately have "walk h i key cur = Some (last (cur # B))"
    using assms(3,4) walk_linked [of h i cur B "level h i S" key] by (fastforce simp: subset_iff)
  then show ?thesis by (simp add: pred_at_def AB)
qed

lemma pred_at_level: "j \<le> i \<Longrightarrow> pred_at h head P i = head \<or> pred_at h head P i \<in> set (level h j P)"
proof -
  assume "j \<le> i"
  have "last (head # level h i P) \<in> set (head # level h i P)" by (rule last_in_set) simp
  then show ?thesis using \<open>j \<le> i\<close> by (auto simp: pred_at_def)
qed

lemma descend_spec:
  assumes "\<forall>i<n. linked h i head (level h i (P @ S))"
    and "\<forall>a\<in>set P. key_of h a < key" "\<forall>a\<in>set S. \<not> key_of h a < key"
    and "cur = head \<or> cur \<in> set (level h (n - 1) P)"
  shows "descend h key n cur = Some (map (pred_at h head P) [0..<n])"
    and "descend_cur h key n cur = Some (if n = 0 then cur else pred_at h head P 0)"
  using assms
proof (induction n arbitrary: cur)
  case (Suc n)
  case 1
  have w: "walk h n key cur = Some (pred_at h head P n)"
    using 1 by (intro walk_from) auto
  show ?case using Suc(1) [OF _ 1(2,3) pred_at_level] 1(1) w by simp
next
  case (Suc n)
  case 2
  have w: "walk h n key cur = Some (pred_at h head P n)"
    using 2 by (intro walk_from) auto
  show ?case using Suc(2) [OF _ 2(2,3) pred_at_level] 2(1) w by simp
qed simp_all

text \<open>Splitting the node list at a target key.\<close>

lemma sl_inv_split:
  assumes "sl_inv s L"
  obtains P S where "L = P @ S"
    and "\<forall>a\<in>set P. key_of (sl_heap s) a < key" "\<forall>a\<in>set S. \<not> key_of (sl_heap s) a < key"
proof -
  let ?lt = "\<lambda>a. key_of (sl_heap s) a < key"
  have "sorted_wrt (\<lambda>a b. key_of (sl_heap s) a < key_of (sl_heap s) b) L"
    using assms by (simp add: sl_inv_def)
  then have drop: "\<forall>a\<in>set (dropWhile ?lt L). \<not> ?lt a"
  proof (induction L)
    case (Cons a L)
    then show ?case by (cases "?lt a") (auto simp: not_less intro: order.trans less_imp_le)
  qed simp
  have "\<forall>a\<in>set (takeWhile ?lt L). ?lt a"
    by (blast dest: set_takeWhileD [where P = ?lt])
  then show thesis
    using drop by (rule that [OF takeWhile_dropWhile_id [symmetric]])
qed

lemma level_0: "\<forall>a\<in>set L. 1 \<le> height_of h a \<Longrightarrow> level h 0 L = L"
  by (rule filter_True) auto

lemma sl_search:
  assumes "sl_inv s (P @ S)"
    and "\<forall>a\<in>set P. key_of (sl_heap s) a < key" "\<forall>a\<in>set S. \<not> key_of (sl_heap s) a < key"
  shows "findPredecessors s key = Some (map (pred_at (sl_heap s) (sl_head s) P) [0..<sl_height s])"
    and "descend_cur (sl_heap s) key (sl_height s) (sl_head s) = Some (pred_at (sl_heap s) (sl_head s) P 0)"
    and "next_at (sl_heap s) (pred_at (sl_heap s) (sl_head s) P 0) 0
           = Some (case S of [] \<Rightarrow> None | a # _ \<Rightarrow> Some a)"
proof -
  have *: "\<forall>i < sl_height s. linked (sl_heap s) i (sl_head s) (level (sl_heap s) i (P @ S))"
    using assms(1) by (auto simp: sl_inv_def)
  show "findPredecessors s key = Some (map (pred_at (sl_heap s) (sl_head s) P) [0..<sl_height s])"
    unfolding findPredecessors_def using * assms(2,3) by (intro descend_spec) auto
  show "descend_cur (sl_heap s) key (sl_height s) (sl_head s) = Some (pred_at (sl_heap s) (sl_head s) P 0)"
    using descend_spec(2) [OF * assms(2,3), of "sl_head s"] assms(1) by (auto simp: sl_inv_def)
  have "level (sl_heap s) 0 P = P" "level (sl_heap s) 0 S = S"
    using assms(1) by (auto simp: sl_inv_def intro!: level_0)
  then have "linked (sl_heap s) 0 (sl_head s) (P @ S)"
    using * [rule_format, of 0] assms(1) by (simp add: sl_inv_def)
  then show "next_at (sl_heap s) (pred_at (sl_heap s) (sl_head s) P 0) 0
           = Some (case S of [] \<Rightarrow> None | a # _ \<Rightarrow> Some a)"
    using linked_next_last \<open>level (sl_heap s) 0 P = P\<close> unfolding pred_at_def by metis
qed


subsection \<open>Writing links\<close>

definition same_nodes :: "heap \<Rightarrow> heap \<Rightarrow> bool" where
  "same_nodes h h' \<longleftrightarrow>
     (\<forall>x. key_of h' x = key_of h x \<and> val_of h' x = val_of h x \<and> height_of h' x = height_of h x \<and>
          (h' x = None \<longleftrightarrow> h x = None))"

lemma set_next_spec:
  assumes "i < height_of h a"
  obtains h' where "set_next h a i v = Some h'" "same_nodes h h'"
    and "\<And>x j. next_at h' x j = (if x = a \<and> j = i then Some v else next_at h x j)"
proof -
  obtain n where n: "h a = Some n" "i < length (node_next n)"
    using assms by (auto simp: height_of_def split: option.splits)
  let ?h = "h(a \<mapsto> n\<lparr>node_next := (node_next n)[i := v]\<rparr>)"
  show thesis
  proof (rule that [of ?h])
    show "set_next h a i v = Some ?h" using n by (simp add: set_next_def)
    show "same_nodes h ?h" using n by (simp add: same_nodes_def key_of_def val_of_def height_of_def)
    show "next_at ?h x j = (if x = a \<and> j = i then Some v else next_at h x j)" for x j
      using n by (simp add: next_at_def)
  qed
qed

lemma same_nodes_trans: "same_nodes h h1 \<Longrightarrow> same_nodes h1 h2 \<Longrightarrow> same_nodes h h2"
  by (simp add: same_nodes_def)

lemma link_levels_spec:
  assumes "a \<notin> set ps" "i + length ps \<le> height_of h a"
    and "\<And>k. k < length ps \<Longrightarrow> i + k < height_of h (ps ! k)"
  obtains h' where "link_levels h a i ps = Some h'" "same_nodes h h'"
    and "\<And>x j. next_at h' x j =
           (if i \<le> j \<and> j < i + length ps then
              if x = a then next_at h (ps ! (j - i)) j
              else if x = ps ! (j - i) then Some (Some a) else next_at h x j
            else next_at h x j)"
  using assms
proof (induction ps arbitrary: h i thesis)
  case Nil
  show ?case by (rule Nil.prems(1) [of h]) (auto simp: same_nodes_def)
next
  case (Cons p ps)
  have hp: "i < height_of h p" using Cons.prems(4) [of 0] by simp
  obtain nx where nx: "next_at h p i = Some nx" using hp next_at_dom by blast
  have ha: "i < height_of h a" using Cons.prems(3) by simp
  obtain h1 where h1: "set_next h a i nx = Some h1" "same_nodes h h1"
    "\<And>x j. next_at h1 x j = (if x = a \<and> j = i then Some nx else next_at h x j)"
    using set_next_spec [OF ha, of nx] by blast
  have hp1: "i < height_of h1 p" using hp h1(2) by (simp add: same_nodes_def)
  obtain h2 where h2: "set_next h1 p i (Some a) = Some h2" "same_nodes h1 h2"
    "\<And>x j. next_at h2 x j = (if x = p \<and> j = i then Some (Some a) else next_at h1 x j)"
    using set_next_spec [OF hp1, of "Some a"] by blast
  have same: "same_nodes h h2" using h1(2) h2(2) by (rule same_nodes_trans)
  have heights: "Suc i + k < height_of h2 (ps ! k)" if "k < length ps" for k
    using Cons.prems(4) [of "Suc k"] that same by (simp add: same_nodes_def)
  have rest: "a \<notin> set ps" "Suc i + length ps \<le> height_of h2 a"
    using Cons.prems(2,3) same by (auto simp: same_nodes_def)
  obtain h' where h': "link_levels h2 a (Suc i) ps = Some h'" "same_nodes h2 h'"
    "\<And>x j. next_at h' x j =
           (if Suc i \<le> j \<and> j < Suc i + length ps then
              if x = a then next_at h2 (ps ! (j - Suc i)) j
              else if x = ps ! (j - Suc i) then Some (Some a) else next_at h2 x j
            else next_at h2 x j)"
    using Cons.IH [OF _ _ _ heights] rest by blast
  show ?case
  proof (rule Cons.prems(1) [of h'])
    show "link_levels h a i (p # ps) = Some h'" using nx h1(1) h2(1) h'(1) by simp
    show "same_nodes h h'" using same h'(2) by (rule same_nodes_trans)
    fix x j
    have "(p # ps) ! (j - i) = ps ! (j - Suc i)" if "Suc i \<le> j"
      using that by (simp add: nth_Cons' Suc_diff_le)
    then show "next_at h' x j =
           (if i \<le> j \<and> j < i + length (p # ps) then
              if x = a then next_at h ((p # ps) ! (j - i)) j
              else if x = (p # ps) ! (j - i) then Some (Some a) else next_at h x j
            else next_at h x j)"
      using Cons.prems(2) nx h1(3) h2(3) h'(3) by (cases "j = i") auto
  qed
qed

lemma unlink_levels_spec:
  assumes "t \<notin> set ps" "i + length ps \<le> height_of h t"
    and "\<And>k. k < length ps \<Longrightarrow> i + k < height_of h (ps ! k)"
  obtains h' where "unlink_levels h t i ps = Some h'" "same_nodes h h'"
    and "\<And>x j. next_at h' x j =
           (if i \<le> j \<and> j < i + length ps \<and> x = ps ! (j - i) then next_at h t j else next_at h x j)"
  using assms
proof (induction ps arbitrary: h i thesis)
  case Nil
  show ?case by (rule Nil.prems(1) [of h]) (auto simp: same_nodes_def)
next
  case (Cons p ps)
  have hp: "i < height_of h p" using Cons.prems(4) [of 0] by simp
  obtain nx where nx: "next_at h t i = Some nx"
    using Cons.prems(3) next_at_dom [of i h t] by auto
  obtain h1 where h1: "set_next h p i nx = Some h1" "same_nodes h h1"
    "\<And>x j. next_at h1 x j = (if x = p \<and> j = i then Some nx else next_at h x j)"
    using set_next_spec [OF hp, of nx] by blast
  have heights: "Suc i + k < height_of h1 (ps ! k)" if "k < length ps" for k
    using Cons.prems(4) [of "Suc k"] that h1(2) by (simp add: same_nodes_def)
  have rest: "t \<notin> set ps" "Suc i + length ps \<le> height_of h1 t"
    using Cons.prems(2,3) h1(2) by (auto simp: same_nodes_def)
  obtain h' where h': "unlink_levels h1 t (Suc i) ps = Some h'" "same_nodes h1 h'"
    "\<And>x j. next_at h' x j =
           (if Suc i \<le> j \<and> j < Suc i + length ps \<and> x = ps ! (j - Suc i) then next_at h1 t j
            else next_at h1 x j)"
    using Cons.IH [OF _ _ _ heights] rest by blast
  show ?case
  proof (rule Cons.prems(1) [of h'])
    show "unlink_levels h t i (p # ps) = Some h'" using nx h1(1) h'(1) by simp
    show "same_nodes h h'" using h1(2) h'(2) by (rule same_nodes_trans)
    fix x j
    have "(p # ps) ! (j - i) = ps ! (j - Suc i)" if "Suc i \<le> j"
      using that by (simp add: nth_Cons' Suc_diff_le)
    then show "next_at h' x j =
           (if i \<le> j \<and> j < i + length (p # ps) \<and> x = (p # ps) ! (j - i) then next_at h t j
            else next_at h x j)"
      using Cons.prems(2) nx h1(3) h'(3) by (cases "j = i") auto
  qed
qed


subsection \<open>Every operation refines its reference on sorted association lists\<close>

lemma sl_repr_New: "sl_repr (sl_New coins) []"
  unfolding sl_repr_def
  by (rule exI [of _ "[]"]) (simp add: sl_inv_def sl_New_def height_of_def next_at_def entries_of_def)

lemma sl_repr_Len: "sl_repr s kvs \<Longrightarrow> sl_Len s = length kvs"
  by (auto simp: sl_repr_def sl_inv_def entries_of_def sl_Len_def)

lemma entries_of_append: "entries_of h (P @ S) = entries_of h P @ entries_of h S"
  by (simp add: entries_of_def)

lemma kv_split_at:
  assumes "\<forall>a\<in>set P. key_of h a < key" "\<forall>a\<in>set S. \<not> key_of h a < key"
    and "sorted_wrt (\<lambda>a b. key_of h a < key_of h b) (P @ S)"
  shows "kv_put key v (entries_of h (P @ S)) =
           entries_of h P @ (key, v) # entries_of h (case S of a # S' \<Rightarrow> if key_of h a = key then S' else S | [] \<Rightarrow> [])"
    and "kv_del key (entries_of h (P @ S)) =
           entries_of h P @ entries_of h (case S of a # S' \<Rightarrow> if key_of h a = key then S' else S | [] \<Rightarrow> [])"
    and "kv_seek key (entries_of h (P @ S)) = entries_of h S"
    and "map_of (entries_of h (P @ S)) key =
           (case S of a # S' \<Rightarrow> if key_of h a = key then Some (val_of h a) else None | [] \<Rightarrow> None)"
proof -
  have below: "\<forall>p\<in>set (entries_of h P). fst p < key" using assms(1) by (auto simp: entries_of_def)
  have above: "\<forall>b\<in>set S'. key < key_of h b \<and> (key_of h a \<noteq> key \<longrightarrow> key < key_of h a)" if "S = a # S'" for a S'
    using assms(2,3) that by (fastforce simp: sorted_wrt_append not_less)
  have miss: "filter (\<lambda>a. key_of h a \<noteq> key) P = P" using assms(1) by (auto simp: filter_id_conv)
  have keep: "filter (\<lambda>a. key_of h a \<noteq> key) S' = S'" if "S = a # S'" for a S'
    using above [OF that] by (auto simp: filter_id_conv)
  show "kv_put key v (entries_of h (P @ S)) =
      entries_of h P @ (key, v) # entries_of h (case S of a # S' \<Rightarrow> if key_of h a = key then S' else S | [] \<Rightarrow> [])"
    using kv_put_append_below [OF below, of v "entries_of h S"] assms(2)
    by (cases S) (auto simp: entries_of_def)
  show "kv_del key (entries_of h (P @ S)) =
      entries_of h P @ entries_of h (case S of a # S' \<Rightarrow> if key_of h a = key then S' else S | [] \<Rightarrow> [])"
    using miss keep by (cases S) (simp_all add: entries_of_def kv_del_def filter_map comp_def)
  show "kv_seek key (entries_of h (P @ S)) = entries_of h S"
    using kv_seek_append_below [OF below, of "entries_of h S"] assms(2)
    by (cases S) (simp_all add: entries_of_def kv_seek_def)
  have "map_of (entries_of h P) key = None"
    using below by (auto simp: map_of_eq_None_iff)
  moreover have "map_of (entries_of h S) key =
      (case S of a # S' \<Rightarrow> if key_of h a = key then Some (val_of h a) else None | [] \<Rightarrow> None)"
    using above by (cases S) (auto simp: entries_of_def map_of_eq_None_iff)
  ultimately show "map_of (entries_of h (P @ S)) key =
      (case S of a # S' \<Rightarrow> if key_of h a = key then Some (val_of h a) else None | [] \<Rightarrow> None)"
    by (simp add: entries_of_def map_add_def)
qed

lemma sl_inv_alloc: "sl_inv s L \<Longrightarrow> a \<in> set L \<Longrightarrow> \<exists>n. sl_heap s a = Some n"
  by (rule height_pos_alloc) (auto simp: sl_inv_def Suc_le_eq)

lemma sl_inv_cong:
  assumes "sl_inv s L" "key_of h' = key_of (sl_heap s)" "height_of h' = height_of (sl_heap s)"
    and "next_at h' = next_at (sl_heap s)" "\<And>a. h' a = None \<longleftrightarrow> sl_heap s a = None"
  shows "sl_inv (s\<lparr>sl_heap := h'\<rparr>) L"
proof -
  have "linked h' i a xs = linked (sl_heap s) i a xs" for i a xs
    using assms(4) by (intro linked_cong) simp
  then show ?thesis using assms by (simp add: sl_inv_def)
qed

lemma randomHeight_bounds: "randomHeight coins = (ht, coins') \<Longrightarrow> 1 \<le> ht \<and> ht \<le> maxHeight"
proof -
  have "randomHeight_from h c = (ht, c') \<Longrightarrow> h \<le> maxHeight \<Longrightarrow> h \<le> ht \<and> ht \<le> maxHeight" for h c c'
  proof (induction h c rule: randomHeight_from.induct)
    case (1 h c)
    then show ?case using randomHeight_from.simps [of h c] by (auto split: if_splits)
  qed
  then show "randomHeight coins = (ht, coins') \<Longrightarrow> 1 \<le> ht \<and> ht \<le> maxHeight"
    by (auto simp: randomHeight_def)
qed

lemma pred_at_above:
  assumes "\<forall>a\<in>set P. height_of h a \<le> i" shows "pred_at h head P i = head"
proof -
  have "level h i P = []" using assms by (auto simp: filter_empty_conv not_less)
  then show ?thesis by (simp add: pred_at_def)
qed

text \<open>The state after splicing a fresh node between \<open>P\<close> and \<open>S\<close>.\<close>

lemma sl_inv_splice:
  assumes inv: "sl_inv s (P @ S)"
    and lt: "\<forall>a\<in>set P. key_of (sl_heap s) a < key" and gt: "\<forall>a\<in>set S. key < key_of (sl_heap s) a"
    and ht: "1 \<le> ht" "ht \<le> maxHeight" and a: "a = sl_fresh s"
    and h0: "h0 = (sl_heap s)(a \<mapsto> \<lparr>node_key = key, node_value = value, node_next = replicate ht None\<rparr>)"
    and same: "same_nodes h0 h'"
    and nx: "\<And>x j. next_at h' x j =
           (if j < ht then
              if x = a then next_at h0 (pred_at (sl_heap s) (sl_head s) P j) j
              else if x = pred_at (sl_heap s) (sl_head s) P j then Some (Some a) else next_at h0 x j
            else next_at h0 x j)"
  shows "sl_inv (s\<lparr>sl_heap := h', sl_height := max ht (sl_height s), sl_length := sl_length s + 1,
                   sl_fresh := Suc a, sl_coins := coins'\<rparr>) (P @ a # S)"
    and "entries_of h' (P @ a # S) = entries_of (sl_heap s) P @ (key, value) # entries_of (sl_heap s) S"
proof -
  let ?h = "sl_heap s" and ?hd = "sl_head s"
  have anone: "?h a = None" using inv a by (simp add: sl_inv_def)
  have anot: "a \<notin> set (?hd # P @ S)"
    using anone inv sl_inv_alloc [OF inv, of a]
    by (auto simp: sl_inv_def height_of_def [of _ "sl_head s"])
  have key': "key_of h' x = (if x = a then key else key_of ?h x)"
    and val': "val_of h' x = (if x = a then value else val_of ?h x)"
    and ht': "height_of h' x = (if x = a then ht else height_of ?h x)" for x
    using same by (auto simp: same_nodes_def h0 key_of_def val_of_def height_of_def)
  have nx0: "next_at h0 x j = next_at ?h x j" if "x \<noteq> a" for x j
    using that by (simp add: h0 next_at_def)
  have lvl: "level h' i L = level ?h i L" if "a \<notin> set L" for i L
    using that ht' by (intro filter_cong) auto
  have dist: "distinct (?hd # P @ S)" using sl_inv_distinct [OF inv] .
  have pred_in: "pred_at ?h ?hd P i \<in> set (?hd # P)" for i
    using pred_at_level [of 0 i ?h ?hd P] by auto
  have link: "linked h' i ?hd (level h' i (P @ a # S))" if i: "i < maxHeight" for i
  proof -
    have old: "linked ?h i ?hd (level ?h i P @ level ?h i S)"
      using inv i by (auto simp: sl_inv_def)
    have d: "distinct (?hd # level ?h i P @ level ?h i S)" using dist by auto
    have an: "a \<notin> set (?hd # level ?h i P @ level ?h i S)" using anot by auto
    show ?thesis
    proof (cases "i < ht")
      case True
      have pne: "pred_at ?h ?hd P i \<noteq> a" using pred_in [of i] anot by auto
      have "linked h' i ?hd (level ?h i P @ a # level ?h i S)"
        using old d an
      proof (rule linked_insert)
        show "next_at h' a i = next_at ?h (last (?hd # level ?h i P)) i"
          using True pne by (simp only: nx nx0 pred_at_def [symmetric] if_True simp_thms)
        show "next_at h' (last (?hd # level ?h i P)) i = Some (Some a)"
          using True pne by (simp only: nx nx0 pred_at_def [symmetric] if_True if_False simp_thms)
      next
        fix x assume "x \<in> set (?hd # level ?h i P @ level ?h i S)" "x \<noteq> last (?hd # level ?h i P)"
        then show "next_at h' x i = next_at ?h x i"
          using an by (auto simp: nx nx0 pred_at_def)
      qed
      moreover have "level h' i (P @ a # S) = level ?h i P @ a # level ?h i S"
        using True anot lvl [of P i] lvl [of S i] by (simp add: ht' [of a])
      ultimately show ?thesis by simp
    next
      case False
      have "linked h' i ?hd (level ?h i P @ level ?h i S)"
        using old
      proof (subst linked_cong [where h = ?h])
        fix x assume "x \<in> set (?hd # level ?h i P @ level ?h i S)"
        then have "x \<noteq> a" using an by auto
        then show "next_at h' x i = next_at ?h x i" using False by (simp add: nx nx0)
      qed
      moreover have "level h' i (P @ a # S) = level ?h i P @ level ?h i S"
        using False anot lvl [of P i] lvl [of S i] by (simp add: ht' [of a])
      ultimately show ?thesis by simp
    qed
  qed
  have "sorted_wrt (\<lambda>x y. key_of h' x < key_of h' y) (P @ a # S)"
  proof -
    have "sorted_wrt (<) (map (key_of ?h) (P @ S))"
      using inv by (auto simp: sl_inv_def sorted_wrt_append sorted_wrt_map)
    then have "sorted_wrt (<) (map (key_of ?h) P @ key # map (key_of ?h) S)"
      using lt gt by (auto simp: sorted_wrt_append)
    moreover have "map (key_of h') (P @ a # S) = map (key_of ?h) P @ key # map (key_of ?h) S"
      using anot by (auto simp: key')
    ultimately have "sorted_wrt (<) (map (key_of h') (P @ a # S))" by (simp only:)
    then show ?thesis by (simp only: sorted_wrt_map)
  qed
  moreover have "h' x = None" if "Suc a \<le> x" for x
  proof -
    have "?h x = None" using inv a that by (auto simp: sl_inv_def)
    then show ?thesis using same that by (simp add: same_nodes_def h0)
  qed
  ultimately show "sl_inv (s\<lparr>sl_heap := h', sl_height := max ht (sl_height s), sl_length := sl_length s + 1,
                   sl_fresh := Suc a, sl_coins := coins'\<rparr>) (P @ a # S)"
    using inv link anot ht by (auto simp: sl_inv_def ht' le_max_iff_disj)
  show "entries_of h' (P @ a # S) = entries_of ?h P @ (key, value) # entries_of ?h S"
    using anot by (auto simp: entries_of_def key' val')
qed


lemma sl_levels: "sl_inv s L \<Longrightarrow> [0..<sl_height s] = 0 # [1..<sl_height s]"
  by (simp add: sl_inv_def upt_conv_Cons)

lemma sl_Put_hit:
  assumes inv: "sl_inv s (P @ c # S)"
    and lt: "\<forall>a\<in>set P. key_of (sl_heap s) a < key" "\<forall>a\<in>set (c # S). \<not> key_of (sl_heap s) a < key"
    and eq: "key_of (sl_heap s) c = key"
  shows "\<exists>s'. sl_Put s key v = Some s' \<and> sl_repr s' (kv_put key v (entries_of (sl_heap s) (P @ c # S)))"
proof -
  let ?h = "sl_heap s"
  obtain n where n: "?h c = Some n" using sl_inv_alloc [OF inv] by auto
  have nk: "node_key n = key" using eq n by (simp add: key_of_def)
  let ?h' = "?h(c \<mapsto> n\<lparr>node_value := v\<rparr>)"
  have same: "key_of ?h' = key_of ?h" "height_of ?h' = height_of ?h" "next_at ?h' = next_at ?h"
    using n by (auto simp: key_of_def height_of_def next_at_def fun_eq_iff)
  have put: "sl_Put s key v = Some (s\<lparr>sl_heap := ?h'\<rparr>)"
    using sl_search [OF inv lt] n nk by (simp add: sl_Put_def sl_levels [OF inv])
  have inv': "sl_inv (s\<lparr>sl_heap := ?h'\<rparr>) (P @ c # S)"
    using inv n by (intro sl_inv_cong) (auto simp: same)
  have "entries_of ?h' (P @ c # S) = entries_of ?h P @ (key, v) # entries_of ?h S"
    using sl_inv_distinct [OF inv] eq by (auto simp: entries_of_def same val_of_def)
  moreover have "kv_put key v (entries_of ?h (P @ c # S)) = entries_of ?h P @ (key, v) # entries_of ?h S"
    using kv_split_at(1) [OF lt] inv eq by (simp add: sl_inv_def)
  ultimately show ?thesis using put inv' by (auto simp: sl_repr_def)
qed

lemma sl_Put_miss:
  assumes inv: "sl_inv s (P @ S)"
    and lt: "\<forall>a\<in>set P. key_of (sl_heap s) a < key" "\<forall>a\<in>set S. \<not> key_of (sl_heap s) a < key"
    and ne: "\<forall>a\<in>set S. key_of (sl_heap s) a \<noteq> key"
  shows "\<exists>s'. sl_Put s key v = Some s' \<and> sl_repr s' (kv_put key v (entries_of (sl_heap s) (P @ S)))"
proof -
  let ?h = "sl_heap s" and ?hd = "sl_head s" and ?a = "sl_fresh s" and ?pred = "pred_at (sl_heap s) (sl_head s) P"
  obtain ht coins' where coin: "randomHeight (sl_coins s) = (ht, coins')" by fastforce
  note ht = randomHeight_bounds [OF coin]
  let ?hn = "?h(?a \<mapsto> \<lparr>node_key = key, node_value = v, node_next = replicate ht None\<rparr>)"
  let ?prev = "map ?pred [0..<sl_height s]"
  have above: "?pred i = ?hd" if "sl_height s \<le> i" for i
    using inv that by (intro pred_at_above) (auto simp: sl_inv_def intro: le_trans)
  have prevs: "take ht (if ht > sl_height s then ?prev @ replicate (ht - sl_height s) ?hd else ?prev)
                 = map ?pred [0..<ht]"
    using above by (auto simp: list_eq_iff_nth_eq nth_append)
  have fresh: "?h ?a = None" using inv by (auto simp: sl_inv_def)
  have pin: "?pred i = ?hd \<or> ?pred i \<in> set P \<and> i < height_of ?h (?pred i)" for i
    using pred_at_level [of i i ?h ?hd P] by auto
  have pht: "i < height_of ?h (?pred i)" if "i < ht" for i
    using pin [of i] that ht inv by (auto simp: sl_inv_def)
  have pna: "?pred i \<noteq> ?a" if "i < ht" for i
    using pht [OF that] fresh by (auto simp: height_of_def)
  have pre: "?a \<notin> set (map ?pred [0..<ht])" "0 + length (map ?pred [0..<ht]) \<le> height_of ?hn ?a"
    using pna by (fastforce, simp add: height_of_def)
  have pre_ht: "0 + k < height_of ?hn (map ?pred [0..<ht] ! k)" if "k < length (map ?pred [0..<ht])" for k
    using that pht [of k] pna [of k] by (simp add: height_of_def)
  obtain h' where h': "link_levels ?hn ?a 0 (map ?pred [0..<ht]) = Some h'" "same_nodes ?hn h'"
    and nx: "\<And>x j. next_at h' x j =
       (if 0 \<le> j \<and> j < 0 + length (map ?pred [0..<ht]) then
          if x = ?a then next_at ?hn (map ?pred [0..<ht] ! (j - 0)) j
          else if x = map ?pred [0..<ht] ! (j - 0) then Some (Some ?a) else next_at ?hn x j
        else next_at ?hn x j)"
    using link_levels_spec [OF pre pre_ht] by blast
  have gt: "\<forall>a\<in>set S. key < key_of ?h a" using lt(2) ne by fastforce
  let ?s' = "s\<lparr>sl_heap := h', sl_height := max ht (sl_height s), sl_length := sl_length s + 1,
               sl_fresh := Suc ?a, sl_coins := coins'\<rparr>"
  have nx': "next_at h' x j =
           (if j < ht then
              if x = ?a then next_at ?hn (?pred j) j
              else if x = ?pred j then Some (Some ?a) else next_at ?hn x j
            else next_at ?hn x j)" for x j
    by (simp add: nx)
  have p0: "(case ?prev of [] \<Rightarrow> None | p # _ \<Rightarrow> Some p) = Some (?pred 0)"
    by (simp add: sl_levels [OF inv])
  have hit: "(case (case S of [] \<Rightarrow> None | a # _ \<Rightarrow> Some a) of
                None \<Rightarrow> Some None
              | Some c \<Rightarrow> do { n \<leftarrow> ?h c; Some (if node_key n = key then Some (c, n) else None) }) = Some None"
    using ne sl_inv_alloc [OF inv] by (fastforce simp: key_of_def split: list.splits)
  have "sl_Put s key v = Some ?s'"
    using sl_search [OF inv lt] hit h'(1) prevs
    by (simp add: sl_Put_def p0 coin Let_def max_def)
  moreover have "sl_inv ?s' (P @ ?a # S)"
    using ht by (intro sl_inv_splice(1) [OF inv lt(1) gt _ _ refl refl h'(2) nx']) auto
  moreover have "entries_of h' (P @ ?a # S) = entries_of ?h P @ (key, v) # entries_of ?h S"
    using ht by (intro sl_inv_splice(2) [OF inv lt(1) gt _ _ refl refl h'(2) nx']) auto
  moreover have "kv_put key v (entries_of ?h (P @ S)) = entries_of ?h P @ (key, v) # entries_of ?h S"
    using kv_split_at(1) [OF lt, of v] inv ne by (auto simp: sl_inv_def split: list.splits)
  ultimately show ?thesis by (auto simp: sl_repr_def)
qed

lemma sl_repr_Put:
  assumes "sl_repr s kvs"
  shows "\<exists>s'. sl_Put s key v = Some s' \<and> sl_repr s' (kv_put key v kvs)"
proof -
  obtain L where L: "sl_inv s L" "kvs = entries_of (sl_heap s) L" using assms by (auto simp: sl_repr_def)
  obtain P S where PS: "L = P @ S" "\<forall>a\<in>set P. key_of (sl_heap s) a < key" "\<forall>a\<in>set S. \<not> key_of (sl_heap s) a < key"
    using sl_inv_split [OF L(1)] by blast
  show ?thesis
  proof (cases "\<exists>c S'. S = c # S' \<and> key_of (sl_heap s) c = key")
    case True
    then show ?thesis using sl_Put_hit PS L by blast
  next
    case False
    have "sorted_wrt (\<lambda>a b. key_of (sl_heap s) a < key_of (sl_heap s) b) S"
      using L(1) PS(1) by (auto simp: sl_inv_def sorted_wrt_append)
    then have "\<forall>a\<in>set S. key_of (sl_heap s) a \<noteq> key" using False PS(3) by (cases S) auto
    then show ?thesis using sl_Put_miss PS L by blast
  qed
qed

lemma sl_repr_Get:
  assumes "sl_repr s kvs"
  shows "sl_Get s key = Some (map_of kvs key)"
proof -
  obtain L where L: "sl_inv s L" "kvs = entries_of (sl_heap s) L" using assms by (auto simp: sl_repr_def)
  obtain P S where PS: "L = P @ S" and lt: "\<forall>a\<in>set P. key_of (sl_heap s) a < key" "\<forall>a\<in>set S. \<not> key_of (sl_heap s) a < key"
    using sl_inv_split [OF L(1)] by blast
  note inv = L(1) [unfolded PS]
  have "map_of kvs key = (case S of a # S' \<Rightarrow> if key_of (sl_heap s) a = key then Some (val_of (sl_heap s) a) else None | [] \<Rightarrow> None)"
    unfolding L(2) PS using inv by (intro kv_split_at(4) [OF lt]) (simp add: sl_inv_def)
  then show ?thesis
    using sl_search [OF inv lt] sl_inv_alloc [OF inv]
    by (fastforce simp: sl_Get_def key_of_def val_of_def split: list.splits)
qed

text \<open>Deletion.\<close>

lemma lower_height_spec:
  assumes "\<forall>i<maxHeight. linked h i head (level h i L)" "1 \<le> n" "n \<le> maxHeight"
    and "\<forall>a\<in>set L. height_of h a \<le> n"
  shows "\<exists>m. lower_height h head n = Some m \<and> 1 \<le> m \<and> m \<le> n \<and> (\<forall>a\<in>set L. height_of h a \<le> m)"
  using assms
proof (induction h head n rule: lower_height.induct)
  case (1 h head n)
  have lk: "linked h (Suc n) head (level h (Suc n) L)" using 1(2,4) by auto
  show ?case
  proof (cases "level h (Suc n) L")
    case Nil
    then have "next_at h head (Suc n) = Some None" "\<forall>a\<in>set L. height_of h a \<le> Suc n"
      using lk by (auto simp: filter_empty_conv not_less)
    then show ?thesis using 1 by (fastforce intro: le_SucI)
  next
    case (Cons b bs)
    then show ?thesis using lk 1(5) by auto
  qed
qed auto

lemma sl_inv_unsplice:
  assumes inv: "sl_inv s (P @ t # S)" and same: "same_nodes (sl_heap s) h'"
    and nx: "\<And>x j. next_at h' x j =
           (if j < height_of (sl_heap s) t \<and> x = pred_at (sl_heap s) (sl_head s) P j
            then next_at (sl_heap s) t j else next_at (sl_heap s) x j)"
    and ht: "1 \<le> ht" "ht \<le> sl_height s" "\<forall>a\<in>set (P @ S). height_of h' a \<le> ht"
  shows "sl_inv (s\<lparr>sl_heap := h', sl_height := ht, sl_length := sl_length s - 1\<rparr>) (P @ S)"
    and "\<forall>i<maxHeight. linked h' i (sl_head s) (level h' i (P @ S))"
proof -
  let ?h = "sl_heap s" and ?hd = "sl_head s"
  have kh: "key_of h' = key_of ?h" "height_of h' = height_of ?h"
    using same by (auto simp: same_nodes_def)
  show link: "\<forall>i<maxHeight. linked h' i ?hd (level h' i (P @ S))"
  proof (intro allI impI)
    fix i assume i: "i < maxHeight"
    have old: "linked ?h i ?hd (level ?h i (P @ t # S))" using inv i by (simp add: sl_inv_def)
    have dist: "distinct (?hd # P @ t # S)" using sl_inv_distinct [OF inv] .
    show "linked h' i ?hd (level h' i (P @ S))"
    proof (cases "i < height_of ?h t")
      case True
      have "linked h' i ?hd (level ?h i P @ level ?h i S)"
      proof (rule linked_remove)
        show "linked ?h i ?hd (level ?h i P @ t # level ?h i S)" using old True by simp
        show "distinct (?hd # level ?h i P @ t # level ?h i S)" using dist by auto
        show "next_at h' (last (?hd # level ?h i P)) i = next_at ?h t i"
          using True unfolding nx pred_at_def by simp
      next
        fix x assume "x \<noteq> last (?hd # level ?h i P)"
        then show "next_at h' x i = next_at ?h x i" unfolding nx pred_at_def by simp
      qed
      then show ?thesis by (simp add: kh)
    next
      case False
      then have "linked h' i ?hd (level ?h i (P @ S)) = linked ?h i ?hd (level ?h i (P @ S))"
        by (intro linked_cong) (simp add: nx)
      then show ?thesis using old False by (simp add: kh)
    qed
  qed
  show "sl_inv (s\<lparr>sl_heap := h', sl_height := ht, sl_length := sl_length s - 1\<rparr>) (P @ S)"
    using inv link ht same by (auto simp: sl_inv_def kh sorted_wrt_append same_nodes_def)
qed

lemma sl_Delete_hit:
  assumes inv: "sl_inv s (P @ t # S)"
    and lt: "\<forall>a\<in>set P. key_of (sl_heap s) a < key" "\<forall>a\<in>set (t # S). \<not> key_of (sl_heap s) a < key"
    and eq: "key_of (sl_heap s) t = key"
  shows "\<exists>s'. sl_Delete s key = Some (True, s') \<and> sl_repr s' (kv_del key (entries_of (sl_heap s) (P @ t # S)))"
proof -
  let ?h = "sl_heap s" and ?hd = "sl_head s" and ?pred = "pred_at (sl_heap s) (sl_head s) P"
  obtain n where n: "?h t = Some n" using sl_inv_alloc [OF inv] by auto
  have nk: "node_key n = key" "length (node_next n) = height_of ?h t"
    using eq n by (auto simp: key_of_def height_of_def)
  let ?ht = "height_of ?h t"
  have ht: "?ht \<le> sl_height s" "sl_height s \<le> maxHeight" using inv by (auto simp: sl_inv_def)
  have pin: "?pred i = ?hd \<or> ?pred i \<in> set P \<and> i < height_of ?h (?pred i)" for i
    using pred_at_level [of i i ?h ?hd P] by auto
  have "?pred i \<noteq> t" for i using pin [of i] sl_inv_distinct [OF inv] by auto
  then have "t \<notin> set (map ?pred [0..<?ht])" by auto
  moreover have "0 + length (map ?pred [0..<?ht]) \<le> ?ht" by simp
  moreover have "0 + k < height_of ?h (map ?pred [0..<?ht] ! k)" if "k < length (map ?pred [0..<?ht])" for k
    using that pin [of k] ht inv by (auto simp: sl_inv_def)
  ultimately obtain h' where h': "unlink_levels ?h t 0 (map ?pred [0..<?ht]) = Some h'" "same_nodes ?h h'"
    and nx: "\<And>x j. next_at h' x j =
       (if 0 \<le> j \<and> j < 0 + length (map ?pred [0..<?ht]) \<and> x = map ?pred [0..<?ht] ! (j - 0)
        then next_at ?h t j else next_at ?h x j)"
    using unlink_levels_spec by blast
  have nx': "next_at h' x j = (if j < ?ht \<and> x = ?pred j then next_at ?h t j else next_at ?h x j)" for x j
    by (auto simp: nx)
  have kh: "key_of h' = key_of ?h" "val_of h' = val_of ?h" "height_of h' = height_of ?h"
    using h'(2) by (auto simp: same_nodes_def)
  have hb: "1 \<le> sl_height s" "\<forall>a\<in>set (P @ S). height_of h' a \<le> sl_height s"
    using inv kh by (auto simp: sl_inv_def)
  obtain m where m: "lower_height h' ?hd (sl_height s) = Some m" "1 \<le> m" "m \<le> sl_height s"
    "\<forall>a\<in>set (P @ S). height_of h' a \<le> m"
    using lower_height_spec [OF sl_inv_unsplice(2) [OF inv h'(2) nx' hb(1) _ hb(2)] hb(1) _ hb(2)] ht by blast
  have take: "take ?ht (map ?pred [0..<sl_height s]) = map ?pred [0..<?ht]"
    using ht by (simp add: take_map)
  have p0: "(case map ?pred [0..<sl_height s] of [] \<Rightarrow> None | p # _ \<Rightarrow> Some p) = Some (?pred 0)"
    by (simp add: sl_levels [OF inv])
  have "sl_Delete s key = Some (True, s\<lparr>sl_heap := h', sl_height := m, sl_length := sl_length s - 1\<rparr>)"
    using sl_search [OF inv lt] n nk h'(1) m(1) ht(1) by (simp add: sl_Delete_def p0 take)
  moreover have "sl_inv (s\<lparr>sl_heap := h', sl_height := m, sl_length := sl_length s - 1\<rparr>) (P @ S)"
    using sl_inv_unsplice(1) [OF inv h'(2) nx' m(2-4)] .
  moreover have "entries_of h' (P @ S) = kv_del key (entries_of ?h (P @ t # S))"
    using kv_split_at(2) [OF lt] inv eq by (simp add: sl_inv_def entries_of_def kh)
  ultimately show ?thesis by (auto simp: sl_repr_def)
qed

lemma sl_repr_Delete:
  assumes "sl_repr s kvs"
  shows "\<exists>s'. sl_Delete s key = Some (map_of kvs key \<noteq> None, s') \<and> sl_repr s' (kv_del key kvs)"
proof -
  obtain L where L: "sl_inv s L" "kvs = entries_of (sl_heap s) L" using assms by (auto simp: sl_repr_def)
  obtain P S where PS: "L = P @ S" and lt: "\<forall>a\<in>set P. key_of (sl_heap s) a < key" "\<forall>a\<in>set S. \<not> key_of (sl_heap s) a < key"
    using sl_inv_split [OF L(1)] by blast
  note inv = L(1) [unfolded PS]
  have srt: "sorted_wrt (\<lambda>a b. key_of (sl_heap s) a < key_of (sl_heap s) b) (P @ S)"
    using inv by (simp add: sl_inv_def)
  note spl = kv_split_at [OF lt srt, folded PS L(2)]
  show ?thesis
  proof (cases "\<exists>c S'. S = c # S' \<and> key_of (sl_heap s) c = key")
    case True
    then obtain c S' where c: "S = c # S'" "key_of (sl_heap s) c = key" by blast
    have "\<exists>s'. sl_Delete s key = Some (True, s') \<and> sl_repr s' (kv_del key (entries_of (sl_heap s) (P @ c # S')))"
      using inv lt c by (intro sl_Delete_hit) auto
    then show ?thesis using spl(4) c L(2) PS by simp
  next
    case False
    then have "map_of kvs key = None" "kv_del key kvs = kvs"
      using spl(2,4) L(2) PS by (auto simp: entries_of_def split: list.splits)
    moreover have "sl_Delete s key = Some (False, s)"
      using sl_search [OF inv lt] False sl_inv_alloc [OF inv]
      by (fastforce simp: sl_Delete_def sl_levels [OF inv] key_of_def split: list.splits)
    ultimately show ?thesis using assms by simp
  qed
qed

text \<open>Iteration.  \<open>sl_at s r kvs\<close> says that following \<^verbatim>\<open>Next\<close> from \<open>r\<close> visits \<open>kvs\<close>;
  \<open>iter_list\<close> is the reference loop over a list with early exit.\<close>

fun sl_at :: "Skiplist \<Rightarrow> addr option \<Rightarrow> bytes kvs \<Rightarrow> bool" where
  "sl_at s r [] \<longleftrightarrow> r = None"
| "sl_at s r (p # ps) \<longleftrightarrow>
     (\<exists>a n nx. r = Some a \<and> sl_heap s a = Some n \<and> p = (node_key n, node_value n) \<and>
               next_at (sl_heap s) a 0 = Some nx \<and> sl_at s nx ps)"

fun iter_list :: "(bytes \<Rightarrow> bytes \<Rightarrow> 'a \<Rightarrow> 'a \<times> bool) \<Rightarrow> bytes kvs \<Rightarrow> 'a \<Rightarrow> 'a" where
  "iter_list fn [] st = st"
| "iter_list fn ((k, v) # ps) st =
     (let r = fn k v st in if snd r then iter_list fn ps (fst r) else fst r)"

lemma linked_sl_at:
  assumes "linked (sl_heap s) 0 a L" "\<forall>b\<in>set L. \<exists>n. sl_heap s b = Some n"
  shows "\<exists>r. next_at (sl_heap s) a 0 = Some r \<and> sl_at s r (entries_of (sl_heap s) L)"
  using assms
proof (induction L arbitrary: a)
  case (Cons b L)
  then obtain n r where "sl_heap s b = Some n" "next_at (sl_heap s) b 0 = Some r"
    "sl_at s r (entries_of (sl_heap s) L)" by fastforce
  then show ?case using Cons.prems(1) by (simp add: entries_of_def key_of_def val_of_def)
qed (simp add: entries_of_def)

lemma iterate_from_at:
  "sl_at s r kvs \<Longrightarrow> iterate_from (sl_heap s) fn r st = Some (iter_list fn kvs st)"
proof (induction kvs arbitrary: r st)
  case Nil
  then show ?case by (simp add: iterate_from.simps)
next
  case (Cons p ps)
  then show ?case by (subst iterate_from.simps) (auto simp: Let_def)
qed

lemma sl_repr_linked:
  assumes "sl_inv s (P @ S)"
  shows "\<exists>r. next_at (sl_heap s) (last (sl_head s # P)) 0 = Some r \<and> sl_at s r (entries_of (sl_heap s) S)"
proof -
  have "level (sl_heap s) 0 (P @ S) = P @ S"
    using assms by (intro level_0) (simp add: sl_inv_def)
  then have lk: "linked (sl_heap s) 0 (sl_head s) (P @ S)"
    using assms unfolding sl_inv_def by (metis zero_less_numeral)
  have "linked (sl_heap s) 0 (last (sl_head s # P)) S"
  proof (cases P rule: rev_cases)
    case (snoc P' p)
    then show ?thesis using linked_suffix lk by force
  qed (use lk in simp)
  then show ?thesis using sl_inv_alloc [OF assms] by (intro linked_sl_at) auto
qed

lemma sl_repr_SeekGE:
  assumes "sl_repr s kvs"
  shows "\<exists>r. sl_SeekGE s target = Some r \<and> sl_at s r (kv_seek target kvs)"
proof -
  obtain L where L: "sl_inv s L" "kvs = entries_of (sl_heap s) L" using assms by (auto simp: sl_repr_def)
  obtain P S where PS: "L = P @ S" and lt: "\<forall>a\<in>set P. key_of (sl_heap s) a < target" "\<forall>a\<in>set S. \<not> key_of (sl_heap s) a < target"
    using sl_inv_split [OF L(1)] by blast
  note inv = L(1) [unfolded PS]
  have "level (sl_heap s) 0 P = P" using inv by (intro level_0) (simp add: sl_inv_def)
  then have "pred_at (sl_heap s) (sl_head s) P 0 = last (sl_head s # P)" by (simp add: pred_at_def)
  moreover have "kv_seek target kvs = entries_of (sl_heap s) S"
    unfolding L(2) PS using inv by (intro kv_split_at(3) [OF lt]) (simp add: sl_inv_def)
  ultimately show ?thesis
    using sl_search(2) [OF inv lt] sl_repr_linked [OF inv] by (simp add: sl_SeekGE_def)
qed

lemma sl_repr_first:
  "sl_repr s kvs \<Longrightarrow> \<exists>r. next_at (sl_heap s) (sl_head s) 0 = Some r \<and> sl_at s r kvs"
  using sl_repr_linked [of s "[]"] by (auto simp: sl_repr_def)

lemma sl_repr_Iterate:
  "sl_repr s kvs \<Longrightarrow> sl_Iterate s fn st = Some (iter_list fn kvs st)"
  using sl_repr_first [of s kvs] iterate_from_at [of s _ kvs] by (fastforce simp: sl_Iterate_def)

lemma iter_list_all:
  "(\<And>k v st. fn k v st = (f k v st, True)) \<Longrightarrow> iter_list fn ps st = fold (\<lambda>(k, v). f k v) ps st"
  by (induction ps arbitrary: st) auto


interpretation sl: ordered_store sl_repr sl_Put sl_Delete sl_Get
  by unfold_locales (rule sl_repr_sorted sl_repr_Put sl_repr_Delete sl_repr_Get, assumption)+

definition sl_run :: "store_op list \<Rightarrow> Skiplist \<Rightarrow> Skiplist option" where
  "sl_run ops s = store_run sl_Put sl_Delete ops s"

lemma iter_list_collect: "iter_list (\<lambda>k v acc. (acc @ [(k, v)], True)) ps acc = acc @ ps"
  by (induction ps arbitrary: acc) (auto simp: Let_def)

subsection \<open>Properties\<close>

text \<open>C29: from an empty skiplist and for every sequence of coin flips, every history of puts and
  deletes returns; \<^verbatim>\<open>Get\<close> answers with the last write of the key, \<^verbatim>\<open>Len\<close> counts the live keys and
  \<^verbatim>\<open>Iterate\<close> visits exactly the live entries in strictly ascending key order.\<close>

theorem sl_history:
  "\<exists>s. sl_run ops (sl_New coins) = Some s \<and>
       sl_Get s k = Some (last_write ops k None) \<and>
       sl_Len s = length (kv_run ops []) \<and>
       sl_Iterate s (\<lambda>k v acc. (acc @ [(k, v)], True)) [] = Some (kv_run ops []) \<and>
       kv_sorted (kv_run ops [])"
proof -
  obtain s where s: "sl_run ops (sl_New coins) = Some s" "sl_repr s (kv_run ops [])"
    using sl.run [OF sl_repr_New] unfolding sl_run_def by blast
  then show ?thesis
    by (auto simp: sl_repr_Get sl_repr_Len sl_repr_Iterate sl_repr_sorted iter_list_collect map_of_kv_run)
qed

text \<open>After any history, \<^verbatim>\<open>SeekGE\<close> returns a node from which \<^verbatim>\<open>Next\<close> visits exactly the entries
  whose key is at least the target, in order.\<close>

theorem sl_seek_history:
  "\<exists>s r. sl_run ops (sl_New coins) = Some s \<and> sl_SeekGE s target = Some r \<and>
         iterate_from (sl_heap s) (\<lambda>k v acc. (acc @ [(k, v)], True)) r []
           = Some (filter (\<lambda>p. target \<le> fst p) (kv_run ops []))"
proof -
  obtain s where s: "sl_run ops (sl_New coins) = Some s" "sl_repr s (kv_run ops [])"
    using sl.run [OF sl_repr_New] unfolding sl_run_def by blast
  obtain r where "sl_SeekGE s target = Some r" "sl_at s r (kv_seek target (kv_run ops []))"
    using sl_repr_SeekGE [OF s(2)] by blast
  then show ?thesis
    using s kv_seek_filter [OF sl_repr_sorted [OF s(2)]]
    by (auto simp: iterate_from_at iter_list_collect)
qed

end
