(* ===== verification/Mvcc_Store.thy ===== *)
theory Mvcc_Store
  imports MvccKey
begin

section \<open>Versioned stores over encoded keys\<close>

text \<open>
  What the memtable, the sstables and the database promise about versions.  A store is a sorted
  list of (encoded key, stored value) entries.  \<open>mvcc_read\<close> is the specification of a snapshot
  read: the newest version of the user key whose timestamp is at most the snapshot.
  \<open>seek_version\<close> is what the code does instead: one seek to \<^verbatim>\<open>Encode(userKey, snapshot)\<close> and a look
  at the entry found.  The two agree on stores of clean keys.
\<close>

subsection \<open>Specification\<close>

text \<open>The newest of a list of versions; the first one wins among equal timestamps.\<close>

fun newest :: "(u64 \<times> 'a) list \<Rightarrow> (u64 \<times> 'a) option" where
  "newest [] = None"
| "newest (p # ps) =
     (case newest ps of None \<Rightarrow> Some p | Some q \<Rightarrow> if fst p < fst q then Some q else Some p)"

definition mvcc_versions :: "'a kvs \<Rightarrow> bytes \<Rightarrow> (u64 \<times> 'a) list" where
  "mvcc_versions kvs uk =
     map (\<lambda>(k, v). (mvcc_Timestamp k, v))
       (filter (\<lambda>(k, v). snd (snd (mvcc_Decode k)) \<and> mvcc_UserKey k = uk) kvs)"

definition mvcc_read :: "'a kvs \<Rightarrow> bytes \<Rightarrow> u64 \<Rightarrow> (u64 \<times> 'a) option" where
  "mvcc_read kvs uk snap = newest (filter (\<lambda>p. fst p \<le> snap) (mvcc_versions kvs uk))"

definition seek_version :: "'a kvs \<Rightarrow> bytes \<Rightarrow> u64 \<Rightarrow> (u64 \<times> 'a) option" where
  "seek_version kvs uk snap =
     (case kv_seek (mvcc_Encode uk snap) kvs of
        [] \<Rightarrow> None
      | (k, v) # _ \<Rightarrow>
          (case mvcc_Decode k of
             (uk', ts, ok) \<Rightarrow> if \<not> ok \<or> uk' \<noteq> uk then None else Some (ts, v)))"

text \<open>What a lookup reports for the version it found: the value, the operation (1 is a put, 2 a
  tombstone) and whether there is one.  A stored value is the operation byte followed by the value.\<close>

definition read_result :: "(u64 \<times> bytes) option \<Rightarrow> bytes \<times> byte \<times> bool" where
  "read_result r =
     (case r of
        None \<Rightarrow> ([], 0, False)
      | Some (ts, stored) \<Rightarrow>
          (case stored of
             [] \<Rightarrow> ([], 1, True)
           | op # raw \<Rightarrow> if op = 2 then ([], 2, True) else (raw, 1, True)))"

text \<open>A clean entry: a user key without the byte \<open>0xFF\<close> at a timestamp below \<open>2 ^ 56\<close>.\<close>

definition clean_key :: "bytes \<Rightarrow> bool" where
  "clean_key k \<longleftrightarrow>
     snd (snd (mvcc_Decode k)) \<and> ff_free (mvcc_UserKey k) \<and> small_ts (mvcc_Timestamp k)"

definition clean_kvs :: "'a kvs \<Rightarrow> bool" where
  "clean_kvs kvs \<longleftrightarrow> kv_sorted kvs \<and> (\<forall>p\<in>set kvs. clean_key (fst p))"

subsection \<open>Lemmas\<close>

lemma clean_key_Encode [simp]: "clean_key (mvcc_Encode uk ts) \<longleftrightarrow> ff_free uk \<and> small_ts ts"
  by (simp add: clean_key_def)

lemma clean_keyE:
  assumes "clean_key k" obtains uk ts where "k = mvcc_Encode uk ts" "ff_free uk" "small_ts ts"
  using assms by (metis clean_key_Encode clean_key_def mvcc_Decode_ok_iff)

lemma newest_None [simp]: "newest ps = None \<longleftrightarrow> ps = []"
  by (cases ps) (auto split: option.splits)

lemma newest_in_set: "newest ps = Some p \<Longrightarrow> p \<in> set ps"
  by (induction ps arbitrary: p) (auto split: option.splits if_splits)

lemma newest_ge: "newest ps = Some p \<Longrightarrow> q \<in> set ps \<Longrightarrow> fst q \<le> fst p"
  by (induction ps arbitrary: p q) (fastforce split: option.splits if_splits)+

lemma newest_eqI:
  assumes "p \<in> set ps" "\<And>q. q \<in> set ps \<Longrightarrow> fst q \<le> fst p \<and> (fst q = fst p \<longrightarrow> q = p)"
  shows "newest ps = Some p"
proof -
  obtain q where q: "newest ps = Some q" using assms(1) by (cases "newest ps") auto
  then have "fst p \<le> fst q" "q \<in> set ps" using assms(1) newest_ge newest_in_set by blast+
  then have "q = p" using assms(2) [of q] by (auto intro: order.antisym)
  then show ?thesis using q by simp
qed

lemma newest_append:
  "newest (xs @ ys) =
     (case newest xs of None \<Rightarrow> newest ys
      | Some p \<Rightarrow> (case newest ys of None \<Rightarrow> Some p | Some q \<Rightarrow> if fst p < fst q then Some q else Some p))"
  by (induction xs) (auto split: option.splits)

text \<open>A source whose versions are all at least as new shadows the sources behind it.\<close>

lemma newest_append_left:
  assumes "xs \<noteq> []" "\<And>p q. p \<in> set xs \<Longrightarrow> q \<in> set ys \<Longrightarrow> fst q \<le> fst p"
  shows "newest (xs @ ys) = newest xs"
proof -
  obtain p where p: "newest xs = Some p" using assms(1) by (cases "newest xs") auto
  then have "\<not> fst p < fst q" if "newest ys = Some q" for q
    using assms(2) newest_in_set [OF p] newest_in_set [OF that] by (simp add: not_less)
  then show ?thesis using p by (auto simp: newest_append split: option.splits)
qed

lemma set_mvcc_versions:
  "(ts, v) \<in> set (mvcc_versions kvs uk) \<longleftrightarrow> (mvcc_Encode uk ts, v) \<in> set kvs"
proof
  assume "(ts, v) \<in> set (mvcc_versions kvs uk)"
  then obtain k where k: "(k, v) \<in> set kvs" "snd (snd (mvcc_Decode k))" "mvcc_UserKey k = uk" "mvcc_Timestamp k = ts"
    by (auto simp: mvcc_versions_def)
  then have "k = mvcc_Encode uk ts" by (auto simp: mvcc_Decode_ok_iff)
  then show "(mvcc_Encode uk ts, v) \<in> set kvs" using k by simp
next
  assume "(mvcc_Encode uk ts, v) \<in> set kvs"
  then show "(ts, v) \<in> set (mvcc_versions kvs uk)"
    by (force simp: mvcc_versions_def image_iff)
qed

text \<open>The newest version depends on a list of versions only through the map it denotes.\<close>

lemma newest_map_of: "newest ps = Some (t, v) \<Longrightarrow> map_of ps t = Some v"
  by (induction ps arbitrary: t v) (auto split: option.splits if_splits)

lemma newest_cong:
  assumes "map_of ps = map_of qs" shows "newest ps = newest qs"
proof (cases "newest ps")
  case None
  then have "dom (map_of qs) = {}" using assms by simp
  then show ?thesis using None by (simp add: dom_map_of_conv_image_fst)
next
  case (Some p)
  obtain t v where p: "p = (t, v)" by (cases p)
  have "qs \<noteq> []" using Some newest_map_of [of ps t v] assms p by auto
  then obtain t' v' where q: "newest qs = Some (t', v')" by (cases "newest qs") auto
  have m: "map_of qs t = Some v" "map_of ps t' = Some v'"
    using newest_map_of Some q assms p by metis+
  then have "t \<le> t'" "t' \<le> t"
    using newest_ge [OF q] newest_ge [OF Some] p by (auto dest!: map_of_SomeD)
  then show ?thesis using m assms Some q p by auto
qed

lemma map_of_filter_fst: "map_of (filter (\<lambda>p. P (fst p)) ps) k = (if P k then map_of ps k else None)"
  by (induction ps) auto

lemma map_of_mvcc_versions: "map_of (mvcc_versions kvs uk) ts = map_of kvs (mvcc_Encode uk ts)"
proof (induction kvs)
  case (Cons p kvs)
  obtain k v where p: "p = (k, v)" by (cases p)
  show ?case
  proof (cases "snd (snd (mvcc_Decode k))")
    case True
    then obtain uk' ts' where "k = mvcc_Encode uk' ts'" by (auto simp: mvcc_Decode_ok_iff)
    then show ?thesis using Cons p by (auto simp: mvcc_versions_def)
  next
    case False
    then have "k \<noteq> mvcc_Encode uk ts" by auto
    then show ?thesis using Cons p False by (auto simp: mvcc_versions_def)
  qed
qed (simp add: mvcc_versions_def)

lemma mvcc_read_cong:
  assumes "\<And>ts. map_of kvs (mvcc_Encode uk ts) = map_of vs ts"
  shows "mvcc_read kvs uk snap = newest (filter (\<lambda>p. fst p \<le> snap) vs)"
  unfolding mvcc_read_def
  by (rule newest_cong)
     (simp add: fun_eq_iff map_of_filter_fst [of "\<lambda>t. t \<le> snap"] map_of_mvcc_versions assms)

lemma mvcc_versions_append: "mvcc_versions (xs @ ys) uk = mvcc_versions xs uk @ mvcc_versions ys uk"
  by (simp add: mvcc_versions_def)

lemma clean_kvs_head:
  assumes "clean_kvs kvs" "kv_seek x kvs = p # rest"
  shows "p \<in> set kvs" "x \<le> fst p" "\<And>q. q \<in> set kvs \<Longrightarrow> x \<le> fst q \<Longrightarrow> fst p \<le> fst q"
    and "\<And>q. q \<in> set kvs \<Longrightarrow> fst q = fst p \<Longrightarrow> q = p"
proof -
  have s: "kv_sorted kvs" using assms(1) by (simp add: clean_kvs_def)
  have f: "filter (\<lambda>p. x \<le> fst p) kvs = p # rest" using assms(2) kv_seek_filter [OF s] by simp
  then have "p \<in> set (filter (\<lambda>p. x \<le> fst p) kvs)" by simp
  then show "p \<in> set kvs" "x \<le> fst p" by auto
  have "kv_sorted (p # rest)" using kv_sorted_filter [OF s] f by metis
  then show "fst p \<le> fst q" if "q \<in> set kvs" "x \<le> fst q" for q
  proof -
    have "q \<in> set (p # rest)" unfolding f [symmetric] using that by simp
    then show ?thesis using \<open>kv_sorted (p # rest)\<close> by auto
  qed
  show "q = p" if "q \<in> set kvs" "fst q = fst p" for q
    using kv_sorted_distinct [OF s] that \<open>p \<in> set kvs\<close>
    by (metis eq_key_imp_eq_value prod.collapse)
qed

lemma kv_seek_Nil: "kv_sorted kvs \<Longrightarrow> kv_seek x kvs = [] \<longleftrightarrow> (\<forall>p\<in>set kvs. fst p < x)"
  by (auto simp: kv_seek_filter filter_empty_conv not_le)

text \<open>The seek returns what the specification asks for.\<close>

lemma seek_version_contiguous:
  assumes cl: "clean_kvs kvs"
    and cont: "\<And>uk' ts v t w. (mvcc_Encode uk' ts, v) \<in> set kvs \<Longrightarrow> (mvcc_Encode uk t, w) \<in> set kvs \<Longrightarrow>
      mvcc_Encode uk snap \<le> mvcc_Encode uk' ts \<Longrightarrow> mvcc_Encode uk' ts \<le> mvcc_Encode uk t \<Longrightarrow>
      t \<le> snap \<Longrightarrow> uk' = uk"
  shows "seek_version kvs uk snap = mvcc_read kvs uk snap"
proof (cases "kv_seek (mvcc_Encode uk snap) kvs")
  case Nil
  then have "\<forall>p\<in>set kvs. fst p < mvcc_Encode uk snap"
    using cl kv_seek_Nil by (auto simp: clean_kvs_def)
  then have "filter (\<lambda>p. fst p \<le> snap) (mvcc_versions kvs uk) = []"
    by (fastforce simp: filter_empty_conv set_mvcc_versions)
  then show ?thesis using Nil by (simp add: seek_version_def mvcc_read_def)
next
  case (Cons p rest)
  note hd = clean_kvs_head [OF cl Cons]
  obtain uk' ts v where p: "p = (mvcc_Encode uk' ts, v)" "ff_free uk'" "small_ts ts"
    using cl hd(1) clean_keyE by (metis clean_kvs_def prod.collapse)
  show ?thesis
  proof (cases "uk' = uk")
    case True
    have ts: "ts \<le> snap" using hd(2) p True by (simp add: not_less [symmetric])
    have "newest (filter (\<lambda>p. fst p \<le> snap) (mvcc_versions kvs uk)) = Some (ts, v)"
    proof (rule newest_eqI)
      show "(ts, v) \<in> set (filter (\<lambda>p. fst p \<le> snap) (mvcc_versions kvs uk))"
        using hd(1) p True ts by (simp add: set_mvcc_versions)
    next
      fix q assume "q \<in> set (filter (\<lambda>p. fst p \<le> snap) (mvcc_versions kvs uk))"
      then obtain t w where q: "q = (t, w)" "t \<le> snap" "(mvcc_Encode uk t, w) \<in> set kvs"
        using set_mvcc_versions [of "fst q" "snd q" kvs uk] by (auto intro: that [of "fst q" "snd q"])
      then have "mvcc_Encode uk ts \<le> mvcc_Encode uk t"
        using hd(3) [OF q(3)] p(1) True by (simp add: not_less [symmetric])
      then have "t \<le> ts" by (simp add: not_less [symmetric])
      then show "fst q \<le> fst (ts, v) \<and> (fst q = fst (ts, v) \<longrightarrow> q = (ts, v))"
        using hd(4) [OF q(3)] p(1) True q(1) by auto
    qed
    then show ?thesis using Cons p(1) True by (simp add: seek_version_def mvcc_read_def)
  next
    case False
    have "\<not> t \<le> snap" if "(mvcc_Encode uk t, w) \<in> set kvs" for t w
    proof
      assume t: "t \<le> snap"
      then have "mvcc_Encode uk' ts \<le> mvcc_Encode uk t"
        using hd(3) [OF that] p(1) by (simp add: not_less [symmetric])
      then show False using cont [OF _ that] p(1) hd(1,2) t False by auto
    qed
    then have "filter (\<lambda>p. fst p \<le> snap) (mvcc_versions kvs uk) = []"
      by (auto simp: filter_empty_conv set_mvcc_versions)
    then show ?thesis using Cons p(1) False by (simp add: seek_version_def mvcc_read_def)
  qed
qed

lemma seek_version_read:
  assumes cl: "clean_kvs kvs" and uk: "ff_free uk" and sn: "small_ts snap"
  shows "seek_version kvs uk snap = mvcc_read kvs uk snap"
proof (rule seek_version_contiguous [OF cl])
  fix uk' ts v t w
  assume in1: "(mvcc_Encode uk' ts, v) \<in> set kvs" and "t \<le> snap"
    and le: "mvcc_Encode uk snap \<le> mvcc_Encode uk' ts" "mvcc_Encode uk' ts \<le> mvcc_Encode uk t"
  have "ff_free uk'" "small_ts ts" using cl in1 by (auto simp: clean_kvs_def dest!: bspec)
  then show "uk' = uk"
    using mvcc_Encode_between [OF uk _ sn _ _ le] small_ts_le [OF \<open>t \<le> snap\<close> sn] by blast
qed

text \<open>The seek to the largest timestamp is not inside the clean range.  It finds the newest version
  when no stored key extends the user key, and misses every version when one does.\<close>

lemma put_be_zero: "put_be n 0 = replicate n 0"
  by (induction n) auto

lemma be_PutUint64_zero: "be_PutUint64 0 = 0 # replicate 7 0"
  by (simp add: be_PutUint64_def put_be_zero replicate_Suc [symmetric] del: replicate_Suc)

lemma lex_between_prefix:
  "xs @ us \<le> p \<Longrightarrow> p \<le> xs @ vs \<Longrightarrow> prefix xs (p :: 'a::linorder list)"
proof (induction xs arbitrary: p)
  case (Cons x xs)
  then show ?case by (cases p) (auto simp: Cons_le_Cons order.strict_iff_order)
qed simp

lemma ff_free_prefix_Encode:
  assumes "prefix uk (mvcc_Encode uk' ts)" "ff_free uk" "small_ts ts"
  shows "prefix uk uk'"
proof (rule ccontr)
  assume "\<not> prefix uk uk'"
  then obtain x xs where x: "uk = uk' @ x # xs"
    using assms(1) prefix_same_cases [of uk "mvcc_Encode uk' ts" uk']
    by (auto simp: mvcc_Encode_def prefix_def neq_Nil_conv)
  obtain r where "be_PutUint64 (NOT ts) = 255 # r" using be_PutUint64_small_ts [OF assms(3)] .
  then have "x = 255" using assms(1) x by (auto simp: mvcc_Encode_def prefix_def)
  then show False using assms(2) x by (simp add: ff_free_def)
qed

lemma u64_le_max: "(t :: u64) \<le> NOT 0"
  by (rule word_order.extremum [unfolded bit.compl_zero [symmetric]])

lemma seek_newest_prefix_free:
  assumes cl: "clean_kvs kvs" and uk: "ff_free uk"
    and ext: "\<And>uk' ts v. (mvcc_Encode uk' ts, v) \<in> set kvs \<Longrightarrow> prefix uk uk' \<Longrightarrow> uk' = uk"
  shows "seek_version kvs uk (NOT 0) = newest (mvcc_versions kvs uk)"
proof -
  have "seek_version kvs uk (NOT 0) = mvcc_read kvs uk (NOT 0)"
  proof (rule seek_version_contiguous [OF cl])
    fix uk' ts v t w
    assume in1: "(mvcc_Encode uk' ts, v) \<in> set kvs"
      and le: "mvcc_Encode uk (NOT 0) \<le> mvcc_Encode uk' ts" "mvcc_Encode uk' ts \<le> mvcc_Encode uk t"
    have "prefix uk (mvcc_Encode uk' ts)"
      using lex_between_prefix le unfolding mvcc_Encode_def by blast
    moreover have "small_ts ts" using cl in1 by (auto simp: clean_kvs_def dest!: bspec)
    ultimately show "uk' = uk" using ext [OF in1] ff_free_prefix_Encode uk by blast
  qed
  then show ?thesis by (simp add: mvcc_read_def u64_le_max)
qed

lemma seek_newest_extension:
  assumes cl: "clean_kvs kvs" and ext: "(mvcc_Encode (uk @ c # r) ts, v) \<in> set kvs" "0 < c"
  shows "seek_version kvs uk (NOT 0) = None"
proof -
  have tgt: "mvcc_Encode uk (NOT 0) < mvcc_Encode (uk @ c # r) ts"
    using ext(2) by (simp add: mvcc_Encode_def be_PutUint64_zero)
  have clean: "ff_free (uk @ c # r)" "small_ts ts" using cl ext(1) by (auto simp: clean_kvs_def dest!: bspec)
  show ?thesis
  proof (cases "kv_seek (mvcc_Encode uk (NOT 0)) kvs")
    case (Cons p rest)
    note hd = clean_kvs_head [OF cl Cons]
    obtain uk' ts' w where p: "p = (mvcc_Encode uk' ts', w)" "ff_free uk'" "small_ts ts'"
      using cl hd(1) clean_keyE by (metis clean_kvs_def prod.collapse)
    have "mvcc_Encode uk' ts' \<le> mvcc_Encode (uk @ c # r) ts"
      using hd(3) [OF ext(1)] tgt p(1) by simp
    then have "uk' \<noteq> uk"
      using mvcc_Encode_less_iff [OF clean(1) p(2) clean(2) p(3)] key_before_extension [of c uk r] clean(1)
      by (auto simp: ff_free_def)
    then show ?thesis using Cons p(1) by (simp add: seek_version_def)
  qed (simp add: seek_version_def)
qed


subsection \<open>Ranges of user keys\<close>

text \<open>A range scan seeks to \<^verbatim>\<open>Encode(start, ^0)\<close> and walks until the first user key at or past the end.\<close>

definition in_range :: "bytes option \<Rightarrow> bytes option \<Rightarrow> bytes \<Rightarrow> bool" where
  "in_range start end1 uk \<longleftrightarrow>
     (case start of None \<Rightarrow> True | Some k \<Rightarrow> k \<le> uk) \<and> (case end1 of None \<Rightarrow> True | Some k \<Rightarrow> uk < k)"

definition bound_keys :: "bytes option \<Rightarrow> bytes option \<Rightarrow> bytes list" where
  "bound_keys start end1 =
     (case start of None \<Rightarrow> [] | Some k \<Rightarrow> [k]) @ (case end1 of None \<Rightarrow> [] | Some k \<Rightarrow> [k])"

definition prefix_free :: "bytes list \<Rightarrow> bool" where
  "prefix_free ks \<longleftrightarrow> (\<forall>a\<in>set ks. \<forall>b\<in>set ks. prefix a b \<longrightarrow> a = b)"

lemma prefix_free_less:
  "prefix_free ks \<Longrightarrow> k \<in> set ks \<Longrightarrow> k' \<in> set ks \<Longrightarrow> k \<noteq> k' \<Longrightarrow>
     mvcc_Encode k t < mvcc_Encode k' t' \<longleftrightarrow> k < k'"
  by (rule mvcc_Encode_parallel_less) (auto simp: prefix_free_def)

lemma sorted_takeWhile_filter:
  "sorted_wrt R xs \<Longrightarrow> (\<And>x y. x \<in> set xs \<Longrightarrow> y \<in> set xs \<Longrightarrow> R x y \<Longrightarrow> P y \<Longrightarrow> P x) \<Longrightarrow>
     takeWhile P xs = filter P xs"
proof (induction xs)
  case (Cons x xs)
  have "filter P xs = []" if "\<not> P x" using that Cons.prems by (auto simp: filter_empty_conv)
  moreover have "takeWhile P xs = filter P xs" using Cons by auto
  ultimately show ?case by simp
qed simp

abbreviation seek_range :: "bytes option \<Rightarrow> bytes option \<Rightarrow> 'v kvs \<Rightarrow> 'v kvs" where
  "seek_range start end1 kvs \<equiv>
     takeWhile (\<lambda>p. case end1 of None \<Rightarrow> True | Some e \<Rightarrow> mvcc_UserKey (fst p) < e)
       (kv_seek (case start of None \<Rightarrow> [] | Some k \<Rightarrow> mvcc_Encode k (NOT 0)) kvs)"

lemma range_seek_exact:
  assumes srt: "kv_sorted kvs" and dec: "\<forall>p\<in>set kvs. snd (snd (mvcc_Decode (fst p)))"
    and pf: "prefix_free (ks @ bound_keys start end1)"
    and ks: "\<forall>p\<in>set kvs. mvcc_UserKey (fst p) \<in> set ks"
  shows "takeWhile (\<lambda>p. case end1 of None \<Rightarrow> True | Some e \<Rightarrow> mvcc_UserKey (fst p) < e)
           (kv_seek (case start of None \<Rightarrow> [] | Some k \<Rightarrow> mvcc_Encode k (NOT 0)) kvs)
         = filter (\<lambda>p. in_range start end1 (mvcc_UserKey (fst p))) kvs"
proof -
  let ?lo = "\<lambda>p. case start of None \<Rightarrow> True | Some k \<Rightarrow> k \<le> mvcc_UserKey (fst p)"
  let ?hi = "\<lambda>p. case end1 of None \<Rightarrow> True | Some e \<Rightarrow> mvcc_UserKey (fst p) < e"
  have enc: "\<exists>uk ts. fst p = mvcc_Encode uk ts \<and> uk \<in> set ks" if "p \<in> set kvs" for p
    using that dec ks by (metis mvcc_Decode_ok_iff mvcc_UserKey_Encode)
  have "((case start of None \<Rightarrow> [] | Some k \<Rightarrow> mvcc_Encode k (NOT 0)) \<le> fst p) = ?lo p" if pin: "p \<in> set kvs" for p
  proof (cases start)
    case (Some k)
    obtain uk ts where p: "fst p = mvcc_Encode uk ts" "uk \<in> set ks" using enc [OF pin] by blast
    have "k \<in> set (ks @ bound_keys start end1)" by (simp add: Some bound_keys_def)
    then show ?thesis
      using prefix_free_less [OF pf, of uk k ts "NOT 0"] p u64_le_max [of ts]
      by (cases "uk = k") (auto simp: Some not_less [symmetric])
  qed simp
  then have seek: "kv_seek (case start of None \<Rightarrow> [] | Some k \<Rightarrow> mvcc_Encode k (NOT 0)) kvs = filter ?lo kvs"
    unfolding kv_seek_filter [OF srt] by (intro filter_cong) auto
  have "takeWhile ?hi (filter ?lo kvs) = filter ?hi (filter ?lo kvs)"
  proof (rule sorted_takeWhile_filter)
    show "sorted_wrt (\<lambda>p q. fst p < fst q) (filter ?lo kvs)"
      using kv_sorted_filter [OF srt, of ?lo] by (simp add: sorted_wrt_map)
  next
    fix p q assume pq: "p \<in> set (filter ?lo kvs)" "q \<in> set (filter ?lo kvs)" "fst p < fst q" "?hi q"
    then obtain uk ts uk' ts' where "fst p = mvcc_Encode uk ts" "uk \<in> set ks" "fst q = mvcc_Encode uk' ts'" "uk' \<in> set ks"
      using enc [of p] enc [of q] by auto
    then show "?hi p"
      using prefix_free_less [OF pf, of uk uk' ts ts'] pq
      by (cases "uk = uk'") (auto split: option.splits)
  qed
  moreover have "filter ?hi (filter ?lo kvs) = filter (\<lambda>p. in_range start end1 (mvcc_UserKey (fst p))) kvs"
    by (auto simp: in_range_def intro!: filter_cong)
  ultimately show ?thesis using seek by simp
qed


subsection \<open>The interface of a source of versions\<close>

text \<open>What the database relies on for a memtable or a table: a lookup and a newest-timestamp query that
  return what one seek in the represented store finds.  \<open>None\<close> is a failure of the source.\<close>

locale version_source =
  fixes holds :: "'s \<Rightarrow> bytes kvs \<Rightarrow> bool"
    and getAsOf :: "'s \<Rightarrow> bytes \<Rightarrow> u64 \<Rightarrow> (bytes \<times> byte \<times> bool) option"
    and newestTS :: "'s \<Rightarrow> bytes \<Rightarrow> (u64 \<times> bool) option"
  assumes get_seek: "holds s kvs \<Longrightarrow> getAsOf s uk snap = Some (read_result (seek_version kvs uk snap))"
    and newest_seek: "holds s kvs \<Longrightarrow> newestTS s uk =
      Some (case seek_version kvs uk (NOT 0) of None \<Rightarrow> (0, False) | Some (ts, _) \<Rightarrow> (ts, True))"
begin

lemma get_read:
  "holds s kvs \<Longrightarrow> clean_kvs kvs \<Longrightarrow> ff_free uk \<Longrightarrow> small_ts snap \<Longrightarrow>
     getAsOf s uk snap = Some (read_result (mvcc_read kvs uk snap))"
  by (simp add: get_seek seek_version_read)

lemma newest_exact:
  assumes "holds s kvs" "clean_kvs kvs" "ff_free uk"
    and "\<And>uk' ts v. (mvcc_Encode uk' ts, v) \<in> set kvs \<Longrightarrow> prefix uk uk' \<Longrightarrow> uk' = uk"
  shows "newestTS s uk =
    Some (case newest (mvcc_versions kvs uk) of None \<Rightarrow> (0, False) | Some (ts, _) \<Rightarrow> (ts, True))"
  using newest_seek [OF assms(1)] seek_newest_prefix_free [OF assms(2-4)] by simp

lemma newest_missed:
  assumes "holds s kvs" "clean_kvs kvs" "(mvcc_Encode (uk @ c # r) ts, v) \<in> set kvs" "0 < c"
  shows "newestTS s uk = Some (0, False)"
  using newest_seek [OF assms(1), of uk] seek_newest_extension [OF assms(2-4)] by simp

end

subsection \<open>The interface of a cursor\<close>

text \<open>
  What a merge relies on in a cursor over a layer (\<^verbatim>\<open>versionCursor\<close>): \<open>yields c kvs\<close> says that the cursor
  stands before the entries \<open>kvs\<close> (a stored value is the operation byte followed by the value).
\<close>

locale version_cursor =
  fixes valid :: "'c \<Rightarrow> bool" and encKey :: "'c \<Rightarrow> bytes" and opn :: "'c \<Rightarrow> byte" and val :: "'c \<Rightarrow> bytes"
    and advance :: "'c \<Rightarrow> 'c" and err :: "'c \<Rightarrow> 'e option" and yields :: "'c \<Rightarrow> bytes kvs \<Rightarrow> bool"
  assumes yields_Nil: "yields c [] \<Longrightarrow> \<not> valid c \<and> err c = None"
    and yields_Cons: "yields c ((k, v) # kvs) \<Longrightarrow>
      valid c \<and> encKey c = k \<and> opn c # val c = v \<and> err c = None \<and> yields (advance c) kvs"
begin

lemma valid_iff: "yields c kvs \<Longrightarrow> valid c \<longleftrightarrow> kvs \<noteq> []"
  using yields_Nil [of c] yields_Cons [of c "fst (hd kvs)" "snd (hd kvs)" "tl kvs"] by (cases kvs) auto

lemma no_err: "yields c kvs \<Longrightarrow> err c = None"
  using yields_Nil [of c] yields_Cons [of c "fst (hd kvs)" "snd (hd kvs)" "tl kvs"] by (cases kvs) auto

lemma current: "yields c (p # kvs) \<Longrightarrow> p = (encKey c, opn c # val c)"
  using yields_Cons [of c "fst p" "snd p" kvs] by (simp add: prod_eq_iff)

lemma advanced: "yields c (p # kvs) \<Longrightarrow> yields (advance c) kvs"
  using yields_Cons [of c "fst p" "snd p" kvs] by simp

end

end
