(* ===== verification/Go_Heap.thy ===== *)
theory Go_Heap
  imports Prelude "HOL-Library.Multiset"
begin

section \<open>Binary heaps (\<open>container/heap\<close>)\<close>

text \<open>
  The part of Go's \<open>container/heap\<close> that the merge iterator and the compaction use, on a list and a
  \<^verbatim>\<open>Less\<close> function.  Whatever shape \<^verbatim>\<open>Push\<close>, \<^verbatim>\<open>Pop\<close>, \<^verbatim>\<open>Fix\<close> and \<^verbatim>\<open>Init\<close> leave, the first element is a
  least one and the elements are the expected multiset.
\<close>

definition heap_swap :: "'a list \<Rightarrow> nat \<Rightarrow> nat \<Rightarrow> 'a list" where
  "heap_swap h i j = h[i := h ! j, j := h ! i]"

definition heap_child :: "('a \<Rightarrow> 'a \<Rightarrow> bool) \<Rightarrow> 'a list \<Rightarrow> nat \<Rightarrow> nat \<Rightarrow> nat" where
  "heap_child lt h i n =
     (let j1 = 2 * i + 1; j2 = j1 + 1 in if j2 < n \<and> lt (h ! j2) (h ! j1) then j2 else j1)"

function heap_down :: "('a \<Rightarrow> 'a \<Rightarrow> bool) \<Rightarrow> 'a list \<Rightarrow> nat \<Rightarrow> nat \<Rightarrow> 'a list \<times> nat" where
  "heap_down lt h i n =
     (if 2 * i + 1 \<ge> n then (h, i)
      else let j = heap_child lt h i n in
           if \<not> lt (h ! j) (h ! i) then (h, i) else heap_down lt (heap_swap h i j) j n)"
  by pat_completeness auto
termination by (relation "measure (\<lambda>(lt, h, i, n). n - i)") (auto simp: heap_child_def Let_def)

declare heap_down.simps [simp del]

function heap_up :: "('a \<Rightarrow> 'a \<Rightarrow> bool) \<Rightarrow> 'a list \<Rightarrow> nat \<Rightarrow> 'a list" where
  "heap_up lt h j =
     (let i = (j - 1) div 2 in
      if i = j \<or> \<not> lt (h ! j) (h ! i) then h else heap_up lt (heap_swap h i j) i)"
  by pat_completeness auto
termination by (relation "measure (\<lambda>(lt, h, j). j)") (auto simp: Let_def)

declare heap_up.simps [simp del]

definition heap_Init :: "('a \<Rightarrow> 'a \<Rightarrow> bool) \<Rightarrow> 'a list \<Rightarrow> 'a list" where
  "heap_Init lt h = fold (\<lambda>i h. fst (heap_down lt h i (length h))) (rev [0..<length h div 2]) h"

definition heap_Push :: "('a \<Rightarrow> 'a \<Rightarrow> bool) \<Rightarrow> 'a \<Rightarrow> 'a list \<Rightarrow> 'a list" where
  "heap_Push lt x h = heap_up lt (h @ [x]) (length h)"

text \<open>\<^verbatim>\<open>Pop\<close> on an empty heap panics.\<close>

definition heap_Pop :: "('a \<Rightarrow> 'a \<Rightarrow> bool) \<Rightarrow> 'a list \<Rightarrow> ('a \<times> 'a list) option" where
  "heap_Pop lt h =
     (if h = [] then None
      else let n = length h - 1; h' = fst (heap_down lt (heap_swap h 0 n) 0 n)
           in Some (h' ! n, take n h'))"

definition heap_Fix :: "('a \<Rightarrow> 'a \<Rightarrow> bool) \<Rightarrow> 'a list \<Rightarrow> nat \<Rightarrow> 'a list" where
  "heap_Fix lt h i =
     (case heap_down lt h i (length h) of (h', i') \<Rightarrow> if i' > i then h' else heap_up lt h' i)"

definition heap_from :: "('a \<Rightarrow> 'a \<Rightarrow> bool) \<Rightarrow> 'a list \<Rightarrow> nat \<Rightarrow> nat \<Rightarrow> bool" where
  "heap_from lt h n i \<longleftrightarrow> (\<forall>j. 0 < j \<and> j < n \<and> i \<le> (j - 1) div 2 \<longrightarrow> \<not> lt (h ! j) (h ! ((j - 1) div 2)))"

abbreviation is_heap :: "('a \<Rightarrow> 'a \<Rightarrow> bool) \<Rightarrow> 'a list \<Rightarrow> bool" where
  "is_heap lt h \<equiv> heap_from lt h (length h) 0"

subsection \<open>What the operations keep, for any comparison\<close>

lemma heap_swap_facts [simp]:
  "length (heap_swap h i j) = length h"
  "i < length h \<Longrightarrow> j < length h \<Longrightarrow> mset (heap_swap h i j) = mset h"
  by (auto simp: heap_swap_def mset_swap)

lemma heap_swap_nth:
  "i < length h \<Longrightarrow> j < length h \<Longrightarrow> k < length h \<Longrightarrow>
     heap_swap h i j ! k = (if k = j then h ! i else if k = i then h ! j else h ! k)"
  by (auto simp: heap_swap_def nth_list_update)

lemma heap_child_facts:
  "2 * i + 1 < n \<Longrightarrow> heap_child lt h i n < n" "i < heap_child lt h i n" "(heap_child lt h i n - 1) div 2 = i"
  by (auto simp: heap_child_def Let_def)

lemma heap_down_step:
  "2 * i + 1 < n \<Longrightarrow> lt (h ! heap_child lt h i n) (h ! i) \<Longrightarrow>
     heap_down lt h i n = heap_down lt (heap_swap h i (heap_child lt h i n)) (heap_child lt h i n) n"
  by (subst heap_down.simps) (simp add: Let_def)

lemma heap_down_stop:
  "n \<le> 2 * i + 1 \<or> \<not> lt (h ! heap_child lt h i n) (h ! i) \<Longrightarrow> heap_down lt h i n = (h, i)"
  by (subst heap_down.simps) (auto simp: Let_def)

lemma heap_down_facts:
  "n \<le> length h \<Longrightarrow> mset (fst (heap_down lt h i n)) = mset h \<and> length (fst (heap_down lt h i n)) = length h \<and>
     drop n (fst (heap_down lt h i n)) = drop n h \<and> i \<le> snd (heap_down lt h i n)"
proof (induction lt h i n rule: heap_down.induct)
  case (1 lt h i n)
  let ?j = "heap_child lt h i n"
  show ?case
  proof (cases "n \<le> 2 * i + 1 \<or> \<not> lt (h ! ?j) (h ! i)")
    case True
    then show ?thesis by (simp add: heap_down_stop)
  next
    case False
    then have j: "?j < n" "i < ?j" using heap_child_facts [where i = i and n = n and lt = lt and h = h] by auto
    then have "drop n (heap_swap h i ?j) = drop n h" by (simp add: heap_swap_def)
    then show ?thesis using 1(1) [OF _ refl] False j 1(2) by (auto simp: heap_down_step)
  qed
qed

lemma heap_up_facts: "j < length h \<Longrightarrow> mset (heap_up lt h j) = mset h"
proof (induction lt h j rule: heap_up.induct)
  case (1 lt h j)
  show ?case
  proof (cases "(j - 1) div 2 = j \<or> \<not> lt (h ! j) (h ! ((j - 1) div 2))")
    case True
    then show ?thesis by (subst heap_up.simps) (auto simp: Let_def)
  next
    case False
    then have "heap_up lt h j = heap_up lt (heap_swap h ((j - 1) div 2) j) ((j - 1) div 2)"
      by (subst heap_up.simps) (simp add: Let_def)
    then show ?thesis using 1(1) [OF refl False] 1(2) by auto
  qed
qed

lemma heap_Init_mset: "mset (heap_Init lt h) = mset h" "length (heap_Init lt h) = length h"
proof -
  have "mset (fold (\<lambda>i h. fst (heap_down lt h i (length h))) ks h) = mset h" for ks
    by (induction ks arbitrary: h) (simp_all add: heap_down_facts)
  then show "mset (heap_Init lt h) = mset h" by (simp add: heap_Init_def)
  then show "length (heap_Init lt h) = length h" by (rule mset_eq_length)
qed

lemma heap_Push_mset: "mset (heap_Push lt x h) = add_mset x (mset h)"
  by (simp add: heap_Push_def heap_up_facts)

lemma heap_Fix_mset: "i < length h \<Longrightarrow> mset (heap_Fix lt h i) = mset h"
  using heap_down_facts [of "length h" h lt i] heap_up_facts [of i "fst (heap_down lt h i (length h))" lt]
  by (auto simp: heap_Fix_def split: prod.splits)

subsection \<open>Where the comparison is a strict weak order\<close>

locale heap_order =
  fixes lt :: "'a \<Rightarrow> 'a \<Rightarrow> bool"
  assumes irrefl: "\<not> lt a a"
    and asym: "lt a b \<Longrightarrow> \<not> lt b a"
    and negtrans: "\<not> lt a b \<Longrightarrow> \<not> lt b c \<Longrightarrow> \<not> lt a c"
begin

lemma top_least: "heap_from lt h n 0 \<Longrightarrow> j < n \<Longrightarrow> \<not> lt (h ! j) (h ! 0)"
proof (induction j rule: less_induct)
  case (less j)
  show ?case
  proof (cases "j = 0")
    case False
    then have "(j - 1) div 2 < j" by auto
    moreover have "\<not> lt (h ! j) (h ! ((j - 1) div 2))" using less.prems False by (simp add: heap_from_def)
    ultimately show ?thesis using less.IH less.prems negtrans by (meson less_trans)
  qed (simp add: irrefl)
qed

text \<open>\<open>i\<close> is the only place where the order may be violated downwards.\<close>

definition hole :: "'a list \<Rightarrow> nat \<Rightarrow> nat \<Rightarrow> nat \<Rightarrow> bool" where
  "hole h n i0 i \<longleftrightarrow> (\<forall>j. 0 < j \<and> j < n \<and> i0 \<le> (j - 1) div 2 \<and> (j - 1) div 2 \<noteq> i \<longrightarrow> \<not> lt (h ! j) (h ! ((j - 1) div 2))) \<and>
     (\<forall>j. 0 < j \<and> j < n \<and> (j - 1) div 2 = i \<and> 0 < i \<and> i0 \<le> (i - 1) div 2 \<longrightarrow> \<not> lt (h ! j) (h ! ((i - 1) div 2)))"

lemma child_least:
  assumes "0 < c" "c < n" "(c - 1) div 2 = i" shows "\<not> lt (h ! c) (h ! heap_child lt h i n)"
proof -
  have "c = 2 * i + 1 \<or> c = 2 * i + 2" using assms(1,3) by arith
  then show ?thesis using assms(2) irrefl asym by (auto simp: heap_child_def Let_def)
qed

lemma down_heap:
  assumes "n \<le> length h" "i0 \<le> i" "hole h n i0 i"
  shows "heap_from lt (fst (heap_down lt h i n)) n i0"
  using assms
proof (induction "n - i" arbitrary: h i rule: less_induct)
  case less
  let ?j = "heap_child lt h i n"
  note h1 = less.prems(3) [unfolded hole_def, THEN conjunct1, rule_format]
    and h2 = less.prems(3) [unfolded hole_def, THEN conjunct2, rule_format]
  show ?case
  proof (cases "n \<le> 2 * i + 1 \<or> \<not> lt (h ! ?j) (h ! i)")
    case True
    have "\<not> lt (h ! c) (h ! i)" if c: "0 < c" "c < n" "(c - 1) div 2 = i" for c
    proof -
      have "2 * i + 1 < n" using c by arith
      then show ?thesis using True child_least [OF c] negtrans by (meson not_le)
    qed
    then have "heap_from lt h n i0" unfolding heap_from_def using h1 by blast
    then show ?thesis using True by (simp add: heap_down_stop)
  next
    case False
    then have j: "?j < n" "i < ?j" "(?j - 1) div 2 = i" "0 < ?j" using heap_child_facts [where i = i and n = n and lt = lt and h = h] by auto
    let ?h = "heap_swap h i ?j"
    have nth: "?h ! k = (if k = ?j then h ! i else if k = i then h ! ?j else h ! k)" if "k < n" for k
      using heap_swap_nth [of i h ?j k] that j less.prems(1) by simp
    have ltj: "lt (h ! ?j) (h ! i)" using False by blast
    have par: "(k - 1) div 2 < k" "(k - 1) div 2 < n" if "0 < k" "k < n" for k using that by arith+
    have "\<not> lt (?h ! k) (?h ! ((k - 1) div 2))" if k: "0 < k" "k < n" "i0 \<le> (k - 1) div 2" "(k - 1) div 2 \<noteq> ?j" for k
    proof (cases "(k - 1) div 2 = i")
      case True
      then have "k \<noteq> i" using par(1) [OF k(1,2)] by auto
      then show ?thesis using nth [of k] nth [of i] True j k child_least [OF k(1,2) True] asym [OF ltj] by auto
    next
      case F: False
      then have "k \<noteq> ?j" using j(3) by auto
      moreover have "\<not> lt (h ! ?j) (h ! ((k - 1) div 2))" if "k = i" using h2 [of ?j] j k that by auto
      ultimately show ?thesis using nth [of k] nth [OF par(2) [OF k(1,2)]] F k h1 [of k] by auto
    qed
    moreover have "\<not> lt (?h ! k) (?h ! ((?j - 1) div 2))" if k: "0 < k" "k < n" "(k - 1) div 2 = ?j" for k
    proof -
      have "?j < k" using par(1) [OF k(1,2)] k(3) by simp
      then show ?thesis
        using nth [of k] nth [of i] j k h1 [of k] less.prems(2) by auto
    qed
    ultimately have "hole ?h n i0 ?j" unfolding hole_def by blast
    then show ?thesis using False j less.prems(1,2) by (simp add: heap_down_step) (intro less.hyps, auto)
  qed
qed

lemma up_heap:
  assumes "j < length h"
    and "\<forall>k. 0 < k \<and> k < length h \<and> k \<noteq> j \<longrightarrow> \<not> lt (h ! k) (h ! ((k - 1) div 2))"
    and "\<forall>k. 0 < k \<and> k < length h \<and> (k - 1) div 2 = j \<and> 0 < j \<longrightarrow> \<not> lt (h ! k) (h ! ((j - 1) div 2))"
  shows "is_heap lt (heap_up lt h j)"
  using assms
proof (induction j arbitrary: h rule: less_induct)
  case (less j)
  let ?i = "(j - 1) div 2"
  show ?case
  proof (cases "?i = j \<or> \<not> lt (h ! j) (h ! ?i)")
    case True
    then have "is_heap lt h" using less.prems(2) by (auto simp: heap_from_def)
    moreover have "heap_up lt h j = h" using True by (subst heap_up.simps) (auto simp: Let_def)
    ultimately show ?thesis by simp
  next
    case False
    then have i: "?i < j" "0 < j" by (cases "j = 0"; simp)+
    let ?h = "heap_swap h ?i j"
    have eq: "heap_up lt h j = heap_up lt ?h ?i" using False by (subst heap_up.simps) (simp add: Let_def)
    have nth: "?h ! k = (if k = j then h ! ?i else if k = ?i then h ! j else h ! k)" if "k < length h" for k
      using heap_swap_nth [of ?i h j k] that i less.prems(1) by simp
    have ltj: "lt (h ! j) (h ! ?i)" using False by blast
    have par: "(k - 1) div 2 < k" "(k - 1) div 2 < length h" if "0 < k" "k < length h" for k using that by arith+
    have nlt: "\<not> lt (h ! a) (h ! j)" if "\<not> lt (h ! a) (h ! ?i)" for a using negtrans [OF that asym [OF ltj]] .
    have A: "\<not> lt (?h ! k) (?h ! ((k - 1) div 2))" if k: "0 < k" "k < length h" "k \<noteq> ?i" for k
    proof (cases "k = j")
      case True
      then show ?thesis using nth [of j] nth [of ?i] k i asym [OF ltj] by auto
    next
      case F: False
      note p = less.prems(2) [rule_format, of k] less.prems(3) [rule_format, of k]
      show ?thesis
        using nth [OF k(2)] nth [OF par(2) [OF k(1,2)]] F k i p nlt by auto
    qed
    have B: "\<not> lt (?h ! k) (?h ! ((?i - 1) div 2))" if k: "0 < k" "k < length h" "(k - 1) div 2 = ?i" "0 < ?i" for k
    proof -
      have lt1: "(?i - 1) div 2 < ?i" using k(4) by arith
      have up: "\<not> lt (h ! ?i) (h ! ((?i - 1) div 2))" using less.prems(1,2) i k(4) by auto
      have "\<not> lt (h ! k) (h ! ((?i - 1) div 2))" if "k \<noteq> j"
      proof -
        have "\<not> lt (h ! k) (h ! ?i)" using less.prems(2) k that by auto
        then show ?thesis using up by (rule negtrans)
      qed
      moreover have "k \<noteq> ?i" using par(1) [OF k(1,2)] k(3) by auto
      ultimately show ?thesis
        using nth [OF k(2)] nth [of "(?i - 1) div 2"] lt1 i less.prems(1) up by auto
    qed
    have "is_heap lt (heap_up lt ?h ?i)"
    proof (rule less.IH [OF i(1)])
      show "?i < length ?h" unfolding heap_swap_facts(1) by (rule less_trans [OF i(1) less.prems(1)])
      show "\<forall>k. 0 < k \<and> k < length ?h \<and> k \<noteq> ?i \<longrightarrow> \<not> lt (?h ! k) (?h ! ((k - 1) div 2))"
        unfolding heap_swap_facts(1) using A by blast
      show "\<forall>k. 0 < k \<and> k < length ?h \<and> (k - 1) div 2 = ?i \<and> 0 < ?i \<longrightarrow> \<not> lt (?h ! k) (?h ! ((?i - 1) div 2))"
        unfolding heap_swap_facts(1) using B by blast
    qed
    then show ?thesis unfolding eq .
  qed
qed

lemma heap_from_hole: "heap_from lt h n (Suc i) \<Longrightarrow> hole h n i i"
proof -
  assume "heap_from lt h n (Suc i)"
  moreover have "\<not> i \<le> (i - 1) div 2" if "0 < i" using that by arith
  ultimately show ?thesis unfolding heap_from_def hole_def by (auto simp: Suc_le_eq)
qed

lemma top_hole:
  assumes "\<forall>k. 0 < k \<and> k < n \<and> 0 < (k - 1) div 2 \<longrightarrow> \<not> lt (h ! k) (h ! ((k - 1) div 2))"
  shows "hole h n 0 0"
  unfolding hole_def using assms by (simp add: neq0_conv)

lemma Init_heap: "is_heap lt (heap_Init lt h)"
proof -
  have "heap_from lt (fold (\<lambda>i h. fst (heap_down lt h i (length h))) (rev [0..<m]) h) (length h) 0"
    if "heap_from lt h (length h) m" for m
    using that
  proof (induction m arbitrary: h)
    case (Suc m)
    let ?h = "fst (heap_down lt h m (length h))"
    have "heap_from lt ?h (length h) m" using down_heap [OF le_refl le_refl heap_from_hole [OF Suc.prems]] .
    moreover have "length ?h = length h" using heap_down_facts [of "length h" h] by blast
    ultimately show ?case using Suc.IH [of ?h] by simp
  qed simp
  moreover have "heap_from lt h (length h) (length h div 2)" unfolding heap_from_def by auto
  ultimately show ?thesis unfolding heap_Init_def using heap_Init_mset(2) [of lt h] by (simp add: heap_Init_def)
qed

lemma Push_heap: "is_heap lt h \<Longrightarrow> is_heap lt (heap_Push lt x h)"
proof -
  assume h: "is_heap lt h"
  have p: "(k - 1) div 2 < length h" if "k < length h" "0 < k" for k using that by arith
  have q: "(k - 1) div 2 \<noteq> length h" if "k \<le> length h" "0 < length h" for k using that by arith
  show ?thesis unfolding heap_Push_def
    using h p q by (intro up_heap) (auto simp: nth_append heap_from_def less_Suc_eq)
qed

lemma Fix_top_heap:
  assumes "is_heap lt (x # t)"
  shows "is_heap lt (heap_Fix lt (y # t) 0)"
proof -
  let ?h = "y # t"
  have "\<not> lt (?h ! k) (?h ! ((k - 1) div 2))" if k: "0 < k" "k < length ?h" "0 < (k - 1) div 2" for k
    using assms k by (auto simp: heap_from_def nth_Cons')
  then have "heap_from lt (fst (heap_down lt ?h 0 (length ?h))) (length ?h) 0"
    by (intro down_heap top_hole) auto
  moreover have "length (fst (heap_down lt ?h 0 (length ?h))) = length ?h" using heap_down_facts [of "length ?h" ?h lt 0] by simp
  moreover have "heap_up lt z 0 = z" for z by (simp add: heap_up.simps)
  ultimately show ?thesis by (auto simp: heap_Fix_def split: prod.splits)
qed

text \<open>\<^verbatim>\<open>Pop\<close> does not look at the element it removes.\<close>

lemma Pop_top:
  assumes "is_heap lt (x # t)"
  shows "\<exists>h'. heap_Pop lt (y # t) = Some (y, h') \<and> is_heap lt h' \<and> mset h' = mset t"
proof -
  let ?g = "y # t"
  let ?n = "length ?g - 1" and ?h = "heap_swap (y # t) 0 (length (y # t) - 1)"
  let ?d = "fst (heap_down lt ?h 0 ?n)"
  have d: "mset ?d = mset ?g" "length ?d = length ?g" "drop ?n ?d = drop ?n ?h"
    using heap_down_facts [of ?n ?h lt 0] by auto
  have "?h ! k = t ! (k - 1)" if "0 < k" "k < ?n" for k using heap_swap_nth [of 0 ?g ?n k] that by auto
  then have "\<not> lt (?h ! k) (?h ! ((k - 1) div 2))" if "0 < k" "k < ?n" "0 < (k - 1) div 2" for k
    using assms that by (auto simp: heap_from_def nth_Cons')
  then have "heap_from lt ?d ?n 0" by (intro down_heap top_hole) auto
  then have hp: "is_heap lt (take ?n ?d)" using d(2) by (auto simp: heap_from_def)
  have "?h ! ?n = y" using heap_swap_nth [of 0 ?g ?n ?n] by simp
  then have top: "?d ! ?n = y" using d(2,3) hd_drop_conv_nth [of ?n ?d] hd_drop_conv_nth [of ?n ?h] by simp
  have "take (Suc ?n) ?d = take ?n ?d @ [?d ! ?n]" using d(2) by (intro take_Suc_conv_app_nth) simp
  then have "?d = take ?n ?d @ [y]" using top d(2) by simp
  then have "mset ?d = mset (take ?n ?d @ [y])" by (rule arg_cong)
  then have "mset (take ?n ?d) = mset t" using d(1) by simp
  then show ?thesis using top hp by (simp add: heap_Pop_def Let_def)
qed

lemma Pop_heap:
  assumes "is_heap lt (x # t)"
  obtains h' where "heap_Pop lt (x # t) = Some (x, h')" "is_heap lt h'" "mset h' = mset t"
  using Pop_top [OF assms, of x] by blast

end

end
