(* ===== verification/Layer_Merge.thy ===== *)
theory Layer_Merge
  imports Go_Heap Mvcc_Store
begin

section \<open>Merging sorted layers\<close>

text \<open>
  What a merge of the layers of the store has to produce: the sorted union of the layers in which a
  newer layer wins over an older one.  The range scan and the compaction both compute it with a heap
  of the first entries; the lemmas here are what their proofs share.
\<close>

definition kv_union :: "'v kvs \<Rightarrow> 'v kvs \<Rightarrow> 'v kvs" where
  "kv_union a b = fold (\<lambda>p. kv_put (fst p) (snd p)) a b"

definition merge_layers :: "'v kvs list \<Rightarrow> 'v kvs" where
  "merge_layers L = foldr kv_union L []"

lemma merge_layers_simps [simp]: "merge_layers [] = []" "merge_layers (a # L) = kv_union a (merge_layers L)"
  by (simp_all add: merge_layers_def)

lemma kv_sorted_union: "kv_sorted b \<Longrightarrow> kv_sorted (kv_union a b)"
  unfolding kv_union_def by (induction a arbitrary: b) (simp_all add: kv_simps)

lemma map_of_kv_union:
  "distinct (map fst a) \<Longrightarrow> map_of (kv_union a b) k = (case map_of a k of None \<Rightarrow> map_of b k | Some v \<Rightarrow> Some v)"
  unfolding kv_union_def
proof (induction a arbitrary: b)
  case (Cons p a)
  have "map_of a (fst p) = None" using Cons.prems by (simp add: map_of_eq_None_iff)
  then show ?case using Cons by (cases p) (auto simp: kv_simps split: option.splits)
qed simp

lemma kv_sorted_merge: "kv_sorted (merge_layers L)"
  by (induction L) (simp_all add: kv_sorted_union)

lemma map_of_merge:
  "\<forall>a\<in>set L. kv_sorted a \<Longrightarrow> map_of (merge_layers L) k = map_of (concat L) k"
  by (induction L) (auto simp: map_of_kv_union kv_sorted_distinct map_add_def split: option.splits)

lemma kv_sorted_unique:
  assumes "kv_sorted xs" "kv_sorted ys" "\<And>k. map_of xs k = map_of ys k"
  shows "xs = ys"
proof -
  have "fst ` set xs = fst ` set ys" using assms(3) by (metis dom_map_of_conv_image_fst ext)
  then have f: "map fst xs = map fst ys" using assms(1,2) by (intro strict_sorted_equal) auto
  have "ps = map (\<lambda>k. (k, the (map_of ps k))) (map fst ps)" if "kv_sorted ps" for ps :: "'a kvs"
    using kv_sorted_distinct [OF that] by (auto intro!: map_idI [symmetric])
  then have "xs = map (\<lambda>k. (k, the (map_of xs k))) (map fst xs)" "ys = map (\<lambda>k. (k, the (map_of ys k))) (map fst ys)"
    using assms(1,2) by blast+
  then show ?thesis using assms(3) f by simp
qed

lemma merge_key_in:
  assumes "\<forall>a\<in>set L. kv_sorted a" "x \<in> set (merge_layers L)"
  obtains a y where "a \<in> set L" "y \<in> set a" "fst y = fst x"
proof -
  have "map_of (concat L) (fst x) \<noteq> None"
    using assms(2) map_of_merge [OF assms(1), of "fst x"] by (metis map_of_eq_None_iff image_eqI set_map)
  then show thesis using that by (auto simp: map_of_eq_None_iff)
qed

text \<open>Taking the least first entry, from the newest layer that has it, takes the first entry of the
  merge; later copies of it in older layers are what a merge has to skip.\<close>

lemma merge_layers_step:
  assumes p: "p < length R" "R ! p = (k, v) # t" and srt: "\<forall>a\<in>set R. kv_sorted a"
    and min: "\<forall>a\<in>set R. \<forall>x\<in>set a. k \<le> fst x" and first: "\<forall>q<p. k \<notin> fst ` set (R ! q)"
  shows "merge_layers R = (k, v) # filter (\<lambda>x. fst x \<noteq> k) (merge_layers (R[p := t]))"
proof (rule kv_sorted_unique)
  let ?R' = "R[p := t]"
  have R: "R = take p R @ ((k, v) # t) # drop (Suc p) R" using p by (metis id_take_nth_drop)
  have R': "?R' = take p R @ t # drop (Suc p) R" using p(1) by (simp add: upd_conv_take_nth_drop)
  have cR: "concat R = concat (take p R) @ ((k, v) # t) @ concat (drop (Suc p) R)" using arg_cong [OF R, of concat] by simp
  have cR': "concat ?R' = concat (take p R) @ t @ concat (drop (Suc p) R)" using arg_cong [OF R', of concat] by simp
  have t: "kv_sorted t" "\<forall>x\<in>set t. k < fst x" using srt p by (metis nth_mem list.simps(9) sorted_wrt.simps(2) fst_conv) (use srt p in \<open>force dest: nth_mem\<close>)
  have srt': "\<forall>a\<in>set ?R'. kv_sorted a" using srt t(1) by (auto dest!: set_update_subset_insert [THEN subsetD])
  show "kv_sorted (merge_layers R)" by (rule kv_sorted_merge)
  have keys: "k \<le> fst x" if x: "x \<in> set (merge_layers ?R')" for x
  proof -
    obtain a y where y: "a \<in> set ?R'" "y \<in> set a" "fst y = fst x" using merge_key_in [OF srt' x] .
    then have "a \<in> set R \<or> a = t" by (auto dest!: set_update_subset_insert [THEN subsetD])
    then show ?thesis using min t(2) y(2,3) by force
  qed
  then have "\<forall>x\<in>set (filter (\<lambda>x. fst x \<noteq> k) (merge_layers ?R')). k < fst x" by fastforce
  then show "kv_sorted ((k, v) # filter (\<lambda>x. fst x \<noteq> k) (merge_layers ?R'))"
    using kv_sorted_filter [OF kv_sorted_merge, of _ ?R'] by auto
  fix j
  have f: "map_of (concat (take p R)) k = None"
  proof -
    have "k \<notin> fst ` set a" if "a \<in> set (take p R)" for a
      using that first by (metis in_set_conv_nth length_take min_less_iff_conj nth_take)
    then show ?thesis by (auto simp: map_of_eq_None_iff)
  qed
  have "map_of (concat R) j = (if j = k then Some v else map_of (concat ?R') j)"
    unfolding cR cR' using f by (auto simp: map_add_def split: option.splits)
  then show "map_of (merge_layers R) j = map_of ((k, v) # filter (\<lambda>x. fst x \<noteq> k) (merge_layers ?R')) j"
    using map_of_merge [OF srt] map_of_merge [OF srt'] map_of_filter_fst [of "\<lambda>x. x \<noteq> k" "merge_layers ?R'" j] by auto
qed

lemma merge_layers_skip:
  assumes "p < length R" "R ! p = (k, v) # t" "\<forall>a\<in>set R. kv_sorted a"
    "\<forall>a\<in>set R. \<forall>x\<in>set a. k \<le> fst x" "\<forall>q<p. k \<notin> fst ` set (R ! q)"
  shows "filter (\<lambda>x. fst x \<noteq> k) (merge_layers R) = filter (\<lambda>x. fst x \<noteq> k) (merge_layers (R[p := t]))"
  using merge_layers_step [OF assms] by simp

lemma merge_layers_empty: "\<forall>a\<in>set R. a = [] \<Longrightarrow> merge_layers R = []"
  by (induction R) (auto simp: kv_union_def)

text \<open>A read of the merge is a read of the layers.\<close>

lemma mvcc_read_merge:
  "\<forall>a\<in>set L. kv_sorted a \<Longrightarrow> mvcc_read (merge_layers L) uk snap = mvcc_read (concat L) uk snap"
  by (subst (2) mvcc_read_def, rule mvcc_read_cong) (simp add: map_of_merge map_of_mvcc_versions)

lemma clean_merge: "\<forall>a\<in>set L. clean_kvs a \<Longrightarrow> clean_kvs (merge_layers L)"
proof -
  assume c: "\<forall>a\<in>set L. clean_kvs a"
  then have s: "\<forall>a\<in>set L. kv_sorted a" by (simp add: clean_kvs_def)
  have "clean_key (fst x)" if x: "x \<in> set (merge_layers L)" for x
  proof -
    obtain a y where "a \<in> set L" "y \<in> set a" "fst y = fst x" using merge_key_in [OF s x] .
    then show ?thesis using c by (metis clean_kvs_def)
  qed
  then show ?thesis using kv_sorted_merge by (auto simp: clean_kvs_def)
qed

subsection \<open>A heap of first entries\<close>

text \<open>
  Both merges order the heap by encoded key and then by layer.  The first element of such a heap, whose
  elements are the first entries of the layers with entries left, is the next entry of the merge.
\<close>

locale layer_heap =
  fixes lt :: "'a \<Rightarrow> 'a \<Rightarrow> bool" and key :: "'a \<Rightarrow> bytes" and layer :: "'a \<Rightarrow> nat"
  assumes lt_iff: "lt a b \<longleftrightarrow> (if key a \<noteq> key b then key a < key b else layer a < layer b)"

sublocale layer_heap \<subseteq> heap_order lt
  by unfold_locales (auto simp: lt_iff split: if_splits)

context layer_heap
begin

lemma top_of_layers:
  assumes h: "is_heap lt (c # rest)" and set: "layer ` set (c # rest) = {p. p < length R \<and> R ! p \<noteq> []}"
    and hd: "\<And>x. x \<in> set (c # rest) \<Longrightarrow> key x = fst (hd (R ! layer x))" and srt: "\<forall>a\<in>set R. kv_sorted a"
  shows "\<exists>k v t. R ! layer c = (k, v) # t \<and> layer c < length R \<and> key c = k \<and>
    (\<forall>a\<in>set R. \<forall>x\<in>set a. k \<le> fst x) \<and> (\<forall>q<layer c. k \<notin> fst ` set (R ! q))"
proof -
  let ?p = "layer c"
  have "?p \<in> layer ` set (c # rest)" by simp
  then have p: "?p < length R" "R ! ?p \<noteq> []" unfolding set by auto
  then obtain k v t where kv: "R ! ?p = (k, v) # t" by (metis neq_Nil_conv surj_pair)
  then have enc: "key c = k" using hd [of c] by simp
  have lay: "k \<le> fst x \<and> (q < ?p \<longrightarrow> fst x \<noteq> k)" if q: "q < length R" and x: "x \<in> set (R ! q)" for q x
  proof -
    obtain y ys where kv': "R ! q = y # ys" using x by (cases "R ! q") auto
    then have "q \<in> layer ` set (c # rest)" unfolding set using q by simp
    then obtain c' where c': "c' \<in> set (c # rest)" "layer c' = q" by blast
    then have "key c' = fst y" using hd [OF c'(1)] kv' by simp
    moreover obtain j where "j < length (c # rest)" "(c # rest) ! j = c'" using c'(1) by (metis in_set_conv_nth)
    then have "\<not> lt c' c" using top_least [OF h, of j] by simp
    ultimately have "k \<le> fst y" "q < ?p \<longrightarrow> fst y \<noteq> k" using enc c'(2) by (auto simp: lt_iff split: if_splits)
    moreover have "x = y \<or> fst y < fst x" using srt nth_mem [OF q] x kv' by auto
    ultimately show ?thesis by auto
  qed
  have "k \<le> fst x" if "a \<in> set R" "x \<in> set a" for a x using lay that by (metis in_set_conv_nth)
  moreover have "k \<notin> fst ` set (R ! q)" if "q < ?p" for q using lay [of q] that p(1) by auto
  ultimately show ?thesis using kv p(1) enc by blast
qed

end

end
