(* ===== verification/Memtable.thy ===== *)
theory Memtable
  imports Skiplist Mvcc_Store
begin

section \<open>The memtable (\<open>internal/memtable\<close>)\<close>

text \<open>
  The memtable is a skiplist of MVCC-encoded keys with a size counter and a frozen flag.  The lock
  is not modelled: every method holds it for its whole body.  \<open>None\<close> is a panic, passed up from the
  skiplist; the lemmas show that it never happens.  Under the contract of the skiplist each read is
  computed from the represented sorted list, and after any history of writes it returns what the
  history itself determines.
\<close>

subsection \<open>Operations\<close>

abbreviation MemOpPut :: byte where "MemOpPut \<equiv> 1"
abbreviation MemOpDelete :: byte where "MemOpDelete \<equiv> 2"
abbreviation entryOverhead :: int where "entryOverhead \<equiv> 64"

datatype mem_error = ErrFrozen

record Memtable =
  mt_sl :: Skiplist
  mt_size :: int
  mt_frozen :: bool

definition mt_New :: "(nat \<Rightarrow> bool) \<Rightarrow> Memtable" where
  "mt_New coins = \<lparr>mt_sl = sl_New coins, mt_size = 0, mt_frozen = False\<rparr>"

definition encodeValue :: "byte \<Rightarrow> bytes \<Rightarrow> bytes" where
  "encodeValue op value = op # value"

definition decodeValue :: "bytes \<Rightarrow> byte \<times> bytes" where
  "decodeValue stored = (case stored of [] \<Rightarrow> (0, []) | op # raw \<Rightarrow> (op, raw))"

definition mt_writeLocked :: "Memtable \<Rightarrow> bytes \<Rightarrow> bytes \<Rightarrow> byte \<Rightarrow> u64 \<Rightarrow> Memtable option" where
  "mt_writeLocked m userKey value op ts =
     (let encKey = mvcc_Encode userKey ts; stored = encodeValue op value
      in do { old \<leftarrow> sl_Get (mt_sl m) encKey;
              let size1 = (case old of
                             None \<Rightarrow> mt_size m
                           | Some oldStored \<Rightarrow>
                               mt_size m - (int (length encKey) + int (length oldStored) + entryOverhead));
              sl' \<leftarrow> sl_Put (mt_sl m) encKey stored;
              Some (m\<lparr>mt_sl := sl',
                      mt_size := size1 + (int (length encKey) + int (length stored) + entryOverhead)\<rparr>) })"

definition mt_Put :: "Memtable \<Rightarrow> bytes \<Rightarrow> bytes \<Rightarrow> u64 \<Rightarrow> (mem_error + Memtable) option" where
  "mt_Put m userKey value ts =
     (if mt_frozen m then Some (Inl ErrFrozen)
      else map_option Inr (mt_writeLocked m userKey value MemOpPut ts))"

definition mt_Delete :: "Memtable \<Rightarrow> bytes \<Rightarrow> u64 \<Rightarrow> (mem_error + Memtable) option" where
  "mt_Delete m userKey ts =
     (if mt_frozen m then Some (Inl ErrFrozen)
      else map_option Inr (mt_writeLocked m userKey [] MemOpDelete ts))"

definition mt_GetAsOf :: "Memtable \<Rightarrow> bytes \<Rightarrow> u64 \<Rightarrow> (bytes \<times> byte \<times> bool) option" where
  "mt_GetAsOf m userKey snapshot =
     do { node \<leftarrow> sl_SeekGE (mt_sl m) (mvcc_Encode userKey snapshot);
          case node of
            None \<Rightarrow> Some ([], 0, False)
          | Some a \<Rightarrow>
              do { n \<leftarrow> sl_heap (mt_sl m) a;
                   Some (case mvcc_Decode (node_key n) of
                     (nodeUserKey, _, ok) \<Rightarrow>
                       if \<not> ok \<or> nodeUserKey \<noteq> userKey then ([], 0, False)
                       else (case decodeValue (node_value n) of
                               (op, raw) \<Rightarrow> if op = MemOpDelete then ([], MemOpDelete, True)
                                            else (raw, MemOpPut, True))) } }"

definition mt_ApproximateSize :: "Memtable \<Rightarrow> int" where "mt_ApproximateSize m = mt_size m"

definition mt_Len :: "Memtable \<Rightarrow> nat" where "mt_Len m = sl_Len (mt_sl m)"

definition mt_Freeze :: "Memtable \<Rightarrow> Memtable" where "mt_Freeze m = m\<lparr>mt_frozen := True\<rparr>"

definition mt_IsFrozen :: "Memtable \<Rightarrow> bool" where "mt_IsFrozen m = mt_frozen m"

definition mt_Iterate ::
  "Memtable \<Rightarrow> (bytes \<Rightarrow> bytes \<Rightarrow> byte \<Rightarrow> u64 \<Rightarrow> 'a \<Rightarrow> 'a \<times> bool) \<Rightarrow> 'a \<Rightarrow> 'a option" where
  "mt_Iterate m fn st =
     sl_Iterate (mt_sl m)
       (\<lambda>encKey stored st.
          case mvcc_Decode encKey of
            (userKey, ts, _) \<Rightarrow> (case decodeValue stored of (op, raw) \<Rightarrow> fn userKey raw op ts st)) st"

definition mt_NewestVersionTS :: "Memtable \<Rightarrow> bytes \<Rightarrow> (u64 \<times> bool) option" where
  "mt_NewestVersionTS m userKey =
     do { node \<leftarrow> sl_SeekGE (mt_sl m) (mvcc_Encode userKey (NOT 0));
          case node of
            None \<Rightarrow> Some (0, False)
          | Some a \<Rightarrow>
              do { n \<leftarrow> sl_heap (mt_sl m) a;
                   Some (case mvcc_Decode (node_key n) of
                     (nodeUserKey, nodeTS, ok) \<Rightarrow>
                       if \<not> ok \<or> nodeUserKey \<noteq> userKey then (0, False) else (nodeTS, True)) } }"

definition mt_VersionCount :: "Memtable \<Rightarrow> bytes \<Rightarrow> nat option" where
  "mt_VersionCount m userKey =
     do { n \<leftarrow> sl_SeekGE (mt_sl m) (mvcc_Encode userKey (NOT 0));
          iterate_from (sl_heap (mt_sl m))
            (\<lambda>k v count. case mvcc_Decode k of
               (nodeUserKey, _, ok) \<Rightarrow>
                 if \<not> ok \<or> nodeUserKey \<noteq> userKey then (count, False) else (Suc count, True)) n 0 }"

record VersionEntry =
  ve_EncKey :: bytes
  ve_Value :: bytes
  ve_Op :: byte

text \<open>A nil bound is \<open>None\<close>.  The loop skips a key that does not decode and stops at the first user
  key at or past \<open>end\<close>.\<close>

definition mt_RangeSnapshot :: "Memtable \<Rightarrow> bytes option \<Rightarrow> bytes option \<Rightarrow> VersionEntry list option" where
  "mt_RangeSnapshot m start end1 =
     (let target = (case start of None \<Rightarrow> [] | Some k \<Rightarrow> mvcc_Encode k (NOT 0))
      in do { n \<leftarrow> sl_SeekGE (mt_sl m) target;
              iterate_from (sl_heap (mt_sl m))
                (\<lambda>enc v out. case mvcc_Decode enc of
                   (uk, _, ok) \<Rightarrow>
                     if \<not> ok then (out, True)
                     else if (case end1 of None \<Rightarrow> False | Some e \<Rightarrow> e \<le> uk) then (out, False)
                     else (case decodeValue v of
                             (op, raw) \<Rightarrow>
                               (out @ [\<lparr>ve_EncKey = enc, ve_Value = raw, ve_Op = op\<rparr>], True))) n [] })"

text \<open>A history of writes.\<close>

datatype mem_write = MPut bytes bytes u64 | MDel bytes u64

primrec mt_write :: "mem_write \<Rightarrow> Memtable \<Rightarrow> (mem_error + Memtable) option" where
  "mt_write (MPut k v ts) m = mt_Put m k v ts"
| "mt_write (MDel k ts) m = mt_Delete m k ts"

fun mt_run :: "mem_write list \<Rightarrow> Memtable \<Rightarrow> (mem_error + Memtable) option" where
  "mt_run [] m = Some (Inr m)"
| "mt_run (w # ws) m =
     do { r \<leftarrow> mt_write w m; case r of Inl e \<Rightarrow> Some (Inl e) | Inr m' \<Rightarrow> mt_run ws m' }"

subsection \<open>Specification\<close>

text \<open>\<open>write_versions ws uk\<close> lists the versions a history wrote for a user key, the latest write first.\<close>

primrec write_key :: "mem_write \<Rightarrow> bytes" where
  "write_key (MPut k v ts) = k"
| "write_key (MDel k ts) = k"

primrec write_ts :: "mem_write \<Rightarrow> u64" where
  "write_ts (MPut k v ts) = ts"
| "write_ts (MDel k ts) = ts"

primrec write_stored :: "mem_write \<Rightarrow> bytes" where
  "write_stored (MPut k v ts) = MemOpPut # v"
| "write_stored (MDel k ts) = [MemOpDelete]"

definition write_versions :: "mem_write list \<Rightarrow> bytes \<Rightarrow> (u64 \<times> bytes) list" where
  "write_versions ws uk =
     rev (map (\<lambda>w. (write_ts w, write_stored w)) (filter (\<lambda>w. write_key w = uk) ws))"

definition clean_write :: "mem_write \<Rightarrow> bool" where
  "clean_write w \<longleftrightarrow> ff_free (write_key w) \<and> small_ts (write_ts w)"

definition kvs_of_writes :: "mem_write list \<Rightarrow> bytes kvs" where
  "kvs_of_writes ws = fold (\<lambda>w. kv_put (mvcc_Encode (write_key w) (write_ts w)) (write_stored w)) ws []"

definition kv_size :: "bytes kvs \<Rightarrow> int" where
  "kv_size kvs = sum_list (map (\<lambda>(k, v). int (length k) + int (length v) + entryOverhead) kvs)"

definition mt_repr :: "Memtable \<Rightarrow> bytes kvs \<Rightarrow> bool" where
  "mt_repr m kvs \<longleftrightarrow> sl_repr (mt_sl m) kvs \<and> mt_size m = kv_size kvs"

subsection \<open>Writes\<close>

lemma kv_size_put:
  "kv_sorted kvs \<Longrightarrow>
     kv_size (kv_put k v kvs) =
       kv_size kvs + (int (length k) + int (length v) + entryOverhead) -
       (case map_of kvs k of None \<Rightarrow> 0 | Some old \<Rightarrow> int (length k) + int (length old) + entryOverhead)"
proof (induction kvs)
  case (Cons p ps)
  obtain a b where p: "p = (a, b)" by (cases p)
  have "map_of ps k = None" if "\<not> a < k"
    using that Cons.prems by (auto simp: p map_of_eq_None_iff not_less image_iff)
  with Cons p show ?case by (auto simp: kv_size_def split: option.splits)
qed (simp add: kv_size_def)

lemma mt_repr_New: "mt_repr (mt_New coins) []"
  by (simp add: mt_repr_def mt_New_def sl_repr_New kv_size_def)

lemma mt_repr_writeLocked:
  assumes "mt_repr m kvs"
  shows "\<exists>m'. mt_writeLocked m uk v op ts = Some m' \<and> mt_frozen m' = mt_frozen m \<and>
              mt_repr m' (kv_put (mvcc_Encode uk ts) (encodeValue op v) kvs)"
proof -
  have r: "sl_repr (mt_sl m) kvs" "mt_size m = kv_size kvs" using assms by (auto simp: mt_repr_def)
  obtain s' where "sl_Put (mt_sl m) (mvcc_Encode uk ts) (encodeValue op v) = Some s'"
    "sl_repr s' (kv_put (mvcc_Encode uk ts) (encodeValue op v) kvs)"
    using sl.put [OF r(1)] by blast
  then show ?thesis
    using r(2) sl.get [OF r(1)] kv_size_put [OF sl.sorted [OF r(1)], of "mvcc_Encode uk ts"]
    by (auto simp: mt_writeLocked_def mt_repr_def Let_def split: option.splits)
qed

lemma mt_repr_write:
  assumes "mt_repr m kvs" "\<not> mt_frozen m"
  shows "\<exists>m'. mt_write w m = Some (Inr m') \<and> \<not> mt_frozen m' \<and>
              mt_repr m' (kv_put (mvcc_Encode (write_key w) (write_ts w)) (write_stored w) kvs)"
proof (cases w)
  case (MPut k v ts)
  then show ?thesis
    using mt_repr_writeLocked [OF assms(1), of k v MemOpPut ts] assms(2)
    by (auto simp: mt_Put_def encodeValue_def)
next
  case (MDel k ts)
  then show ?thesis
    using mt_repr_writeLocked [OF assms(1), of k "[]" MemOpDelete ts] assms(2)
    by (auto simp: mt_Delete_def encodeValue_def)
qed

lemma mt_run_repr:
  assumes "mt_repr m kvs" "\<not> mt_frozen m"
  shows "\<exists>m'. mt_run ws m = Some (Inr m') \<and> \<not> mt_frozen m' \<and>
    mt_repr m' (fold (\<lambda>w. kv_put (mvcc_Encode (write_key w) (write_ts w)) (write_stored w)) ws kvs)"
  using assms
proof (induction ws arbitrary: m kvs)
  case (Cons w ws)
  then show ?case using mt_repr_write [OF Cons.prems, of w] by fastforce
qed simp

lemma mt_run_New: "\<exists>m. mt_run ws (mt_New coins) = Some (Inr m) \<and> mt_repr m (kvs_of_writes ws)"
  using mt_run_repr [OF mt_repr_New, of coins ws] by (auto simp: kvs_of_writes_def mt_New_def)

lemma fst_kvs_of_writes:
  "fst ` set (kvs_of_writes ws) = (\<lambda>w. mvcc_Encode (write_key w) (write_ts w)) ` set ws"
  unfolding kvs_of_writes_def by (induction ws rule: rev_induct) (auto simp: set_fst_kv_put)

lemma clean_kvs_of_writes:
  assumes "\<forall>w\<in>set ws. clean_write w" shows "clean_kvs (kvs_of_writes ws)"
proof -
  have "kv_sorted (kvs_of_writes ws)"
    unfolding kvs_of_writes_def by (induction ws rule: rev_induct) (simp_all add: kv_sorted_put)
  moreover have "clean_key k" if "k \<in> fst ` set (kvs_of_writes ws)" for k
    using that assms unfolding fst_kvs_of_writes by (auto simp: clean_write_def)
  ultimately show ?thesis by (auto simp: clean_kvs_def)
qed


lemma map_of_kvs_of_writes:
  "map_of (kvs_of_writes ws) (mvcc_Encode uk ts) = map_of (write_versions ws uk) ts"
  unfolding kvs_of_writes_def write_versions_def
  by (induction ws rule: rev_induct) (auto simp: map_of_kv_put)

subsection \<open>Reads\<close>

lemma mt_GetAsOf_seek:
  assumes "mt_repr m kvs"
  shows "mt_GetAsOf m uk snap = Some (read_result (seek_version kvs uk snap))"
proof -
  obtain r where "sl_SeekGE (mt_sl m) (mvcc_Encode uk snap) = Some r"
    "sl_at (mt_sl m) r (kv_seek (mvcc_Encode uk snap) kvs)"
    using sl_repr_SeekGE assms unfolding mt_repr_def by blast
  then show ?thesis
    by (cases "kv_seek (mvcc_Encode uk snap) kvs")
       (auto simp: mt_GetAsOf_def seek_version_def read_result_def decodeValue_def split: prod.splits list.splits)
qed

lemma mt_NewestVersionTS_seek:
  assumes "mt_repr m kvs"
  shows "mt_NewestVersionTS m uk =
           Some (case seek_version kvs uk (NOT 0) of None \<Rightarrow> (0, False) | Some (ts, _) \<Rightarrow> (ts, True))"
proof -
  obtain r where "sl_SeekGE (mt_sl m) (mvcc_Encode uk (NOT 0)) = Some r"
    "sl_at (mt_sl m) r (kv_seek (mvcc_Encode uk (NOT 0)) kvs)"
    using sl_repr_SeekGE assms unfolding mt_repr_def by blast
  then show ?thesis
    by (cases "kv_seek (mvcc_Encode uk (NOT 0)) kvs")
       (auto simp: mt_NewestVersionTS_def seek_version_def split: prod.splits)
qed

interpretation mem: version_source mt_repr mt_GetAsOf mt_NewestVersionTS
  by unfold_locales (rule mt_GetAsOf_seek mt_NewestVersionTS_seek, assumption)+

definition version_entry :: "bytes \<times> bytes \<Rightarrow> VersionEntry" where
  "version_entry p =
     \<lparr>ve_EncKey = fst p, ve_Value = snd (decodeValue (snd p)), ve_Op = fst (decodeValue (snd p))\<rparr>"

lemma mt_RangeSnapshot_seek:
  assumes "mt_repr m kvs" "\<forall>p\<in>set kvs. snd (snd (mvcc_Decode (fst p)))"
  shows "mt_RangeSnapshot m start end1 =
    Some (map version_entry (takeWhile (\<lambda>p. case end1 of None \<Rightarrow> True | Some e \<Rightarrow> mvcc_UserKey (fst p) < e)
            (kv_seek (case start of None \<Rightarrow> [] | Some k \<Rightarrow> mvcc_Encode k (NOT 0)) kvs)))"
proof -
  let ?t = "case start of None \<Rightarrow> [] | Some k \<Rightarrow> mvcc_Encode k (NOT 0)"
  let ?f = "\<lambda>enc v out. case mvcc_Decode enc of
      (uk, _, ok) \<Rightarrow>
        if \<not> ok then (out, True)
        else if (case end1 of None \<Rightarrow> False | Some e \<Rightarrow> e \<le> uk) then (out, False)
        else (case decodeValue v of
                (op, raw) \<Rightarrow> (out @ [\<lparr>ve_EncKey = enc, ve_Value = raw, ve_Op = op\<rparr>], True))"
  obtain r where r: "sl_SeekGE (mt_sl m) ?t = Some r" "sl_at (mt_sl m) r (kv_seek ?t kvs)"
    using sl_repr_SeekGE assms(1) unfolding mt_repr_def by blast
  have it: "iter_list ?f ps out =
      out @ map version_entry (takeWhile (\<lambda>p. case end1 of None \<Rightarrow> True | Some e \<Rightarrow> mvcc_UserKey (fst p) < e) ps)"
    if "\<forall>p\<in>set ps. snd (snd (mvcc_Decode (fst p)))" for ps out
    using that
  proof (induction ps arbitrary: out)
    case (Cons p ps)
    obtain k v where p: "p = (k, v)" by (cases p)
    then obtain uk ts where "k = mvcc_Encode uk ts" using Cons.prems by (auto simp: mvcc_Decode_ok_iff)
    then show ?case using Cons p
      by (auto simp: version_entry_def not_less split: option.splits prod.splits)
  qed simp
  have "set (kv_seek ?t kvs) \<subseteq> set kvs" unfolding kv_seek_def by (auto dest: set_dropWhileD)
  then have "iter_list ?f (kv_seek ?t kvs) [] =
      map version_entry (takeWhile (\<lambda>p. case end1 of None \<Rightarrow> True | Some e \<Rightarrow> mvcc_UserKey (fst p) < e) (kv_seek ?t kvs))"
    using it [of "kv_seek ?t kvs" "[]"] assms(2) by auto
  then show ?thesis using r by (simp add: mt_RangeSnapshot_def Let_def iterate_from_at)
qed


lemma kvs_of_writes_decodes: "\<forall>p\<in>set (kvs_of_writes ws). snd (snd (mvcc_Decode (fst p)))"
proof
  fix p assume "p \<in> set (kvs_of_writes ws)"
  then have "fst p \<in> (\<lambda>w. mvcc_Encode (write_key w) (write_ts w)) ` set ws"
    using fst_kvs_of_writes [of ws] by auto
  then show "snd (snd (mvcc_Decode (fst p)))" by auto
qed

lemma kvs_of_writes_sorted: "kv_sorted (kvs_of_writes ws)"
  unfolding kvs_of_writes_def by (induction ws rule: rev_induct) (simp_all add: kv_sorted_put)

subsection \<open>Properties\<close>

text \<open>C28: after any history of writes to a fresh memtable (keys without \<open>0xFF\<close>, timestamps below
  \<open>2 ^ 56\<close>, in any order), \<^verbatim>\<open>GetAsOf\<close> returns exactly the newest write to the key at or before the
  snapshot; the later of two writes at one timestamp wins; a tombstone is reported as such.\<close>

theorem mt_GetAsOf_history:
  assumes "\<forall>w\<in>set ws. clean_write w" "ff_free uk" "small_ts snap"
  shows "\<exists>m. mt_run ws (mt_New coins) = Some (Inr m) \<and>
    mt_GetAsOf m uk snap =
      Some (read_result (newest (filter (\<lambda>p. fst p \<le> snap) (write_versions ws uk))))"
proof -
  obtain m where m: "mt_run ws (mt_New coins) = Some (Inr m)" "mt_repr m (kvs_of_writes ws)"
    using mt_run_New by blast
  then show ?thesis
    using mem.get_read [OF m(2) clean_kvs_of_writes [OF assms(1)] assms(2,3)]
    by (simp add: mvcc_read_cong [OF map_of_kvs_of_writes])
qed

theorem mt_GetAsOf_history_witness:
  "\<exists>m. mt_run [MPut [97] [1] 5, MPut [97, 98] [2] 6, MDel [97] 8] (mt_New (\<lambda>n. n = 0)) = Some (Inr m) \<and>
       mt_GetAsOf m [97] 7 = Some ([1], MemOpPut, True)"
  using mt_GetAsOf_history [of "[MPut [97] [1] 5, MPut [97, 98] [2] 6, MDel [97] 8]" "[97]" 7 "\<lambda>n. n = 0"]
  by (simp add: clean_write_def ff_free_def small_ts_def write_versions_def read_result_def decodeValue_def)

text \<open>Without that restriction it fails.  With the key \<open>a\<close> written at 1 and the key \<open>a FF FF FF FF FF FF FF FD\<close>
  at 2, a lookup of \<open>a\<close> at 2 meets a version of the longer key first and reports \<open>a\<close> as missing.\<close>

lemma mt_GetAsOf_ff:
  "(case mt_run [MPut [97] [1] 1, MPut ([97] @ replicate 7 255 @ [253]) [2] 2] (mt_New (\<lambda>n. False)) of
      Some (Inr m) \<Rightarrow> mt_GetAsOf m [97] 2 | _ \<Rightarrow> None) = Some ([], 0, False)"
  by code_simp

text \<open>The size that drives flushing is, after any history of writes, the sum over the stored
  versions of key length, stored length and overhead, also when versions were overwritten; the
  length counts the stored versions; and a frozen memtable refuses every write.\<close>

theorem mt_accounting:
  "\<exists>m. mt_run ws (mt_New coins) = Some (Inr m) \<and>
       mt_ApproximateSize m = kv_size (kvs_of_writes ws) \<and>
       mt_Len m = length (kvs_of_writes ws) \<and>
       mt_write w (mt_Freeze m) = Some (Inl ErrFrozen)"
proof -
  obtain m where m: "mt_run ws (mt_New coins) = Some (Inr m)" "mt_repr m (kvs_of_writes ws)"
    using mt_run_New by blast
  have "mt_write w (mt_Freeze m) = Some (Inl ErrFrozen)"
    by (cases w) (simp_all add: mt_Freeze_def mt_Put_def mt_Delete_def)
  then show ?thesis
    using m by (auto simp: mt_repr_def mt_ApproximateSize_def mt_Len_def sl_repr_Len)
qed

text \<open>When the store holds a version of some extension \<open>uk @ c # r\<close> of a key (with \<open>c\<close> not the zero
  byte), \<^verbatim>\<open>NewestVersionTS\<close> reports that the key has no version, however many it has.  The commit-time
  conflict check, which relies on it, then misses every conflict on the key.\<close>

theorem mt_NewestVersionTS_misses:
  assumes "\<forall>w\<in>set ws. clean_write w" "w \<in> set ws" "write_key w = uk @ c # r" "0 < c"
  shows "\<exists>m. mt_run ws (mt_New coins) = Some (Inr m) \<and> mt_NewestVersionTS m uk = Some (0, False)"
proof -
  obtain m where m: "mt_run ws (mt_New coins) = Some (Inr m)" "mt_repr m (kvs_of_writes ws)"
    using mt_run_New by blast
  have "mvcc_Encode (uk @ c # r) (write_ts w) \<in> fst ` set (kvs_of_writes ws)"
    using assms(2,3) unfolding fst_kvs_of_writes by force
  then obtain v where "(mvcc_Encode (uk @ c # r) (write_ts w), v) \<in> set (kvs_of_writes ws)" by auto
  then show ?thesis
    using mem.newest_missed [OF m(2) clean_kvs_of_writes [OF assms(1)] _ assms(4)] m(1) by blast
qed

theorem mt_NewestVersionTS_misses_witness:
  "\<exists>m. mt_run [MPut [97, 49] [1] 1, MPut [97] [2] 9] (mt_New (\<lambda>n. False)) = Some (Inr m) \<and>
       mt_NewestVersionTS m [97] = Some (0, False)"
  using mt_NewestVersionTS_misses [of "[MPut [97, 49] [1] 1, MPut [97] [2] 9]" "MPut [97, 49] [1] 1" "[97]" 49 "[]"]
  by (simp add: clean_write_def ff_free_def small_ts_def)

text \<open>When no stored key is a proper extension of the key, \<^verbatim>\<open>NewestVersionTS\<close> returns the timestamp
  of its newest version, or reports that it has none.\<close>

theorem mt_NewestVersionTS_prefix_free:
  assumes "\<forall>w\<in>set ws. clean_write w \<and> (prefix uk (write_key w) \<longrightarrow> write_key w = uk)" "ff_free uk"
  shows "\<exists>m. mt_run ws (mt_New coins) = Some (Inr m) \<and>
    mt_NewestVersionTS m uk =
      Some (case newest (write_versions ws uk) of None \<Rightarrow> (0, False) | Some (ts, _) \<Rightarrow> (ts, True))"
proof -
  obtain m where m: "mt_run ws (mt_New coins) = Some (Inr m)" "mt_repr m (kvs_of_writes ws)"
    using mt_run_New by blast
  have "mt_NewestVersionTS m uk =
      Some (case newest (mvcc_versions (kvs_of_writes ws) uk) of None \<Rightarrow> (0, False) | Some (ts, _) \<Rightarrow> (ts, True))"
    using m(2)
  proof (rule mem.newest_exact)
    show "clean_kvs (kvs_of_writes ws)" using assms(1) by (intro clean_kvs_of_writes) auto
  next
    fix uk' ts v assume "(mvcc_Encode uk' ts, v) \<in> set (kvs_of_writes ws)" and p: "prefix uk uk'"
    then have "mvcc_Encode uk' ts \<in> (\<lambda>w. mvcc_Encode (write_key w) (write_ts w)) ` set ws"
      unfolding fst_kvs_of_writes [symmetric] by force
    then show "uk' = uk" using assms(1) p by auto
  qed (rule assms(2))
  moreover have "newest (mvcc_versions (kvs_of_writes ws) uk) = newest (write_versions ws uk)"
    by (rule newest_cong) (simp add: fun_eq_iff map_of_mvcc_versions map_of_kvs_of_writes)
  ultimately show ?thesis using m by simp
qed

theorem mt_NewestVersionTS_prefix_free_witness:
  "\<exists>m. mt_run [MPut [98, 49] [1] 1, MPut [97] [2] 9] (mt_New (\<lambda>n. False)) = Some (Inr m) \<and>
       mt_NewestVersionTS m [97] = Some (9, True)"
  using mt_NewestVersionTS_prefix_free [of "[MPut [98, 49] [1] 1, MPut [97] [2] 9]" "[97]" "\<lambda>n. False"]
  by (simp add: clean_write_def ff_free_def small_ts_def write_versions_def)

text \<open>When the stored keys and the bounds are prefix-free, \<^verbatim>\<open>RangeSnapshot\<close> returns exactly the
  stored versions whose user key lies in \<open>[start, end)\<close>, in encoded-key order.\<close>

theorem mt_RangeSnapshot_exact:
  assumes "prefix_free (map write_key ws @ bound_keys start end1)"
  shows "\<exists>m. mt_run ws (mt_New coins) = Some (Inr m) \<and>
    mt_RangeSnapshot m start end1 =
      Some (map version_entry (filter (\<lambda>p. in_range start end1 (mvcc_UserKey (fst p))) (kvs_of_writes ws)))"
proof -
  obtain m where m: "mt_run ws (mt_New coins) = Some (Inr m)" "mt_repr m (kvs_of_writes ws)"
    using mt_run_New by blast
  have "\<forall>p\<in>set (kvs_of_writes ws). mvcc_UserKey (fst p) \<in> set (map write_key ws)"
  proof
    fix p assume "p \<in> set (kvs_of_writes ws)"
    then have "fst p \<in> (\<lambda>w. mvcc_Encode (write_key w) (write_ts w)) ` set ws"
      using fst_kvs_of_writes [of ws] by auto
    then show "mvcc_UserKey (fst p) \<in> set (map write_key ws)" by auto
  qed
  then show ?thesis
    using m mt_RangeSnapshot_seek [OF m(2) kvs_of_writes_decodes]
      range_seek_exact [OF kvs_of_writes_sorted kvs_of_writes_decodes assms] by auto
qed

theorem mt_RangeSnapshot_exact_witness:
  "\<exists>m. mt_run [MPut [97] [1] 1, MPut [98] [2] 9] (mt_New (\<lambda>n. False)) = Some (Inr m) \<and>
       mt_RangeSnapshot m (Some [98]) None = Some [version_entry (mvcc_Encode [98] 9, [1, 2])]"
  using mt_RangeSnapshot_exact [of "[MPut [97] [1] 1, MPut [98] [2] 9]" "Some [98]" None "\<lambda>n. False"]
  by (simp add: prefix_free_def bound_keys_def kvs_of_writes_def in_range_def mvcc_Encode_parallel_less)

end
