(* ===== verification/Wal.thy ===== *)
theory Wal
  imports Record_Format
begin

section \<open>The write-ahead log (\<open>internal/wal\<close>)\<close>

text \<open>
  The log file is its contents and the position of the file descriptor.  A write may fail after any
  number of bytes and an fsync may fail; both outcomes are arguments of \<open>wal_Append\<close>.  The other
  operating-system calls (mkdir, stat, open, seek, truncate, reads inside the file) are taken to
  succeed.  \<open>wal_repr w rs\<close> relates an open log to the list of records it holds.
\<close>

subsection \<open>State\<close>

record File =
  f_data :: bytes
  f_pos :: nat

record WAL =
  wal_f :: File
  wal_size :: nat
  wal_SyncOnWrite :: bool
  wal_closed :: bool

datatype wal_error =
    WalClosed
  | WalWrite
  | WalSync
  | WalInvalidOffset
  | WalReadHeader
  | WalHeader decode_error
  | WalReadBody
  | WalDecode nat decode_error
  | WalCorruption nat decode_error

text \<open>\<^verbatim>\<open>File.Write\<close> writes at the descriptor's position and advances it by what was written.\<close>

definition file_write :: "bytes \<Rightarrow> File \<Rightarrow> File" where
  "file_write b f =
     (let d = f_data f; p = f_pos f;
          d' = (if length d < p then d @ replicate (p - length d) 0 else d)
      in \<lparr>f_data = take p d' @ b @ drop (p + length b) d', f_pos = p + length b\<rparr>)"

text \<open>\<^verbatim>\<open>File.ReadAt\<close> of \<open>n\<close> bytes fails when the file ends before them.\<close>

definition file_ReadAt :: "File \<Rightarrow> nat \<Rightarrow> nat \<Rightarrow> bytes option" where
  "file_ReadAt f off n =
     (if off + n \<le> length (f_data f) then Some (bslice off (off + n) (f_data f)) else None)"

text \<open>What the operating system does with one append: all bytes written, or an error after \<open>n\<close>.\<close>

datatype write_outcome = WriteOk | WriteFails nat

subsection \<open>Operations\<close>

text \<open>The loop of \<^verbatim>\<open>recover\<close>: the size of the validated prefix, or a refusal to start.\<close>

function wal_recover_at :: "bytes \<Rightarrow> nat \<Rightarrow> wal_error + nat" where
  "wal_recover_at buf offset =
     (if offset < length buf then
        (case rec_Decode (drop offset buf) of
           Inr (r, n) \<Rightarrow> wal_recover_at buf (offset + n)
         | Inl e \<Rightarrow> if e = ErrUnexpectedEOF \<or> e = ErrCorrupt then Inr offset
                   else Inl (WalCorruption offset e))
      else Inr (length buf))"
  by pat_completeness auto
termination
  by (relation "measure (\<lambda>(buf, offset). length buf - offset)") (auto dest!: rec_Decode_progress)

declare wal_recover_at.simps [simp del]

definition wal_recover :: "WAL \<Rightarrow> wal_error + WAL" where
  "wal_recover w =
     (let d = f_data (wal_f w) in
      if length d = 0 then Inr (w\<lparr>wal_size := 0\<rparr>)
      else case wal_recover_at d 0 of
             Inl e \<Rightarrow> Inl e
           | Inr n \<Rightarrow> Inr (w\<lparr>wal_f := (wal_f w)\<lparr>f_data := take n d\<rparr>, wal_size := n\<rparr>))"

text \<open>\<open>None\<close> is a file that does not exist yet.\<close>

definition wal_OpenWith :: "bytes option \<Rightarrow> bool \<Rightarrow> wal_error + WAL" where
  "wal_OpenWith file sync =
     (let f = \<lparr>f_data = (case file of None \<Rightarrow> [] | Some d \<Rightarrow> d), f_pos = 0\<rparr>;
          w = \<lparr>wal_f = f, wal_size = 0, wal_SyncOnWrite = sync, wal_closed = False\<rparr>
      in case wal_recover w of
           Inl e \<Rightarrow> Inl e
         | Inr w' \<Rightarrow> Inr (w'\<lparr>wal_f := (wal_f w')\<lparr>f_pos := wal_size w'\<rparr>\<rparr>))"

definition wal_Append :: "write_outcome \<Rightarrow> bool \<Rightarrow> Record \<Rightarrow> WAL \<Rightarrow> (wal_error + nat) \<times> WAL" where
  "wal_Append wr syncOk rec w =
     (if wal_closed w then (Inl WalClosed, w)
      else let encoded = rec_Encode rec; offset = wal_size w
           in case wr of
                WriteFails n \<Rightarrow> (Inl WalWrite, w\<lparr>wal_f := file_write (take n encoded) (wal_f w)\<rparr>)
              | WriteOk \<Rightarrow>
                  let w1 = w\<lparr>wal_f := file_write encoded (wal_f w)\<rparr>
                  in if wal_SyncOnWrite w \<and> \<not> syncOk then (Inl WalSync, w1)
                     else (Inr offset, w1\<lparr>wal_size := wal_size w + length encoded\<rparr>))"

definition wal_ReadAt :: "int \<Rightarrow> WAL \<Rightarrow> wal_error + Record" where
  "wal_ReadAt offset w =
     (if wal_closed w then Inl WalClosed
      else if offset < 0 \<or> offset \<ge> int (wal_size w) then Inl WalInvalidOffset
      else let off = nat offset in
        case file_ReadAt (wal_f w) off HeaderSize of
          None \<Rightarrow> Inl WalReadHeader
        | Some hdr \<Rightarrow>
            (case rec_HeaderLengths hdr of
               Inl e \<Rightarrow> Inl (WalHeader e)
             | Inr (keyLen, valueLen) \<Rightarrow>
                 let total = HeaderSize + unat keyLen + unat valueLen
                 in case (if total > HeaderSize
                          then file_ReadAt (wal_f w) (off + HeaderSize) (total - HeaderSize)
                          else Some []) of
                      None \<Rightarrow> Inl WalReadBody
                    | Some body \<Rightarrow>
                        (case rec_Decode (hdr @ body) of
                           Inl e \<Rightarrow> Inl (WalDecode off e)
                         | Inr (r, _) \<Rightarrow> Inr r)))"

text \<open>\<^verbatim>\<open>Scan\<close>, with a callback that threads a state and may return an error.\<close>

function wal_scan_at ::
  "(nat \<Rightarrow> Record \<Rightarrow> 's \<Rightarrow> 'e + 's) \<Rightarrow> bytes \<Rightarrow> nat \<Rightarrow> 's \<Rightarrow> (wal_error + 'e) + 's" where
  "wal_scan_at fn buf offset st =
     (if offset < length buf then
        (case rec_Decode (drop offset buf) of
           Inl e \<Rightarrow> Inl (Inl (WalDecode offset e))
         | Inr (r, n) \<Rightarrow>
             (case fn offset r st of
                Inl e \<Rightarrow> Inl (Inr e)
              | Inr st' \<Rightarrow> wal_scan_at fn buf (offset + n) st'))
      else Inr st)"
  by pat_completeness auto
termination
  by (relation "measure (\<lambda>(fn, buf, offset, st). length buf - offset)") (auto dest!: rec_Decode_progress)

declare wal_scan_at.simps [simp del]

definition wal_Scan :: "(nat \<Rightarrow> Record \<Rightarrow> 's \<Rightarrow> 'e + 's) \<Rightarrow> 's \<Rightarrow> WAL \<Rightarrow> (wal_error + 'e) + 's" where
  "wal_Scan fn st w =
     (if wal_closed w then Inl (Inl WalClosed)
      else if wal_size w = 0 then Inr st
      else case file_ReadAt (wal_f w) 0 (wal_size w) of
             None \<Rightarrow> Inl (Inl WalReadBody)
           | Some buf \<Rightarrow> wal_scan_at fn buf 0 st)"

definition wal_Size :: "WAL \<Rightarrow> nat" where "wal_Size w = wal_size w"

definition wal_Close :: "WAL \<Rightarrow> WAL" where
  "wal_Close w = (if wal_closed w then w else w\<lparr>wal_closed := True\<rparr>)"

subsection \<open>Specification: a log is a list of records\<close>

definition wal_bytes :: "Record list \<Rightarrow> bytes" where
  "wal_bytes rs = concat (map rec_Encode rs)"

definition wal_repr :: "WAL \<Rightarrow> Record list \<Rightarrow> bool" where
  "wal_repr w rs \<longleftrightarrow>
     f_data (wal_f w) = wal_bytes rs \<and> wal_size w = length (wal_bytes rs) \<and>
     f_pos (wal_f w) = wal_size w \<and> \<not> wal_closed w \<and> list_all rec_ok rs"

text \<open>The fold of a callback over the records with their offsets, stopping at its first error.\<close>

fun scan_records :: "(nat \<Rightarrow> Record \<Rightarrow> 's \<Rightarrow> 'e + 's) \<Rightarrow> nat \<Rightarrow> Record list \<Rightarrow> 's \<Rightarrow> 'e + 's" where
  "scan_records fn off [] st = Inr st"
| "scan_records fn off (r # rs) st =
     (case fn off r st of Inl e \<Rightarrow> Inl e | Inr st' \<Rightarrow> scan_records fn (off + rec_size r) rs st')"

subsection \<open>Lemmas\<close>

lemma wal_bytes_simps [simp]:
  "wal_bytes [] = []" "wal_bytes (r # rs) = rec_Encode r @ wal_bytes rs"
  "wal_bytes (rs @ rs') = wal_bytes rs @ wal_bytes rs'"
  by (simp_all add: wal_bytes_def)

lemma wal_recover_at_records:
  assumes "list_all rec_ok rs"
  shows "wal_recover_at (pre @ wal_bytes rs @ tail) (length pre) =
         wal_recover_at (pre @ wal_bytes rs @ tail) (length pre + length (wal_bytes rs))"
  using assms
proof (induction rs arbitrary: pre)
  case (Cons r rs)
  let ?buf = "pre @ wal_bytes (r # rs) @ tail"
  have "rec_Decode (drop (length pre) ?buf) = Inr (r, rec_size r)"
    using Cons.prems rec_Decode_Encode [of r "wal_bytes rs @ tail"] by simp
  then have "wal_recover_at ?buf (length pre) = wal_recover_at ?buf (length pre + rec_size r)"
    by (subst wal_recover_at.simps) simp
  also have "\<dots> = wal_recover_at ((pre @ rec_Encode r) @ wal_bytes rs @ tail) (length (pre @ rec_Encode r))"
    by (simp add: length_rec_Encode)
  also have "\<dots> = wal_recover_at ((pre @ rec_Encode r) @ wal_bytes rs @ tail)
                     (length (pre @ rec_Encode r) + length (wal_bytes rs))"
    using Cons.IH [of "pre @ rec_Encode r"] Cons.prems by (simp only: list.pred_inject)
  finally show ?case by (simp add: add.assoc)
qed simp

text \<open>A torn append leaves the records before it.\<close>

lemma wal_recover_at_torn:
  assumes "list_all rec_ok rs" "rec_ok r" "n < rec_size r"
  shows "wal_recover_at (wal_bytes rs @ take n (rec_Encode r)) 0 = Inr (length (wal_bytes rs))"
proof -
  have "wal_recover_at (wal_bytes rs @ take n (rec_Encode r)) 0 =
        wal_recover_at (wal_bytes rs @ take n (rec_Encode r)) (length (wal_bytes rs))"
    using wal_recover_at_records [OF assms(1), of "[]"] by simp
  also have "\<dots> = Inr (length (wal_bytes rs))"
    using rec_Decode_torn [OF assms(2,3)] by (subst wal_recover_at.simps) (auto simp: length_rec_Encode)
  finally show ?thesis .
qed

lemma wal_recover_at_whole:
  "list_all rec_ok rs \<Longrightarrow> wal_recover_at (wal_bytes rs) 0 = Inr (length (wal_bytes rs))"
  using wal_recover_at_records [of rs "[]" "[]"] by (simp add: wal_recover_at.simps)

text \<open>What recovery keeps of an arbitrary file: valid records, up to the first place where no valid
  record starts.\<close>

lemma wal_recover_at_sound:
  assumes "wal_recover_at buf off = Inr n" "off \<le> length buf"
  shows "off \<le> n \<and> n \<le> length buf \<and>
         (\<exists>rs. list_all rec_ok rs \<and> bslice off n buf = wal_bytes rs) \<and>
         (n < length buf \<longrightarrow> rec_Decode (drop n buf) \<in> {Inl ErrUnexpectedEOF, Inl ErrCorrupt})"
  using assms
proof (induction buf off rule: wal_recover_at.induct)
  case (1 buf off)
  show ?case
  proof (cases "off < length buf")
    case False
    then have "n = off" using 1(2,3) by (simp add: wal_recover_at.simps)
    then show ?thesis using False 1(3) by (auto simp: bslice_def intro!: exI [of _ "[]"])
  next
    case True
    show ?thesis
    proof (cases "rec_Decode (drop off buf)")
      case (Inl e)
      then have "n = off" "e = ErrUnexpectedEOF \<or> e = ErrCorrupt"
        using 1(2) True by (auto simp: wal_recover_at.simps [of buf off] split: if_splits)
      then show ?thesis using 1(3) Inl by (auto simp: bslice_def intro!: exI [of _ "[]"])
    next
      case (Inr p)
      then obtain r m where rm: "rec_Decode (drop off buf) = Inr (r, m)" by (cases p) auto
      note snd = rec_Decode_sound [OF rm]
      have rec: "wal_recover_at buf (off + m) = Inr n"
        using 1(2) True rm by (simp add: wal_recover_at.simps [of buf off])
      have le: "off + m \<le> length buf" using snd(1) True by simp
      then obtain rs where ih: "off + m \<le> n" "n \<le> length buf" "list_all rec_ok rs"
        "bslice (off + m) n buf = wal_bytes rs"
        "n < length buf \<longrightarrow> rec_Decode (drop n buf) \<in> {Inl ErrUnexpectedEOF, Inl ErrCorrupt}"
        using 1(1) [OF True rm refl rec le] by auto
      have "bslice off n buf = rec_Encode r @ wal_bytes rs"
        using bslice_join [of off "off + m" n buf] ih(1,2,4) snd(2) by (simp add: bslice_def)
      then show ?thesis using ih snd(3) by (auto intro!: exI [of _ "r # rs"])
    qed
  qed
qed

lemma wal_scan_at_records:
  assumes "list_all rec_ok rs"
  shows "wal_scan_at fn (pre @ wal_bytes rs) (length pre) st =
         (case scan_records fn (length pre) rs st of Inl e \<Rightarrow> Inl (Inr e) | Inr st' \<Rightarrow> Inr st')"
  using assms
proof (induction rs arbitrary: pre st)
  case Nil
  then show ?case by (simp add: wal_scan_at.simps)
next
  case (Cons r rs)
  let ?buf = "pre @ wal_bytes (r # rs)"
  have d: "rec_Decode (drop (length pre) ?buf) = Inr (r, rec_size r)"
    using Cons.prems rec_Decode_Encode [of r "wal_bytes rs"] by simp
  have lt: "length pre < length ?buf" by (simp add: length_rec_Encode)
  show ?case
  proof (cases "fn (length pre) r st")
    case (Inl e)
    then show ?thesis using d lt by (subst wal_scan_at.simps) simp
  next
    case (Inr st')
    then have "wal_scan_at fn ?buf (length pre) st = wal_scan_at fn ?buf (length pre + rec_size r) st'"
      using d lt by (subst wal_scan_at.simps) simp
    also have "\<dots> = wal_scan_at fn ((pre @ rec_Encode r) @ wal_bytes rs) (length (pre @ rec_Encode r)) st'"
      by (simp add: length_rec_Encode)
    also have "\<dots> = (case scan_records fn (length (pre @ rec_Encode r)) rs st' of
                        Inl e \<Rightarrow> Inl (Inr e) | Inr st' \<Rightarrow> Inr st')"
      using Cons.IH [of "pre @ rec_Encode r"] Cons.prems by (simp only: list.pred_inject)
    finally show ?thesis using Inr by (simp add: length_rec_Encode)
  qed
qed


lemma wal_OpenWith_eq:
  "wal_OpenWith file sync =
     (let d = (case file of None \<Rightarrow> [] | Some d \<Rightarrow> d) in
      case wal_recover_at d 0 of
        Inl e \<Rightarrow> Inl e
      | Inr n \<Rightarrow> Inr \<lparr>wal_f = \<lparr>f_data = take n d, f_pos = n\<rparr>, wal_size = n,
                       wal_SyncOnWrite = sync, wal_closed = False\<rparr>)"
  by (auto simp: wal_OpenWith_def wal_recover_def Let_def wal_recover_at.simps [of "[]"] split: sum.splits option.splits)

lemma wal_repr_Open:
  assumes "list_all rec_ok rs" "wal_recover_at d 0 = Inr (length (wal_bytes rs))"
    and "take (length (wal_bytes rs)) d = wal_bytes rs"
  shows "\<exists>w. wal_OpenWith (Some d) sync = Inr w \<and> wal_repr w rs \<and> wal_SyncOnWrite w = sync"
  using assms by (simp add: wal_OpenWith_eq wal_repr_def)

lemma wal_repr_Scan:
  assumes "wal_repr w rs"
  shows "wal_Scan fn st w = (case scan_records fn 0 rs st of Inl e \<Rightarrow> Inl (Inr e) | Inr st' \<Rightarrow> Inr st')"
proof -
  have r: "f_data (wal_f w) = wal_bytes rs" "wal_size w = length (wal_bytes rs)" "\<not> wal_closed w" "list_all rec_ok rs"
    using assms by (auto simp: wal_repr_def)
  have "wal_scan_at fn (wal_bytes rs) 0 st = (case scan_records fn 0 rs st of Inl e \<Rightarrow> Inl (Inr e) | Inr st' \<Rightarrow> Inr st')"
    using wal_scan_at_records [OF r(4), of fn "[]"] by simp
  moreover have "rs = []" if "wal_bytes rs = []" using that by (cases rs) (auto simp: rec_Encode_def rec_body_def Let_def)
  ultimately show ?thesis using r by (auto simp: wal_Scan_def file_ReadAt_def bslice_def)
qed

lemma wal_repr_Append:
  assumes "wal_repr w rs" "rec_ok r" "wal_SyncOnWrite w \<longrightarrow> syncOk"
  shows "\<exists>w'. wal_Append WriteOk syncOk r w = (Inr (length (wal_bytes rs)), w') \<and> wal_repr w' (rs @ [r])"
  using assms by (auto simp: wal_Append_def wal_repr_def file_write_def Let_def)

lemma wal_repr_ReadAt:
  assumes "wal_repr w rs" "i < length rs"
  shows "wal_ReadAt (int (length (wal_bytes (take i rs)))) w = Inr (rs ! i)"
proof -
  let ?off = "length (wal_bytes (take i rs))" and ?r = "rs ! i"
  have rs: "rs = take i rs @ ?r # drop (Suc i) rs" using assms(2) by (rule id_take_nth_drop)
  have r: "f_data (wal_f w) = wal_bytes (take i rs) @ rec_Encode ?r @ wal_bytes (drop (Suc i) rs)"
    using assms(1) arg_cong [OF rs, of wal_bytes] by (simp add: wal_repr_def)
  have ok: "rec_ok ?r" using assms by (auto simp: wal_repr_def list_all_length)
  have len: "length (rec_Encode ?r) = rec_size ?r" by (rule length_rec_Encode)
  have sz: "wal_size w = ?off + rec_size ?r + length (wal_bytes (drop (Suc i) rs))" "\<not> wal_closed w"
    using assms(1) arg_cong [OF r, of length] len by (auto simp: wal_repr_def)
  let ?e = "rec_Encode ?r"
  have hdr: "file_ReadAt (wal_f w) ?off HeaderSize = Some (take HeaderSize ?e)"
    using len by (simp add: file_ReadAt_def r bslice_def)
  have hl: "rec_HeaderLengths (take HeaderSize ?e) =
      Inr (word_of_nat (length (rec_Key ?r)), word_of_nat (length (rec_Value ?r)))"
    using rec_Encode_fields [of ?r "[]"] len by (simp add: rec_HeaderLengths_def bslice_take)
  have body: "file_ReadAt (wal_f w) (?off + HeaderSize) (length (rec_Key ?r) + length (rec_Value ?r)) = Some (drop HeaderSize ?e)"
    using len by (simp add: file_ReadAt_def r bslice_def)
  have nil: "drop HeaderSize ?e = []" if "rec_Key ?r = []" "rec_Value ?r = []" using len that by simp
  have dec: "rec_Decode (take HeaderSize ?e @ drop HeaderSize ?e) = Inr (?r, rec_size ?r)"
    using rec_Decode_Encode0 [OF ok] by simp
  show ?thesis
    unfolding wal_ReadAt_def using sz hdr hl body dec nil
    by (auto simp: Let_def unat_rec_lengths [OF ok])
qed


lemma wal_recover_at_error:
  "wal_recover_at buf off = Inl e \<Longrightarrow> \<exists>k. e = WalCorruption k ErrInvalidOp \<or> e = WalCorruption k DecodePanic"
proof (induction buf off rule: wal_recover_at.induct)
  case (1 buf off)
  have "off < length buf" using 1(2) by (auto simp: wal_recover_at.simps [of buf off] split: if_splits)
  moreover have "rec_Decode (drop off buf) \<noteq> Inl EOF"
    using \<open>off < length buf\<close> by (auto simp: rec_Decode_def Let_def)
  ultimately show ?case
  proof (cases "rec_Decode (drop off buf)")
    case (Inl d)
    then have "e = WalCorruption off d" "d \<noteq> ErrUnexpectedEOF" "d \<noteq> ErrCorrupt" "d \<noteq> EOF"
      using 1(2) \<open>off < length buf\<close> \<open>rec_Decode (drop off buf) \<noteq> Inl EOF\<close>
      by (auto simp: wal_recover_at.simps [of buf off] split: if_splits)
    then show ?thesis by (cases d) auto
  next
    case (Inr p)
    obtain r n where p: "p = (r, n)" by (cases p)
    have "wal_recover_at buf (off + n) = Inl e"
      using 1(2) \<open>off < length buf\<close> Inr p by (simp add: wal_recover_at.simps [of buf off])
    then show ?thesis using 1(1) [OF \<open>off < length buf\<close> Inr p [symmetric]] by blast
  qed
qed

subsection \<open>Properties\<close>

text \<open>C35: an append is atomic under a crash.  Whatever prefix of the new record reached the file, the
  next open succeeds and holds the old records, plus the new one exactly when all its bytes are
  there.\<close>

theorem wal_crash_atomic:
  assumes "list_all rec_ok rs" "rec_ok r"
  shows "\<exists>w. wal_OpenWith (Some (wal_bytes rs @ take n (rec_Encode r))) sync = Inr w \<and>
             wal_repr w (if n < rec_size r then rs else rs @ [r])"
proof (cases "n < rec_size r")
  case True
  then show ?thesis
    using wal_repr_Open [OF assms(1) wal_recover_at_torn [OF assms True]] by auto
next
  case False
  have ok: "list_all rec_ok (rs @ [r])" using assms by simp
  show ?thesis
    using wal_repr_Open [OF ok wal_recover_at_whole [OF ok]] False by (auto simp: length_rec_Encode)
qed

theorem wal_crash_atomic_witness:
  "\<exists>w. wal_OpenWith (Some (wal_bytes [mkRecord OpPut 1 [97] [98]] @ take 10 (rec_Encode (mkRecord OpCommit 1 [] [])))) True
         = Inr w \<and> wal_repr w [mkRecord OpPut 1 [97] [98]]"
  using wal_crash_atomic [of "[mkRecord OpPut 1 [97] [98]]" "mkRecord OpCommit 1 [] []" 10 True]
  by (simp add: rec_ok_def valid_op_def mkRecord_def)

text \<open>C36: opening a log on arbitrary file contents either keeps a prefix of the file that is a sequence
  of valid records, the longest one in that no valid record follows it, and opening again changes
  nothing; or it refuses to start because a checksummed record has an unknown operation (or, past
  4 GiB, a key length that makes the decoder panic).\<close>

theorem wal_open_any:
  "case wal_OpenWith (Some d) sync of
     Inl e \<Rightarrow> \<exists>k. e = WalCorruption k ErrInvalidOp \<or> e = WalCorruption k DecodePanic
   | Inr w \<Rightarrow> \<exists>rs. wal_repr w rs \<and> d = wal_bytes rs @ drop (wal_size w) d \<and>
       rec_Decode (drop (wal_size w) d) \<in> {Inl EOF, Inl ErrUnexpectedEOF, Inl ErrCorrupt} \<and>
       wal_OpenWith (Some (f_data (wal_f w))) sync = Inr w"
proof (cases "wal_recover_at d 0")
  case (Inl e)
  then show ?thesis using wal_recover_at_error [OF Inl] by (auto simp: wal_OpenWith_eq)
next
  case (Inr n)
  obtain rs where rs: "n \<le> length d" "list_all rec_ok rs" "take n d = wal_bytes rs"
    "n < length d \<longrightarrow> rec_Decode (drop n d) \<in> {Inl ErrUnexpectedEOF, Inl ErrCorrupt}"
    using wal_recover_at_sound [OF Inr] by (auto simp: bslice_def)
  have len: "length (wal_bytes rs) = n" using rs(1,3) by (metis length_take min.absorb2)
  have "d = wal_bytes rs @ drop n d" using rs(3) by (metis append_take_drop_id)
  moreover have "rec_Decode (drop n d) \<in> {Inl EOF, Inl ErrUnexpectedEOF, Inl ErrCorrupt}"
    using rs(1,4) by (cases "n = length d") (auto simp: rec_Decode_def)
  ultimately show ?thesis
    using Inr rs len wal_recover_at_whole [OF rs(2)]
    by (auto simp: wal_OpenWith_eq wal_repr_def intro!: exI [of _ rs])
qed

text \<open>C37: on a log that holds the records \<open>rs\<close>, a successful append of a representable record returns
  the offset at which it can be read back, keeps every earlier record readable at its offset, and
  makes \<^verbatim>\<open>Scan\<close> visit exactly \<open>rs\<close> followed by the new record.\<close>

theorem wal_append_read:
  assumes "wal_repr w rs" "rec_ok r"
  shows "\<exists>w' off. wal_Append WriteOk True r w = (Inr off, w') \<and> wal_repr w' (rs @ [r]) \<and>
    wal_ReadAt (int off) w' = Inr r \<and>
    (\<forall>i<length rs. wal_ReadAt (int (length (wal_bytes (take i rs)))) w' = Inr (rs ! i)) \<and>
    wal_Scan (\<lambda>off rec acc. Inr (acc @ [rec]) :: unit + Record list) [] w' = Inr (rs @ [r])"
proof -
  obtain w' where w': "wal_Append WriteOk True r w = (Inr (length (wal_bytes rs)), w')" "wal_repr w' (rs @ [r])"
    using wal_repr_Append [OF assms] by blast
  have "scan_records (\<lambda>off rec acc. Inr (acc @ [rec]) :: unit + Record list) k xs acc = Inr (acc @ xs)" for k xs acc
    by (induction xs arbitrary: k acc) auto
  then have "wal_Scan (\<lambda>off rec acc. Inr (acc @ [rec]) :: unit + Record list) [] w' = Inr (rs @ [r])"
    by (simp add: wal_repr_Scan [OF w'(2)])
  moreover have "wal_ReadAt (int (length (wal_bytes rs))) w' = Inr r"
    using wal_repr_ReadAt [OF w'(2), of "length rs"] by simp
  moreover have "wal_ReadAt (int (length (wal_bytes (take i rs)))) w' = Inr (rs ! i)" if "i < length rs" for i
    using wal_repr_ReadAt [OF w'(2), of i] that by (simp add: nth_append)
  ultimately show ?thesis using w' by blast
qed

theorem wal_append_read_witness:
  "\<exists>w w' off. wal_OpenWith None True = Inr w \<and> wal_Append WriteOk True (mkRecord OpPut 5 [97] [98]) w = (Inr off, w') \<and>
     wal_ReadAt (int off) w' = Inr (mkRecord OpPut 5 [97] [98])"
proof -
  let ?w = "\<lparr>wal_f = \<lparr>f_data = [], f_pos = 0\<rparr>, wal_size = 0, wal_SyncOnWrite = True, wal_closed = False\<rparr>"
  have "wal_OpenWith None True = Inr ?w"
    by (simp add: wal_OpenWith_eq wal_recover_at.simps)
  moreover have "wal_repr ?w []" by (simp add: wal_repr_def)
  moreover have "rec_ok (mkRecord OpPut 5 [97] [98])" by (simp add: rec_ok_def valid_op_def mkRecord_def)
  ultimately show ?thesis using wal_append_read [of ?w "[]" "mkRecord OpPut 5 [97] [98]"] by blast
qed

lemma wal_ReadAt_sound:
  assumes "wal_ReadAt (int off) w = Inr r"
  shows "take (rec_size r) (drop off (f_data (wal_f w))) = rec_Encode r"
proof -
  let ?d = "f_data (wal_f w)"
  obtain hdr kl vl body n where h: "file_ReadAt (wal_f w) off HeaderSize = Some hdr" "rec_HeaderLengths hdr = Inr (kl, vl)"
    and b: "(if HeaderSize + unat kl + unat vl > HeaderSize
             then file_ReadAt (wal_f w) (off + HeaderSize) (HeaderSize + unat kl + unat vl - HeaderSize) else Some []) = Some body"
    and dec: "rec_Decode (hdr @ body) = Inr (r, n)"
    using assms unfolding wal_ReadAt_def Let_def by (auto split: if_splits option.splits sum.splits prod.splits)
  define total where "total = HeaderSize + unat kl + unat vl"
  have "hdr = take HeaderSize (drop off ?d)" using h(1) by (auto simp: file_ReadAt_def bslice_def drop_take split: if_splits)
  moreover have "body = take (total - HeaderSize) (drop (off + HeaderSize) ?d)"
    using b by (auto simp: total_def file_ReadAt_def bslice_def drop_take split: if_splits)
  ultimately have "hdr @ body = take total (drop off ?d)"
    using take_add [of HeaderSize "total - HeaderSize" "drop off ?d"] by (simp add: total_def ac_simps)
  moreover have "n = rec_size r" "n \<le> length (hdr @ body)" "rec_Encode r = take n (hdr @ body)" using rec_Decode_sound [OF dec] by auto
  ultimately show ?thesis by (simp add: min_def split: if_splits)
qed

text \<open>C38: after an append that failed part way through its write, the file position and the recorded size
  disagree.  The next append reports success with the old end of the log as its offset, but its record lies
  \<open>n\<close> bytes further, behind the bytes the failed append left.  When those bytes are not the first bytes of the
  new record's encoding, reading at the returned offset does not give the record.\<close>

theorem wal_append_after_failed_write:
  assumes "wal_repr w rs" "0 < n" "n \<le> rec_size r"
    and "take (min n (rec_size r')) (rec_Encode r) \<noteq> take (min n (rec_size r')) (rec_Encode r')"
  shows "\<exists>w1 w2. wal_Append (WriteFails n) True r w = (Inl WalWrite, w1) \<and>
    wal_Append WriteOk True r' w1 = (Inr (length (wal_bytes rs)), w2) \<and>
    f_data (wal_f w2) = wal_bytes rs @ take n (rec_Encode r) @ rec_Encode r' \<and>
    wal_size w2 < length (f_data (wal_f w2)) \<and> wal_ReadAt (int (length (wal_bytes rs))) w2 \<noteq> Inr r'"
proof -
  obtain w1 w2 where w: "wal_Append (WriteFails n) True r w = (Inl WalWrite, w1)"
    "wal_Append WriteOk True r' w1 = (Inr (length (wal_bytes rs)), w2)"
    "f_data (wal_f w2) = wal_bytes rs @ take n (rec_Encode r) @ rec_Encode r'" "wal_size w2 < length (f_data (wal_f w2))"
    using assms(1-3) by (auto simp: wal_Append_def wal_repr_def file_write_def Let_def length_rec_Encode)
  have "wal_ReadAt (int (length (wal_bytes rs))) w2 \<noteq> Inr r'"
  proof
    assume "wal_ReadAt (int (length (wal_bytes rs))) w2 = Inr r'"
    from wal_ReadAt_sound [OF this] have e: "take (rec_size r') (take n (rec_Encode r) @ rec_Encode r') = rec_Encode r'"
      using w(3) by simp
    have "take (min n (rec_size r')) (rec_Encode r') = take (min n (rec_size r')) (rec_Encode r)"
      using arg_cong [OF e, of "take (min n (rec_size r'))"] assms(3) by (auto simp: length_rec_Encode min_def split: if_splits)
    then show False using assms(4) by simp
  qed
  then show ?thesis using w by blast
qed

theorem wal_append_after_failed_write_witness:
  "\<exists>w w1 w2. wal_OpenWith None True = Inr w \<and>
     wal_Append (WriteFails 9) True (mkRecord OpPut 5 [97] [98]) w = (Inl WalWrite, w1) \<and>
     wal_Append WriteOk True (mkRecord OpDelete 6 [97] []) w1 = (Inr 0, w2) \<and> wal_ReadAt 0 w2 \<noteq> Inr (mkRecord OpDelete 6 [97] [])"
proof -
  let ?w = "\<lparr>wal_f = \<lparr>f_data = [], f_pos = 0\<rparr>, wal_size = 0, wal_SyncOnWrite = True, wal_closed = False\<rparr>"
  let ?r = "mkRecord OpPut 5 [97] [98]" and ?r' = "mkRecord OpDelete 6 [97] []"
  have "wal_OpenWith None True = Inr ?w"
    by (simp add: wal_OpenWith_eq wal_recover_at.simps)
  moreover have "wal_repr ?w []" by (simp add: wal_repr_def)
  moreover have "rec_Encode ?r ! 4 = OpPut" "rec_Encode ?r' ! 4 = OpDelete"
    by (simp_all add: rec_Encode_def rec_body_def Let_def nth_append mkRecord_def)
  then have "take (min 9 (rec_size ?r')) (rec_Encode ?r) ! 4 \<noteq> take (min 9 (rec_size ?r')) (rec_Encode ?r') ! 4" by (simp add: mkRecord_def)
  then have "take (min 9 (rec_size ?r')) (rec_Encode ?r) \<noteq> take (min 9 (rec_size ?r')) (rec_Encode ?r')" by metis
  ultimately show ?thesis
    using wal_append_after_failed_write [of ?w "[]" 9 ?r ?r'] by (fastforce simp: mkRecord_def)
qed

end
