(* ===== verification/Sstable.thy ===== *)
theory Sstable
  imports Wal Bloom Mvcc_Store
begin

section \<open>Sorted string tables (\<open>internal/sstable\<close>)\<close>

text \<open>
  A table is a file: data blocks of records in encoded-key order, an index with one record per
  block, a Bloom filter over user keys and a fixed footer.  The writer is modelled with the bytes it
  has handed to the file; reads and writes of the operating system succeed within the file.  The
  reader parses the bytes.  A \<^verbatim>\<open>make\<close> with a negative or impossibly large length is \<open>SstPanic\<close>.
  The test counter of block reads is left out.
\<close>

subsection \<open>Data\<close>

abbreviation blockSize :: nat where "blockSize \<equiv> 4096"
abbreviation footerSize :: nat where "footerSize \<equiv> 56"
abbreviation sst_magic :: u64 where "sst_magic \<equiv> 0x214244454C4C494C"
abbreviation bloomBitsPerKey :: int where "bloomBitsPerKey \<equiv> 10"

record indexEntry =
  ie_firstKey :: bytes
  ie_blockOffset :: int
  ie_blockSize :: int

datatype sst_error =
    SstClosed
  | ErrDuplicate
  | ErrOutOfOrder
  | SstTooSmall
  | ErrBadMagic
  | SstFooterRange
  | SstReadIndex
  | SstDecodeIndex decode_error
  | SstIndexValue
  | SstReadBloom
  | SstLoadBloom bloom_error
  | SstReadBlock
  | SstDecode decode_error
  | SstMalformedKey
  | SstPanic

record Writer =
  sw_out :: bytes
  sw_blockBuf :: bytes
  sw_blockFirstKey :: bytes
  sw_index :: "indexEntry list"
  sw_filter :: Filter
  sw_lastEncKey :: "bytes option"
  sw_maxTimestamp :: u64
  sw_appliedIndex :: u64
  sw_written :: int
  sw_count :: nat
  sw_closed :: bool

record Reader =
  rd_data :: bytes
  rd_index :: "indexEntry list"
  rd_filter :: "Filter option"
  rd_maxTimestamp :: u64
  rd_appliedIndex :: u64
  rd_closed :: bool

subsection \<open>Writer\<close>

definition sst_NewWriter :: "int \<Rightarrow> u64 \<Rightarrow> Writer" where
  "sst_NewWriter expectedKeys appliedIndex =
     \<lparr>sw_out = [], sw_blockBuf = [], sw_blockFirstKey = [], sw_index = [],
      sw_filter = bloom_New expectedKeys bloomBitsPerKey, sw_lastEncKey = None,
      sw_maxTimestamp = 0, sw_appliedIndex = appliedIndex, sw_written = 0, sw_count = 0,
      sw_closed = False\<rparr>"

definition sst_flushBlock :: "Writer \<Rightarrow> Writer" where
  "sst_flushBlock w =
     (if length (sw_blockBuf w) = 0 then w
      else w\<lparr>sw_out := sw_out w @ sw_blockBuf w,
             sw_index := sw_index w @
               [\<lparr>ie_firstKey = sw_blockFirstKey w, ie_blockOffset = sw_written w,
                 ie_blockSize = int (length (sw_blockBuf w))\<rparr>],
             sw_written := sw_written w + int (length (sw_blockBuf w)),
             sw_blockBuf := [], sw_blockFirstKey := []\<rparr>)"

definition sst_Add :: "Op \<Rightarrow> bytes \<Rightarrow> bytes \<Rightarrow> u64 \<Rightarrow> Writer \<Rightarrow> sst_error + Writer" where
  "sst_Add op userKey value ts w =
     (if sw_closed w then Inl SstClosed
      else let encKey = mvcc_Encode userKey ts in
        if sw_lastEncKey w = Some encKey then Inl ErrDuplicate
        else if (case sw_lastEncKey w of None \<Rightarrow> False | Some l \<Rightarrow> encKey < l) then Inl ErrOutOfOrder
        else let
          encoded = rec_Encode (mkRecord op ts encKey value);
          w1 = (if length (sw_blockBuf w) > 0 \<and> length (sw_blockBuf w) + length encoded > blockSize
                then sst_flushBlock w else w);
          w2 = (if length (sw_blockBuf w1) = 0 then w1\<lparr>sw_blockFirstKey := encKey\<rparr> else w1)
        in Inr (w2\<lparr>sw_blockBuf := sw_blockBuf w2 @ encoded,
                   sw_filter := bloom_Add (sw_filter w2) userKey,
                   sw_lastEncKey := Some encKey,
                   sw_maxTimestamp := (if ts > sw_maxTimestamp w2 then ts else sw_maxTimestamp w2),
                   sw_count := Suc (sw_count w2)\<rparr>))"

definition sst_index_bytes :: "indexEntry list \<Rightarrow> bytes" where
  "sst_index_bytes es =
     concat (map (\<lambda>e. rec_Encode (mkRecord OpPut 0 (ie_firstKey e)
        (le_PutUint64 (word_of_int (ie_blockOffset e)) @ le_PutUint64 (word_of_int (ie_blockSize e))))) es)"

text \<open>\<^verbatim>\<open>Finish\<close>: the contents of the file that is renamed into place.\<close>

definition sst_Finish :: "Writer \<Rightarrow> sst_error + bytes" where
  "sst_Finish w =
     (if sw_closed w then Inl SstClosed
      else let
        w1 = sst_flushBlock (w\<lparr>sw_closed := True\<rparr>);
        indexOffset = sw_written w1;
        indexBytes = sst_index_bytes (sw_index w1);
        indexSize = int (length indexBytes);
        bloomOffset = indexOffset + indexSize;
        bloomBytes = bloom_Bytes (sw_filter w1);
        bloomSize = int (length bloomBytes);
        footer = le_PutUint64 (word_of_int indexOffset) @ le_PutUint64 (word_of_int indexSize) @
                 le_PutUint64 (word_of_int bloomOffset) @ le_PutUint64 (word_of_int bloomSize) @
                 le_PutUint64 (sw_maxTimestamp w1) @ le_PutUint64 (sw_appliedIndex w1) @
                 le_PutUint64 sst_magic
      in Inr (sw_out w1 @ indexBytes @ bloomBytes @ footer))"

definition sst_Abort :: "Writer \<Rightarrow> Writer" where
  "sst_Abort w = (if sw_closed w then w else w\<lparr>sw_closed := True\<rparr>)"

definition sst_Count :: "Writer \<Rightarrow> nat" where "sst_Count w = sw_count w"

subsection \<open>Reader\<close>

text \<open>\<^verbatim>\<open>make([]byte, n)\<close> followed by \<^verbatim>\<open>f.ReadAt(buf, off)\<close>: a panic, a read error, or the bytes.\<close>

definition make_ok :: "int \<Rightarrow> bool" where "make_ok n \<longleftrightarrow> 0 \<le> n \<and> n \<le> 2 ^ 48"

definition data_ReadAt :: "bytes \<Rightarrow> int \<Rightarrow> int \<Rightarrow> bytes option" where
  "data_ReadAt d off n =
     (if off < 0 then None
      else if n = 0 then Some []
      else if off + n \<le> int (length d) then Some (bslice (nat off) (nat (off + n)) d) else None)"

function sst_parse_index :: "bytes \<Rightarrow> nat \<Rightarrow> sst_error + indexEntry list" where
  "sst_parse_index buf offset =
     (if offset < length buf then
        (case rec_Decode (drop offset buf) of
           Inl e \<Rightarrow> Inl (SstDecodeIndex e)
         | Inr (r, n) \<Rightarrow>
             if length (rec_Value r) \<noteq> 16 then Inl SstIndexValue
             else (case sst_parse_index buf (offset + n) of
                     Inl e \<Rightarrow> Inl e
                   | Inr es \<Rightarrow> Inr (\<lparr>ie_firstKey = rec_Key r,
                       ie_blockOffset = sint (le_Uint64 (bslice 0 8 (rec_Value r))),
                       ie_blockSize = sint (le_Uint64 (bslice 8 16 (rec_Value r)))\<rparr> # es)))
      else Inr [])"
  by pat_completeness auto
termination
  by (relation "measure (\<lambda>(buf, offset). length buf - offset)") (auto dest!: rec_Decode_progress)

declare sst_parse_index.simps [simp del]

text \<open>The range check adds two \<^verbatim>\<open>int64\<close> values, which may wrap around.\<close>

definition add64 :: "int \<Rightarrow> int \<Rightarrow> int" where
  "add64 a b = sint (word_of_int (a + b) :: u64)"

definition sst_OpenReader :: "bytes \<Rightarrow> sst_error + Reader" where
  "sst_OpenReader d =
     (let size = length d in
      if size < footerSize then Inl SstTooSmall
      else let footer = drop (size - footerSize) d in
      if le_Uint64 (bslice 48 56 footer) \<noteq> sst_magic then Inl ErrBadMagic
      else let
        indexOffset = sint (le_Uint64 (bslice 0 8 footer));
        indexSize = sint (le_Uint64 (bslice 8 16 footer));
        bloomOffset = sint (le_Uint64 (bslice 16 24 footer));
        bloomSize = sint (le_Uint64 (bslice 24 32 footer));
        maxTS = le_Uint64 (bslice 32 40 footer);
        appliedIndex = le_Uint64 (bslice 40 48 footer);
        limit = int (size - footerSize)
      in if indexOffset < 0 \<or> indexSize < 0 \<or> add64 indexOffset indexSize > limit \<or>
            bloomOffset < 0 \<or> bloomSize < 0 \<or> add64 bloomOffset bloomSize > limit
      then Inl SstFooterRange
      else if \<not> make_ok indexSize then Inl SstPanic
      else case (if indexSize > 0 then data_ReadAt d indexOffset indexSize else Some []) of
        None \<Rightarrow> Inl SstReadIndex
      | Some indexBuf \<Rightarrow>
          (case sst_parse_index indexBuf 0 of
             Inl e \<Rightarrow> Inl e
           | Inr idx \<Rightarrow>
               if bloomSize > 0 then
                 (if \<not> make_ok bloomSize then Inl SstPanic
                  else case data_ReadAt d bloomOffset bloomSize of
                    None \<Rightarrow> Inl SstReadBloom
                  | Some bloomBuf \<Rightarrow>
                      (case bloom_Load bloomBuf of
                         Inl e \<Rightarrow> Inl (SstLoadBloom e)
                       | Inr flt \<Rightarrow>
                           Inr \<lparr>rd_data = d, rd_index = idx, rd_filter = Some flt, rd_maxTimestamp = maxTS,
                                rd_appliedIndex = appliedIndex, rd_closed = False\<rparr>))
               else Inr \<lparr>rd_data = d, rd_index = idx, rd_filter = None, rd_maxTimestamp = maxTS,
                         rd_appliedIndex = appliedIndex, rd_closed = False\<rparr>))"

definition sst_MaxTimestamp :: "Reader \<Rightarrow> u64" where "sst_MaxTimestamp r = rd_maxTimestamp r"
definition sst_AppliedIndex :: "Reader \<Rightarrow> u64" where "sst_AppliedIndex r = rd_appliedIndex r"
definition sst_NumBlocks :: "Reader \<Rightarrow> nat" where "sst_NumBlocks r = length (rd_index r)"
definition sst_Close :: "Reader \<Rightarrow> Reader" where
  "sst_Close r = (if rd_closed r then r else r\<lparr>rd_closed := True\<rparr>)"

text \<open>\<^verbatim>\<open>sort.Search\<close> of the Go library: binary search for the least index that satisfies a predicate.\<close>

function sort_Search_from :: "(nat \<Rightarrow> bool) \<Rightarrow> nat \<Rightarrow> nat \<Rightarrow> nat" where
  "sort_Search_from f i j =
     (if i < j then let h = (i + j) div 2 in
        if \<not> f h then sort_Search_from f (Suc h) j else sort_Search_from f i h
      else i)"
  by pat_completeness auto
termination
  by (relation "measure (\<lambda>(f, i, j). j - i)") auto

declare sort_Search_from.simps [simp del]

definition sort_Search :: "nat \<Rightarrow> (nat \<Rightarrow> bool) \<Rightarrow> nat" where
  "sort_Search n f = sort_Search_from f 0 n"

definition sst_startBlock :: "Reader \<Rightarrow> bytes \<Rightarrow> nat" where
  "sst_startBlock r target =
     (let hi = sort_Search (length (rd_index r)) (\<lambda>i. target < ie_firstKey (rd_index r ! i))
      in if hi > 0 then hi - 1 else 0)"

definition sst_read_block :: "Reader \<Rightarrow> indexEntry \<Rightarrow> sst_error + bytes" where
  "sst_read_block r blk =
     (if \<not> make_ok (ie_blockSize blk) then Inl SstPanic
      else case data_ReadAt (rd_data r) (ie_blockOffset blk) (ie_blockSize blk) of
             None \<Rightarrow> Inl SstReadBlock
           | Some buf \<Rightarrow> Inr buf)"

text \<open>The inner loop of \<^verbatim>\<open>GetAsOf\<close> and \<^verbatim>\<open>NewestVersionTS\<close>: skip the records below the target.\<close>

function sst_block_seek :: "bytes \<Rightarrow> bytes \<Rightarrow> nat \<Rightarrow> sst_error + Record option" where
  "sst_block_seek target buf offset =
     (if offset < length buf then
        (case rec_Decode (drop offset buf) of
           Inl e \<Rightarrow> Inl (SstDecode e)
         | Inr (r, n) \<Rightarrow> if rec_Key r < target then sst_block_seek target buf (offset + n)
                        else Inr (Some r))
      else Inr None)"
  by pat_completeness auto
termination
  by (relation "measure (\<lambda>(target, buf, offset). length buf - offset)") (auto dest!: rec_Decode_progress)

declare sst_block_seek.simps [simp del]

text \<open>The outer loop over the (at most two) candidate blocks.\<close>

fun sst_blocks_seek :: "Reader \<Rightarrow> bytes \<Rightarrow> indexEntry list \<Rightarrow> sst_error + Record option" where
  "sst_blocks_seek r target [] = Inr None"
| "sst_blocks_seek r target (blk # blks) =
     (case sst_read_block r blk of
        Inl e \<Rightarrow> Inl e
      | Inr buf \<Rightarrow>
          (case sst_block_seek target buf 0 of
             Inl e \<Rightarrow> Inl e
           | Inr (Some rec) \<Rightarrow> Inr (Some rec)
           | Inr None \<Rightarrow> sst_blocks_seek r target blks))"

definition sst_seek :: "Reader \<Rightarrow> bytes \<Rightarrow> sst_error + Record option" where
  "sst_seek r target =
     sst_blocks_seek r target (take 2 (drop (sst_startBlock r target) (rd_index r)))"

definition sst_GetAsOf :: "Reader \<Rightarrow> bytes \<Rightarrow> u64 \<Rightarrow> sst_error + (bytes \<times> byte \<times> bool)" where
  "sst_GetAsOf r userKey snapshot =
     (if rd_closed r then Inl SstClosed
      else if length (rd_index r) = 0 then Inr ([], 0, False)
      else if (case rd_filter r of None \<Rightarrow> False | Some f \<Rightarrow> \<not> bloom_MayContain f userKey)
           then Inr ([], 0, False)
      else case sst_seek r (mvcc_Encode userKey snapshot) of
        Inl e \<Rightarrow> Inl e
      | Inr None \<Rightarrow> Inr ([], 0, False)
      | Inr (Some rec) \<Rightarrow>
          (case mvcc_Decode (rec_Key rec) of
             (recUserKey, _, ok) \<Rightarrow>
               if \<not> ok then Inl SstMalformedKey
               else if recUserKey \<noteq> userKey then Inr ([], 0, False)
               else if rec_Op rec = OpDelete then Inr ([], OpDelete, True)
               else Inr (rec_Value rec, OpPut, True)))"

definition sst_NewestVersionTS :: "Reader \<Rightarrow> bytes \<Rightarrow> sst_error + (u64 \<times> bool)" where
  "sst_NewestVersionTS r userKey =
     (if rd_closed r then Inl SstClosed
      else if length (rd_index r) = 0 then Inr (0, False)
      else if (case rd_filter r of None \<Rightarrow> False | Some f \<Rightarrow> \<not> bloom_MayContain f userKey)
           then Inr (0, False)
      else case sst_seek r (mvcc_Encode userKey (NOT 0)) of
        Inl e \<Rightarrow> Inl e
      | Inr None \<Rightarrow> Inr (0, False)
      | Inr (Some rec) \<Rightarrow>
          (case mvcc_Decode (rec_Key rec) of
             (recUserKey, recTS, ok) \<Rightarrow>
               if \<not> ok then Inl SstMalformedKey
               else if recUserKey \<noteq> userKey then Inr (0, False)
               else Inr (recTS, True)))"

text \<open>\<^verbatim>\<open>Iterate\<close>, with a callback that threads a state and may ask to stop.\<close>

function sst_block_iterate ::
  "(byte \<Rightarrow> bytes \<Rightarrow> bytes \<Rightarrow> 's \<Rightarrow> 's \<times> bool) \<Rightarrow> bytes \<Rightarrow> nat \<Rightarrow> 's \<Rightarrow> sst_error + ('s \<times> bool)" where
  "sst_block_iterate fn buf offset st =
     (if offset < length buf then
        (case rec_Decode (drop offset buf) of
           Inl e \<Rightarrow> Inl (SstDecode e)
         | Inr (r, n) \<Rightarrow>
             (case fn (rec_Op r) (rec_Key r) (rec_Value r) st of
                (st', go) \<Rightarrow> if go then sst_block_iterate fn buf (offset + n) st' else Inr (st', False)))
      else Inr (st, True))"
  by pat_completeness auto
termination
  by (relation "measure (\<lambda>(fn, buf, offset, st). length buf - offset)") (auto dest!: rec_Decode_progress)

declare sst_block_iterate.simps [simp del]

fun sst_blocks_iterate ::
  "Reader \<Rightarrow> (byte \<Rightarrow> bytes \<Rightarrow> bytes \<Rightarrow> 's \<Rightarrow> 's \<times> bool) \<Rightarrow> indexEntry list \<Rightarrow> 's \<Rightarrow> sst_error + 's" where
  "sst_blocks_iterate r fn [] st = Inr st"
| "sst_blocks_iterate r fn (blk # blks) st =
     (case sst_read_block r blk of
        Inl e \<Rightarrow> Inl e
      | Inr buf \<Rightarrow>
          (case sst_block_iterate fn buf 0 st of
             Inl e \<Rightarrow> Inl e
           | Inr (st', go) \<Rightarrow> if go then sst_blocks_iterate r fn blks st' else Inr st'))"

definition sst_Iterate ::
  "Reader \<Rightarrow> (byte \<Rightarrow> bytes \<Rightarrow> bytes \<Rightarrow> 's \<Rightarrow> 's \<times> bool) \<Rightarrow> 's \<Rightarrow> sst_error + 's" where
  "sst_Iterate r fn st =
     (if rd_closed r then Inl SstClosed
      else if length (rd_index r) = 0 then Inr st
      else sst_blocks_iterate r fn (rd_index r) st)"

subsection \<open>The layout of a table\<close>

text \<open>A table is a list of blocks of records.  \<open>index_of\<close> is the index that describes them,
  \<open>kvs_of_recs\<close> the versioned store they hold.\<close>

definition kvs_of_recs :: "Record list \<Rightarrow> bytes kvs" where
  "kvs_of_recs rs = map (\<lambda>r. (rec_Key r, rec_Op r # rec_Value r)) rs"

fun index_of :: "Record list list \<Rightarrow> int \<Rightarrow> indexEntry list" where
  "index_of [] off = []"
| "index_of (b # bs) off =
     \<lparr>ie_firstKey = rec_Key (hd b), ie_blockOffset = off, ie_blockSize = int (length (wal_bytes b))\<rparr> #
     index_of bs (off + int (length (wal_bytes b)))"

definition blocks_ok :: "Record list list \<Rightarrow> bool" where
  "blocks_ok bs \<longleftrightarrow> (\<forall>b\<in>set bs. b \<noteq> [] \<and> list_all rec_ok b)"

definition recs_sorted :: "Record list \<Rightarrow> bool" where
  "recs_sorted rs \<longleftrightarrow> sorted_wrt (<) (map rec_Key rs) \<and> (\<forall>r\<in>set rs. snd (snd (mvcc_Decode (rec_Key r))))"

definition sst_repr :: "Reader \<Rightarrow> Record list list \<Rightarrow> bool" where
  "sst_repr r bs \<longleftrightarrow>
     rd_index r = index_of bs 0 \<and> (\<exists>rest. rd_data r = wal_bytes (concat bs) @ rest) \<and>
     blocks_ok bs \<and> recs_sorted (concat bs) \<and> length (wal_bytes (concat bs)) \<le> 2 ^ 48 \<and>
     \<not> rd_closed r \<and>
     (case rd_filter r of None \<Rightarrow> True
      | Some f \<Rightarrow> \<forall>rec\<in>set (concat bs). bloom_MayContain f (mvcc_UserKey (rec_Key rec)))"

lemma length_index_of [simp]: "length (index_of bs off) = length bs"
  by (induction bs arbitrary: off) auto

lemma index_of_append:
  "index_of (bs @ bs') off = index_of bs off @ index_of bs' (off + int (length (wal_bytes (concat bs))))"
  by (induction bs arbitrary: off) (auto simp: add.assoc)

lemma drop_index_of:
  "drop k (index_of bs off) = index_of (drop k bs) (off + int (length (wal_bytes (concat (take k bs)))))"
proof (induction bs arbitrary: k off)
  case (Cons b bs)
  then show ?case by (cases k) (auto simp: add.assoc)
qed simp

lemma take_index_of: "take k (index_of bs off) = index_of (take k bs) off"
proof (induction bs arbitrary: k off)
  case (Cons b bs)
  then show ?case by (cases k) auto
qed simp

lemma index_of_nth: "i < length bs \<Longrightarrow> ie_firstKey (index_of bs off ! i) = rec_Key (hd (bs ! i))"
proof (induction bs arbitrary: i off)
  case (Cons b bs)
  then show ?case by (cases i) auto
qed simp

subsection \<open>Binary search\<close>

lemma sort_Search_from_spec:
  assumes "i \<le> j" "\<And>a b. a \<le> b \<Longrightarrow> b < n \<Longrightarrow> f a \<Longrightarrow> f b" "j \<le> n"
    and "\<forall>a<i. \<not> f a" "\<forall>a. j \<le> a \<and> a < n \<longrightarrow> f a"
  shows "let k = sort_Search_from f i j in k \<le> n \<and> (\<forall>a<k. \<not> f a) \<and> (\<forall>a. k \<le> a \<and> a < n \<longrightarrow> f a)"
  using assms
proof (induction f i j rule: sort_Search_from.induct)
  case (1 f i j)
  show ?case
  proof (cases "i < j")
    case False
    then show ?thesis using 1 by (simp add: sort_Search_from.simps Let_def)
  next
    case True
    let ?h = "(i + j) div 2"
    have h: "?h < j" "j \<le> n" using True 1(5) by auto
    show ?thesis
    proof (cases "f ?h")
      case True
      have "\<forall>a. ?h \<le> a \<and> a < n \<longrightarrow> f a" using 1(4) True by blast
      then show ?thesis
        using 1(2) [OF \<open>i < j\<close> refl] True \<open>i < j\<close> 1(4-6)
        by (subst sort_Search_from.simps) (simp add: Let_def)
    next
      case False
      have "\<forall>a<Suc ?h. \<not> f a"
      proof (intro allI impI notI)
        fix a assume "a < Suc ?h" "f a"
        then show False using 1(4) [of a ?h] False h by simp
      qed
      then show ?thesis
        using 1(1) [OF \<open>i < j\<close> refl] False \<open>i < j\<close> 1(4,5,7)
        by (subst sort_Search_from.simps) (simp add: Let_def)
    qed
  qed
qed

lemma sort_Search_spec:
  assumes "\<And>a b. a \<le> b \<Longrightarrow> b < n \<Longrightarrow> f a \<Longrightarrow> f b"
  shows "sort_Search n f \<le> n" "a < sort_Search n f \<Longrightarrow> \<not> f a" "sort_Search n f \<le> a \<Longrightarrow> a < n \<Longrightarrow> f a"
proof -
  have "let k = sort_Search_from f 0 n in k \<le> n \<and> (\<forall>a<k. \<not> f a) \<and> (\<forall>a. k \<le> a \<and> a < n \<longrightarrow> f a)"
  proof (rule sort_Search_from_spec)
    fix a b assume "a \<le> b" "b < n" "f a"
    then show "f b" by (rule assms)
  qed auto
  then show "sort_Search n f \<le> n" "a < sort_Search n f \<Longrightarrow> \<not> f a" "sort_Search n f \<le> a \<Longrightarrow> a < n \<Longrightarrow> f a"
    unfolding sort_Search_def Let_def by blast+
qed

subsection \<open>Seeking\<close>

lemma sst_block_seek_records:
  assumes "list_all rec_ok rs"
  shows "sst_block_seek t (pre @ wal_bytes rs) (length pre) = Inr (List.find (\<lambda>r. \<not> rec_Key r < t) rs)"
  using assms
proof (induction rs arbitrary: pre)
  case Nil
  then show ?case by (simp add: sst_block_seek.simps)
next
  case (Cons r rs)
  let ?buf = "pre @ wal_bytes (r # rs)"
  have d: "rec_Decode (drop (length pre) ?buf) = Inr (r, rec_size r)"
    using Cons.prems rec_Decode_Encode [of r "wal_bytes rs"] by simp
  have lt: "length pre < length ?buf" by (simp add: length_rec_Encode)
  have ih: "sst_block_seek t ((pre @ rec_Encode r) @ wal_bytes rs) (length (pre @ rec_Encode r)) =
      Inr (List.find (\<lambda>r. \<not> rec_Key r < t) rs)"
    using Cons.IH [of "pre @ rec_Encode r"] Cons.prems by (simp only: list.pred_inject)
  have "sst_block_seek t ?buf (length pre) =
      (if rec_Key r < t then sst_block_seek t ?buf (length pre + rec_size r) else Inr (Some r))"
    using d lt by (subst sst_block_seek.simps) simp
  then show ?case using ih by (simp add: length_rec_Encode)
qed

lemma sst_read_block_at:
  assumes "rd_data r = pre @ wal_bytes b @ rest" "b \<noteq> []" "length (wal_bytes b) \<le> 2 ^ 48"
  shows "sst_read_block r \<lparr>ie_firstKey = k, ie_blockOffset = int (length pre), ie_blockSize = int (length (wal_bytes b))\<rparr>
           = Inr (wal_bytes b)"
proof -
  have "int (length (wal_bytes b)) \<le> 2 ^ 48" using assms(3) by (metis of_nat_le_iff of_nat_numeral of_nat_power)
  moreover have "wal_bytes b \<noteq> []" using assms(2) by (cases b) (auto simp: rec_Encode_def rec_body_def Let_def)
  ultimately show ?thesis
    by (simp add: sst_read_block_def make_ok_def data_ReadAt_def assms(1) bslice_def nat_add_distrib)
qed

lemma find_append: "List.find P (xs @ ys) = (case List.find P xs of None \<Rightarrow> List.find P ys | Some x \<Rightarrow> Some x)"
  by (induction xs) auto

lemma find_SomeD: "List.find P xs = Some x \<Longrightarrow> x \<in> set xs \<and> P x"
  by (induction xs) (auto split: if_splits)

lemma index_of_Nil_iff [simp]: "index_of bs off = [] \<longleftrightarrow> bs = []"
  by (cases bs) auto

lemma sst_blocks_seek_records:
  assumes "rd_data r = pre @ wal_bytes (concat bs) @ rest" "blocks_ok bs" "length (wal_bytes (concat bs)) \<le> 2 ^ 48"
  shows "sst_blocks_seek r t (index_of bs (int (length pre))) = Inr (List.find (\<lambda>r. \<not> rec_Key r < t) (concat bs))"
  using assms
proof (induction bs arbitrary: pre)
  case (Cons b bs)
  have b: "b \<noteq> []" "list_all rec_ok b" "blocks_ok bs" using Cons.prems(2) by (auto simp: blocks_ok_def)
  have rd: "sst_read_block r \<lparr>ie_firstKey = rec_Key (hd b), ie_blockOffset = int (length pre), ie_blockSize = int (length (wal_bytes b))\<rparr>
           = Inr (wal_bytes b)"
    using Cons.prems b by (intro sst_read_block_at) auto
  have ih: "sst_blocks_seek r t (index_of bs (int (length pre) + int (length (wal_bytes b)))) =
      Inr (List.find (\<lambda>r. \<not> rec_Key r < t) (concat bs))"
    using Cons.IH [of "pre @ wal_bytes b"] Cons.prems b by simp
  show ?case
    using rd ih sst_block_seek_records [OF b(2), of t "[]"] by (simp add: find_append split: option.splits)
qed simp

text \<open>The block at which a search starts: everything before it is below the target, and if there are
  two blocks from there on, the record searched for is in them.\<close>

lemma recs_sorted_blocks:
  assumes "recs_sorted (concat bs)" "i < j" "j < length bs" "x \<in> set (bs ! i)" "y \<in> set (bs ! j)"
  shows "rec_Key x < rec_Key y"
proof -
  have "concat bs = concat (take j bs) @ concat (drop j bs)" by (metis append_take_drop_id concat_append)
  moreover have "x \<in> set (concat (take j bs))"
  proof -
    have "take j bs ! i \<in> set (take j bs)" using assms(2,3) by (intro nth_mem) simp
    then show ?thesis using assms(2,4) by auto
  qed
  moreover have "y \<in> set (concat (drop j bs))"
    using assms(3,5) by (subst Cons_nth_drop_Suc [symmetric]) auto
  ultimately show ?thesis using assms(1) by (auto simp: recs_sorted_def sorted_wrt_append)
qed

lemma sst_startBlock_spec:
  fixes t :: bytes
  assumes "rd_index r = index_of bs 0" "blocks_ok bs" "recs_sorted (concat bs)"
  defines "s \<equiv> sst_startBlock r t"
  shows "\<forall>x\<in>set (concat (take s bs)). rec_Key x < t"
    and "length (drop s bs) > 2 \<Longrightarrow> \<exists>x\<in>set (concat (take 2 (drop s bs))). \<not> rec_Key x < t"
proof -
  let ?f = "\<lambda>i. t < ie_firstKey (rd_index r ! i)"
  let ?hi = "sort_Search (length (rd_index r)) ?f"
  have ne: "bs ! i \<noteq> []" if "i < length bs" for i using assms(2) that by (auto simp: blocks_ok_def)
  have key: "ie_firstKey (rd_index r ! i) = rec_Key (hd (bs ! i))" if "i < length bs" for i
    using that assms(1) by (simp add: index_of_nth)
  have mono: "?f b" if "a \<le> b" "b < length (rd_index r)" "?f a" for a b
  proof (cases "a = b")
    case False
    then have "rec_Key (hd (bs ! a)) < rec_Key (hd (bs ! b))"
      using that assms(1) ne by (intro recs_sorted_blocks [OF assms(3), of a b]) auto
    then show ?thesis using that key assms(1) by (auto intro: less_trans)
  qed (use that in simp)
  note S = sort_Search_spec [of "length (rd_index r)" ?f, OF mono]
  have s: "s = ?hi - 1" by (simp add: s_def sst_startBlock_def Let_def)
  have hin: "?hi \<le> length bs" using S(1) assms(1) by simp
  show "\<forall>x\<in>set (concat (take s bs)). rec_Key x < t"
  proof
    fix x assume "x \<in> set (concat (take s bs))"
    then obtain b where b: "b \<in> set (take s bs)" "x \<in> set b" by auto
    then obtain i where i: "i < s" "i < length bs" "x \<in> set (bs ! i)"
      unfolding in_set_conv_nth [of b] by auto
    then have "s < ?hi" "s < length bs" using s hin by auto
    then have "\<not> t < rec_Key (hd (bs ! s))" using S(2) [where a = s] key by auto
    moreover have "rec_Key x < rec_Key (hd (bs ! s))"
      using recs_sorted_blocks [OF assms(3) i(1) _ i(3)] \<open>s < length bs\<close> ne by auto
    ultimately show "rec_Key x < t" by (auto intro: less_le_trans simp: not_less)
  qed
  assume len: "length (drop s bs) > 2"
  have hl: "?hi < length bs" "?hi \<le> Suc s" "s \<le> ?hi" using len s by auto
  then have "t < rec_Key (hd (bs ! ?hi))" using S(3) [where a = ?hi] key assms(1) by auto
  moreover have "bs ! ?hi \<in> set (take 2 (drop s bs))"
  proof -
    have "take 2 (drop s bs) ! (?hi - s) = bs ! ?hi" "?hi - s < length (take 2 (drop s bs))"
      using hl len by auto
    then show ?thesis by (metis nth_mem)
  qed
  then have "hd (bs ! ?hi) \<in> set (concat (take 2 (drop s bs)))"
    using ne [OF hl(1)] by (metis UN_I hd_in_set set_concat)
  ultimately show "\<exists>x\<in>set (concat (take 2 (drop s bs))). \<not> rec_Key x < t" by force
qed

lemma find_none_below: "\<forall>x\<in>set xs. rec_Key x < t \<Longrightarrow> List.find (\<lambda>r. \<not> rec_Key r < t) (xs @ ys) = List.find (\<lambda>r. \<not> rec_Key r < t) ys"
  by (induction xs) auto

lemma sst_seek_records:
  assumes "sst_repr r bs"
  shows "sst_seek r t = Inr (List.find (\<lambda>r. \<not> rec_Key r < t) (concat bs))"
proof -
  obtain rest where R: "rd_index r = index_of bs 0" "rd_data r = wal_bytes (concat bs) @ rest" "blocks_ok bs"
    "recs_sorted (concat bs)" "length (wal_bytes (concat bs)) \<le> 2 ^ 48"
    using assms by (auto simp: sst_repr_def)
  let ?s = "sst_startBlock r t" and ?P = "\<lambda>r. \<not> rec_Key r < t"
  let ?pre = "wal_bytes (concat (take ?s bs))" and ?mid = "take 2 (drop ?s bs)" and ?post = "drop 2 (drop ?s bs)"
  note S = sst_startBlock_spec [OF R(1,3,4), of t]
  have split: "concat bs = concat (take ?s bs) @ concat ?mid @ concat ?post"
    by (metis append_take_drop_id concat_append)
  have "sst_seek r t = sst_blocks_seek r t (index_of ?mid (int (length ?pre)))"
    by (simp add: sst_seek_def R(1) drop_index_of take_index_of)
  also have "\<dots> = Inr (List.find ?P (concat ?mid))"
  proof (rule sst_blocks_seek_records)
    show "rd_data r = ?pre @ wal_bytes (concat ?mid) @ (wal_bytes (concat ?post) @ rest)"
      using R(2) arg_cong [OF split, of wal_bytes] by simp
    show "blocks_ok ?mid" using R(3) by (auto simp: blocks_ok_def dest!: in_set_takeD in_set_dropD)
    show "length (wal_bytes (concat ?mid)) \<le> 2 ^ 48"
      using R(5) arg_cong [OF split, of "\<lambda>x. length (wal_bytes x)"] by simp
  qed
  also have "List.find ?P (concat ?mid) = List.find ?P (concat ?mid @ concat ?post)"
  proof (cases "length (drop ?s bs) > 2")
    case True
    then obtain x where "x \<in> set (concat ?mid)" "?P x" using S(2) by blast
    then have "List.find ?P (concat ?mid) \<noteq> None" by (auto simp: find_None_iff)
    then show ?thesis by (auto simp: find_append)
  qed simp
  also have "\<dots> = List.find ?P (concat bs)"
    by (subst split) (simp add: find_none_below [OF S(1)])
  finally show ?thesis .
qed

lemma kv_seek_recs:
  "(case kv_seek t (kvs_of_recs rs) of [] \<Rightarrow> None | p # _ \<Rightarrow> Some p) =
     map_option (\<lambda>r. (rec_Key r, rec_Op r # rec_Value r)) (List.find (\<lambda>r. \<not> rec_Key r < t) rs)"
  by (induction rs) (auto simp: kvs_of_recs_def kv_seek_def)

lemma seek_version_recs:
  "seek_version (kvs_of_recs rs) uk snap =
     (case List.find (\<lambda>r. \<not> rec_Key r < mvcc_Encode uk snap) rs of
        None \<Rightarrow> None
      | Some r \<Rightarrow> (case mvcc_Decode (rec_Key r) of
          (uk', ts, ok) \<Rightarrow> if \<not> ok \<or> uk' \<noteq> uk then None else Some (ts, rec_Op r # rec_Value r)))"
  using kv_seek_recs [of "mvcc_Encode uk snap" rs] unfolding seek_version_def
  by (auto split: list.splits option.splits)

lemma sst_absent:
  assumes "sst_repr r bs" "length (rd_index r) = 0 \<or> (case rd_filter r of None \<Rightarrow> False | Some f \<Rightarrow> \<not> bloom_MayContain f uk)"
  shows "seek_version (kvs_of_recs (concat bs)) uk snap = None"
proof (rule ccontr)
  assume "seek_version (kvs_of_recs (concat bs)) uk snap \<noteq> None"
  then obtain rec where rec: "List.find (\<lambda>r. \<not> rec_Key r < mvcc_Encode uk snap) (concat bs) = Some rec"
    "fst (mvcc_Decode (rec_Key rec)) = uk" "snd (snd (mvcc_Decode (rec_Key rec)))"
    by (auto simp: seek_version_recs split: option.splits prod.splits if_splits)
  then have mem: "rec \<in> set (concat bs)" using find_SomeD [OF rec(1)] by blast
  have "mvcc_UserKey (rec_Key rec) = uk"
    using rec(2,3) mvcc_Decode_ok_iff by fastforce
  then show False using assms mem by (auto simp: sst_repr_def split: option.splits)
qed

lemma sst_find_ok:
  "sst_repr r bs \<Longrightarrow> List.find P (concat bs) = Some rec \<Longrightarrow> snd (snd (mvcc_Decode (rec_Key rec)))"
  using find_SomeD [of P "concat bs" rec] by (auto simp: sst_repr_def recs_sorted_def)

lemma sst_GetAsOf_seek:
  assumes "sst_repr r bs"
  shows "sst_GetAsOf r uk snap = Inr (read_result (seek_version (kvs_of_recs (concat bs)) uk snap))"
proof (cases "length (rd_index r) = 0 \<or> (case rd_filter r of None \<Rightarrow> False | Some f \<Rightarrow> \<not> bloom_MayContain f uk)")
  case True
  then show ?thesis
    using sst_absent [OF assms True] assms by (auto simp: sst_GetAsOf_def read_result_def sst_repr_def)
next
  case False
  then have F: "length (rd_index r) \<noteq> 0" "\<not> (case rd_filter r of None \<Rightarrow> False | Some f \<Rightarrow> \<not> bloom_MayContain f uk)"
    "\<not> rd_closed r" using assms by (auto simp: sst_repr_def)
  then show ?thesis
    using sst_find_ok [OF assms, of "\<lambda>r. \<not> rec_Key r < mvcc_Encode uk snap"]
    by (auto simp: sst_GetAsOf_def sst_seek_records [OF assms] seek_version_recs read_result_def
        split: option.splits prod.splits)
qed

lemma sst_NewestVersionTS_seek:
  assumes "sst_repr r bs"
  shows "sst_NewestVersionTS r uk =
    Inr (case seek_version (kvs_of_recs (concat bs)) uk (NOT 0) of None \<Rightarrow> (0, False) | Some (ts, _) \<Rightarrow> (ts, True))"
proof (cases "length (rd_index r) = 0 \<or> (case rd_filter r of None \<Rightarrow> False | Some f \<Rightarrow> \<not> bloom_MayContain f uk)")
  case True
  then show ?thesis
    using sst_absent [OF assms True] assms by (auto simp: sst_NewestVersionTS_def sst_repr_def)
next
  case False
  then have F: "length (rd_index r) \<noteq> 0" "\<not> (case rd_filter r of None \<Rightarrow> False | Some f \<Rightarrow> \<not> bloom_MayContain f uk)"
    "\<not> rd_closed r" using assms by (auto simp: sst_repr_def)
  then show ?thesis
    using sst_find_ok [OF assms, of "\<lambda>r. \<not> rec_Key r < mvcc_Encode uk (NOT 0)"]
    unfolding sst_NewestVersionTS_def sst_seek_records [OF assms] seek_version_recs
    by (auto split: option.splits prod.splits)
qed

subsection \<open>Iteration\<close>

fun iter_recs :: "(byte \<Rightarrow> bytes \<Rightarrow> bytes \<Rightarrow> 's \<Rightarrow> 's \<times> bool) \<Rightarrow> Record list \<Rightarrow> 's \<Rightarrow> 's \<times> bool" where
  "iter_recs fn [] st = (st, True)"
| "iter_recs fn (r # rs) st =
     (case fn (rec_Op r) (rec_Key r) (rec_Value r) st of
        (st', go) \<Rightarrow> if go then iter_recs fn rs st' else (st', False))"

lemma iter_recs_append:
  "iter_recs fn (xs @ ys) st =
     (case iter_recs fn xs st of (st', go) \<Rightarrow> if go then iter_recs fn ys st' else (st', False))"
  by (induction xs arbitrary: st) (auto split: prod.splits)

lemma sst_block_iterate_records:
  assumes "list_all rec_ok rs"
  shows "sst_block_iterate fn (pre @ wal_bytes rs) (length pre) st = Inr (iter_recs fn rs st)"
  using assms
proof (induction rs arbitrary: pre st)
  case Nil
  then show ?case by (simp add: sst_block_iterate.simps)
next
  case (Cons r rs)
  let ?buf = "pre @ wal_bytes (r # rs)"
  have d: "rec_Decode (drop (length pre) ?buf) = Inr (r, rec_size r)"
    using Cons.prems rec_Decode_Encode [of r "wal_bytes rs"] by simp
  have lt: "length pre < length ?buf" by (simp add: length_rec_Encode)
  obtain st' go where f: "fn (rec_Op r) (rec_Key r) (rec_Value r) st = (st', go)" by fastforce
  have ih: "sst_block_iterate fn ((pre @ rec_Encode r) @ wal_bytes rs) (length (pre @ rec_Encode r)) st' =
      Inr (iter_recs fn rs st')"
    using Cons.IH [of "pre @ rec_Encode r"] Cons.prems by (simp only: list.pred_inject)
  have "sst_block_iterate fn ?buf (length pre) st =
      (if go then sst_block_iterate fn ?buf (length pre + rec_size r) st' else Inr (st', False))"
    using d lt f by (subst sst_block_iterate.simps) simp
  then show ?case using ih f by (simp add: length_rec_Encode)
qed

lemma sst_blocks_iterate_records:
  assumes "rd_data r = pre @ wal_bytes (concat bs) @ rest" "blocks_ok bs" "length (wal_bytes (concat bs)) \<le> 2 ^ 48"
  shows "sst_blocks_iterate r fn (index_of bs (int (length pre))) st = Inr (fst (iter_recs fn (concat bs) st))"
  using assms
proof (induction bs arbitrary: pre st)
  case (Cons b bs)
  have b: "b \<noteq> []" "list_all rec_ok b" "blocks_ok bs" using Cons.prems(2) by (auto simp: blocks_ok_def)
  have rd: "sst_read_block r \<lparr>ie_firstKey = rec_Key (hd b), ie_blockOffset = int (length pre), ie_blockSize = int (length (wal_bytes b))\<rparr>
           = Inr (wal_bytes b)"
    using Cons.prems b by (intro sst_read_block_at) auto
  have ih: "sst_blocks_iterate r fn (index_of bs (int (length pre) + int (length (wal_bytes b)))) st' =
      Inr (fst (iter_recs fn (concat bs) st'))" for st'
    using Cons.IH [of "pre @ wal_bytes b" st'] Cons.prems b by simp
  show ?case
    using rd ih sst_block_iterate_records [OF b(2), of fn "[]" st]
    by (auto simp: iter_recs_append split: prod.splits)
qed simp

lemma sst_Iterate_records:
  assumes "sst_repr r bs" shows "sst_Iterate r fn st = Inr (fst (iter_recs fn (concat bs) st))"
proof -
  obtain rest where "rd_index r = index_of bs 0" "rd_data r = [] @ wal_bytes (concat bs) @ rest" "blocks_ok bs"
    "length (wal_bytes (concat bs)) \<le> 2 ^ 48" "\<not> rd_closed r"
    using assms by (auto simp: sst_repr_def)
  then show ?thesis
    using sst_blocks_iterate_records [of r "[]" bs rest fn st] by (auto simp: sst_Iterate_def)
qed

subsection \<open>The writer\<close>

text \<open>An entry handed to \<^verbatim>\<open>Add\<close> and the record it becomes.\<close>

record sst_entry =
  se_op :: Op
  se_key :: bytes
  se_value :: bytes
  se_ts :: u64

definition rec_of_entry :: "sst_entry \<Rightarrow> Record" where
  "rec_of_entry e = mkRecord (se_op e) (se_ts e) (mvcc_Encode (se_key e) (se_ts e)) (se_value e)"

fun sst_add_all :: "sst_entry list \<Rightarrow> Writer \<Rightarrow> sst_error + Writer" where
  "sst_add_all [] w = Inr w"
| "sst_add_all (e # es) w =
     (case sst_Add (se_op e) (se_key e) (se_value e) (se_ts e) w of
        Inl err \<Rightarrow> Inl err
      | Inr w' \<Rightarrow> sst_add_all es w')"

definition sw_inv :: "int \<Rightarrow> u64 \<Rightarrow> sst_entry list \<Rightarrow> Record list list \<Rightarrow> Record list \<Rightarrow> Writer \<Rightarrow> bool" where
  "sw_inv n ai es bs cur w \<longleftrightarrow>
     concat bs @ cur = map rec_of_entry es \<and> blocks_ok bs \<and> list_all rec_ok cur \<and>
     sw_out w = wal_bytes (concat bs) \<and> sw_index w = index_of bs 0 \<and>
     sw_written w = int (length (wal_bytes (concat bs))) \<and> sw_blockBuf w = wal_bytes cur \<and>
     (cur \<noteq> [] \<longrightarrow> sw_blockFirstKey w = rec_Key (hd cur)) \<and>
     sw_filter w = fold (\<lambda>k f. bloom_Add f k) (map se_key es) (bloom_New n bloomBitsPerKey) \<and>
     sw_lastEncKey w = (if es = [] then None else Some (rec_Key (rec_of_entry (last es)))) \<and>
     sw_maxTimestamp w = fold max (map se_ts es) 0 \<and> sw_appliedIndex w = ai \<and>
     sw_count w = length es \<and> \<not> sw_closed w"

lemma wal_bytes_Nil_iff [simp]: "wal_bytes rs = [] \<longleftrightarrow> rs = []"
  by (cases rs) (auto simp: rec_Encode_def rec_body_def Let_def)

lemma sw_inv_New: "sw_inv n ai [] [] [] (sst_NewWriter n ai)"
  by (simp add: sw_inv_def sst_NewWriter_def blocks_ok_def)

lemma sw_inv_flush:
  assumes "sw_inv n ai es bs cur w"
  shows "sw_inv n ai es (if cur = [] then bs else bs @ [cur]) [] (sst_flushBlock w)"
proof (cases "cur = []")
  case True
  then show ?thesis using assms by (simp add: sw_inv_def sst_flushBlock_def)
next
  case False
  then show ?thesis
    using assms unfolding sw_inv_def
    by (simp add: sst_flushBlock_def blocks_ok_def index_of_append del: wal_bytes_simps(3))
       (simp flip: wal_bytes_simps(3) length_append of_nat_add)
qed

lemma rec_of_entry_simps [simp]:
  "rec_Key (rec_of_entry e) = mvcc_Encode (se_key e) (se_ts e)" "rec_Op (rec_of_entry e) = se_op e"
  "rec_Value (rec_of_entry e) = se_value e" "rec_Timestamp (rec_of_entry e) = se_ts e"
  by (simp_all add: rec_of_entry_def mkRecord_def)

lemma if_max: "(if a < b then b else a) = max b (a :: u64)"
  by (auto simp: max_def not_less)

lemma sw_inv_append:
  fixes w :: Writer and e :: sst_entry
  defines "w2 \<equiv> if length (sw_blockBuf w) = 0 then w\<lparr>sw_blockFirstKey := mvcc_Encode (se_key e) (se_ts e)\<rparr> else w"
  assumes "sw_inv n ai es bs cur w" "rec_ok (rec_of_entry e)"
  shows "sw_inv n ai (es @ [e]) bs (cur @ [rec_of_entry e])
    (w2\<lparr>sw_blockBuf := sw_blockBuf w2 @ rec_Encode (rec_of_entry e), sw_filter := bloom_Add (sw_filter w2) (se_key e),
        sw_lastEncKey := Some (mvcc_Encode (se_key e) (se_ts e)),
        sw_maxTimestamp := (if se_ts e > sw_maxTimestamp w2 then se_ts e else sw_maxTimestamp w2),
        sw_count := Suc (sw_count w2)\<rparr>)"
  using assms(2,3) unfolding w2_def sw_inv_def by (cases "cur = []") (simp_all add: if_max)

lemma sw_inv_Add:
  assumes inv: "sw_inv n ai es bs cur w" and ok: "rec_ok (rec_of_entry e)"
    and srt: "es \<noteq> [] \<Longrightarrow> mvcc_Encode (se_key (last es)) (se_ts (last es)) < mvcc_Encode (se_key e) (se_ts e)"
  shows "\<exists>w' bs' cur'. sst_Add (se_op e) (se_key e) (se_value e) (se_ts e) w = Inr w' \<and>
           sw_inv n ai (es @ [e]) bs' cur' w'"
proof -
  let ?enc = "rec_Encode (rec_of_entry e)"
  let ?w1 = "if length (sw_blockBuf w) > 0 \<and> length (sw_blockBuf w) + length ?enc > blockSize
             then sst_flushBlock w else w"
  obtain bs' cur' where inv1: "sw_inv n ai es bs' cur' ?w1"
    using inv sw_inv_flush [OF inv] by (cases "length (sw_blockBuf w) > 0 \<and> length (sw_blockBuf w) + length ?enc > blockSize") auto
  have last: "\<not> sw_closed w" "sw_lastEncKey w = (if es = [] then None else Some (rec_Key (rec_of_entry (last es))))"
    using inv by (auto simp: sw_inv_def)
  let ?w2 = "if length (sw_blockBuf ?w1) = 0 then ?w1\<lparr>sw_blockFirstKey := mvcc_Encode (se_key e) (se_ts e)\<rparr> else ?w1"
  let ?w3 = "?w2\<lparr>sw_blockBuf := sw_blockBuf ?w2 @ ?enc, sw_filter := bloom_Add (sw_filter ?w2) (se_key e),
                 sw_lastEncKey := Some (mvcc_Encode (se_key e) (se_ts e)),
                 sw_maxTimestamp := (if se_ts e > sw_maxTimestamp ?w2 then se_ts e else sw_maxTimestamp ?w2),
                 sw_count := Suc (sw_count ?w2)\<rparr>"
  have add: "sst_Add (se_op e) (se_key e) (se_value e) (se_ts e) w = Inr ?w3"
    using last srt unfolding sst_Add_def Let_def rec_of_entry_def [symmetric]
    by (auto simp: not_less_iff_gr_or_eq)
  have "sw_inv n ai (es @ [e]) bs' (cur' @ [rec_of_entry e]) ?w3"
    using inv1 ok by (rule sw_inv_append)
  then show ?thesis using add by blast
qed

definition entries_ok :: "sst_entry list \<Rightarrow> bool" where
  "entries_ok es \<longleftrightarrow>
     sorted_wrt (<) (map (\<lambda>e. mvcc_Encode (se_key e) (se_ts e)) es) \<and> (\<forall>e\<in>set es. rec_ok (rec_of_entry e))"

lemma sst_add_all_inv:
  assumes "sw_inv n ai es0 bs cur w" "entries_ok (es0 @ es)"
  shows "\<exists>w' bs' cur'. sst_add_all es w = Inr w' \<and> sw_inv n ai (es0 @ es) bs' cur' w'"
  using assms
proof (induction es arbitrary: es0 bs cur w)
  case (Cons e es)
  have "rec_ok (rec_of_entry e)" using Cons.prems(2) by (simp add: entries_ok_def)
  moreover have "mvcc_Encode (se_key (last es0)) (se_ts (last es0)) < mvcc_Encode (se_key e) (se_ts e)" if "es0 \<noteq> []"
    using Cons.prems(2) that last_in_set [OF that] by (auto simp: entries_ok_def sorted_wrt_append)
  ultimately obtain w' bs' cur' where "sst_Add (se_op e) (se_key e) (se_value e) (se_ts e) w = Inr w'"
    "sw_inv n ai (es0 @ [e]) bs' cur' w'"
    using sw_inv_Add [OF Cons.prems(1)] by blast
  then show ?case using Cons.IH [of "es0 @ [e]"] Cons.prems(2) by simp
qed auto

subsection \<open>Reading back what was written\<close>

definition idx_rec :: "indexEntry \<Rightarrow> Record" where
  "idx_rec e = mkRecord OpPut 0 (ie_firstKey e)
     (le_PutUint64 (word_of_int (ie_blockOffset e)) @ le_PutUint64 (word_of_int (ie_blockSize e)))"

definition idx_ok :: "indexEntry \<Rightarrow> bool" where
  "idx_ok e \<longleftrightarrow> length (ie_firstKey e) < 2 ^ 32 - 21 \<and> 0 \<le> ie_blockOffset e \<and> ie_blockOffset e < 2 ^ 63 \<and>
     0 \<le> ie_blockSize e \<and> ie_blockSize e < 2 ^ 63"

lemma sst_index_bytes_wal: "sst_index_bytes es = wal_bytes (map idx_rec es)"
  by (simp add: sst_index_bytes_def wal_bytes_def idx_rec_def comp_def)

lemma sint_u64: "0 \<le> x \<Longrightarrow> x < 2 ^ 63 \<Longrightarrow> sint (word_of_int x :: u64) = x"
  by (simp add: sint_sbintrunc' signed_take_bit_int_eq_self_iff)

lemma sst_parse_index_records:
  assumes "\<forall>e\<in>set es. idx_ok e"
  shows "sst_parse_index (pre @ wal_bytes (map idx_rec es)) (length pre) = Inr es"
  using assms
proof (induction es arbitrary: pre)
  case Nil
  then show ?case by (simp add: sst_parse_index.simps)
next
  case (Cons e es)
  let ?r = "idx_rec e"
  let ?buf = "pre @ wal_bytes (map idx_rec (e # es))"
  have ok: "rec_ok ?r" using Cons.prems by (simp add: rec_ok_def valid_op_def idx_rec_def mkRecord_def idx_ok_def)
  have d: "rec_Decode (drop (length pre) ?buf) = Inr (?r, rec_size ?r)"
    using rec_Decode_Encode [OF ok, of "wal_bytes (map idx_rec es)"] by simp
  have lt: "length pre < length ?buf" by (simp add: length_rec_Encode)
  have ih: "sst_parse_index ((pre @ rec_Encode ?r) @ wal_bytes (map idx_rec es)) (length (pre @ rec_Encode ?r)) = Inr es"
    using Cons.prems by (intro Cons.IH) simp
  have v: "length (rec_Value ?r) = 16" "rec_Key ?r = ie_firstKey e"
    "le_Uint64 (bslice 0 8 (rec_Value ?r)) = word_of_int (ie_blockOffset e)"
    "le_Uint64 (bslice 8 16 (rec_Value ?r)) = word_of_int (ie_blockSize e)"
    by (simp_all add: idx_rec_def mkRecord_def bslice_def le_Uint64_Put [of _ "[]", simplified])
  have s: "sint (word_of_int (ie_blockOffset e) :: u64) = ie_blockOffset e" "sint (word_of_int (ie_blockSize e) :: u64) = ie_blockSize e"
    using Cons.prems by (auto simp: idx_ok_def intro!: sint_u64)
  have "sst_parse_index ?buf (length pre) =
      (case sst_parse_index ?buf (length pre + rec_size ?r) of Inl err \<Rightarrow> Inl err | Inr es' \<Rightarrow> Inr (e # es'))"
    using d lt v s by (subst sst_parse_index.simps) (simp split: sum.splits)
  then show ?case using ih by (simp add: length_rec_Encode)
qed


lemma footer_fields:
  fixes a b c d e f g :: u64
  defines "F \<equiv> le_PutUint64 a @ le_PutUint64 b @ le_PutUint64 c @ le_PutUint64 d @ le_PutUint64 e @ le_PutUint64 f @ le_PutUint64 g"
  shows "length F = footerSize" "le_Uint64 (bslice 0 8 F) = a" "le_Uint64 (bslice 8 16 F) = b"
    "le_Uint64 (bslice 16 24 F) = c" "le_Uint64 (bslice 24 32 F) = d" "le_Uint64 (bslice 32 40 F) = e"
    "le_Uint64 (bslice 40 48 F) = f" "le_Uint64 (bslice 48 56 F) = g"
  unfolding F_def by (simp_all add: bslice_def le_Uint64_Put [of _ "[]", simplified])

lemma data_ReadAt_mid:
  "n = int (length ys) \<Longrightarrow> off = int (length xs) \<Longrightarrow> data_ReadAt (xs @ ys @ zs) off n = Some ys"
  by (auto simp: data_ReadAt_def bslice_def nat_add_distrib)

lemma sst_OpenReader_layout:
  assumes idx: "\<forall>e\<in>set es. idx_ok e" and flt: "filter_ok flt"
    and d: "d = out @ sst_index_bytes es @ bloom_Bytes flt @
      le_PutUint64 (word_of_int (int (length out))) @ le_PutUint64 (word_of_int (int (length (sst_index_bytes es)))) @
      le_PutUint64 (word_of_int (int (length out) + int (length (sst_index_bytes es)))) @
      le_PutUint64 (word_of_int (int (length (bloom_Bytes flt)))) @
      le_PutUint64 mts @ le_PutUint64 ai @ le_PutUint64 sst_magic"
    and len: "length d \<le> 2 ^ 48"
  shows "sst_OpenReader d = Inr \<lparr>rd_data = d, rd_index = es, rd_filter = Some flt, rd_maxTimestamp = mts,
           rd_appliedIndex = ai, rd_closed = False\<rparr>"
proof -
  let ?O = "int (length out)" and ?I = "int (length (sst_index_bytes es))" and ?B = "int (length (bloom_Bytes flt))"
  let ?F = "le_PutUint64 (word_of_int ?O) @ le_PutUint64 (word_of_int ?I) @ le_PutUint64 (word_of_int (?O + ?I)) @
      le_PutUint64 (word_of_int ?B) @ le_PutUint64 mts @ le_PutUint64 ai @ le_PutUint64 sst_magic"
  let ?body = "out @ sst_index_bytes es @ bloom_Bytes flt"
  have dF: "d = ?body @ ?F" by (simp add: d)
  have ld: "length d = length ?body + footerSize" unfolding dF by (simp add: footer_fields(1))
  then have bnd: "?O + ?I + ?B + 56 \<le> 2 ^ 48" using len by auto
  have drp: "drop (length d - footerSize) d = ?F" using ld by (simp add: dF)
  have lim: "int (length d - footerSize) = ?O + ?I + ?B" using ld by simp
  have sn: "sint (word_of_int ?O :: u64) = ?O" "sint (word_of_int ?I :: u64) = ?I"
    "sint (word_of_int (?O + ?I) :: u64) = ?O + ?I" "sint (word_of_int ?B :: u64) = ?B"
    by (rule sint_u64; (use bnd in simp))+
  have ad: "add64 ?O ?I = ?O + ?I" "add64 (?O + ?I) ?B = ?O + ?I + ?B"
    unfolding add64_def by (rule sint_u64; (use bnd in simp))+
  have mk: "make_ok ?I" "make_ok ?B" using bnd by (auto simp: make_ok_def)
  have bp: "0 < ?B" by (simp add: bloom_Bytes_def)
  have rdI: "data_ReadAt d ?O ?I = Some (sst_index_bytes es)"
    unfolding d by (rule data_ReadAt_mid) auto
  have rdB: "data_ReadAt d (?O + ?I) ?B = Some (bloom_Bytes flt)"
    using data_ReadAt_mid [of ?B "bloom_Bytes flt" "?O + ?I" "out @ sst_index_bytes es" ?F] by (simp add: dF)
  have pI: "sst_parse_index (sst_index_bytes es) 0 = Inr es"
    using sst_parse_index_records [OF idx, of "[]"] by (simp add: sst_index_bytes_wal)
  have rI: "(if ?I > 0 then data_ReadAt d ?O ?I else Some []) = Some (sst_index_bytes es)" using rdI by simp
  have sz: "\<not> length d < footerSize" using ld by simp
  show ?thesis
    unfolding sst_OpenReader_def Let_def drp footer_fields sn ad lim
    using sz mk bp rI rdB pI bloom.restore_save [OF flt] by (simp del: of_nat_0_less_iff)
qed


lemma idx_ok_index_of:
  assumes "blocks_ok bs" "0 \<le> off" "off + int (length (wal_bytes (concat bs))) \<le> 2 ^ 48"
  shows "\<forall>e\<in>set (index_of bs off). idx_ok e"
  using assms
proof (induction bs arbitrary: off)
  case (Cons b bs)
  have b: "b \<noteq> []" "list_all rec_ok b" "blocks_ok bs" using Cons.prems(1) by (auto simp: blocks_ok_def)
  then have "rec_ok (hd b)" by (cases b) auto
  then have "length (rec_Key (hd b)) < 2 ^ 32 - 21" by (simp add: rec_ok_def)
  moreover have "\<forall>e\<in>set (index_of bs (off + int (length (wal_bytes b)))). idx_ok e"
    using Cons.prems b(3) by (intro Cons.IH) auto
  ultimately show ?case using Cons.prems by (auto simp: idx_ok_def)
qed simp

lemma sst_Finish_layout:
  assumes "sw_inv n ai es bs cur w"
  shows "\<exists>bs'. sst_Finish w = Inr (wal_bytes (concat bs') @ sst_index_bytes (index_of bs' 0) @ bloom_Bytes (sw_filter w) @
      le_PutUint64 (word_of_int (int (length (wal_bytes (concat bs'))))) @
      le_PutUint64 (word_of_int (int (length (sst_index_bytes (index_of bs' 0))))) @
      le_PutUint64 (word_of_int (int (length (wal_bytes (concat bs'))) + int (length (sst_index_bytes (index_of bs' 0))))) @
      le_PutUint64 (word_of_int (int (length (bloom_Bytes (sw_filter w))))) @
      le_PutUint64 (sw_maxTimestamp w) @ le_PutUint64 ai @ le_PutUint64 sst_magic) \<and>
    blocks_ok bs' \<and> concat bs' = map rec_of_entry es"
proof -
  let ?bs = "if cur = [] then bs else bs @ [cur]"
  have inv: "sw_inv n ai es ?bs [] (sst_flushBlock w)" by (rule sw_inv_flush [OF assms])
  have fl: "sst_flushBlock (w\<lparr>sw_closed := True\<rparr>) = (sst_flushBlock w)\<lparr>sw_closed := True\<rparr>"
    "sw_filter (sst_flushBlock w) = sw_filter w" "sw_maxTimestamp (sst_flushBlock w) = sw_maxTimestamp w"
    by (simp_all add: sst_flushBlock_def)
  have "\<not> sw_closed w" using assms by (simp add: sw_inv_def)
  then show ?thesis
    using inv unfolding sst_Finish_def Let_def fl sw_inv_def
    by (intro exI [of _ ?bs]) (simp add: fl)
qed

lemma entries_ok_recs_sorted:
  assumes "entries_ok es" shows "recs_sorted (map rec_of_entry es)"
  using assms by (simp add: entries_ok_def recs_sorted_def comp_def)

lemma sst_write_read:
  assumes "entries_ok es"
  shows "\<exists>w d. sst_add_all es (sst_NewWriter n ai) = Inr w \<and> sst_Finish w = Inr d \<and>
    (length d \<le> 2 ^ 48 \<longrightarrow>
      (\<exists>r bs. sst_OpenReader d = Inr r \<and> sst_repr r bs \<and> concat bs = map rec_of_entry es \<and>
         sst_MaxTimestamp r = fold max (map se_ts es) 0 \<and> sst_AppliedIndex r = ai))"
proof -
  obtain w bs0 cur where w: "sst_add_all es (sst_NewWriter n ai) = Inr w" "sw_inv n ai es bs0 cur w"
    using sst_add_all_inv [OF sw_inv_New, of es n ai] assms by auto
  obtain bs d where bs: "blocks_ok bs" "concat bs = map rec_of_entry es" and fin: "sst_Finish w = Inr d"
    and d: "d = wal_bytes (concat bs) @ sst_index_bytes (index_of bs 0) @ bloom_Bytes (sw_filter w) @
      le_PutUint64 (word_of_int (int (length (wal_bytes (concat bs))))) @
      le_PutUint64 (word_of_int (int (length (sst_index_bytes (index_of bs 0))))) @
      le_PutUint64 (word_of_int (int (length (wal_bytes (concat bs))) + int (length (sst_index_bytes (index_of bs 0))))) @
      le_PutUint64 (word_of_int (int (length (bloom_Bytes (sw_filter w))))) @
      le_PutUint64 (sw_maxTimestamp w) @ le_PutUint64 ai @ le_PutUint64 sst_magic"
    using sst_Finish_layout [OF w(2)] by blast
  have flt: "sw_filter w = fold (\<lambda>k f. bloom_Add f k) (map se_key es) (bloom_New n bloomBitsPerKey)"
    "sw_maxTimestamp w = fold max (map se_ts es) 0"
    using w(2) by (auto simp: sw_inv_def)
  have fok: "filter_ok (sw_filter w)" unfolding flt by (rule bloom.inv_fold [OF filter_ok_New])
  let ?r = "\<lparr>rd_data = d, rd_index = index_of bs 0, rd_filter = Some (sw_filter w), rd_maxTimestamp = sw_maxTimestamp w,
           rd_appliedIndex = ai, rd_closed = False\<rparr>"
  have "sst_OpenReader d = Inr ?r \<and> sst_repr ?r bs" if len: "length d \<le> 2 ^ 48"
  proof
    have wl: "length (wal_bytes (concat bs)) \<le> 2 ^ 48" using len unfolding d by simp
    then have "\<forall>e\<in>set (index_of bs 0). idx_ok e"
      using bs(1) by (intro idx_ok_index_of) (auto simp: of_nat_le_iff [symmetric] simp del: of_nat_le_iff)
    then show "sst_OpenReader d = Inr ?r" using fok d len by (rule sst_OpenReader_layout)
    have "bloom_MayContain (sw_filter w) (mvcc_UserKey (rec_Key rec))" if mem: "rec \<in> set (concat bs)" for rec
    proof -
      obtain e where "e \<in> set es" "rec = rec_of_entry e" using mem unfolding bs(2) by auto
      then show ?thesis
        using bloom.no_false_negative [OF filter_ok_New, of "se_key e" "map se_key es"] by (simp add: flt)
    qed
    moreover have "recs_sorted (concat bs)" unfolding bs(2) by (rule entries_ok_recs_sorted [OF assms])
    ultimately show "sst_repr ?r bs" using bs(1) wl d by (auto simp: sst_repr_def)
  qed
  then show ?thesis using w(1) fin bs(2) flt(2) by (auto simp: sst_MaxTimestamp_def sst_AppliedIndex_def)
qed

definition sst_holds :: "Reader \<Rightarrow> bytes kvs \<Rightarrow> bool" where
  "sst_holds r kvs \<longleftrightarrow> (\<exists>bs. sst_repr r bs \<and> kvs = kvs_of_recs (concat bs))"

definition to_option :: "'e + 'a \<Rightarrow> 'a option" where
  "to_option x = (case x of Inl _ \<Rightarrow> None | Inr y \<Rightarrow> Some y)"

interpretation sst: version_source sst_holds "\<lambda>r uk snap. to_option (sst_GetAsOf r uk snap)"
  "\<lambda>r uk. to_option (sst_NewestVersionTS r uk)"
  by unfold_locales (auto simp: sst_holds_def to_option_def sst_GetAsOf_seek sst_NewestVersionTS_seek)

definition entry_versions :: "sst_entry list \<Rightarrow> bytes \<Rightarrow> (u64 \<times> bytes) list" where
  "entry_versions es uk = map (\<lambda>e. (se_ts e, se_op e # se_value e)) (filter (\<lambda>e. se_key e = uk) es)"

lemma mvcc_versions_entries:
  "mvcc_versions (kvs_of_recs (map rec_of_entry es)) uk = entry_versions es uk"
  by (induction es) (auto simp: mvcc_versions_def entry_versions_def kvs_of_recs_def)

lemma clean_kvs_entries:
  assumes "entries_ok es" "\<forall>e\<in>set es. ff_free (se_key e) \<and> small_ts (se_ts e)"
  shows "clean_kvs (kvs_of_recs (map rec_of_entry es))"
  using assms by (auto simp: clean_kvs_def kvs_of_recs_def comp_def entries_ok_def)

subsection \<open>Properties\<close>

text \<open>C39: for entries in encoded-key order, adding them all and finishing succeeds, and (for files up to
  \<open>2 ^ 48\<close> bytes) the file opens as a table that answers every snapshot read with the newest entry of
  the key at or before the snapshot, reports the largest timestamp and the applied index, and
  iterates over exactly the entries in order.  The reader looks at no more than two blocks per
  lookup and consults the Bloom filter first.\<close>

theorem sst_roundtrip:
  assumes "entries_ok es" "\<forall>e\<in>set es. ff_free (se_key e) \<and> small_ts (se_ts e)"
  shows "\<exists>w d. sst_add_all es (sst_NewWriter n ai) = Inr w \<and> sst_Finish w = Inr d \<and>
    (length d \<le> 2 ^ 48 \<longrightarrow> (\<exists>r. sst_OpenReader d = Inr r \<and>
       (ff_free uk \<and> small_ts snap \<longrightarrow>
          sst_GetAsOf r uk snap = Inr (read_result (newest (filter (\<lambda>p. fst p \<le> snap) (entry_versions es uk))))) \<and>
       sst_MaxTimestamp r = fold max (map se_ts es) 0 \<and> sst_AppliedIndex r = ai \<and>
       sst_Iterate r (\<lambda>op k v acc. (acc @ [(op, k, v)], True)) [] =
         Inr (map (\<lambda>e. (se_op e, mvcc_Encode (se_key e) (se_ts e), se_value e)) es)))"
proof -
  obtain w d where w: "sst_add_all es (sst_NewWriter n ai) = Inr w" "sst_Finish w = Inr d"
    and op: "length d \<le> 2 ^ 48 \<longrightarrow>
      (\<exists>r bs. sst_OpenReader d = Inr r \<and> sst_repr r bs \<and> concat bs = map rec_of_entry es \<and>
         sst_MaxTimestamp r = fold max (map se_ts es) 0 \<and> sst_AppliedIndex r = ai)"
    using sst_write_read [OF assms(1)] by blast
  have col: "iter_recs (\<lambda>op k v acc. (acc @ [(op, k, v)], True)) rs acc =
      (acc @ map (\<lambda>r. (rec_Op r, rec_Key r, rec_Value r)) rs, True)" for rs acc
    by (induction rs arbitrary: acc) auto
  have rd: "sst_GetAsOf r uk snap = Inr (read_result (newest (filter (\<lambda>p. fst p \<le> snap) (entry_versions es uk))))"
    if "sst_repr r bs" "concat bs = map rec_of_entry es" "ff_free uk" "small_ts snap" for r bs
    using sst_GetAsOf_seek [OF that(1)] seek_version_read [OF clean_kvs_entries [OF assms] that(3,4)] that(2)
    by (simp add: mvcc_read_def mvcc_versions_entries)
  have it: "sst_Iterate r (\<lambda>op k v acc. (acc @ [(op, k, v)], True)) [] =
         Inr (map (\<lambda>e. (se_op e, mvcc_Encode (se_key e) (se_ts e), se_value e)) es)"
    if "sst_repr r bs" "concat bs = map rec_of_entry es" for r bs
    using sst_Iterate_records [OF that(1), of "\<lambda>op k v acc. (acc @ [(op, k, v)], True)" "[]"]
    by (simp add: that(2) col comp_def)
  show ?thesis using w op rd it by blast
qed

theorem sst_roundtrip_witness:
  "\<exists>w d r. sst_add_all [\<lparr>se_op = OpPut, se_key = [97], se_value = [1], se_ts = 5\<rparr>] (sst_NewWriter 1 3) = Inr w \<and>
     sst_Finish w = Inr d \<and> sst_OpenReader d = Inr r \<and> sst_GetAsOf r [97] 7 = Inr ([1], OpPut, True)"
proof -
  let ?e = "\<lparr>se_op = OpPut, se_key = [97], se_value = [1], se_ts = 5\<rparr>"
  have "entries_ok [?e]"
    by (simp add: entries_ok_def rec_ok_def valid_op_def)
  moreover have "\<forall>e\<in>set [?e]. ff_free (se_key e) \<and> small_ts (se_ts e)" "ff_free [97]" "small_ts 7"
    by (simp_all add: ff_free_def small_ts_def)
  moreover have "length d \<le> 2 ^ 48" if "sst_add_all [?e] (sst_NewWriter 1 3) = Inr w" "sst_Finish w = Inr d" for w d
    using that
    by (auto simp: sst_NewWriter_def sst_Add_def Let_def sst_Finish_def sst_flushBlock_def mkRecord_def
        sst_index_bytes_def length_rec_Encode bloom_Bytes_def bloom_Add_def bloom_New_def)
  ultimately show ?thesis
    using sst_roundtrip [of "[?e]" 1 3 "[97]" 7] by (auto simp: entry_versions_def read_result_def)
qed

text \<open>Entries that are not strictly ascending in encoded-key order are refused: a repeated key as a
  duplicate, a smaller one as out of order, and the writer's state is not changed.\<close>

theorem sst_Add_rejects:
  assumes "\<not> sw_closed w" "sw_lastEncKey w = Some l" "mvcc_Encode k ts \<le> l"
  shows "sst_Add op k v ts w = Inl (if mvcc_Encode k ts = l then ErrDuplicate else ErrOutOfOrder)"
  using assms by (auto simp: sst_Add_def Let_def)

theorem sst_Add_rejects_witness:
  "sst_Add OpPut [97] [1] 9 ((sst_NewWriter 1 0)\<lparr>sw_lastEncKey := Some (mvcc_Encode [97] 5)\<rparr>) = Inl ErrOutOfOrder"
  using sst_Add_rejects [of "(sst_NewWriter 1 0)\<lparr>sw_lastEncKey := Some (mvcc_Encode [97] 5)\<rparr>" "mvcc_Encode [97] 5" "[97]" 9 OpPut "[1]"]
  by (simp add: sst_NewWriter_def less_imp_le)

end
