(* ===== verification/Sstable_Iterator.thy ===== *)
theory Sstable_Iterator
  imports Sstable "HOL-Library.Monad_Syntax"
begin

section \<open>Table iterators (\<open>internal/sstable/iterator.go\<close>)\<close>

text \<open>
  A cursor over the records of a table whose user key lies in a range.  It keeps the current block in
  a buffer and loads the next one when the buffer is used up.  The loops that skip to the start of
  the range and that drain the iterator may a priori run forever (\<open>None\<close>); they are shown to return.
\<close>

record Iterator =
  it_r :: Reader
  it_endUser :: "bytes option"
  it_blockIdx :: nat
  it_buf :: bytes
  it_offset :: nat
  it_encKey :: bytes
  it_value :: bytes
  it_op :: byte
  it_valid :: bool
  it_err :: "sst_error option"

definition it_loadBlock :: "nat \<Rightarrow> Iterator \<Rightarrow> sst_error + Iterator" where
  "it_loadBlock i it =
     (if i < length (rd_index (it_r it)) then
        (case sst_read_block (it_r it) (rd_index (it_r it) ! i) of
           Inl e \<Rightarrow> Inl e
         | Inr buf \<Rightarrow> Inr (it\<lparr>it_buf := buf, it_offset := 0\<rparr>))
      else Inl SstPanic)"

definition it_decode :: "Iterator \<Rightarrow> Iterator \<times> (bytes \<times> bytes \<times> byte) option" where
  "it_decode it =
     (case rec_Decode (drop (it_offset it) (it_buf it)) of
        Inl e \<Rightarrow> (it\<lparr>it_err := Some (SstDecode e)\<rparr>, None)
      | Inr (r, n) \<Rightarrow> (it\<lparr>it_offset := it_offset it + n\<rparr>, Some (rec_Key r, rec_Value r, rec_Op r)))"

definition it_nextRaw :: "Iterator \<Rightarrow> Iterator \<times> (bytes \<times> bytes \<times> byte) option" where
  "it_nextRaw it =
     (if it_offset it \<ge> length (it_buf it) then
        (if it_blockIdx it + 1 \<ge> length (rd_index (it_r it)) then (it, None)
         else let it1 = it\<lparr>it_blockIdx := it_blockIdx it + 1\<rparr>
              in case it_loadBlock (it_blockIdx it1) it1 of
                   Inl e \<Rightarrow> (it1\<lparr>it_err := Some e\<rparr>, None)
                 | Inr it2 \<Rightarrow> it_decode it2)
      else it_decode it)"

definition it_inRange :: "Iterator \<Rightarrow> bytes \<Rightarrow> bool" where
  "it_inRange it enc =
     (case it_endUser it of
        None \<Rightarrow> True
      | Some e \<Rightarrow> (case mvcc_Decode enc of (uk, _, ok) \<Rightarrow> if \<not> ok then False else uk < e))"

definition it_set :: "bytes \<Rightarrow> bytes \<Rightarrow> byte \<Rightarrow> Iterator \<Rightarrow> Iterator" where
  "it_set enc val op it = it\<lparr>it_encKey := enc, it_value := val, it_op := op, it_valid := True\<rparr>"

partial_function (option) it_position :: "bytes option \<Rightarrow> Iterator \<Rightarrow> (sst_error option \<times> Iterator) option" where
  "it_position startTarget it =
     (let p = it_nextRaw it in
      case snd p of
        None \<Rightarrow> Some (it_err (fst p), (fst p)\<lparr>it_valid := False\<rparr>)
      | Some (enc, val, op) \<Rightarrow>
          if (case startTarget of None \<Rightarrow> False | Some t \<Rightarrow> enc < t) then it_position startTarget (fst p)
          else if \<not> it_inRange (fst p) enc then Some (None, (fst p)\<lparr>it_valid := False\<rparr>)
          else Some (None, it_set enc val op (fst p)))"

declare it_position.simps [code]

definition it_New :: "Reader \<Rightarrow> bytes option \<Rightarrow> bytes option \<Rightarrow> (sst_error option \<times> Iterator) option" where
  "it_New r start end1 =
     (let it = \<lparr>it_r = r, it_endUser = end1, it_blockIdx = 0, it_buf = [], it_offset = 0, it_encKey = [],
                it_value = [], it_op = 0, it_valid = False, it_err = None\<rparr>
      in if rd_closed r then Some (Some SstClosed, it)
         else if length (rd_index r) = 0 then Some (None, it)
         else let startTarget = map_option (\<lambda>k. mvcc_Encode k (NOT 0)) start;
                  startBlock = (case startTarget of None \<Rightarrow> 0 | Some t \<Rightarrow> sst_startBlock r t);
                  it1 = it\<lparr>it_blockIdx := startBlock\<rparr>
              in case it_loadBlock startBlock it1 of
                   Inl e \<Rightarrow> Some (Some e, it1\<lparr>it_err := Some e\<rparr>)
                 | Inr it2 \<Rightarrow> it_position startTarget it2)"

definition it_Valid :: "Iterator \<Rightarrow> bool" where "it_Valid it = it_valid it"
definition it_EncKey :: "Iterator \<Rightarrow> bytes" where "it_EncKey it = it_encKey it"
definition it_Value :: "Iterator \<Rightarrow> bytes" where "it_Value it = it_value it"
definition it_Op :: "Iterator \<Rightarrow> byte" where "it_Op it = it_op it"
definition it_Err :: "Iterator \<Rightarrow> sst_error option" where "it_Err it = it_err it"

definition it_Advance :: "Iterator \<Rightarrow> Iterator" where
  "it_Advance it =
     (if \<not> it_valid it then it
      else case it_nextRaw it of
             (it', None) \<Rightarrow> it'\<lparr>it_valid := False\<rparr>
           | (it', Some (enc, val, op)) \<Rightarrow>
               if \<not> it_inRange it' enc then it'\<lparr>it_valid := False\<rparr> else it_set enc val op it')"

definition it_Close :: "Iterator \<Rightarrow> Iterator" where
  "it_Close it = it\<lparr>it_valid := False, it_buf := [], it_encKey := [], it_value := []\<rparr>"

text \<open>Draining an iterator, as its clients do.\<close>

partial_function (option) it_drain :: "Iterator \<Rightarrow> (bytes \<times> bytes) list \<Rightarrow> ((bytes \<times> bytes) list \<times> Iterator) option" where
  "it_drain it acc =
     (if it_Valid it then it_drain (it_Advance it) (acc @ [(it_EncKey it, it_Op it # it_Value it)])
      else Some (acc, it))"

declare it_drain.simps [code]

subsection \<open>The records ahead of a cursor\<close>

definition it_ahead :: "Iterator \<Rightarrow> Record list list \<Rightarrow> Record list \<Rightarrow> bool" where
  "it_ahead it bs rs \<longleftrightarrow>
     sst_repr (it_r it) bs \<and> it_blockIdx it < length bs \<and> it_err it = None \<and>
     (\<exists>done rest. bs ! it_blockIdx it = done @ rest \<and> it_buf it = wal_bytes (done @ rest) \<and>
        it_offset it = length (wal_bytes done) \<and> rs = rest @ concat (drop (Suc (it_blockIdx it)) bs))"

lemma sst_repr_block_ok: "sst_repr r bs \<Longrightarrow> b \<in> set bs \<Longrightarrow> b \<noteq> [] \<and> list_all rec_ok b"
  by (auto simp: sst_repr_def blocks_ok_def)

lemma it_loadBlock_ok:
  assumes "sst_repr (it_r it) bs" "i < length bs"
  shows "it_loadBlock i it = Inr (it\<lparr>it_buf := wal_bytes (bs ! i), it_offset := 0\<rparr>)"
proof -
  obtain rest where R: "rd_index (it_r it) = index_of bs 0" "rd_data (it_r it) = wal_bytes (concat bs) @ rest"
    "length (wal_bytes (concat bs)) \<le> 2 ^ 48"
    using assms(1) by (auto simp: sst_repr_def)
  have bs: "bs = take i bs @ bs ! i # drop (Suc i) bs" using assms(2) by (rule id_take_nth_drop)
  have cat: "wal_bytes (concat bs) = wal_bytes (concat (take i bs)) @ wal_bytes (bs ! i) @ wal_bytes (concat (drop (Suc i) bs))"
    by (subst bs) simp
  have "index_of bs 0 ! i = \<lparr>ie_firstKey = rec_Key (hd (bs ! i)), ie_blockOffset = int (length (wal_bytes (concat (take i bs)))),
      ie_blockSize = int (length (wal_bytes (bs ! i)))\<rparr>"
    using assms(2) by (subst bs) (simp add: index_of_append nth_append)
  moreover have "sst_read_block (it_r it) \<lparr>ie_firstKey = rec_Key (hd (bs ! i)),
      ie_blockOffset = int (length (wal_bytes (concat (take i bs)))), ie_blockSize = int (length (wal_bytes (bs ! i)))\<rparr>
      = Inr (wal_bytes (bs ! i))"
    using R cat sst_repr_block_ok [OF assms(1), of "bs ! i"] assms(2) by (intro sst_read_block_at) auto
  ultimately show ?thesis using R(1) assms(2) by (simp add: it_loadBlock_def)
qed

lemma it_decode_ok:
  assumes "it_buf it = wal_bytes (done @ r # rest)" "it_offset it = length (wal_bytes done)" "rec_ok r"
  shows "it_decode it = (it\<lparr>it_offset := length (wal_bytes (done @ [r]))\<rparr>, Some (rec_Key r, rec_Value r, rec_Op r))"
  using assms rec_Decode_Encode [OF assms(3), of "wal_bytes rest"]
  by (simp add: it_decode_def length_rec_Encode)

lemma it_nextRaw_Cons:
  assumes "it_ahead it bs (r # rs)"
  obtains it' where "it_nextRaw it = (it', Some (rec_Key r, rec_Value r, rec_Op r))" "it_ahead it' bs rs"
    "it_endUser it' = it_endUser it"
proof -
  let ?i = "it_blockIdx it"
  obtain dn rest where A: "sst_repr (it_r it) bs" "?i < length bs" "it_err it = None" "bs ! ?i = dn @ rest"
    "it_buf it = wal_bytes (dn @ rest)" "it_offset it = length (wal_bytes dn)" "r # rs = rest @ concat (drop (Suc ?i) bs)"
    using assms by (auto simp: it_ahead_def)
  have idx: "length (rd_index (it_r it)) = length bs" using A(1) by (simp add: sst_repr_def)
  show thesis
  proof (cases rest)
    case (Cons r' rest')
    then have r: "r' = r" "rs = rest' @ concat (drop (Suc ?i) bs)" using A(7) by auto
    have ok: "rec_ok r" using sst_repr_block_ok [OF A(1) nth_mem [OF A(2)]] A(4) Cons r by auto
    let ?it = "it\<lparr>it_offset := length (wal_bytes (dn @ [r]))\<rparr>"
    have "it_nextRaw it = (?it, Some (rec_Key r, rec_Value r, rec_Op r))"
      using A(5,6) Cons r it_decode_ok [of it dn r rest'] ok by (auto simp: it_nextRaw_def length_rec_Encode)
    moreover have "it_ahead ?it bs rs"
      using A Cons r by (auto simp: it_ahead_def intro!: exI [of _ "dn @ [r]"])
    ultimately show thesis using that by simp
  next
    case Nil
    then have more: "Suc ?i < length bs" using A(7) by (cases "Suc ?i < length bs") auto
    then have dr: "drop (Suc ?i) bs = bs ! Suc ?i # drop (Suc (Suc ?i)) bs" by (simp add: Cons_nth_drop_Suc)
    have blk: "bs ! Suc ?i \<noteq> []" "list_all rec_ok (bs ! Suc ?i)" using sst_repr_block_ok [OF A(1)] more by auto
    then obtain rest' where b: "bs ! Suc ?i = r # rest'" "rs = rest' @ concat (drop (Suc (Suc ?i)) bs)"
      using A(7) Nil dr by (cases "bs ! Suc ?i") auto
    let ?it1 = "it\<lparr>it_blockIdx := Suc ?i\<rparr>"
    let ?it2 = "?it1\<lparr>it_buf := wal_bytes (bs ! Suc ?i), it_offset := 0\<rparr>"
    let ?it3 = "?it2\<lparr>it_offset := length (wal_bytes [r])\<rparr>"
    have "it_loadBlock (Suc ?i) ?it1 = Inr ?it2" using A(1) more by (intro it_loadBlock_ok) auto
    moreover have "it_decode ?it2 = (?it3, Some (rec_Key r, rec_Value r, rec_Op r))"
      using it_decode_ok [of ?it2 "[]" r rest'] b(1) blk(2) by simp
    ultimately have "it_nextRaw it = (?it3, Some (rec_Key r, rec_Value r, rec_Op r))"
      using A(5,6) Nil more idx by (simp add: it_nextRaw_def Let_def)
    moreover have "it_ahead ?it3 bs rs"
      using A(1,3) b more by (auto simp: it_ahead_def intro!: exI [of _ "[r]"])
    ultimately show thesis using that by simp
  qed
qed

lemma it_nextRaw_Nil:
  assumes "it_ahead it bs []"
  shows "it_nextRaw it = (it, None)"
proof -
  let ?i = "it_blockIdx it"
  obtain dn rest where A: "sst_repr (it_r it) bs" "?i < length bs" "bs ! ?i = dn @ rest"
    "it_buf it = wal_bytes (dn @ rest)" "it_offset it = length (wal_bytes dn)" "rest = []" "concat (drop (Suc ?i) bs) = []"
    using assms by (auto simp: it_ahead_def)
  have "\<not> Suc ?i < length bs"
  proof
    assume m: "Suc ?i < length bs"
    then have "bs ! Suc ?i \<in> set (drop (Suc ?i) bs)" by (simp add: Cons_nth_drop_Suc [symmetric])
    then have "bs ! Suc ?i = []" using A(7) by auto
    then show False using sst_repr_block_ok [OF A(1), of "bs ! Suc ?i"] m by simp
  qed
  moreover have "length (rd_index (it_r it)) = length bs" using A(1) by (simp add: sst_repr_def)
  ultimately show ?thesis using A(4-6) by (simp add: it_nextRaw_def)
qed


abbreviation rec_kv :: "Record \<Rightarrow> bytes \<times> bytes" where
  "rec_kv r \<equiv> (rec_Key r, rec_Op r # rec_Value r)"

definition before_end :: "bytes option \<Rightarrow> Record \<Rightarrow> bool" where
  "before_end end1 r = (case end1 of None \<Rightarrow> True | Some e \<Rightarrow> mvcc_UserKey (rec_Key r) < e)"

lemma it_inRange_rec:
  assumes "snd (snd (mvcc_Decode (rec_Key r)))"
  shows "it_inRange it (rec_Key r) = before_end (it_endUser it) r"
proof -
  obtain uk ts where "rec_Key r = mvcc_Encode uk ts" using assms by (auto simp: mvcc_Decode_ok_iff)
  then show ?thesis by (auto simp: it_inRange_def before_end_def split: option.splits)
qed

text \<open>What a cursor yields from its current position on.\<close>

definition it_yields :: "Iterator \<Rightarrow> bytes kvs \<Rightarrow> bool" where
  "it_yields it kvs \<longleftrightarrow>
     (if it_valid it then \<exists>bs rs. it_ahead it bs rs \<and> (\<forall>r\<in>set rs. snd (snd (mvcc_Decode (rec_Key r)))) \<and>
        kvs = (it_encKey it, it_op it # it_value it) # map rec_kv (takeWhile (before_end (it_endUser it)) rs)
      else kvs = [] \<and> it_err it = None)"

lemma it_yields_Cons:
  assumes y: "it_yields it ((k, v) # kvs)"
  shows "it_Valid it \<and> it_EncKey it = k \<and> it_Op it # it_Value it = v \<and> it_Err it = None \<and> it_yields (it_Advance it) kvs"
proof -
  obtain bs rs where A: "it_valid it" "it_ahead it bs rs" "\<forall>r\<in>set rs. snd (snd (mvcc_Decode (rec_Key r)))"
      "(k, v) = (it_encKey it, it_op it # it_value it)" "kvs = map rec_kv (takeWhile (before_end (it_endUser it)) rs)"
    using y by (auto simp: it_yields_def split: if_splits)
  have err: "it_err it = None" using A(2) by (simp add: it_ahead_def)
  have "it_yields (it_Advance it) kvs"
  proof (cases rs)
    case Nil
    then have "it_Advance it = it\<lparr>it_valid := False\<rparr>"
      using it_nextRaw_Nil A(1,2) by (simp add: it_Advance_def)
    then show ?thesis using Nil A(5) err by (simp add: it_yields_def)
  next
    case (Cons r rs')
    obtain it' where n: "it_nextRaw it = (it', Some (rec_Key r, rec_Value r, rec_Op r))" "it_ahead it' bs rs'"
      "it_endUser it' = it_endUser it"
      using it_nextRaw_Cons A(2) Cons by blast
    have ir: "it_inRange it' (rec_Key r) = before_end (it_endUser it) r"
      using it_inRange_rec [of r it'] A(3) Cons n(3) by simp
    show ?thesis
    proof (cases "before_end (it_endUser it) r")
      case True
      let ?it = "it_set (rec_Key r) (rec_Value r) (rec_Op r) it'"
      have "it_Advance it = ?it" using n(1) ir True A(1) by (simp add: it_Advance_def)
      moreover have "it_ahead ?it bs rs'" using n(2) by (auto simp: it_ahead_def it_set_def)
      moreover have "it_valid ?it" "it_encKey ?it = rec_Key r" "it_op ?it = rec_Op r" "it_value ?it = rec_Value r"
          "it_endUser ?it = it_endUser it" using n(3) by (simp_all add: it_set_def)
      ultimately show ?thesis using A(3,5) Cons True unfolding it_yields_def by auto
    next
      case False
      then have "it_Advance it = it'\<lparr>it_valid := False\<rparr>" using n(1) ir A(1) by (simp add: it_Advance_def)
      moreover have "it_err it' = None" using n(2) by (simp add: it_ahead_def)
      ultimately show ?thesis using A(5) Cons False by (simp add: it_yields_def)
    qed
  qed
  then show ?thesis using A(1,4) err by (simp add: it_Valid_def it_EncKey_def it_Op_def it_Value_def it_Err_def)
qed

interpretation sst_cursor: version_cursor it_Valid it_EncKey it_Op it_Value it_Advance it_Err it_yields
proof unfold_locales
  show "\<not> it_Valid c \<and> it_Err c = None" if "it_yields c []" for c
    using that by (auto simp: it_yields_def it_Valid_def it_Err_def split: if_splits)
qed (use it_yields_Cons in blast)

lemma it_drain_yields:
  "it_yields it kvs \<Longrightarrow> \<exists>it'. it_drain it acc = Some (acc @ kvs, it') \<and> it_err it' = None"
proof (induction kvs arbitrary: it acc)
  case Nil
  then show ?case using sst_cursor.yields_Nil [OF Nil] by (simp add: it_drain.simps it_Err_def)
next
  case (Cons p kvs)
  have n: "it_Valid it" "(it_EncKey it, it_Op it # it_Value it) = p" "it_yields (it_Advance it) kvs"
    using sst_cursor.yields_Cons [of it "fst p" "snd p" kvs] Cons.prems by (simp_all add: prod_eq_iff)
  then show ?case using Cons.IH [OF n(3), of "acc @ [p]"] by (subst it_drain.simps) simp
qed

definition below_start :: "bytes option \<Rightarrow> Record \<Rightarrow> bool" where
  "below_start t r = (case t of None \<Rightarrow> False | Some t \<Rightarrow> rec_Key r < t)"

lemma it_position_yields:
  assumes "it_ahead it bs rs" "\<forall>r\<in>set rs. snd (snd (mvcc_Decode (rec_Key r)))" "\<not> it_valid it"
  shows "\<exists>it'. it_position t it = Some (None, it') \<and>
    it_yields it' (map rec_kv (takeWhile (before_end (it_endUser it)) (dropWhile (below_start t) rs)))"
  using assms
proof (induction rs arbitrary: it)
  case Nil
  then have "it_position t it = Some (None, it\<lparr>it_valid := False\<rparr>)"
    using it_nextRaw_Nil [OF Nil(1)] by (simp add: it_position.simps it_ahead_def)
  moreover have "it_err it = None" using Nil(1) by (simp add: it_ahead_def)
  ultimately show ?case by (simp add: it_yields_def)
next
  case (Cons r rs)
  obtain it' where n: "it_nextRaw it = (it', Some (rec_Key r, rec_Value r, rec_Op r))" "it_ahead it' bs rs"
    "it_endUser it' = it_endUser it"
    using it_nextRaw_Cons [OF Cons.prems(1)] by blast
  have ir: "it_inRange it' (rec_Key r) = before_end (it_endUser it) r"
    using it_inRange_rec [of r it'] Cons.prems(2) n(3) by simp
  have err: "it_err it' = None" using n(2) by (simp add: it_ahead_def)
  have st: "it_position t it = (if below_start t r then it_position t it'
      else if \<not> before_end (it_endUser it) r then Some (None, it'\<lparr>it_valid := False\<rparr>)
      else Some (None, it_set (rec_Key r) (rec_Value r) (rec_Op r) it'))"
    using n(1) ir by (subst it_position.simps) (simp add: below_start_def)
  show ?case
  proof (cases "below_start t r")
    case True
    have "\<not> it_valid it'" 
      using n(1) Cons.prems(3) by (auto simp: it_nextRaw_def it_decode_def it_loadBlock_def Let_def split: if_splits sum.splits)
    then show ?thesis using Cons.IH [OF n(2)] Cons.prems(2) st True n(3) by auto
  next
    case False
    show ?thesis
    proof (cases "before_end (it_endUser it) r")
      case True
      let ?it = "it_set (rec_Key r) (rec_Value r) (rec_Op r) it'"
      have "it_ahead ?it bs rs" using n(2) by (auto simp: it_ahead_def it_set_def)
      then have "it_yields ?it (map rec_kv (takeWhile (before_end (it_endUser it)) (r # rs)))"
        using Cons.prems(2) True n(3) by (auto simp: it_yields_def it_set_def)
      then show ?thesis using st False True by simp
    next
      case F: False
      then show ?thesis using st False err by (simp add: it_yields_def)
    qed
  qed
qed

lemma sst_startBlock_less:
  assumes "rd_index r = index_of bs 0" "blocks_ok bs" "recs_sorted (concat bs)" "bs \<noteq> []"
  shows "sst_startBlock r t < length bs"
proof (rule ccontr)
  assume "\<not> sst_startBlock r t < length bs"
  moreover have "sort_Search_from f i j \<le> j" if "i \<le> j" for f i j
    using that
  proof (induction f i j rule: sort_Search_from.induct)
    case (1 f i j)
    show ?case
    proof (cases "i < j")
      case True
      let ?h = "(i + j) div 2"
      have h: "i \<le> ?h" "?h \<le> j" "Suc ?h \<le> j" using True by auto
      then have "sort_Search_from f (Suc ?h) j \<le> j" if "\<not> f ?h" using 1(1) [OF True refl] that by simp
      moreover have "sort_Search_from f i ?h \<le> j" if "f ?h" using 1(2) [OF True refl] that h by simp
      ultimately show ?thesis using True by (subst sort_Search_from.simps) (simp add: Let_def)
    qed (use 1(3) in \<open>simp add: sort_Search_from.simps\<close>)
  qed
  then have "sort_Search (length bs) (\<lambda>i. t < ie_firstKey (rd_index r ! i)) \<le> length bs" by (simp add: sort_Search_def)
  moreover have "0 < length bs" using assms(4) by simp
  moreover have "sst_startBlock r t = sort_Search (length bs) (\<lambda>i. t < ie_firstKey (rd_index r ! i)) - 1"
    using assms(1) by (simp add: sst_startBlock_def Let_def)
  ultimately show False by linarith
qed

lemma it_New_yields:
  assumes "sst_repr r bs"
  shows "\<exists>it. it_New r start end1 = Some (None, it) \<and>
    it_yields it (takeWhile (\<lambda>p. case end1 of None \<Rightarrow> True | Some e \<Rightarrow> mvcc_UserKey (fst p) < e)
      (kv_seek (case start of None \<Rightarrow> [] | Some k \<Rightarrow> mvcc_Encode k (NOT 0)) (kvs_of_recs (concat bs))))"
proof (cases "bs = []")
  case True
  then show ?thesis
    using assms by (simp add: it_New_def sst_repr_def it_yields_def kvs_of_recs_def kv_seek_def)
next
  case False
  have R: "rd_index r = index_of bs 0" "blocks_ok bs" "recs_sorted (concat bs)" "\<not> rd_closed r"
    using assms by (auto simp: sst_repr_def)
  let ?t = "map_option (\<lambda>k. mvcc_Encode k (NOT 0)) start"
  let ?s = "case ?t of None \<Rightarrow> 0 | Some t \<Rightarrow> sst_startBlock r t"
  let ?it = "\<lparr>it_r = r, it_endUser = end1, it_blockIdx = ?s, it_buf = wal_bytes (bs ! ?s), it_offset = 0, it_encKey = [],
                it_value = [], it_op = 0, it_valid = False, it_err = None\<rparr>"
  have s: "?s < length bs" using sst_startBlock_less [OF R(1-3) False] False by (auto split: option.splits)
  have below: "\<forall>x\<in>set (concat (take ?s bs)). below_start ?t x"
    using sst_startBlock_spec(1) [OF R(1-3)] by (cases start) (auto simp: below_start_def)
  have "it_New r start end1 = it_position ?t ?it"
    using R(1,4) False s it_loadBlock_ok [of "?it\<lparr>it_buf := []\<rparr>" bs ?s] assms
    by (simp add: it_New_def Let_def)
  moreover have "it_ahead ?it bs (concat (drop ?s bs))"
    using assms s by (auto simp: it_ahead_def Cons_nth_drop_Suc [symmetric] intro!: exI [of _ "[]"])
  moreover have "\<forall>x\<in>set (concat (drop ?s bs)). snd (snd (mvcc_Decode (rec_Key x)))"
    using R(3) by (auto simp: recs_sorted_def dest!: in_set_dropD)
  moreover have "dropWhile (below_start ?t) (concat (drop ?s bs)) = dropWhile (below_start ?t) (concat bs)"
    using below dropWhile_append2 [of "concat (take ?s bs)" "below_start ?t" "concat (drop ?s bs)"]
    by (metis append_take_drop_id concat_append)
  moreover have "map rec_kv (takeWhile (before_end end1) (dropWhile (below_start ?t) rs)) =
      takeWhile (\<lambda>p. case end1 of None \<Rightarrow> True | Some e \<Rightarrow> mvcc_UserKey (fst p) < e)
        (kv_seek (case start of None \<Rightarrow> [] | Some k \<Rightarrow> mvcc_Encode k (NOT 0)) (kvs_of_recs rs))" for rs
    by (cases start; cases end1) (simp_all add: kvs_of_recs_def kv_seek_def takeWhile_map dropWhile_map comp_def
        before_end_def [abs_def] below_start_def [abs_def])
  ultimately show ?thesis using it_position_yields [of ?it bs "concat (drop ?s bs)" ?t] by simp
qed

subsection \<open>Properties\<close>

text \<open>C40: for entries in encoded-key order whose keys, together with the bounds, are prefix-free, an
  iterator over the written and reopened table yields exactly the entries whose user key lies in
  \<open>[start, end)\<close>, in order, and ends without an error.\<close>

theorem it_range_exact:
  assumes "entries_ok es" "prefix_free (map se_key es @ bound_keys start end1)"
  shows "\<exists>w d. sst_add_all es (sst_NewWriter n ai) = Inr w \<and> sst_Finish w = Inr d \<and>
    (length d \<le> 2 ^ 48 \<longrightarrow> (\<exists>r it it'. sst_OpenReader d = Inr r \<and> it_New r start end1 = Some (None, it) \<and>
       it_drain it [] = Some (map (\<lambda>e. (mvcc_Encode (se_key e) (se_ts e), se_op e # se_value e))
         (filter (\<lambda>e. in_range start end1 (se_key e)) es), it') \<and> it_Err it' = None))"
proof -
  let ?kvs = "kvs_of_recs (map rec_of_entry es)"
  have kvs: "?kvs = map (\<lambda>e. (mvcc_Encode (se_key e) (se_ts e), se_op e # se_value e)) es"
    by (simp add: kvs_of_recs_def)
  have "takeWhile (\<lambda>p. case end1 of None \<Rightarrow> True | Some e \<Rightarrow> mvcc_UserKey (fst p) < e)
      (kv_seek (case start of None \<Rightarrow> [] | Some k \<Rightarrow> mvcc_Encode k (NOT 0)) ?kvs)
      = filter (\<lambda>p. in_range start end1 (mvcc_UserKey (fst p))) ?kvs"
    using assms by (intro range_seek_exact) (auto simp: kvs entries_ok_def comp_def)
  then have rng: "takeWhile (\<lambda>p. case end1 of None \<Rightarrow> True | Some e \<Rightarrow> mvcc_UserKey (fst p) < e)
      (kv_seek (case start of None \<Rightarrow> [] | Some k \<Rightarrow> mvcc_Encode k (NOT 0)) ?kvs)
      = map (\<lambda>e. (mvcc_Encode (se_key e) (se_ts e), se_op e # se_value e)) (filter (\<lambda>e. in_range start end1 (se_key e)) es)"
    by (simp add: kvs filter_map comp_def)
  obtain w d where w: "sst_add_all es (sst_NewWriter n ai) = Inr w" "sst_Finish w = Inr d"
    and op: "length d \<le> 2 ^ 48 \<longrightarrow>
      (\<exists>r bs. sst_OpenReader d = Inr r \<and> sst_repr r bs \<and> concat bs = map rec_of_entry es \<and>
         sst_MaxTimestamp r = fold max (map se_ts es) 0 \<and> sst_AppliedIndex r = ai)"
    using sst_write_read [OF assms(1)] by blast
  have "\<exists>r it it'. sst_OpenReader d = Inr r \<and> it_New r start end1 = Some (None, it) \<and>
       it_drain it [] = Some (map (\<lambda>e. (mvcc_Encode (se_key e) (se_ts e), se_op e # se_value e))
         (filter (\<lambda>e. in_range start end1 (se_key e)) es), it') \<and> it_Err it' = None" if "length d \<le> 2 ^ 48"
  proof -
    obtain r bs where r: "sst_OpenReader d = Inr r" "sst_repr r bs" "concat bs = map rec_of_entry es"
      using op \<open>length d \<le> 2 ^ 48\<close> by blast
    obtain it where it: "it_New r start end1 = Some (None, it)"
        "it_yields it (map (\<lambda>e. (mvcc_Encode (se_key e) (se_ts e), se_op e # se_value e)) (filter (\<lambda>e. in_range start end1 (se_key e)) es))"
      using it_New_yields [OF r(2), of start end1] unfolding r(3) rng by blast
    show ?thesis using r(1) it(1) it_drain_yields [OF it(2), of "[]"] by (auto simp: it_Err_def)
  qed
  then show ?thesis using w by blast
qed

theorem it_range_exact_witness:
  "\<exists>w d r it it'. sst_add_all [\<lparr>se_op = OpPut, se_key = [97], se_value = [1], se_ts = 5\<rparr>] (sst_NewWriter 1 3) = Inr w \<and>
     sst_Finish w = Inr d \<and> sst_OpenReader d = Inr r \<and> it_New r (Some [96]) None = Some (None, it) \<and>
     it_drain it [] = Some ([(mvcc_Encode [97] 5, [1, 1])], it')"
proof -
  let ?e = "\<lparr>se_op = OpPut, se_key = [97], se_value = [1], se_ts = 5\<rparr>"
  have "entries_ok [?e]" by (simp add: entries_ok_def rec_ok_def valid_op_def)
  moreover have "prefix_free (map se_key [?e] @ bound_keys (Some [96]) None)"
    by (simp add: prefix_free_def bound_keys_def)
  moreover have "length d \<le> 2 ^ 48" if "sst_add_all [?e] (sst_NewWriter 1 3) = Inr w" "sst_Finish w = Inr d" for w d
    using that
    by (auto simp: sst_NewWriter_def sst_Add_def Let_def sst_Finish_def sst_flushBlock_def mkRecord_def
        sst_index_bytes_def length_rec_Encode bloom_Bytes_def bloom_Add_def bloom_New_def)
  ultimately show ?thesis
    using it_range_exact [of "[?e]" "Some [96]" None 1 3] by (auto simp: in_range_def)
qed

end
