(* ===== verification/Db.thy ===== *)
theory Db
  imports Memtable Sstable
begin

section \<open>The storage engine (\<open>internal/db\<close>)\<close>

text \<open>
  The database is a write-ahead log, an active memtable, possibly a frozen one that is being
  flushed, and a list of tables, newest first.  Its directory (\<open>Disk\<close>) is part of the state, so that a
  crash is opening what the directory holds at that moment.  Every operation holds the database lock
  for its whole body and is one step.  Failures of the operating system are arguments: the outcome of
  each log append, and the point at which a flush fails (the same points are the crash points of a
  flush).  Go iterates over maps in random order; the model uses the order of the list that
  represents the map, which is the sorted order for the writes of a transaction.
\<close>

subsection \<open>State\<close>

record Options =
  opt_SyncOnWrite :: bool
  opt_MemtableSizeMax :: int
  opt_CompactionTrigger :: int
  opt_DisableBackgroundCompaction :: bool

abbreviation defaultMemtableSizeMax :: int where "defaultMemtableSizeMax \<equiv> 4194304"
abbreviation defaultCompactionTrigger :: int where "defaultCompactionTrigger \<equiv> 4"

definition db_DefaultOptions :: Options where
  "db_DefaultOptions =
     \<lparr>opt_SyncOnWrite = True, opt_MemtableSizeMax = defaultMemtableSizeMax,
      opt_CompactionTrigger = defaultCompactionTrigger, opt_DisableBackgroundCompaction = False\<rparr>"

text \<open>The directory: the log, the tables by number, the applied-index base and the sessions file.\<close>

record Disk =
  dk_wal :: "bytes option"
  dk_ssts :: "(nat \<times> bytes) list"
  dk_base :: "bytes option"
  dk_sessions :: "bytes option"

type_synonym sessions = "(bytes \<times> u64) list"

record DB =
  db_disk :: Disk
  db_opts :: Options
  db_wal :: WAL
  db_memtable :: Memtable
  db_frozen :: "Memtable option"
  db_sstables :: "Reader list"
  db_sstableIDs :: "nat list"
  db_nextID :: nat
  db_nextTimestamp :: u64
  db_appliedIndex :: u64
  db_recoveredApplied :: u64
  db_appliedTS :: u64
  db_sessions :: sessions
  db_closed :: bool
  db_activeTxns :: "(nat \<times> u64) list"
  db_nextTxn :: nat
  db_rand :: "nat \<Rightarrow> nat \<Rightarrow> bool"

datatype flush_point =
    AtNewWriter | AtFinish | AtOpenReader | AtWalClose | AtWalRemove | AtWalOpen | AtBase | AtSessions

datatype db_error =
    ErrKeyNotFound
  | ErrConflict
  | DbClosed
  | ErrTxnFinished
  | DbSst sst_error
  | DbWal wal_error
  | DbReplayTs u64 u64
  | DbReplayOp byte
  | DbMem mem_error
  | DbDecode nat decode_error
  | DbEmptyEntry
  | DbNoCommit
  | DbTsMismatch u64 u64
  | DbUnexpectedOp byte
  | DbFlush flush_point
  | DbScanMalformed
  | DbCompactMalformed nat
  | DbCompactIO
  | DbCompactShrank
  | DbCompactTail
  | DbPanic

subsection \<open>Sessions and the applied base\<close>

definition sess_get :: "sessions \<Rightarrow> bytes \<Rightarrow> u64" where
  "sess_get m k = (case map_of m k of None \<Rightarrow> 0 | Some s \<Rightarrow> s)"

fun sess_put :: "bytes \<Rightarrow> u64 \<Rightarrow> sessions \<Rightarrow> sessions" where
  "sess_put k s [] = [(k, s)]"
| "sess_put k s (p # m) = (if fst p = k then (k, s) # m else p # sess_put k s m)"

definition encodeSeq :: "u64 \<Rightarrow> bytes" where "encodeSeq seq = le_PutUint64 seq"

definition decodeSeq :: "bytes \<Rightarrow> u64" where
  "decodeSeq b = (if length b < 8 then 0 else le_Uint64 b)"

definition readAppliedBase :: "Disk \<Rightarrow> u64" where
  "readAppliedBase d =
     (case dk_base d of None \<Rightarrow> 0 | Some buf \<Rightarrow> if length buf < 8 then 0 else le_Uint64 buf)"

definition writeAppliedBase :: "u64 \<Rightarrow> Disk \<Rightarrow> Disk" where
  "writeAppliedBase base d = d\<lparr>dk_base := Some (le_PutUint64 base)\<rparr>"

fun readSessions_loop :: "nat \<Rightarrow> bytes \<Rightarrow> nat \<Rightarrow> sessions \<Rightarrow> sessions" where
  "readSessions_loop 0 buf off out = out"
| "readSessions_loop (Suc n) buf off out =
     (if off + 4 > length buf then []
      else let klen = unat (le_Uint32 (drop off buf)); off1 = off + 4 in
        if off1 + klen + 8 > length buf then []
        else let key = bslice off1 (off1 + klen) buf; off2 = off1 + klen
             in readSessions_loop n buf (off2 + 8) (sess_put key (le_Uint64 (drop off2 buf)) out))"

definition readSessionsFile :: "Disk \<Rightarrow> sessions" where
  "readSessionsFile d =
     (case dk_sessions d of
        None \<Rightarrow> []
      | Some buf \<Rightarrow> if length buf < 8 then []
                    else readSessions_loop (unat (le_Uint64 buf)) buf 8 [])"

definition sessions_bytes :: "sessions \<Rightarrow> bytes" where
  "sessions_bytes m =
     le_PutUint64 (word_of_nat (length m)) @
     concat (map (\<lambda>(k, seq). le_PutUint32 (word_of_nat (length k)) @ k @ le_PutUint64 seq) m)"

definition writeSessionsFile :: "sessions \<Rightarrow> Disk \<Rightarrow> Disk" where
  "writeSessionsFile m d = d\<lparr>dk_sessions := Some (sessions_bytes m)\<rparr>"

subsection \<open>Opening\<close>

text \<open>Table files are named \<^verbatim>\<open>%06d.sst\<close> and recognized by six digits exactly.\<close>

definition discoverSSTables :: "Disk \<Rightarrow> nat list" where
  "discoverSSTables d = sort (filter (\<lambda>i. i < 1000000) (map fst (dk_ssts d)))"

record Replay =
  rp_mt :: Memtable
  rp_buffer :: "Record list"
  rp_commits :: u64
  rp_sessions :: sessions
  rp_maxTS :: u64

fun replay_buffer :: "u64 \<Rightarrow> Record list \<Rightarrow> Memtable \<Rightarrow> db_error + Memtable" where
  "replay_buffer ts [] mt = Inr mt"
| "replay_buffer ts (br # brs) mt =
     (if rec_Timestamp br \<noteq> ts then Inl (DbReplayTs (rec_Timestamp br) ts)
      else if rec_Op br = OpPut then
        (case mt_Put mt (rec_Key br) (rec_Value br) (rec_Timestamp br) of
           None \<Rightarrow> Inl DbPanic
         | Some (Inl e) \<Rightarrow> Inl (DbMem e)
         | Some (Inr mt') \<Rightarrow> replay_buffer ts brs mt')
      else if rec_Op br = OpDelete then
        (case mt_Delete mt (rec_Key br) (rec_Timestamp br) of
           None \<Rightarrow> Inl DbPanic
         | Some (Inl e) \<Rightarrow> Inl (DbMem e)
         | Some (Inr mt') \<Rightarrow> replay_buffer ts brs mt')
      else replay_buffer ts brs mt)"

definition replay_record :: "nat \<Rightarrow> Record \<Rightarrow> Replay \<Rightarrow> db_error + Replay" where
  "replay_record off rec s =
     (let s1 = (if rec_Timestamp rec > rp_maxTS s then s\<lparr>rp_maxTS := rec_Timestamp rec\<rparr> else s) in
      if rec_Op rec = OpPut \<or> rec_Op rec = OpDelete then Inr (s1\<lparr>rp_buffer := rp_buffer s1 @ [rec]\<rparr>)
      else if rec_Op rec = OpCommit then
        (let s2 = s1\<lparr>rp_commits := rp_commits s1 + 1\<rparr>;
             seq = decodeSeq (rec_Value rec);
             s3 = (if length (rec_Key rec) > 0 \<and> seq > sess_get (rp_sessions s2) (rec_Key rec)
                   then s2\<lparr>rp_sessions := sess_put (rec_Key rec) seq (rp_sessions s2)\<rparr> else s2)
         in case replay_buffer (rec_Timestamp rec) (rp_buffer s3) (rp_mt s3) of
              Inl e \<Rightarrow> Inl e
            | Inr mt \<Rightarrow> Inr (s3\<lparr>rp_mt := mt, rp_buffer := []\<rparr>))
      else Inl (DbReplayOp (rec_Op rec)))"

text \<open>Opening the tables, given newest first: the readers and the largest timestamp and applied index.\<close>

fun open_ssts :: "Disk \<Rightarrow> nat list \<Rightarrow> db_error + (Reader list \<times> u64 \<times> u64)" where
  "open_ssts d [] = Inr ([], 0, 0)"
| "open_ssts d (i # ids) =
     (case map_of (dk_ssts d) i of
        None \<Rightarrow> Inl DbPanic
      | Some b \<Rightarrow>
          (case sst_OpenReader b of
             Inl e \<Rightarrow> Inl (DbSst e)
           | Inr r \<Rightarrow>
               (case open_ssts d ids of
                  Inl e \<Rightarrow> Inl e
                | Inr (rs, ts, ai) \<Rightarrow> Inr (r # rs, max (sst_MaxTimestamp r) ts, max (sst_AppliedIndex r) ai))))"

definition db_OpenWith :: "(nat \<Rightarrow> nat \<Rightarrow> bool) \<Rightarrow> Options \<Rightarrow> Disk \<Rightarrow> db_error + DB" where
  "db_OpenWith rnd opts0 d =
     (let opts1 = (if opt_MemtableSizeMax opts0 \<le> 0 then opts0\<lparr>opt_MemtableSizeMax := defaultMemtableSizeMax\<rparr> else opts0);
          opts = (if opt_CompactionTrigger opts1 < 2 then opts1\<lparr>opt_CompactionTrigger := defaultCompactionTrigger\<rparr> else opts1);
          sstIDs = discoverSSTables d
      in case open_ssts d (rev sstIDs) of
           Inl e \<Rightarrow> Inl e
         | Inr (ssts, maxTS, maxFooterApplied) \<Rightarrow>
             (case wal_OpenWith (dk_wal d) (opt_SyncOnWrite opts) of
                Inl e \<Rightarrow> Inl (DbWal e)
              | Inr w \<Rightarrow>
                  (case wal_Scan replay_record
                          \<lparr>rp_mt = mt_New (rnd 0), rp_buffer = [], rp_commits = 0,
                           rp_sessions = readSessionsFile d, rp_maxTS = maxTS\<rparr> w of
                     Inl (Inl e) \<Rightarrow> Inl (DbWal e)
                   | Inl (Inr e) \<Rightarrow> Inl e
                   | Inr s \<Rightarrow>
                       (let nextID = (if sstIDs = [] then 1 else last sstIDs + 1);
                            ra = readAppliedBase d + rp_commits s;
                            recoveredApplied = (if maxFooterApplied > ra then maxFooterApplied else ra)
                        in Inr \<lparr>db_disk = d\<lparr>dk_wal := Some (f_data (wal_f w))\<rparr>, db_opts = opts, db_wal = w,
                                db_memtable = rp_mt s, db_frozen = None, db_sstables = ssts,
                                db_sstableIDs = rev sstIDs, db_nextID = nextID,
                                db_nextTimestamp = rp_maxTS s + 1, db_appliedIndex = recoveredApplied,
                                db_recoveredApplied = recoveredApplied, db_appliedTS = rp_maxTS s,
                                db_sessions = rp_sessions s, db_closed = False, db_activeTxns = [],
                                db_nextTxn = 0, db_rand = (\<lambda>n. rnd (Suc n))\<rparr>))))"

subsection \<open>Reading\<close>

definition mem_lookup :: "Memtable \<Rightarrow> bytes \<Rightarrow> u64 \<Rightarrow> db_error + bytes option option" where
  "mem_lookup m key snapshot =
     (case mt_GetAsOf m key snapshot of
        None \<Rightarrow> Inl DbPanic
      | Some (v, op, found) \<Rightarrow>
          Inr (if found then Some (if op = MemOpDelete then None else Some v) else None))"

fun ssts_lookup :: "Reader list \<Rightarrow> bytes \<Rightarrow> u64 \<Rightarrow> db_error + bytes" where
  "ssts_lookup [] key snapshot = Inl ErrKeyNotFound"
| "ssts_lookup (r # rs) key snapshot =
     (case sst_GetAsOf r key snapshot of
        Inl e \<Rightarrow> Inl (DbSst e)
      | Inr (v, op, found) \<Rightarrow>
          if found then (if op = OpDelete then Inl ErrKeyNotFound else Inr v)
          else ssts_lookup rs key snapshot)"

definition db_getAsOfSnapshot ::
  "bytes \<Rightarrow> u64 \<Rightarrow> Memtable \<Rightarrow> Memtable option \<Rightarrow> Reader list \<Rightarrow> db_error + bytes" where
  "db_getAsOfSnapshot key snapshot activeMT frozenMT ssts =
     (case mem_lookup activeMT key snapshot of
        Inl e \<Rightarrow> Inl e
      | Inr (Some r) \<Rightarrow> (case r of None \<Rightarrow> Inl ErrKeyNotFound | Some v \<Rightarrow> Inr v)
      | Inr None \<Rightarrow>
          (case frozenMT of
             None \<Rightarrow> ssts_lookup ssts key snapshot
           | Some fm \<Rightarrow>
               (case mem_lookup fm key snapshot of
                  Inl e \<Rightarrow> Inl e
                | Inr (Some r) \<Rightarrow> (case r of None \<Rightarrow> Inl ErrKeyNotFound | Some v \<Rightarrow> Inr v)
                | Inr None \<Rightarrow> ssts_lookup ssts key snapshot)))"

definition db_GetAsOf :: "bytes \<Rightarrow> u64 \<Rightarrow> DB \<Rightarrow> db_error + bytes" where
  "db_GetAsOf key snapshot db =
     (if db_closed db then Inl DbClosed
      else db_getAsOfSnapshot key snapshot (db_memtable db) (db_frozen db) (db_sstables db))"

definition db_Get :: "bytes \<Rightarrow> DB \<Rightarrow> db_error + bytes" where
  "db_Get key db =
     (if db_closed db then Inl DbClosed
      else db_getAsOfSnapshot key (db_nextTimestamp db) (db_memtable db) (db_frozen db) (db_sstables db))"

subsection \<open>Flushing\<close>

text \<open>The callback of \<^verbatim>\<open>frozen.Iterate\<close>: add to the writer, remember the first error and stop.\<close>

definition flush_add :: "bytes \<Rightarrow> bytes \<Rightarrow> byte \<Rightarrow> u64 \<Rightarrow> Writer \<times> sst_error option \<Rightarrow> (Writer \<times> sst_error option) \<times> bool" where
  "flush_add userKey value op ts st =
     (case sst_Add op userKey value ts (fst st) of
        Inl e \<Rightarrow> ((fst st, Some e), False)
      | Inr w \<Rightarrow> ((w, snd st), True))"

definition sst_write_file :: "nat \<Rightarrow> bytes \<Rightarrow> Disk \<Rightarrow> Disk" where
  "sst_write_file i b d = d\<lparr>dk_ssts := (i, b) # filter (\<lambda>p. fst p \<noteq> i) (dk_ssts d)\<rparr>"

text \<open>\<open>fault\<close> is the operating-system call that fails, if any.  \<^verbatim>\<open>wal.Close\<close> marks the log closed even
  when it reports an error.\<close>

definition db_flushLocked :: "flush_point option \<Rightarrow> DB \<Rightarrow> db_error option \<times> DB" where
  "db_flushLocked fault db0 =
     (if mt_Len (db_memtable db0) = 0 then (None, db0)
      else let
        fm = mt_Freeze (db_memtable db0);
        db1 = db0\<lparr>db_frozen := Some fm, db_memtable := mt_New (db_rand db0 0), db_rand := (\<lambda>n. db_rand db0 (Suc n))\<rparr>;
        id = db_nextID db1
      in if fault = Some AtNewWriter then (Some (DbFlush AtNewWriter), db1)
      else case mt_Iterate fm flush_add (sst_NewWriter (int (mt_Len fm)) (db_appliedIndex db1), None) of
        None \<Rightarrow> (Some DbPanic, db1)
      | Some (w, Some e) \<Rightarrow> (Some (DbSst e), db1)
      | Some (w, None) \<Rightarrow>
          (if fault = Some AtFinish then (Some (DbFlush AtFinish), db1)
           else case sst_Finish w of
             Inl e \<Rightarrow> (Some (DbSst e), db1)
           | Inr file \<Rightarrow>
               (let db2 = db1\<lparr>db_disk := sst_write_file id file (db_disk db1)\<rparr> in
                if fault = Some AtOpenReader then (Some (DbFlush AtOpenReader), db2)
                else case sst_OpenReader file of
                  Inl e \<Rightarrow> (Some (DbSst e), db2)
                | Inr r \<Rightarrow>
                    (let db3 = db2\<lparr>db_wal := wal_Close (db_wal db2)\<rparr> in
                     if fault = Some AtWalClose then (Some (DbFlush AtWalClose), db3)
                     else if fault = Some AtWalRemove then (Some (DbFlush AtWalRemove), db3)
                     else let db4 = db3\<lparr>db_disk := (db_disk db3)\<lparr>dk_wal := None\<rparr>\<rparr> in
                     if fault = Some AtWalOpen then (Some (DbFlush AtWalOpen), db4)
                     else case wal_OpenWith None (opt_SyncOnWrite (db_opts db4)) of
                       Inl e \<Rightarrow> (Some (DbWal e), db4)
                     | Inr newWAL \<Rightarrow>
                         (let db5 = db4\<lparr>db_disk := (db_disk db4)\<lparr>dk_wal := Some (f_data (wal_f newWAL))\<rparr>,
                                        db_wal := newWAL, db_sstables := r # db_sstables db4,
                                        db_sstableIDs := id # db_sstableIDs db4, db_frozen := None,
                                        db_nextID := db_nextID db4 + 1\<rparr> in
                          if fault = Some AtBase then (Some (DbFlush AtBase), db5)
                          else let db6 = db5\<lparr>db_disk := writeAppliedBase (db_appliedIndex db5) (db_disk db5)\<rparr> in
                          if fault = Some AtSessions then (Some (DbFlush AtSessions), db6)
                          else (None, db6\<lparr>db_disk := writeSessionsFile (db_sessions db6) (db_disk db6)\<rparr>))))))"

definition db_flush_if_full :: "flush_point option \<Rightarrow> DB \<Rightarrow> db_error option \<times> DB" where
  "db_flush_if_full fault db =
     (if mt_ApproximateSize (db_memtable db) \<ge> opt_MemtableSizeMax (db_opts db)
      then db_flushLocked fault db else (None, db))"

definition db_FlushForTesting :: "flush_point option \<Rightarrow> DB \<Rightarrow> db_error option \<times> DB" where
  "db_FlushForTesting fault db = (if db_closed db then (Some DbClosed, db) else db_flushLocked fault db)"

definition db_Close :: "DB \<Rightarrow> DB" where
  "db_Close db =
     (if db_closed db then db
      else db\<lparr>db_closed := True, db_wal := wal_Close (db_wal db), db_sstables := map sst_Close (db_sstables db)\<rparr>)"

definition db_LastAppliedTS :: "DB \<Rightarrow> u64" where
  "db_LastAppliedTS db = (if db_nextTimestamp db = 0 then 0 else db_nextTimestamp db - 1)"

definition db_RecoveredAppliedIndex :: "DB \<Rightarrow> u64" where
  "db_RecoveredAppliedIndex db = db_recoveredApplied db"

definition db_SessionLastSeq :: "bytes \<Rightarrow> DB \<Rightarrow> u64" where
  "db_SessionLastSeq session db = sess_get (db_sessions db) session"

definition db_SessionTable :: "DB \<Rightarrow> sessions" where "db_SessionTable db = db_sessions db"

end
