(* ===== verification/Db_Txn.thy ===== *)
theory Db_Txn
  imports Db
begin

section \<open>Transactions and replicated entries (\<open>internal/db/txn.go\<close>, \<open>db.go\<close>)\<close>

text \<open>
  Transactions buffer their writes and commit with first-committer-wins conflict detection.  A
  transaction is a value; its identity in the database's active set is the number \<open>tx_id\<close>.  The
  outcome of the \<open>i\<close>-th log append of an operation is \<open>io i\<close>.
\<close>

record Txn =
  tx_id :: nat
  tx_readSnap :: u64
  tx_writes :: "(Op \<times> bytes) kvs"
  tx_finished :: bool
  tx_session :: bytes
  tx_seq :: u64

definition db_registerTxn :: "Txn \<Rightarrow> DB \<Rightarrow> DB" where
  "db_registerTxn t db = db\<lparr>db_activeTxns := (tx_id t, tx_readSnap t) # db_activeTxns db\<rparr>"

definition db_unregisterTxn :: "Txn \<Rightarrow> DB \<Rightarrow> DB" where
  "db_unregisterTxn t db = db\<lparr>db_activeTxns := filter (\<lambda>p. fst p \<noteq> tx_id t) (db_activeTxns db)\<rparr>"

definition db_computeWatermark :: "DB \<Rightarrow> u64" where
  "db_computeWatermark db =
     (let w = (if db_nextTimestamp db > 0 then db_nextTimestamp db - 1 else db_nextTimestamp db)
      in fold (\<lambda>p w. if snd p < w then snd p else w) (db_activeTxns db) w)"

definition tx_SetSession :: "bytes \<Rightarrow> u64 \<Rightarrow> Txn \<Rightarrow> Txn" where
  "tx_SetSession session seq t = t\<lparr>tx_session := session, tx_seq := seq\<rparr>"

definition db_Begin :: "DB \<Rightarrow> Txn \<times> DB" where
  "db_Begin db =
     (let t = \<lparr>tx_id = db_nextTxn db, tx_readSnap = db_appliedTS db, tx_writes = [], tx_finished = False,
               tx_session = [], tx_seq = 0\<rparr>
      in (t, db_registerTxn t (db\<lparr>db_nextTxn := Suc (db_nextTxn db)\<rparr>)))"

definition tx_Get :: "bytes \<Rightarrow> Txn \<Rightarrow> DB \<Rightarrow> db_error + bytes" where
  "tx_Get key t db =
     (if tx_finished t then Inl ErrTxnFinished
      else case map_of (tx_writes t) key of
             Some (op, v) \<Rightarrow> if op = OpDelete then Inl ErrKeyNotFound else Inr v
           | None \<Rightarrow> db_GetAsOf key (tx_readSnap t) db)"

definition tx_Put :: "bytes \<Rightarrow> bytes \<Rightarrow> Txn \<Rightarrow> db_error + Txn" where
  "tx_Put key value t =
     (if tx_finished t then Inl ErrTxnFinished
      else Inr (t\<lparr>tx_writes := kv_put key (OpPut, value) (tx_writes t)\<rparr>))"

definition tx_Delete :: "bytes \<Rightarrow> Txn \<Rightarrow> db_error + Txn" where
  "tx_Delete key t =
     (if tx_finished t then Inl ErrTxnFinished
      else Inr (t\<lparr>tx_writes := kv_put key (OpDelete, []) (tx_writes t)\<rparr>))"

definition tx_Rollback :: "Txn \<Rightarrow> DB \<Rightarrow> db_error option \<times> Txn \<times> DB" where
  "tx_Rollback t db =
     (if tx_finished t then (Some ErrTxnFinished, t, db)
      else (None, t\<lparr>tx_writes := [], tx_finished := True\<rparr>, db_unregisterTxn t db))"

subsection \<open>Conflict detection\<close>

fun ssts_newer :: "Reader list \<Rightarrow> bytes \<Rightarrow> u64 \<Rightarrow> db_error + bool" where
  "ssts_newer [] key snap = Inr False"
| "ssts_newer (r # rs) key snap =
     (case sst_NewestVersionTS r key of
        Inl e \<Rightarrow> Inl (DbSst e)
      | Inr (ts, found) \<Rightarrow> if found \<and> ts > snap then Inr True else ssts_newer rs key snap)"

definition mem_newer :: "Memtable \<Rightarrow> bytes \<Rightarrow> u64 \<Rightarrow> db_error + bool" where
  "mem_newer m key snap =
     (case mt_NewestVersionTS m key of
        None \<Rightarrow> Inl DbPanic
      | Some (ts, found) \<Rightarrow> Inr (found \<and> ts > snap))"

definition db_hasCommitNewerThan :: "bytes \<Rightarrow> u64 \<Rightarrow> DB \<Rightarrow> db_error + bool" where
  "db_hasCommitNewerThan userKey readSnap db =
     (case mem_newer (db_memtable db) userKey readSnap of
        Inl e \<Rightarrow> Inl e
      | Inr True \<Rightarrow> Inr True
      | Inr False \<Rightarrow>
          (case db_frozen db of
             None \<Rightarrow> ssts_newer (db_sstables db) userKey readSnap
           | Some fm \<Rightarrow>
               (case mem_newer fm userKey readSnap of
                  Inl e \<Rightarrow> Inl e
                | Inr True \<Rightarrow> Inr True
                | Inr False \<Rightarrow> ssts_newer (db_sstables db) userKey readSnap)))"

text \<open>The loop over the written keys: nothing, a conflict, or an error of the check.\<close>

fun tx_conflicts :: "bytes list \<Rightarrow> u64 \<Rightarrow> DB \<Rightarrow> db_error option" where
  "tx_conflicts [] snap db = None"
| "tx_conflicts (k # ks) snap db =
     (case db_hasCommitNewerThan k snap db of
        Inl e \<Rightarrow> Some e
      | Inr has \<Rightarrow> if has then Some ErrConflict else tx_conflicts ks snap db)"

subsection \<open>Commit\<close>

text \<open>Appending records to the log: stops at the first failure.  The directory follows the file.\<close>

fun db_append_all :: "(nat \<Rightarrow> write_outcome \<times> bool) \<Rightarrow> nat \<Rightarrow> Record list \<Rightarrow> DB \<Rightarrow> wal_error option \<times> DB" where
  "db_append_all io i [] db = (None, db)"
| "db_append_all io i (r # rs) db =
     (case wal_Append (fst (io i)) (snd (io i)) r (db_wal db) of
        (Inl e, w) \<Rightarrow> (Some e, db\<lparr>db_wal := w, db_disk := (db_disk db)\<lparr>dk_wal := Some (f_data (wal_f w))\<rparr>\<rparr>)
      | (Inr off, w) \<Rightarrow>
          db_append_all io (Suc i) rs (db\<lparr>db_wal := w, db_disk := (db_disk db)\<lparr>dk_wal := Some (f_data (wal_f w))\<rparr>\<rparr>))"

definition tx_data_records :: "u64 \<Rightarrow> (Op \<times> bytes) kvs \<Rightarrow> Record list" where
  "tx_data_records ts ws = map (\<lambda>(k, op, v). mkRecord op ts k v) ws"

text \<open>Applying data records to the active memtable; a frozen memtable is a panic.\<close>

fun mem_apply :: "Record list \<Rightarrow> Memtable \<Rightarrow> Memtable option" where
  "mem_apply [] m = Some m"
| "mem_apply (r # rs) m =
     (if rec_Op r = OpPut then
        (case mt_Put m (rec_Key r) (rec_Value r) (rec_Timestamp r) of
           Some (Inr m') \<Rightarrow> mem_apply rs m' | _ \<Rightarrow> None)
      else if rec_Op r = OpDelete then
        (case mt_Delete m (rec_Key r) (rec_Timestamp r) of
           Some (Inr m') \<Rightarrow> mem_apply rs m' | _ \<Rightarrow> None)
      else mem_apply rs m)"

text \<open>The single-node path, after the check for a replacement.  \<open>fault\<close> is the failure of a flush.\<close>

definition tx_commit_local ::
  "(nat \<Rightarrow> write_outcome \<times> bool) \<Rightarrow> flush_point option \<Rightarrow> Txn \<Rightarrow> DB \<Rightarrow> db_error option \<times> Txn \<times> DB" where
  "tx_commit_local io fault t db =
     (let done = t\<lparr>tx_finished := True\<rparr> in
      if db_closed db then (Some DbClosed, done, db)
      else if tx_writes t = [] then (None, done, db)
      else case tx_conflicts (map fst (tx_writes t)) (tx_readSnap t) db of
        Some e \<Rightarrow> (Some e, done, db)
      | None \<Rightarrow>
          (let commitTS = db_nextTimestamp db;
               db1 = db\<lparr>db_nextTimestamp := db_nextTimestamp db + 1\<rparr>;
               recs = tx_data_records commitTS (tx_writes t)
           in case db_append_all io 0 (recs @ [mkRecord OpCommit commitTS [] []]) db1 of
                (Some e, db2) \<Rightarrow> (Some (DbWal e), done, db2)
              | (None, db2) \<Rightarrow>
                  (case mem_apply recs (db_memtable db2) of
                     None \<Rightarrow> (Some DbPanic, t, db2)
                   | Some m \<Rightarrow>
                       (case db_flush_if_full fault (db2\<lparr>db_memtable := m, db_appliedTS := commitTS\<rparr>) of
                          (e, db3) \<Rightarrow> (e, done, db3)))))"

text \<open>\<open>override\<close> is the commit path a replication leader installs with \<^verbatim>\<open>SetCommitOverride\<close>.\<close>

definition tx_Commit ::
  "(Txn \<Rightarrow> DB \<Rightarrow> db_error option \<times> Txn \<times> DB) option \<Rightarrow> (nat \<Rightarrow> write_outcome \<times> bool) \<Rightarrow>
     flush_point option \<Rightarrow> Txn \<Rightarrow> DB \<Rightarrow> db_error option \<times> Txn \<times> DB" where
  "tx_Commit override io fault t db =
     (if tx_finished t then (Some ErrTxnFinished, t, db)
      else case (case override of Some f \<Rightarrow> f t db | None \<Rightarrow> tx_commit_local io fault t db) of
             (e, t', db') \<Rightarrow> (e, t', db_unregisterTxn t db'))"

definition db_Put ::
  "(Txn \<Rightarrow> DB \<Rightarrow> db_error option \<times> Txn \<times> DB) option \<Rightarrow> (nat \<Rightarrow> write_outcome \<times> bool) \<Rightarrow>
     flush_point option \<Rightarrow> bytes \<Rightarrow> bytes \<Rightarrow> DB \<Rightarrow> db_error option \<times> DB" where
  "db_Put override io fault key value db =
     (case db_Begin db of
        (t, db1) \<Rightarrow>
          (case tx_Put key value t of
             Inl e \<Rightarrow> (Some e, db1)
           | Inr t1 \<Rightarrow> (case tx_Commit override io fault t1 db1 of (e, _, db2) \<Rightarrow> (e, db2))))"

definition db_Delete ::
  "(Txn \<Rightarrow> DB \<Rightarrow> db_error option \<times> Txn \<times> DB) option \<Rightarrow> (nat \<Rightarrow> write_outcome \<times> bool) \<Rightarrow>
     flush_point option \<Rightarrow> bytes \<Rightarrow> DB \<Rightarrow> db_error option \<times> DB" where
  "db_Delete override io fault key db =
     (case db_Begin db of
        (t, db1) \<Rightarrow>
          (case tx_Delete key t of
             Inl e \<Rightarrow> (Some e, db1)
           | Inr t1 \<Rightarrow> (case tx_Commit override io fault t1 db1 of (e, _, db2) \<Rightarrow> (e, db2))))"

subsection \<open>Replicated commit\<close>

text \<open>The result is (entry, commit timestamp); the empty entry stands for nil.\<close>

definition db_PrepareCommit :: "Txn \<Rightarrow> DB \<Rightarrow> (db_error + (bytes \<times> u64)) \<times> Txn \<times> DB" where
  "db_PrepareCommit t db =
     (let done = t\<lparr>tx_finished := True\<rparr> in
      if tx_finished t then (Inl ErrTxnFinished, t, db)
      else if db_closed db then (Inl DbClosed, done, db)
      else if tx_writes t = [] then (Inr ([], 0), done, db)
      else if length (tx_session t) > 0 \<and> tx_seq t \<le> sess_get (db_sessions db) (tx_session t)
           then (Inr ([], 0), done, db)
      else case tx_conflicts (map fst (tx_writes t)) (tx_readSnap t) db of
        Some e \<Rightarrow> (Inl e, done, db)
      | None \<Rightarrow>
          (let commitTS = db_nextTimestamp db;
               commitRec = (if length (tx_session t) > 0
                            then mkRecord OpCommit commitTS (tx_session t) (encodeSeq (tx_seq t))
                            else mkRecord OpCommit commitTS [] []);
               entry = concat (map rec_Encode (tx_data_records commitTS (tx_writes t))) @ rec_Encode commitRec
           in (Inr (entry, commitTS), done, db\<lparr>db_nextTimestamp := db_nextTimestamp db + 1\<rparr>)))"

definition db_PrepareNoop :: "DB \<Rightarrow> (db_error + (bytes \<times> u64)) \<times> DB" where
  "db_PrepareNoop db =
     (if db_closed db then (Inl DbClosed, db)
      else let commitTS = db_nextTimestamp db
           in (Inr (rec_Encode (mkRecord OpCommit commitTS [] []), commitTS),
               db\<lparr>db_nextTimestamp := db_nextTimestamp db + 1\<rparr>))"

function decode_entry :: "bytes \<Rightarrow> nat \<Rightarrow> db_error + Record list" where
  "decode_entry entry offset =
     (if offset < length entry then
        (case rec_Decode (drop offset entry) of
           Inl e \<Rightarrow> Inl (DbDecode offset e)
         | Inr (r, n) \<Rightarrow>
             (case decode_entry entry (offset + n) of Inl e \<Rightarrow> Inl e | Inr rs \<Rightarrow> Inr (r # rs)))
      else Inr [])"
  by pat_completeness auto
termination
  by (relation "measure (\<lambda>(entry, offset). length entry - offset)") (auto dest!: rec_Decode_progress)

declare decode_entry.simps [simp del]

fun check_data :: "u64 \<Rightarrow> Record list \<Rightarrow> db_error option" where
  "check_data ts [] = None"
| "check_data ts (r # rs) =
     (if rec_Timestamp r \<noteq> ts then Some (DbTsMismatch (rec_Timestamp r) ts)
      else if rec_Op r \<noteq> OpPut \<and> rec_Op r \<noteq> OpDelete then Some (DbUnexpectedOp (rec_Op r))
      else check_data ts rs)"

definition db_advance :: "u64 \<Rightarrow> u64 \<Rightarrow> DB \<Rightarrow> DB" where
  "db_advance commitTS idx db =
     db\<lparr>db_nextTimestamp := (if commitTS \<ge> db_nextTimestamp db then commitTS + 1 else db_nextTimestamp db),
        db_appliedTS := (if commitTS > db_appliedTS db then commitTS else db_appliedTS db),
        db_appliedIndex := (if idx > db_appliedIndex db then idx else db_appliedIndex db)\<rparr>"

definition db_ApplyEntry ::
  "(nat \<Rightarrow> write_outcome \<times> bool) \<Rightarrow> flush_point option \<Rightarrow> u64 \<Rightarrow> bytes \<Rightarrow> DB \<Rightarrow> db_error option \<times> DB" where
  "db_ApplyEntry io fault idx entry db =
     (if db_closed db then (Some DbClosed, db)
      else case decode_entry entry 0 of
        Inl e \<Rightarrow> (Some e, db)
      | Inr recs \<Rightarrow>
          (if recs = [] then (Some DbEmptyEntry, db)
           else let commitRec = last recs; data = butlast recs in
           if rec_Op commitRec \<noteq> OpCommit then (Some DbNoCommit, db)
           else let commitTS = rec_Timestamp commitRec in
           case check_data commitTS data of
             Some e \<Rightarrow> (Some e, db)
           | None \<Rightarrow>
               (let session = rec_Key commitRec;
                    seq = (if session \<noteq> [] then decodeSeq (rec_Value commitRec) else 0)
                in if session \<noteq> [] \<and> seq \<le> sess_get (db_sessions db) session
                   then (case db_append_all io 0 [commitRec] db of
                           (Some e, db1) \<Rightarrow> (Some (DbWal e), db1)
                         | (None, db1) \<Rightarrow> db_flush_if_full fault (db_advance commitTS idx db1))
                   else (case db_append_all io 0 recs db of
                           (Some e, db1) \<Rightarrow> (Some (DbWal e), db1)
                         | (None, db1) \<Rightarrow>
                             (case mem_apply data (db_memtable db1) of
                                None \<Rightarrow> (Some DbPanic, db1)
                              | Some m \<Rightarrow>
                                  (let db2 = db1\<lparr>db_memtable := m,
                                                 db_sessions := (if session \<noteq> [] then sess_put session seq (db_sessions db1)
                                                                 else db_sessions db1)\<rparr>
                                   in db_flush_if_full fault (db_advance commitTS idx db2)))))))"

definition db_ApplyControlEntry ::
  "(nat \<Rightarrow> write_outcome \<times> bool) \<Rightarrow> flush_point option \<Rightarrow> u64 \<Rightarrow> DB \<Rightarrow> db_error option \<times> DB" where
  "db_ApplyControlEntry io fault idx db =
     (if db_closed db then (Some DbClosed, db)
      else let commitTS = db_nextTimestamp db;
               db1 = db\<lparr>db_nextTimestamp := db_nextTimestamp db + 1\<rparr>
           in case db_append_all io 0 [mkRecord OpCommit commitTS [] []] db1 of
                (Some e, db2) \<Rightarrow> (Some (DbWal e), db2)
              | (None, db2) \<Rightarrow>
                  db_flush_if_full fault
                    (db2\<lparr>db_appliedTS := (if commitTS > db_appliedTS db2 then commitTS else db_appliedTS db2),
                         db_appliedIndex := (if idx > db_appliedIndex db2 then idx else db_appliedIndex db2)\<rparr>))"

end
