(* ===== verification/Db_Read.thy ===== *)
theory Db_Read
  imports Db_Txn
begin

section \<open>Reading through the layers\<close>

text \<open>
  A database shows its layers: the stores held by the active memtable, the frozen one and the tables,
  newest first.  The lookup asks one layer after the other and stops at the first that knows the key.
  That is the snapshot read over all layers together exactly because a newer layer covers an
  older one: a version in an older layer that is newer than some version of the same key in a newer
  layer is also in the newer layer.
\<close>

subsection \<open>Layers\<close>

definition db_layers :: "DB \<Rightarrow> bytes kvs list \<Rightarrow> bool" where
  "db_layers db L \<longleftrightarrow>
     (\<exists>mk fk sk. L = mk # fk @ sk \<and> mt_repr (db_memtable db) mk \<and>
        list_all2 mt_repr (case db_frozen db of None \<Rightarrow> [] | Some m \<Rightarrow> [m]) fk \<and>
        list_all2 sst_holds (db_sstables db) sk)"

definition covers :: "'a kvs \<Rightarrow> 'a kvs \<Rightarrow> bool" where
  "covers newer older \<longleftrightarrow>
     (\<forall>uk t t'. mvcc_Encode uk t \<in> fst ` set newer \<longrightarrow> mvcc_Encode uk t' \<in> fst ` set older \<longrightarrow> t < t' \<longrightarrow>
        mvcc_Encode uk t' \<in> fst ` set newer)"

definition layers_ok :: "bytes kvs list \<Rightarrow> bool" where
  "layers_ok L \<longleftrightarrow> (\<forall>kvs\<in>set L. clean_kvs kvs) \<and> sorted_wrt covers L"

text \<open>The answer of a read for the version found.\<close>

definition get_answer :: "(u64 \<times> bytes) option \<Rightarrow> db_error + bytes" where
  "get_answer r =
     (case read_result r of (v, op, found) \<Rightarrow> if \<not> found \<or> op = OpDelete then Inl ErrKeyNotFound else Inr v)"

fun first_read :: "bytes kvs list \<Rightarrow> bytes \<Rightarrow> u64 \<Rightarrow> (u64 \<times> bytes) option" where
  "first_read [] uk snap = None"
| "first_read (kvs # L) uk snap =
     (case seek_version kvs uk snap of None \<Rightarrow> first_read L uk snap | Some p \<Rightarrow> Some p)"

lemma read_result_found: "snd (snd (read_result r)) \<longleftrightarrow> r \<noteq> None"
  by (auto simp: read_result_def split: option.splits list.splits)

lemma ssts_lookup_first:
  "list_all2 sst_holds rs sk \<Longrightarrow> ssts_lookup rs uk snap = get_answer (first_read sk uk snap)"
proof (induction rule: list_all2_induct)
  case (Cons r rs kvs sk)
  then obtain bs where bs: "sst_repr r bs" "kvs = kvs_of_recs (concat bs)" by (auto simp: sst_holds_def)
  show ?case
    using Cons.IH sst_GetAsOf_seek [OF bs(1), of uk snap] bs(2) read_result_found [of "seek_version kvs uk snap"]
    by (cases "seek_version kvs uk snap") (auto simp: get_answer_def split: prod.splits)
qed (simp add: get_answer_def read_result_def)

lemma mem_lookup_first:
  "mt_repr m kvs \<Longrightarrow> mem_lookup m uk snap =
     Inr (case seek_version kvs uk snap of None \<Rightarrow> None
          | Some p \<Rightarrow> Some (case get_answer (Some p) of Inl _ \<Rightarrow> None | Inr v \<Rightarrow> Some v))"
  using read_result_found [of "seek_version kvs uk snap"]
  by (cases "seek_version kvs uk snap")
     (auto simp: mem_lookup_def mt_GetAsOf_seek get_answer_def split: prod.splits)

lemma get_answer_Some:
  "(case (case get_answer (Some p) of Inl _ \<Rightarrow> None | Inr v \<Rightarrow> Some v) of
      None \<Rightarrow> Inl ErrKeyNotFound | Some v \<Rightarrow> Inr v) = get_answer (Some p)"
  by (auto simp: get_answer_def split: prod.splits)

lemma db_getAsOf_first:
  assumes "mt_repr m mk" "list_all2 mt_repr (case f of None \<Rightarrow> [] | Some m \<Rightarrow> [m]) fk" "list_all2 sst_holds rs sk"
  shows "db_getAsOfSnapshot uk snap m f rs = get_answer (first_read (mk # fk @ sk) uk snap)"
proof (cases "seek_version mk uk snap")
  case None
  note ss = ssts_lookup_first [OF assms(3), of uk snap]
  show ?thesis
  proof (cases f)
    case (Some fm)
    then obtain k where k: "fk = [k]" "mt_repr fm k" using assms(2) by (auto simp: list_all2_Cons1)
    show ?thesis
      using None Some k ss mem_lookup_first [OF assms(1), of uk snap] mem_lookup_first [OF k(2), of uk snap]
      by (cases "seek_version k uk snap") (simp_all add: db_getAsOfSnapshot_def get_answer_Some)
  qed (use None assms(2) ss mem_lookup_first [OF assms(1), of uk snap] in \<open>simp add: db_getAsOfSnapshot_def\<close>)
next
  case (Some p)
  then show ?thesis
    using mem_lookup_first [OF assms(1), of uk snap] by (simp add: db_getAsOfSnapshot_def get_answer_Some)
qed

lemma first_read_newest:
  assumes "layers_ok L" "ff_free uk" "small_ts snap"
  shows "first_read L uk snap = mvcc_read (concat L) uk snap"
  using assms
proof (induction L)
  case (Cons kvs L)
  have cl: "clean_kvs kvs" and L: "layers_ok L" and cov: "\<forall>k\<in>set L. covers kvs k"
    using Cons.prems(1) by (auto simp: layers_ok_def)
  note IH = Cons.IH [OF L Cons.prems(2,3)]
  have sv: "seek_version kvs uk snap = mvcc_read kvs uk snap"
    using seek_version_read [OF cl Cons.prems(2,3)] .
  let ?f = "filter (\<lambda>p. fst p \<le> snap)"
  have split: "mvcc_read (concat (kvs # L)) uk snap =
      newest (?f (mvcc_versions kvs uk) @ ?f (mvcc_versions (concat L) uk))"
    by (simp add: mvcc_read_def mvcc_versions_append)
  show ?case
  proof (cases "mvcc_read kvs uk snap")
    case None
    then show ?thesis using IH sv split by (simp add: mvcc_read_def)
  next
    case (Some p)
    have np: "newest (?f (mvcc_versions kvs uk)) = Some p" using Some by (simp add: mvcc_read_def)
    obtain t v where p: "p = (t, v)" by (cases p)
    have "\<not> fst p < fst q" if q: "newest (?f (mvcc_versions (concat L) uk)) = Some q" for q
    proof
      assume lt: "fst p < fst q"
      obtain t' v' where q': "q = (t', v')" by (cases q)
      have "t' \<le> snap" "(mvcc_Encode uk t', v') \<in> set (concat L)"
        using newest_in_set [OF q] q' by (auto simp: set_mvcc_versions)
      moreover have "(mvcc_Encode uk t, v) \<in> set kvs"
        using newest_in_set [OF np] p by (simp add: set_mvcc_versions)
      ultimately have "mvcc_Encode uk t' \<in> fst ` set kvs"
        using cov lt p q' unfolding covers_def by (force simp: image_iff)
      then obtain w where "(t', w) \<in> set (?f (mvcc_versions kvs uk))"
        using \<open>t' \<le> snap\<close> by (auto simp: set_mvcc_versions)
      then show False using newest_ge [OF np] lt p q' by fastforce
    qed
    then show ?thesis using Some sv np unfolding split newest_append by (auto split: option.splits)
  qed
qed (simp add: mvcc_read_def mvcc_versions_def)

lemma db_GetAsOf_layers:
  assumes "db_layers db L" "layers_ok L" "\<not> db_closed db" "ff_free uk" "small_ts snap"
  shows "db_GetAsOf uk snap db = get_answer (mvcc_read (concat L) uk snap)"
  using assms db_getAsOf_first first_read_newest [OF assms(2,4,5)]
  by (force simp: db_GetAsOf_def db_layers_def)

subsection \<open>Conflict detection through the layers\<close>

fun any_newer :: "bytes kvs list \<Rightarrow> bytes \<Rightarrow> u64 \<Rightarrow> bool" where
  "any_newer [] uk snap = False"
| "any_newer (kvs # L) uk snap =
     ((case seek_version kvs uk (NOT 0) of None \<Rightarrow> False | Some (ts, _) \<Rightarrow> ts > snap) \<or> any_newer L uk snap)"

lemma ssts_newer_any:
  "list_all2 sst_holds rs sk \<Longrightarrow> ssts_newer rs uk snap = Inr (any_newer sk uk snap)"
proof (induction rule: list_all2_induct)
  case (Cons r rs kvs sk)
  then obtain bs where bs: "sst_repr r bs" "kvs = kvs_of_recs (concat bs)" by (auto simp: sst_holds_def)
  show ?case
    using Cons.IH sst_NewestVersionTS_seek [OF bs(1), of uk] bs(2)
    by (auto split: option.splits prod.splits)
qed simp

lemma mem_newer_any:
  "mt_repr m kvs \<Longrightarrow> mem_newer m uk snap = Inr (any_newer [kvs] uk snap)"
  by (auto simp: mem_newer_def mt_NewestVersionTS_seek split: option.splits prod.splits)

lemma any_newer_append: "any_newer (L @ L') uk snap \<longleftrightarrow> any_newer L uk snap \<or> any_newer L' uk snap"
  by (induction L) auto

lemma db_hasCommitNewerThan_any:
  assumes "db_layers db L"
  shows "db_hasCommitNewerThan uk snap db = Inr (any_newer L uk snap)"
proof -
  obtain mk fk sk where L: "L = mk # fk @ sk" and m: "mt_repr (db_memtable db) mk"
    and f: "list_all2 mt_repr (case db_frozen db of None \<Rightarrow> [] | Some m \<Rightarrow> [m]) fk"
    and s: "list_all2 sst_holds (db_sstables db) sk"
    using assms by (auto simp: db_layers_def)
  note mn = mem_newer_any [OF m, of uk snap] and sn = ssts_newer_any [OF s, of uk snap]
  have Lm: "any_newer L uk snap \<longleftrightarrow> any_newer [mk] uk snap \<or> any_newer fk uk snap \<or> any_newer sk uk snap"
    unfolding L by (simp add: any_newer_append)
  show ?thesis
  proof (cases "any_newer [mk] uk snap")
    case True
    then show ?thesis using mn Lm by (simp add: db_hasCommitNewerThan_def del: any_newer.simps)
  next
    case False
    show ?thesis
    proof (cases "db_frozen db")
      case None
      then show ?thesis using False mn sn f Lm by (simp add: db_hasCommitNewerThan_def del: any_newer.simps(2))
    next
      case (Some fm)
      then obtain k where k: "fk = [k]" "mt_repr fm k" using f by (auto simp: list_all2_Cons1)
      show ?thesis
        using False mn sn Some k Lm mem_newer_any [OF k(2), of uk snap]
        by (cases "any_newer [k] uk snap") (simp_all add: db_hasCommitNewerThan_def del: any_newer.simps)
    qed
  qed
qed

lemma tx_conflicts_any:
  "db_layers db L \<Longrightarrow>
     tx_conflicts ks snap db = (if \<exists>k\<in>set ks. any_newer L k snap then Some ErrConflict else None)"
  by (induction ks) (auto simp: db_hasCommitNewerThan_any)

text \<open>Where no stored key extends the user key, the check is exact.\<close>

definition no_extension :: "'a kvs list \<Rightarrow> bytes \<Rightarrow> bool" where
  "no_extension L uk \<longleftrightarrow> (\<forall>kvs\<in>set L. \<forall>p\<in>set kvs. prefix uk (mvcc_UserKey (fst p)) \<longrightarrow> mvcc_UserKey (fst p) = uk)"

lemma any_newer_exact:
  assumes "\<forall>kvs\<in>set L. clean_kvs kvs" "ff_free uk" "no_extension L uk"
  shows "any_newer L uk snap \<longleftrightarrow> (\<exists>kvs\<in>set L. \<exists>ts. mvcc_Encode uk ts \<in> fst ` set kvs \<and> ts > snap)"
  using assms
proof (induction L)
  case (Cons kvs L)
  have "seek_version kvs uk (NOT 0) = newest (mvcc_versions kvs uk)"
  proof (rule seek_newest_prefix_free)
    fix uk' ts v assume "(mvcc_Encode uk' ts, v) \<in> set kvs" "prefix uk uk'"
    then show "uk' = uk" using Cons.prems(3) by (fastforce simp: no_extension_def)
  qed (use Cons.prems in auto)
  then have "(case seek_version kvs uk (NOT 0) of None \<Rightarrow> False | Some (ts, _) \<Rightarrow> ts > snap) \<longleftrightarrow>
      (\<exists>p\<in>set (mvcc_versions kvs uk). fst p > snap)"
    using newest_in_set [of "mvcc_versions kvs uk"] newest_ge [of "mvcc_versions kvs uk"]
    by (cases "newest (mvcc_versions kvs uk)") (force split: prod.splits)+
  also have "\<dots> \<longleftrightarrow> (\<exists>ts. mvcc_Encode uk ts \<in> fst ` set kvs \<and> ts > snap)"
    by (force simp: set_mvcc_versions image_iff Bex_def split_paired_Ex)
  finally show ?case using Cons by (auto simp: no_extension_def)
qed simp

end
