(* ===== verification/Db_Flush.thy ===== *)
theory Db_Flush
  imports Db_Read
begin

section \<open>Writing a memtable as a table\<close>

text \<open>
  The flush iterates over the frozen memtable and adds every version to a table writer.  The table
  read back holds exactly the store of the memtable.  The size of the file is bounded by the
  accounted size of the memtable, so the table can always be opened.
\<close>

subsection \<open>The size of a table file\<close>

lemma unat_plus_le: "unat (a + b :: u64) \<le> unat a + unat b"
  by (simp add: unat_word_ariths)

lemma unat_mult_10_le: "unat (word_of_int n * word_of_int 10 :: u64) \<le> 10 * nat n" if "0 \<le> n"
proof -
  have "uint (word_of_int n * word_of_int 10 :: u64) = (n * 10) mod 2 ^ 64"
    by (simp only: of_int_mult [symmetric] uint_word_of_int) simp
  also have "\<dots> \<le> n * 10" using that by (intro zmod_le_nonneg_dividend) simp
  finally have "nat (uint (word_of_int n * word_of_int 10 :: u64)) \<le> nat (n * 10)" by (rule nat_mono)
  then show ?thesis using that by (simp only: unat_eq_nat_uint nat_mult_distrib) simp
qed

lemma bloom_New_bits_le: "length (flt_bits (bloom_New n 10)) \<le> 2 * nat n + 3"
proof -
  let ?n = "if n < 1 then 1 else n"
  let ?w = "word_of_int ?n * word_of_int 10 :: u64"
  have "unat (?w + 7) \<le> 10 * nat ?n + 7"
    using order_trans [OF unat_plus_le [of ?w 7] add_right_mono [OF unat_mult_10_le]] by simp
  then have "unat ((?w + 7) div 8) \<le> (10 * nat ?n + 7) div 8"
    by (simp add: unat_div_distrib div_le_mono del: unat_mult_lem)
  moreover have "(10 * nat ?n + 7) div 8 \<le> 2 * nat n + 3" by (cases "n < 1") simp_all
  ultimately have "unat ((?w + 7) div 8) \<le> 2 * nat n + 3" by (rule order_trans)
  then show ?thesis unfolding bloom_New_def Let_def by simp
qed

lemma length_bits_Add: "length (flt_bits (fold (\<lambda>k f. bloom_Add f k) ks f)) = length (flt_bits f)"
  by (induction ks arbitrary: f) (auto simp: bloom_Add_def)

lemma length_index_bytes:
  "blocks_ok bs \<Longrightarrow> length (sst_index_bytes (index_of bs off)) \<le> 2 * length (wal_bytes (concat bs))"
proof (induction bs arbitrary: off)
  case (Cons b bs)
  then obtain r rs where b: "b = r # rs" by (auto simp: blocks_ok_def neq_Nil_conv)
  have "length (sst_index_bytes (index_of bs (off + int (length (wal_bytes b))))) \<le> 2 * length (wal_bytes (concat bs))"
    using Cons by (simp add: blocks_ok_def)
  then show ?case using b by (simp add: sst_index_bytes_def)
qed (simp add: sst_index_bytes_def)

lemma sst_file_size:
  assumes "entries_ok es" "sst_add_all es (sst_NewWriter (int n) ai) = Inr w" "sst_Finish w = Inr d"
  shows "length d \<le> 3 * length (wal_bytes (map rec_of_entry es)) + 2 * n + 60"
proof -
  obtain bs0 cur where w: "sw_inv (int n) ai es bs0 cur w"
    using sst_add_all_inv [OF sw_inv_New, of es "int n" ai] assms(1,2) by auto
  have "sw_filter w = fold (\<lambda>k f. bloom_Add f k) (map se_key es) (bloom_New (int n) 10)"
    using w by (simp add: sw_inv_def)
  then have "length (bloom_Bytes (sw_filter w)) \<le> 2 * n + 4"
    using bloom_New_bits_le [of "int n"] by (simp add: bloom_Bytes_def length_bits_Add)
  moreover obtain bs where "blocks_ok bs" "concat bs = map rec_of_entry es"
    "length d = length (wal_bytes (concat bs)) + length (sst_index_bytes (index_of bs 0)) +
       length (bloom_Bytes (sw_filter w)) + 56"
    using sst_Finish_layout [OF w] assms(3) by auto
  ultimately show ?thesis using length_index_bytes [of bs 0] by simp
qed

subsection \<open>From the memtable to the table\<close>

text \<open>The stores a memtable can hold: encoded keys, values that start with an operation, and lengths
  that fit the record format.\<close>

definition storable :: "bytes kvs \<Rightarrow> bool" where
  "storable kvs \<longleftrightarrow> kv_sorted kvs \<and>
     (\<forall>(k, s)\<in>set kvs. snd (snd (mvcc_Decode k)) \<and> length k < 2 ^ 32 - 21 \<and> length s \<le> 2 ^ 32 \<and>
        (\<exists>v. s = OpPut # v \<or> s = [OpDelete]))"

definition entry_of :: "bytes \<times> bytes \<Rightarrow> sst_entry" where
  "entry_of p = \<lparr>se_op = fst (decodeValue (snd p)), se_key = mvcc_UserKey (fst p),
     se_value = snd (decodeValue (snd p)), se_ts = mvcc_Timestamp (fst p)\<rparr>"

lemma entry_of_Encode:
  "entry_of (mvcc_Encode uk ts, op # v) = \<lparr>se_op = op, se_key = uk, se_value = v, se_ts = ts\<rparr>"
  by (simp add: entry_of_def decodeValue_def)

lemma storableE:
  assumes "storable kvs" "p \<in> set kvs"
  obtains uk ts op v where "p = (mvcc_Encode uk ts, op # v)" "op = OpPut \<or> op = OpDelete"
    "length uk + 8 < 2 ^ 32 - 21" "length v < 2 ^ 32"
proof -
  obtain k s where p: "p = (k, s)" by (cases p)
  then have *: "snd (snd (mvcc_Decode k))" "length k < 2 ^ 32 - 21" "length s \<le> 2 ^ 32" "\<exists>v. s = OpPut # v \<or> s = [OpDelete]"
    using assms by (auto simp: storable_def)
  then obtain uk ts where "k = mvcc_Encode uk ts" by (auto simp: mvcc_Decode_ok_iff)
  then show thesis using that * p by auto
qed

text \<open>The stores a table can hold.\<close>

definition tabular :: "bytes kvs \<Rightarrow> bool" where
  "tabular kvs \<longleftrightarrow> kv_sorted kvs \<and>
     (\<forall>p\<in>set kvs. \<exists>uk ts opv v. p = (mvcc_Encode uk ts, opv # v) \<and> rec_ok (mkRecord opv ts (mvcc_Encode uk ts) v))"

lemma tabularE:
  assumes "tabular kvs" "p \<in> set kvs"
  obtains uk ts opv v where "p = (mvcc_Encode uk ts, opv # v)" "rec_ok (mkRecord opv ts (mvcc_Encode uk ts) v)"
  using assms unfolding tabular_def by blast

lemma tabular_storable: "storable kvs \<Longrightarrow> tabular kvs"
  unfolding tabular_def
proof (intro conjI ballI)
  fix p assume "storable kvs" "p \<in> set kvs"
  then show "\<exists>uk ts opv v. p = (mvcc_Encode uk ts, opv # v) \<and> rec_ok (mkRecord opv ts (mvcc_Encode uk ts) v)"
    by (rule storableE) (auto simp: rec_ok_def valid_op_def)
qed (simp add: storable_def)

lemma tabular_filter: "tabular kvs \<Longrightarrow> tabular (filter P kvs)"
  by (simp add: tabular_def kv_sorted_filter)

lemma entries_ok_tabular:
  assumes "tabular kvs" shows "entries_ok (map entry_of kvs)"
proof -
  have key: "mvcc_Encode (se_key (entry_of p)) (se_ts (entry_of p)) = fst p" if "p \<in> set kvs" for p
    by (rule tabularE [OF assms that]) (simp add: entry_of_Encode)
  have "map ((\<lambda>e. mvcc_Encode (se_key e) (se_ts e)) \<circ> entry_of) kvs = map fst kvs"
    using key by (simp only: o_def map_eq_conv) simp
  then have "sorted_wrt (<) (map (\<lambda>e. mvcc_Encode (se_key e) (se_ts e)) (map entry_of kvs))"
    using assms unfolding list.map_comp tabular_def by metis
  moreover have "rec_ok (rec_of_entry (entry_of p))" if "p \<in> set kvs" for p
    by (rule tabularE [OF assms that]) (simp add: entry_of_Encode rec_of_entry_def)
  ultimately show ?thesis unfolding entries_ok_def by auto
qed

lemma kvs_of_recs_entries:
  assumes "tabular kvs" shows "kvs_of_recs (map rec_of_entry (map entry_of kvs)) = kvs"
proof -
  have "(rec_Key (rec_of_entry (entry_of p)), rec_Op (rec_of_entry (entry_of p)) # rec_Value (rec_of_entry (entry_of p))) = p"
    if "p \<in> set kvs" for p
    by (rule tabularE [OF assms that]) (simp add: entry_of_Encode)
  then show ?thesis by (auto simp: kvs_of_recs_def list.map_comp o_def intro!: map_idI)
qed

lemma length_wal_bytes_entries:
  assumes "tabular kvs"
  shows "int (length (wal_bytes (map rec_of_entry (map entry_of kvs)))) + 2 * int (length kvs) \<le> kv_size kvs"
proof -
  have "\<forall>p\<in>set kvs. rec_size (rec_of_entry (entry_of p)) + 2 \<le> length (fst p) + length (snd p) + 64"
    using assms by (auto elim!: tabularE simp: entry_of_Encode)
  then show ?thesis
    by (induction kvs) (auto simp: kv_size_def split_def)
qed

text \<open>Writing a tabular store and opening the file gives it back.\<close>

lemma write_table:
  assumes "tabular kvs" "3 * kv_size kvs + 2 * int n \<le> 2 ^ 48 - 60"
  shows "\<exists>w d r. sst_add_all (map entry_of kvs) (sst_NewWriter (int n) ai) = Inr w \<and> sst_Finish w = Inr d \<and>
    sst_OpenReader d = Inr r \<and> rd_data r = d \<and> sst_holds r kvs \<and>
    sst_MaxTimestamp r = fold max (map (mvcc_Timestamp \<circ> fst) kvs) 0 \<and> sst_AppliedIndex r = ai"
proof -
  let ?es = "map entry_of kvs"
  have eok: "entries_ok ?es" by (rule entries_ok_tabular [OF assms(1)])
  obtain w d where w: "sst_add_all ?es (sst_NewWriter (int n) ai) = Inr w" "sst_Finish w = Inr d"
    and r: "length d \<le> 2 ^ 48 \<longrightarrow> (\<exists>r bs. sst_OpenReader d = Inr r \<and> sst_repr r bs \<and>
      concat bs = map rec_of_entry ?es \<and> sst_MaxTimestamp r = fold max (map se_ts ?es) 0 \<and> sst_AppliedIndex r = ai)"
    using sst_write_read [OF eok] by blast
  have "int (length d) \<le> 3 * kv_size kvs + 2 * int n + 60"
    using sst_file_size [OF eok w] length_wal_bytes_entries [OF assms(1)] by simp
  then have "length d \<le> 2 ^ 48" using assms(2) by simp
  then obtain r bs where rb: "sst_OpenReader d = Inr r" "sst_repr r bs" "concat bs = map rec_of_entry ?es"
    "sst_MaxTimestamp r = fold max (map se_ts ?es) 0" "sst_AppliedIndex r = ai" using r by blast
  have "sst_holds r kvs" unfolding sst_holds_def using rb(2,3) kvs_of_recs_entries [OF assms(1)] by metis
  moreover have "map se_ts ?es = map (mvcc_Timestamp \<circ> fst) kvs" by (simp add: entry_of_def)
  moreover have "rd_data r = d" using rb(1) by (auto simp: sst_OpenReader_def Let_def split: if_splits option.splits sum.splits)
  ultimately show ?thesis using w rb by metis
qed

text \<open>What a table holds is tabular.\<close>

lemma tabular_table:
  assumes "sst_holds r kvs" shows "tabular kvs"
proof -
  obtain bs where bs: "sst_repr r bs" "kvs = kvs_of_recs (concat bs)" using assms by (auto simp: sst_holds_def)
  have "\<exists>uk ts opv v. (rec_Key x, rec_Op x # rec_Value x) = (mvcc_Encode uk ts, opv # v) \<and>
      rec_ok (mkRecord opv ts (mvcc_Encode uk ts) v)" if "x \<in> set (concat bs)" for x
  proof -
    have "rec_ok x" "snd (snd (mvcc_Decode (rec_Key x)))" using bs(1) that by (auto simp: sst_repr_def blocks_ok_def recs_sorted_def list_all_iff)
    then show ?thesis by (auto simp: mvcc_Decode_ok_iff rec_ok_def)
  qed
  moreover have "kv_sorted kvs" using bs by (simp add: sst_repr_def recs_sorted_def kvs_of_recs_def comp_def)
  ultimately show ?thesis unfolding tabular_def bs(2) kvs_of_recs_def by auto
qed

lemma flush_iterate:
  assumes "storable kvs" "sst_add_all (map entry_of kvs) w = Inr w'"
  shows "iter_list (\<lambda>encKey stored st. case mvcc_Decode encKey of
            (userKey, ts, _) \<Rightarrow> (case decodeValue stored of (op, raw) \<Rightarrow> flush_add userKey raw op ts st)) kvs (w, None) =
         (w', None)"
  using assms
proof (induction kvs arbitrary: w)
  case (Cons p kvs)
  have st: "storable kvs" using Cons.prems by (auto simp: storable_def)
  show ?case
  proof (rule storableE [OF Cons.prems(1), of p])
    fix uk ts op v assume p: "p = (mvcc_Encode uk ts, op # v)"
    then obtain w1 where "sst_Add op uk v ts w = Inr w1" "sst_add_all (map entry_of kvs) w1 = Inr w'"
      using Cons.prems(2) by (auto simp: entry_of_Encode split: sum.splits)
    then show ?thesis using Cons.IH [OF st, of w1] p by (simp add: flush_add_def decodeValue_def)
  qed simp
qed simp

text \<open>What the flush writes: a table file that opens and holds the store, stamped with its largest
  timestamp and the applied index.\<close>

lemma flush_table:
  assumes "mt_repr fm kvs" "storable kvs" "kv_size kvs \<le> 2 ^ 45"
  shows "\<exists>w d r. mt_Iterate fm flush_add (sst_NewWriter (int (mt_Len fm)) ai, None) = Some (w, None) \<and>
    sst_Finish w = Inr d \<and> sst_OpenReader d = Inr r \<and> rd_data r = d \<and> sst_holds r kvs \<and>
    sst_MaxTimestamp r = fold max (map (mvcc_Timestamp \<circ> fst) kvs) 0 \<and> sst_AppliedIndex r = ai"
proof -
  have rep: "sl_repr (mt_sl fm) kvs" using assms(1) by (simp add: mt_repr_def)
  have len: "mt_Len fm = length kvs" using sl_repr_Len [OF rep] by (simp add: mt_Len_def)
  have "2 * int (length kvs) \<le> kv_size kvs" using length_wal_bytes_entries [OF tabular_storable [OF assms(2)]] by simp
  then have "3 * kv_size kvs + 2 * int (length kvs) \<le> 2 ^ 48 - 60" using assms(3) by simp
  then obtain w d r where w: "sst_add_all (map entry_of kvs) (sst_NewWriter (int (length kvs)) ai) = Inr w" "sst_Finish w = Inr d"
      "sst_OpenReader d = Inr r" "rd_data r = d" "sst_holds r kvs"
      "sst_MaxTimestamp r = fold max (map (mvcc_Timestamp \<circ> fst) kvs) 0" "sst_AppliedIndex r = ai"
    using write_table [OF tabular_storable [OF assms(2)], of "length kvs" ai] by blast
  have "mt_Iterate fm flush_add (sst_NewWriter (int (mt_Len fm)) ai, None) = Some (w, None)"
    unfolding mt_Iterate_def sl_repr_Iterate [OF rep]
    using flush_iterate [OF assms(2)] w(1) len by simp
  then show ?thesis using w(2-) by blast
qed

end
