(* ===== verification/Db_Open.thy ===== *)
theory Db_Open
  imports Db_Flush
begin

section \<open>Recovery\<close>

text \<open>
  What a directory says about the past: the commits whose records are in the log, in order, the data
  records of a commit that never got its marker, and the stores of the tables.  Opening the directory
  rebuilds the database from exactly that.
\<close>

subsection \<open>Commits\<close>

record Commit =
  cm_ts :: u64
  cm_writes :: "(Op \<times> bytes) kvs"
  cm_session :: bytes
  cm_val :: bytes

definition commit_records :: "Commit \<Rightarrow> Record list" where
  "commit_records c =
     tx_data_records (cm_ts c) (cm_writes c) @ [mkRecord OpCommit (cm_ts c) (cm_session c) (cm_val c)]"

definition hist_records :: "Commit list \<Rightarrow> Record list" where
  "hist_records h = concat (map commit_records h)"

definition mem_write_of :: "u64 \<Rightarrow> bytes \<times> Op \<times> bytes \<Rightarrow> mem_write" where
  "mem_write_of ts = (\<lambda>(k, op, v). if op = OpDelete then MDel k ts else MPut k v ts)"

definition commit_writes :: "Commit \<Rightarrow> mem_write list" where
  "commit_writes c = map (mem_write_of (cm_ts c)) (cm_writes c)"

definition hist_writes :: "Commit list \<Rightarrow> mem_write list" where
  "hist_writes h = concat (map commit_writes h)"

definition write_ok :: "bytes \<times> Op \<times> bytes \<Rightarrow> bool" where
  "write_ok = (\<lambda>(k, op, v). (op = OpPut \<or> op = OpDelete) \<and> ff_free k \<and> length k < 2 ^ 32 - 29 \<and> length v < 2 ^ 32)"

definition commit_ok :: "Commit \<Rightarrow> bool" where
  "commit_ok c \<longleftrightarrow> kv_sorted (cm_writes c) \<and> list_all write_ok (cm_writes c) \<and> small_ts (cm_ts c) \<and>
     length (cm_session c) < 2 ^ 32 - 21 \<and> length (cm_val c) < 2 ^ 32"

abbreviation data_rec :: "Record \<Rightarrow> bool" where
  "data_rec r \<equiv> rec_Op r = OpPut \<or> rec_Op r = OpDelete"

definition sess_replay :: "Commit \<Rightarrow> sessions \<Rightarrow> sessions" where
  "sess_replay c m =
     (if cm_session c \<noteq> [] \<and> decodeSeq (cm_val c) > sess_get m (cm_session c)
      then sess_put (cm_session c) (decodeSeq (cm_val c)) m else m)"

lemma hist_simps [simp]:
  "hist_records [] = []" "hist_records (c # h) = commit_records c @ hist_records h"
  "hist_records (h @ h') = hist_records h @ hist_records h'"
  "hist_writes [] = []" "hist_writes (c # h) = commit_writes c @ hist_writes h"
  "hist_writes (h @ h') = hist_writes h @ hist_writes h'"
  by (simp_all add: hist_records_def hist_writes_def)

lemma tx_data_records_Cons:
  "tx_data_records ts [] = []"
  "tx_data_records ts ((k, op, v) # ws) = mkRecord op ts k v # tx_data_records ts ws"
  by (simp_all add: tx_data_records_def)

lemma tx_data_records_ok:
  "list_all write_ok ws \<Longrightarrow> r \<in> set (tx_data_records ts ws) \<Longrightarrow>
     rec_ok r \<and> data_rec r \<and> rec_Timestamp r = ts"
  by (auto simp: tx_data_records_def rec_ok_def valid_op_def write_ok_def list_all_iff dest!: bspec)

lemma commit_records_ok: "commit_ok c \<Longrightarrow> list_all rec_ok (commit_records c)"
  using tx_data_records_ok [of "cm_writes c"]
  by (auto simp: commit_records_def list_all_iff commit_ok_def) (simp add: rec_ok_def valid_op_def)

lemma hist_records_ok: "list_all commit_ok h \<Longrightarrow> list_all rec_ok (hist_records h)"
  by (induction h) (auto simp: commit_records_ok)

lemma kvs_of_writes_fold:
  "kvs_of_writes (ws @ ws') =
     fold (\<lambda>w. kv_put (mvcc_Encode (write_key w) (write_ts w)) (write_stored w)) ws' (kvs_of_writes ws)"
  by (simp add: kvs_of_writes_def)

lemma write_of_sel:
  "write_ok (k, op, v) \<Longrightarrow> write_key (mem_write_of ts (k, op, v)) = k \<and> write_ts (mem_write_of ts (k, op, v)) = ts \<and>
     (\<exists>x. write_stored (mem_write_of ts (k, op, v)) = OpPut # x \<and> length x < 2 ^ 32 \<or>
          write_stored (mem_write_of ts (k, op, v)) = [OpDelete])"
  by (auto simp: mem_write_of_def write_ok_def)

lemma hist_writes_ok:
  assumes "list_all commit_ok h" "w \<in> set (hist_writes h)"
  shows "clean_write w" "length (write_key w) < 2 ^ 32 - 29"
    "\<exists>x. write_stored w = OpPut # x \<and> length x < 2 ^ 32 \<or> write_stored w = [OpDelete]"
    "\<exists>c\<in>set h. write_ts w = cm_ts c"
proof -
  obtain c p where c: "c \<in> set h" "p \<in> set (cm_writes c)" "w = mem_write_of (cm_ts c) p"
    using assms(2) by (auto simp: hist_writes_def commit_writes_def)
  obtain k op v where p: "p = (k, op, v)" by (cases p)
  have ok: "write_ok (k, op, v)" "small_ts (cm_ts c)"
    using assms(1) c p by (auto simp: list_all_iff commit_ok_def)
  note sel = write_of_sel [OF ok(1), of "cm_ts c"]
  show "clean_write w" "length (write_key w) < 2 ^ 32 - 29"
    using sel ok c p by (auto simp: clean_write_def write_ok_def)
  show "\<exists>x. write_stored w = OpPut # x \<and> length x < 2 ^ 32 \<or> write_stored w = [OpDelete]"
    using sel c(3) p by auto
  show "\<exists>c\<in>set h. write_ts w = cm_ts c" using sel c p by auto
qed

lemma clean_hist: "list_all commit_ok h \<Longrightarrow> clean_kvs (kvs_of_writes (hist_writes h))"
  by (rule clean_kvs_of_writes) (auto simp: hist_writes_ok)

lemma kvs_of_writes_in: "(k, s) \<in> set (kvs_of_writes ws) \<Longrightarrow>
  \<exists>w\<in>set ws. k = mvcc_Encode (write_key w) (write_ts w) \<and> s = write_stored w"
proof -
  have "\<forall>(k, s)\<in>set (fold (\<lambda>w. kv_put (mvcc_Encode (write_key w) (write_ts w)) (write_stored w)) ws kvs).
      (k, s) \<in> set kvs \<or> (\<exists>w\<in>set ws. k = mvcc_Encode (write_key w) (write_ts w) \<and> s = write_stored w)" for kvs
  proof (induction ws arbitrary: kvs)
    case (Cons w ws)
    have "set (kv_put k s kvs) \<subseteq> insert (k, s) (set kvs)" for k s by (induction kvs) auto
    then show ?case using Cons [of "kv_put (mvcc_Encode (write_key w) (write_ts w)) (write_stored w) kvs"] by fastforce
  qed auto
  from this [of "[]"] show "(k, s) \<in> set (kvs_of_writes ws) \<Longrightarrow> ?thesis" by (auto simp: kvs_of_writes_def)
qed

lemma storable_hist:
  assumes "list_all commit_ok h" shows "storable (kvs_of_writes (hist_writes h))"
proof -
  have "snd (snd (mvcc_Decode k)) \<and> length k < 2 ^ 32 - 21 \<and> length s \<le> 2 ^ 32 \<and> (\<exists>v. s = OpPut # v \<or> s = [OpDelete])"
    if mem: "(k, s) \<in> set (kvs_of_writes (hist_writes h))" for k s
  proof -
    obtain w where w: "w \<in> set (hist_writes h)" "k = mvcc_Encode (write_key w) (write_ts w)" "s = write_stored w"
      using kvs_of_writes_in [OF mem] by blast
    show ?thesis using hist_writes_ok(2,3) [OF assms w(1)] w by auto
  qed
  then show ?thesis using clean_hist [OF assms] unfolding storable_def clean_kvs_def by fast
qed

subsection \<open>Replaying the log\<close>

lemma scan_data_records:
  "list_all data_rec rs \<Longrightarrow>
     scan_records replay_record off rs s =
       Inr (s\<lparr>rp_buffer := rp_buffer s @ rs, rp_maxTS := fold max (map rec_Timestamp rs) (rp_maxTS s)\<rparr>)"
proof (induction rs arbitrary: off s)
  case (Cons r rs)
  then show ?case by (auto simp: replay_record_def Let_def max_def)
qed simp

lemma scan_records_append:
  "scan_records fn off (rs @ rs') st =
     (case scan_records fn off rs st of Inl e \<Rightarrow> Inl e
      | Inr st' \<Rightarrow> scan_records fn (off + length (wal_bytes rs)) rs' st')"
  by (induction rs arbitrary: off st) (auto split: sum.splits simp: add.assoc)

lemma replay_buffer_run:
  "list_all write_ok ws \<Longrightarrow> mt_run (map (mem_write_of ts) ws) mt = Some (Inr mt') \<Longrightarrow>
     replay_buffer ts (tx_data_records ts ws) mt = Inr mt'"
proof (induction ws arbitrary: mt)
  case (Cons p ws)
  obtain k op v where p: "p = (k, op, v)" by (cases p)
  then have "op = OpPut \<or> op = OpDelete" using Cons.prems(1) by (simp add: write_ok_def)
  then show ?case using Cons p
    by (auto simp: tx_data_records_Cons mem_write_of_def split: option.splits sum.splits Option.bind_splits)
qed (simp add: tx_data_records_Cons)

lemma mem_apply_run:
  "list_all write_ok ws \<Longrightarrow> mt_run (map (mem_write_of ts) ws) mt = Some (Inr mt') \<Longrightarrow>
     mem_apply (tx_data_records ts ws) mt = Some mt'"
proof (induction ws arbitrary: mt)
  case (Cons p ws)
  obtain k op v where p: "p = (k, op, v)" by (cases p)
  then have "op = OpPut \<or> op = OpDelete" using Cons.prems(1) by (simp add: write_ok_def)
  then show ?case using Cons p
    by (auto simp: tx_data_records_Cons mem_write_of_def split: option.splits sum.splits Option.bind_splits)
qed (simp add: tx_data_records_Cons)

text \<open>The fold that applies writes to a store.\<close>

abbreviation kv_writes :: "mem_write list \<Rightarrow> bytes kvs \<Rightarrow> bytes kvs" where
  "kv_writes \<equiv> fold (\<lambda>w. kv_put (mvcc_Encode (write_key w) (write_ts w)) (write_stored w))"

lemma replay_commit:
  assumes "commit_ok c" "mt_repr (rp_mt s) kvs" "\<not> mt_frozen (rp_mt s)" "rp_buffer s = []"
  shows "\<exists>mt. scan_records replay_record off (commit_records c) s =
      Inr \<lparr>rp_mt = mt, rp_buffer = [], rp_commits = rp_commits s + 1, rp_sessions = sess_replay c (rp_sessions s),
           rp_maxTS = fold max (map rec_Timestamp (commit_records c)) (rp_maxTS s)\<rparr> \<and>
    mt_repr mt (kv_writes (commit_writes c) kvs) \<and> \<not> mt_frozen mt"
proof -
  let ?data = "tx_data_records (cm_ts c) (cm_writes c)"
  let ?m = "fold max (map rec_Timestamp ?data) (rp_maxTS s)"
  have ok: "list_all write_ok (cm_writes c)" using assms(1) by (simp add: commit_ok_def)
  then have dr: "list_all data_rec ?data" using tx_data_records_ok by (auto simp: list_all_iff)
  obtain mt where mt: "mt_run (commit_writes c) (rp_mt s) = Some (Inr mt)" "\<not> mt_frozen mt" "mt_repr mt (kv_writes (commit_writes c) kvs)"
    using mt_run_repr [OF assms(2,3)] by blast
  have rb: "replay_buffer (cm_ts c) ?data (rp_mt s) = Inr mt"
    using replay_buffer_run [OF ok] mt(1) by (simp add: commit_writes_def)
  have "scan_records replay_record off (commit_records c) s =
      Inr \<lparr>rp_mt = mt, rp_buffer = [], rp_commits = rp_commits s + 1, rp_sessions = sess_replay c (rp_sessions s),
           rp_maxTS = fold max (map rec_Timestamp (commit_records c)) (rp_maxTS s)\<rparr>"
    unfolding commit_records_def scan_records_append scan_data_records [OF dr]
    using rb assms(4) by (simp add: replay_record_def Let_def sess_replay_def max_def)
  then show ?thesis using mt by blast
qed

lemma replay_hist:
  assumes "list_all commit_ok h" "mt_repr (rp_mt s) kvs" "\<not> mt_frozen (rp_mt s)" "rp_buffer s = []"
  shows "\<exists>mt. scan_records replay_record off (hist_records h) s =
      Inr \<lparr>rp_mt = mt, rp_buffer = [], rp_commits = rp_commits s + of_nat (length h),
           rp_sessions = fold sess_replay h (rp_sessions s),
           rp_maxTS = fold max (map rec_Timestamp (hist_records h)) (rp_maxTS s)\<rparr> \<and>
    mt_repr mt (kv_writes (hist_writes h) kvs) \<and> \<not> mt_frozen mt"
  using assms
proof (induction h arbitrary: s kvs off)
  case Nil
  then show ?case by (cases s) auto
next
  case (Cons c h)
  then obtain mt where mt: "scan_records replay_record off (commit_records c) s =
      Inr \<lparr>rp_mt = mt, rp_buffer = [], rp_commits = rp_commits s + 1, rp_sessions = sess_replay c (rp_sessions s),
           rp_maxTS = fold max (map rec_Timestamp (commit_records c)) (rp_maxTS s)\<rparr>"
      "mt_repr mt (kv_writes (commit_writes c) kvs)" "\<not> mt_frozen mt"
    using replay_commit by fastforce
  then show ?case
    using Cons.IH [of "\<lparr>rp_mt = mt, rp_buffer = [], rp_commits = rp_commits s + 1, rp_sessions = sess_replay c (rp_sessions s),
           rp_maxTS = fold max (map rec_Timestamp (commit_records c)) (rp_maxTS s)\<rparr>"
        "kv_writes (commit_writes c) kvs" "off + length (wal_bytes (commit_records c))"] Cons.prems
    by (auto simp: scan_records_append add.assoc)
qed

subsection \<open>What a directory holds\<close>

definition wal_recovers :: "bytes option \<Rightarrow> Record list \<Rightarrow> bool" where
  "wal_recovers file rs \<longleftrightarrow> list_all rec_ok rs \<and>
     wal_recover_at (case file of None \<Rightarrow> [] | Some d \<Rightarrow> d) 0 = Inr (length (wal_bytes rs)) \<and>
     take (length (wal_bytes rs)) (case file of None \<Rightarrow> [] | Some d \<Rightarrow> d) = wal_bytes rs"

lemma wal_recovers_Open:
  assumes "wal_recovers file rs"
  shows "\<exists>w. wal_OpenWith file sync = Inr w \<and> wal_repr w rs \<and> wal_SyncOnWrite w = sync"
proof -
  have "wal_OpenWith file sync = wal_OpenWith (Some (case file of None \<Rightarrow> [] | Some d \<Rightarrow> d)) sync"
    by (simp add: wal_OpenWith_eq split: option.splits)
  then show ?thesis using assms wal_repr_Open unfolding wal_recovers_def by metis
qed

lemma wal_recovers_bytes: "list_all rec_ok rs \<Longrightarrow> wal_recovers (Some (wal_bytes rs)) rs"
  by (simp add: wal_recovers_def wal_recover_at_whole)

lemma wal_recovers_torn:
  "list_all rec_ok rs \<Longrightarrow> rec_ok r \<Longrightarrow> n < rec_size r \<Longrightarrow>
     wal_recovers (Some (wal_bytes rs @ take n (rec_Encode r))) rs"
  by (simp add: wal_recovers_def wal_recover_at_torn)

lemma wal_recovers_None: "wal_recovers None []"
  using wal_recover_at_whole [of "[]"] by (simp add: wal_recovers_def)

definition tables_on_disk :: "Disk \<Rightarrow> Reader list \<Rightarrow> bool" where
  "tables_on_disk d rs \<longleftrightarrow>
     list_all2 (\<lambda>i r. map_of (dk_ssts d) i = Some (rd_data r) \<and> sst_OpenReader (rd_data r) = Inr r)
       (rev (discoverSSTables d)) rs"

lemma tables_other_fields [simp]:
  "discoverSSTables (d\<lparr>dk_wal := x\<rparr>) = discoverSSTables d" "tables_on_disk (d\<lparr>dk_wal := x\<rparr>) rs = tables_on_disk d rs"
  "discoverSSTables (d\<lparr>dk_base := x\<rparr>) = discoverSSTables d" "tables_on_disk (d\<lparr>dk_base := x\<rparr>) rs = tables_on_disk d rs"
  "discoverSSTables (d\<lparr>dk_sessions := x\<rparr>) = discoverSSTables d" "tables_on_disk (d\<lparr>dk_sessions := x\<rparr>) rs = tables_on_disk d rs"
  by (simp_all add: discoverSSTables_def tables_on_disk_def)

definition table_holds :: "Reader \<Rightarrow> bytes kvs \<Rightarrow> bool" where
  "table_holds r kvs \<longleftrightarrow> sst_holds r kvs \<and> (\<forall>p\<in>set kvs. mvcc_Timestamp (fst p) \<le> sst_MaxTimestamp r)"

definition rs_maxTS :: "Reader list \<Rightarrow> u64" where
  "rs_maxTS rs = foldr (\<lambda>r. max (sst_MaxTimestamp r)) rs 0"

definition rs_maxAI :: "Reader list \<Rightarrow> u64" where
  "rs_maxAI rs = foldr (\<lambda>r. max (sst_AppliedIndex r)) rs 0"

lemma open_ssts_eq:
  "list_all2 (\<lambda>i r. map_of (dk_ssts d) i = Some (rd_data r) \<and> sst_OpenReader (rd_data r) = Inr r) ids rs \<Longrightarrow>
     open_ssts d ids = Inr (rs, rs_maxTS rs, rs_maxAI rs)"
  by (induction rule: list_all2_induct) (auto simp: rs_maxTS_def rs_maxAI_def)

definition disk_maxTS :: "Reader list \<Rightarrow> Record list \<Rightarrow> u64" where
  "disk_maxTS rs recs = fold max (map rec_Timestamp recs) (rs_maxTS rs)"

text \<open>A directory that recovers: its tables open to the readers \<open>rs\<close> that hold \<open>sk\<close>, its log holds the
  commits \<open>wh\<close> followed by data records \<open>orph\<close> without a marker, and the layers are in order.\<close>

definition disk_ok :: "Disk \<Rightarrow> Reader list \<Rightarrow> bytes kvs list \<Rightarrow> Commit list \<Rightarrow> Record list \<Rightarrow> bool" where
  "disk_ok d rs sk wh orph \<longleftrightarrow>
     tables_on_disk d rs \<and> list_all2 table_holds rs sk \<and> wal_recovers (dk_wal d) (hist_records wh @ orph) \<and>
     list_all commit_ok wh \<and> list_all data_rec orph \<and> layers_ok (kvs_of_writes (hist_writes wh) # sk) \<and>
     distinct (map fst (dk_ssts d)) \<and> (\<forall>p\<in>set (dk_ssts d). fst p < 1000000) \<and>
     small_ts (disk_maxTS rs (hist_records wh @ orph))"

text \<open>A healthy running database over such a directory.\<close>

definition db_inv :: "DB \<Rightarrow> bytes kvs list \<Rightarrow> Commit list \<Rightarrow> Record list \<Rightarrow> bool" where
  "db_inv db sk wh orph \<longleftrightarrow>
     \<not> db_closed db \<and> db_frozen db = None \<and> \<not> mt_frozen (db_memtable db) \<and>
     mt_repr (db_memtable db) (kvs_of_writes (hist_writes wh)) \<and>
     wal_repr (db_wal db) (hist_records wh @ orph) \<and> dk_wal (db_disk db) = Some (f_data (wal_f (db_wal db))) \<and>
     disk_ok (db_disk db) (db_sstables db) sk wh orph \<and>
     db_sstableIDs db = rev (discoverSSTables (db_disk db)) \<and>
     db_nextID db = (case db_sstableIDs db of [] \<Rightarrow> 1 | i # _ \<Rightarrow> i + 1) \<and>
     disk_maxTS (db_sstables db) (hist_records wh @ orph) \<le> db_appliedTS db \<and>
     small_ts (db_appliedTS db) \<and> db_appliedTS db < db_nextTimestamp db"

lemma fold_max_ge: "a \<le> fold max xs a" "x \<in> set xs \<Longrightarrow> x \<le> fold max xs (a :: 'a::linorder)"
  by (simp_all add: Max.set_eq_fold [symmetric])

lemma rs_maxTS_ge: "r \<in> set rs \<Longrightarrow> sst_MaxTimestamp r \<le> rs_maxTS rs"
  by (induction rs) (auto simp: rs_maxTS_def le_max_iff_disj)

lemma small_ts_Suc: "small_ts t \<Longrightarrow> t < t + 1"
  by (simp add: small_ts_def word_less_nat_alt unat_word_ariths)

lemma db_OpenWith_ok:
  assumes d: "disk_ok d rs sk wh orph"
  shows "\<exists>db. db_OpenWith rnd opts d = Inr db \<and> db_inv db sk wh orph \<and> db_sstables db = rs \<and>
    db_appliedTS db = disk_maxTS rs (hist_records wh @ orph) \<and> db_nextTimestamp db = db_appliedTS db + 1 \<and>
    db_sessions db = fold sess_replay wh (readSessionsFile d) \<and>
    db_recoveredApplied db = max (rs_maxAI rs) (readAppliedBase d + of_nat (length wh)) \<and>
    db_appliedIndex db = db_recoveredApplied db \<and> db_activeTxns db = [] \<and>
    db_disk db = d\<lparr>dk_wal := Some (wal_bytes (hist_records wh @ orph))\<rparr> \<and>
    wal_SyncOnWrite (db_wal db) = opt_SyncOnWrite opts \<and>
    opt_MemtableSizeMax (db_opts db) = (if opt_MemtableSizeMax opts \<le> 0 then defaultMemtableSizeMax else opt_MemtableSizeMax opts)"
proof -
  note dd = d [unfolded disk_ok_def]
  have os: "open_ssts d (rev (discoverSSTables d)) = Inr (rs, rs_maxTS rs, rs_maxAI rs)"
    using dd unfolding tables_on_disk_def by (blast intro: open_ssts_eq)
  obtain w where w: "wal_OpenWith (dk_wal d) (opt_SyncOnWrite opts) = Inr w" "wal_repr w (hist_records wh @ orph)"
      "wal_SyncOnWrite w = opt_SyncOnWrite opts"
    using wal_recovers_Open dd by blast
  let ?s = "\<lparr>rp_mt = mt_New (rnd 0), rp_buffer = [], rp_commits = 0, rp_sessions = readSessionsFile d, rp_maxTS = rs_maxTS rs\<rparr>"
  obtain mt where mt: "scan_records replay_record 0 (hist_records wh) ?s =
      Inr \<lparr>rp_mt = mt, rp_buffer = [], rp_commits = of_nat (length wh),
           rp_sessions = fold sess_replay wh (readSessionsFile d),
           rp_maxTS = fold max (map rec_Timestamp (hist_records wh)) (rs_maxTS rs)\<rparr>"
      "mt_repr mt (kvs_of_writes (hist_writes wh))" "\<not> mt_frozen mt"
    using replay_hist [of wh ?s "[]" 0] dd mt_repr_New [of "rnd 0"]
    by (auto simp: kvs_of_writes_def mt_New_def)
  have sc: "wal_Scan replay_record ?s w =
      Inr \<lparr>rp_mt = mt, rp_buffer = orph, rp_commits = of_nat (length wh),
           rp_sessions = fold sess_replay wh (readSessionsFile d), rp_maxTS = disk_maxTS rs (hist_records wh @ orph)\<rparr>"
    using mt(1) dd by (simp add: wal_repr_Scan [OF w(2)] scan_records_append scan_data_records disk_maxTS_def)
  define opts1 where "opts1 = (if opt_MemtableSizeMax opts \<le> 0 then opts\<lparr>opt_MemtableSizeMax := defaultMemtableSizeMax\<rparr> else opts)"
  define opts2 where "opts2 = (if opt_CompactionTrigger opts1 < 2 then opts1\<lparr>opt_CompactionTrigger := defaultCompactionTrigger\<rparr> else opts1)"
  have sync: "opt_SyncOnWrite opts2 = opt_SyncOnWrite opts" by (simp add: opts1_def opts2_def)
  define m where "m = disk_maxTS rs (hist_records wh @ orph)"
  define ids where "ids = discoverSSTables d"
  define ra where "ra = max (rs_maxAI rs) (readAppliedBase d + of_nat (length wh))"
  define db where "db = \<lparr>db_disk = d\<lparr>dk_wal := Some (f_data (wal_f w))\<rparr>, db_opts = opts2, db_wal = w,
      db_memtable = mt, db_frozen = None, db_sstables = rs, db_sstableIDs = rev ids,
      db_nextID = (if ids = [] then 1 else last ids + 1), db_nextTimestamp = m + 1, db_appliedIndex = ra,
      db_recoveredApplied = ra, db_appliedTS = m, db_sessions = fold sess_replay wh (readSessionsFile d),
      db_closed = False, db_activeTxns = [], db_nextTxn = 0, db_rand = (\<lambda>n. rnd (Suc n))\<rparr>"
  have op: "db_OpenWith rnd opts d = Inr db"
    unfolding db_OpenWith_def Let_def opts1_def [symmetric] opts2_def [symmetric] sync
    by (simp add: os w(1) sc db_def m_def ra_def ids_def if_max)
  have fd: "f_data (wal_f w) = wal_bytes (hist_records wh @ orph)" using w(2) by (simp add: wal_repr_def)
  have dsk: "disk_ok (d\<lparr>dk_wal := Some (f_data (wal_f w))\<rparr>) rs sk wh orph"
    using d w(2) wal_recovers_bytes [of "hist_records wh @ orph"] unfolding disk_ok_def fd
    by (simp add: wal_repr_def)
  have "(case rev ids of [] \<Rightarrow> 1 | i # _ \<Rightarrow> i + 1) = (if ids = [] then 1 else last ids + 1)"
    by (cases ids rule: rev_cases) simp_all
  moreover have "small_ts m" using dd by (simp add: m_def)
  ultimately have "db_inv db sk wh orph"
    using dsk w(2) mt(2,3) small_ts_Suc [of m] unfolding db_inv_def db_def
    by (simp add: m_def ids_def)
  then show ?thesis using op fd w(3) by (intro exI [of _ db]) (simp add: db_def m_def ra_def opts1_def opts2_def)
qed

lemma db_inv_disk: "db_inv db sk wh orph \<Longrightarrow> disk_ok (db_disk db) (db_sstables db) sk wh orph"
  by (simp add: db_inv_def)

lemma db_inv_layers:
  "db_inv db sk wh orph \<Longrightarrow> db_layers db (kvs_of_writes (hist_writes wh) # sk) \<and>
     layers_ok (kvs_of_writes (hist_writes wh) # sk)"
  unfolding db_inv_def disk_ok_def db_layers_def
  by (auto simp: table_holds_def elim: list_all2_mono)

text \<open>No layer holds a version newer than the applied timestamp.\<close>

lemma hist_writes_ts:
  assumes "list_all commit_ok wh" "w \<in> set (hist_writes wh)"
  shows "write_ts w \<le> disk_maxTS rs (hist_records wh @ orph)"
proof -
  obtain c where c: "c \<in> set wh" "write_ts w = cm_ts c" using hist_writes_ok(4) [OF assms] by blast
  then have "cm_ts c \<in> set (map rec_Timestamp (hist_records wh @ orph))"
    by (force simp: hist_records_def commit_records_def)
  then show ?thesis using fold_max_ge(2) c(2) unfolding disk_maxTS_def by metis
qed

lemma layer_ts_bound:
  assumes "list_all2 table_holds rs sk" "list_all commit_ok wh"
    and "kvs \<in> set (kvs_of_writes (hist_writes wh) # sk)" "p \<in> set kvs"
  shows "mvcc_Timestamp (fst p) \<le> disk_maxTS rs (hist_records wh @ orph)"
proof (cases "kvs \<in> set sk")
  case True
  then obtain r where "r \<in> set rs" "table_holds r kvs"
    using assms(1) by (metis in_set_conv_nth list_all2_conv_all_nth)
  then have "mvcc_Timestamp (fst p) \<le> rs_maxTS rs"
    using assms(4) rs_maxTS_ge [of r rs] by (auto simp: table_holds_def)
  then show ?thesis using fold_max_ge(1) order_trans unfolding disk_maxTS_def by blast
next
  case False
  then have "p \<in> set (kvs_of_writes (hist_writes wh))" using assms by simp
  then obtain w where "w \<in> set (hist_writes wh)" "fst p = mvcc_Encode (write_key w) (write_ts w)"
    using kvs_of_writes_in [of "fst p" "snd p"] by auto
  then show ?thesis using hist_writes_ts [OF assms(2)] by simp
qed

end
