(* ===== verification/Db_Durable.thy ===== *)
theory Db_Durable
  imports Db_Open
begin

section \<open>Histories, flushes and crashes\<close>

text \<open>
  The history of a database is the list of its commits.  The layers see a history when every snapshot
  read from a given timestamp on returns what the history says.  Commits, flushes and restarts keep the
  invariant and the view, and so does a crash at any point of a flush.
\<close>

subsection \<open>The view of a history\<close>

definition hist_read :: "Commit list \<Rightarrow> bytes \<Rightarrow> u64 \<Rightarrow> (u64 \<times> bytes) option" where
  "hist_read h uk snap = newest (filter (\<lambda>p. fst p \<le> snap) (write_versions (hist_writes h) uk))"

definition sees :: "u64 \<Rightarrow> bytes kvs list \<Rightarrow> Commit list \<Rightarrow> bool" where
  "sees w L h \<longleftrightarrow>
     (\<forall>uk snap. ff_free uk \<longrightarrow> w \<le> snap \<longrightarrow> mvcc_read (concat L) uk snap = hist_read h uk snap)"

lemma write_versions_append: "write_versions (ws @ ws') uk = write_versions ws' uk @ write_versions ws uk"
  by (simp add: write_versions_def)

lemma sees_snoc:
  assumes "sees w (kvs_of_writes (hist_writes wh) # sk) h"
  shows "sees w (kvs_of_writes (hist_writes (wh @ [c])) # sk) (h @ [c])"
  unfolding sees_def
proof (intro allI impI)
  fix uk snap assume "ff_free uk" "w \<le> snap"
  let ?f = "filter (\<lambda>p. fst p \<le> snap)" and ?cv = "write_versions (commit_writes c) uk"
  let ?L = "concat (kvs_of_writes (hist_writes wh) # sk)"
  have old: "newest (?f (mvcc_versions ?L uk)) = newest (?f (write_versions (hist_writes h) uk))"
    using assms \<open>ff_free uk\<close> \<open>w \<le> snap\<close> by (simp add: sees_def mvcc_read_def hist_read_def)
  have "map_of (concat (kvs_of_writes (hist_writes (wh @ [c])) # sk)) (mvcc_Encode uk t) =
      map_of (?cv @ mvcc_versions ?L uk) t" for t
    by (simp add: map_of_append map_add_def map_of_kvs_of_writes write_versions_append mvcc_versions_append
        map_of_mvcc_versions split: option.splits)
  then have "mvcc_read (concat (kvs_of_writes (hist_writes (wh @ [c])) # sk)) uk snap = newest (?f (?cv @ mvcc_versions ?L uk))"
    by (rule mvcc_read_cong)
  also have "\<dots> = hist_read (h @ [c]) uk snap"
    by (simp only: hist_read_def hist_simps write_versions_append filter_append newest_append old append_Nil2)
  finally show "mvcc_read (concat (kvs_of_writes (hist_writes (wh @ [c])) # sk)) uk snap = hist_read (h @ [c]) uk snap" .
qed

lemma sees_empty_top: "sees w L h \<Longrightarrow> sees w ([] # L) h"
  by (simp add: sees_def)

lemma sees_twice: "sees w (kvs # L) h \<Longrightarrow> sees w (kvs # kvs # L) h"
proof -
  have "map_of (concat (kvs # kvs # L)) (mvcc_Encode uk t) = map_of (mvcc_versions (concat (kvs # L)) uk) t" for uk t
    by (simp add: map_of_mvcc_versions map_add_def split: option.splits)
  then have "mvcc_read (concat (kvs # kvs # L)) uk snap = mvcc_read (concat (kvs # L)) uk snap" for uk snap
    unfolding mvcc_read_def [of "concat (kvs # L)"] by (rule mvcc_read_cong)
  then show "sees w (kvs # L) h \<Longrightarrow> sees w (kvs # kvs # L) h" by (simp add: sees_def)
qed

lemma covers_empty [simp]: "covers [] k" "covers k []"
  by (simp_all add: covers_def)

lemma covers_self [simp]: "covers k k"
  by (simp add: covers_def)

lemma clean_Nil [simp]: "clean_kvs []"
  by (simp add: clean_kvs_def)

lemma layers_ok_empty_top: "layers_ok L \<Longrightarrow> layers_ok ([] # L)"
  by (simp add: layers_ok_def)

lemma layers_ok_twice: "layers_ok (k # L) \<Longrightarrow> layers_ok (k # k # L)"
  by (simp add: layers_ok_def)

lemma layers_ok_snoc:
  assumes "layers_ok (kvs_of_writes (hist_writes wh) # sk)" "list_all commit_ok wh" "commit_ok c"
    and "\<forall>kvs\<in>set sk. \<forall>p\<in>set kvs. mvcc_Timestamp (fst p) < cm_ts c"
  shows "layers_ok (kvs_of_writes (hist_writes (wh @ [c])) # sk)"
proof -
  let ?old = "kvs_of_writes (hist_writes wh)" and ?new = "kvs_of_writes (hist_writes (wh @ [c]))"
  have sub: "fst ` set ?old \<subseteq> fst ` set ?new" by (auto simp: fst_kvs_of_writes)
  have "covers ?new kvs" if k: "kvs \<in> set sk" for kvs
    unfolding covers_def
  proof (intro allI impI)
    fix uk t t'
    assume a: "mvcc_Encode uk t \<in> fst ` set ?new" "mvcc_Encode uk t' \<in> fst ` set kvs" "t < t'"
    have "t' < cm_ts c" using assms(4) k a(2) by fastforce
    have "write_ts w = cm_ts c" if "w \<in> set (commit_writes c)" for w
      using hist_writes_ok(4) [of "[c]" w] assms(3) that by simp
    then have "mvcc_Encode uk t \<in> fst ` set ?old"
      using a(1,3) \<open>t' < cm_ts c\<close> by (auto simp: fst_kvs_of_writes)
    moreover have "covers ?old kvs" using assms(1) k by (simp add: layers_ok_def)
    ultimately show "mvcc_Encode uk t' \<in> fst ` set ?new"
      using a(2,3) sub unfolding covers_def by blast
  qed
  moreover have "clean_kvs ?new" by (rule clean_hist) (use assms(2,3) in simp)
  ultimately show ?thesis using assms(1) by (simp add: layers_ok_def)
qed

text \<open>A database that holds a history.\<close>

definition db_holds :: "DB \<Rightarrow> Commit list \<Rightarrow> bool" where
  "db_holds db h \<longleftrightarrow>
     (\<exists>sk wh. db_inv db sk wh [] \<and> sees 0 (kvs_of_writes (hist_writes wh) # sk) h)"

definition disk_holds :: "Disk \<Rightarrow> Commit list \<Rightarrow> bool" where
  "disk_holds d h \<longleftrightarrow>
     (\<exists>rs sk wh orph. disk_ok d rs sk wh orph \<and> sees 0 (kvs_of_writes (hist_writes wh) # sk) h)"

definition disk_clean :: "Disk \<Rightarrow> Commit list \<Rightarrow> u64 \<Rightarrow> bool" where
  "disk_clean d h m \<longleftrightarrow>
     (\<exists>rs sk wh. disk_ok d rs sk wh [] \<and> sees 0 (kvs_of_writes (hist_writes wh) # sk) h \<and>
        disk_maxTS rs (hist_records wh) \<le> m)"

lemma disk_clean_holds: "disk_clean d h m \<Longrightarrow> disk_holds d h"
  unfolding disk_clean_def disk_holds_def by blast

lemma disk_clean_open:
  assumes "disk_clean d h m" shows "\<exists>db. db_OpenWith rnd opts d = Inr db \<and> db_holds db h \<and> db_appliedTS db \<le> m"
proof -
  obtain rs sk wh where d: "disk_ok d rs sk wh []" "sees 0 (kvs_of_writes (hist_writes wh) # sk) h"
    "disk_maxTS rs (hist_records wh) \<le> m" using assms unfolding disk_clean_def by blast
  then obtain db where "db_OpenWith rnd opts d = Inr db" "db_inv db sk wh []" "db_appliedTS db \<le> m"
    using db_OpenWith_ok [OF d(1), of rnd opts] by auto
  then show ?thesis using d(2) unfolding db_holds_def by blast
qed

lemma get_answer_hist:
  assumes "db_inv db sk wh orph" "sees 0 (kvs_of_writes (hist_writes wh) # sk) h" "ff_free uk" "small_ts snap"
  shows "db_GetAsOf uk snap db = get_answer (hist_read h uk snap)"
proof -
  have "\<not> db_closed db" using assms(1) by (simp add: db_inv_def)
  then have "db_GetAsOf uk snap db = get_answer (mvcc_read (concat (kvs_of_writes (hist_writes wh) # sk)) uk snap)"
    using db_inv_layers [OF assms(1)] db_GetAsOf_layers assms(3,4) by blast
  then show ?thesis using assms(2,3) by (simp add: sees_def)
qed

lemma disk_holds_open:
  assumes "disk_holds d h"
  shows "\<exists>db. db_OpenWith rnd opts d = Inr db \<and>
    (\<forall>uk snap. ff_free uk \<longrightarrow> small_ts snap \<longrightarrow> db_GetAsOf uk snap db = get_answer (hist_read h uk snap))"
proof -
  obtain rs sk wh orph where d: "disk_ok d rs sk wh orph" "sees 0 (kvs_of_writes (hist_writes wh) # sk) h"
    using assms by (auto simp: disk_holds_def)
  then show ?thesis using db_OpenWith_ok [OF d(1), of rnd opts] get_answer_hist [OF _ d(2)] by blast
qed

subsection \<open>Flushing\<close>

lemma discover_write_file:
  assumes "\<forall>i\<in>set (discoverSSTables d). i < n" "n < 1000000" "\<forall>p\<in>set (dk_ssts d). fst p < 1000000"
  shows "discoverSSTables (sst_write_file n b d) = discoverSSTables d @ [n]"
proof -
  have "filter (\<lambda>p. fst p \<noteq> n) (dk_ssts d) = dk_ssts d"
    using assms by (auto simp: filter_id_conv discoverSSTables_def)
  then have "discoverSSTables (sst_write_file n b d) = insort n (discoverSSTables d)"
    using assms(2) by (simp add: discoverSSTables_def sst_write_file_def)
  also have "\<dots> = discoverSSTables d @ [n]"
    using assms(1) by (intro sorted_insort_is_snoc) (auto simp: discoverSSTables_def intro: less_imp_le)
  finally show ?thesis .
qed

lemma fold_max_le: "(\<forall>x\<in>set xs. x \<le> b) \<Longrightarrow> a \<le> b \<Longrightarrow> fold max xs a \<le> (b :: 'a::linorder)"
  by (induction xs arbitrary: a) auto

lemma fold_max_start: "fold max xs (max a b) = max a (fold max xs (b :: 'a::linorder))"
  by (induction xs arbitrary: b) (auto simp: max.left_commute [of _ a])

lemma disk_ok_write_file:
  assumes d: "disk_ok d rs sk wh []" and n: "\<forall>i\<in>set (discoverSSTables d). i < n" "n < 1000000"
    and r: "sst_OpenReader (rd_data r) = Inr r" "sst_holds r (kvs_of_writes (hist_writes wh))"
      "sst_MaxTimestamp r = fold max (map (mvcc_Timestamp \<circ> fst) (kvs_of_writes (hist_writes wh))) 0"
  shows "disk_ok (sst_write_file n (rd_data r) d) (r # rs) (kvs_of_writes (hist_writes wh) # sk) wh []"
    and "disk_maxTS (r # rs) (hist_records wh) = disk_maxTS rs (hist_records wh)"
proof -
  let ?d = "sst_write_file n (rd_data r) d" and ?mk = "kvs_of_writes (hist_writes wh)"
  note dd = d [unfolded disk_ok_def]
  have disc: "discoverSSTables ?d = discoverSSTables d @ [n]"
    using discover_write_file [OF n] dd by blast
  have nn: "n \<notin> fst ` set (dk_ssts d)" using n dd by (auto simp: discoverSSTables_def)
  then have flt: "filter (\<lambda>p. fst p \<noteq> n) (dk_ssts d) = dk_ssts d" by (auto simp: filter_id_conv)
  have ssts: "dk_ssts ?d = (n, rd_data r) # dk_ssts d" by (simp add: sst_write_file_def flt)
  have "list_all2 (\<lambda>i r. map_of (dk_ssts ?d) i = Some (rd_data r) \<and> sst_OpenReader (rd_data r) = Inr r)
      (rev (discoverSSTables d)) rs"
    using conjunct1 [OF dd, unfolded tables_on_disk_def]
    by (rule list.rel_mono_strong) (use n(1) in \<open>auto simp: ssts\<close>)
  then have tod: "tables_on_disk ?d (r # rs)"
    using r(1) by (simp add: tables_on_disk_def disc ssts)
  have mts: "sst_MaxTimestamp r \<le> disk_maxTS rs (hist_records wh)"
    unfolding r(3) using layer_ts_bound [of rs sk wh ?mk _ "[]"] dd by (intro fold_max_le) auto
  have th: "table_holds r ?mk"
    using r(2) fold_max_ge(2) [of _ "map (mvcc_Timestamp \<circ> fst) ?mk" 0] by (auto simp: table_holds_def r(3))
  show mx: "disk_maxTS (r # rs) (hist_records wh) = disk_maxTS rs (hist_records wh)"
    using mts by (simp add: disk_maxTS_def rs_maxTS_def fold_max_start)
  show "disk_ok ?d (r # rs) (?mk # sk) wh []"
    unfolding disk_ok_def using dd tod th mx nn n(2) layers_ok_twice
    by (simp add: ssts) (simp add: sst_write_file_def)
qed

lemma disk_ok_drop_wal:
  assumes "disk_ok d rs (kvs # sk) wh orph" "wal_recovers (dk_wal d') []" "dk_ssts d' = dk_ssts d"
  shows "disk_ok d' rs (kvs # sk) [] []"
    and "disk_maxTS rs [] \<le> disk_maxTS rs (hist_records wh @ orph)"
proof -
  show le: "disk_maxTS rs [] \<le> disk_maxTS rs (hist_records wh @ orph)"
    unfolding disk_maxTS_def list.map(1) fold_simps(1) by (rule fold_max_ge(1))
  have "tables_on_disk d' rs = tables_on_disk d rs"
    by (simp add: tables_on_disk_def discoverSSTables_def assms(3))
  then show "disk_ok d' rs (kvs # sk) [] []"
    using assms small_ts_le [OF le] unfolding disk_ok_def
    by (simp add: kvs_of_writes_def layers_ok_def)
qed

text \<open>The flush of a healthy database: the directory after each point of failure, and the database after
  success.\<close>

lemma db_flushLocked_cases:
  assumes inv: "db_inv db sk wh []" and ne: "mt_Len (db_memtable db) \<noteq> 0"
    and sz: "kv_size (kvs_of_writes (hist_writes wh)) \<le> 2 ^ 45"
  obtains r where "sst_OpenReader (rd_data r) = Inr r" "sst_holds r (kvs_of_writes (hist_writes wh))"
      "sst_MaxTimestamp r = fold max (map (mvcc_Timestamp \<circ> fst) (kvs_of_writes (hist_writes wh))) 0"
      "sst_AppliedIndex r = db_appliedIndex db"
    and "\<And>f. fst (db_flushLocked (Some f) db) = Some (DbFlush f)"
    and "\<And>f. f = AtNewWriter \<or> f = AtFinish \<Longrightarrow> db_disk (snd (db_flushLocked (Some f) db)) = db_disk db"
    and "\<And>f. f = AtOpenReader \<or> f = AtWalClose \<or> f = AtWalRemove \<Longrightarrow>
        db_disk (snd (db_flushLocked (Some f) db)) = sst_write_file (db_nextID db) (rd_data r) (db_disk db)"
    and "db_disk (snd (db_flushLocked (Some AtWalOpen) db)) =
        (sst_write_file (db_nextID db) (rd_data r) (db_disk db))\<lparr>dk_wal := None\<rparr>"
    and "db_disk (snd (db_flushLocked (Some AtBase) db)) =
        (sst_write_file (db_nextID db) (rd_data r) (db_disk db))\<lparr>dk_wal := Some []\<rparr>"
    and "db_disk (snd (db_flushLocked (Some AtSessions) db)) =
        (sst_write_file (db_nextID db) (rd_data r) (db_disk db))\<lparr>dk_wal := Some [], dk_base := Some (le_PutUint64 (db_appliedIndex db))\<rparr>"
    and "\<exists>w. wal_repr w [] \<and> wal_SyncOnWrite w = opt_SyncOnWrite (db_opts db) \<and>
       db_flushLocked None db = (None, db\<lparr>
        db_disk := (sst_write_file (db_nextID db) (rd_data r) (db_disk db))\<lparr>dk_wal := Some [],
          dk_base := Some (le_PutUint64 (db_appliedIndex db)), dk_sessions := Some (sessions_bytes (db_sessions db))\<rparr>,
        db_memtable := mt_New (db_rand db 0), db_frozen := None, db_sstables := r # db_sstables db,
        db_sstableIDs := db_nextID db # db_sstableIDs db, db_nextID := db_nextID db + 1,
        db_rand := (\<lambda>n. db_rand db (Suc n)), db_wal := w\<rparr>)"
proof -
  let ?mk = "kvs_of_writes (hist_writes wh)" and ?fm = "mt_Freeze (db_memtable db)"
  have wh: "list_all commit_ok wh" using inv by (simp add: db_inv_def disk_ok_def)
  have "mt_repr ?fm ?mk" using inv by (simp add: db_inv_def mt_repr_def mt_Freeze_def)
  then obtain w d r where it: "mt_Iterate ?fm flush_add (sst_NewWriter (int (mt_Len ?fm)) (db_appliedIndex db), None) = Some (w, None)"
      "sst_Finish w = Inr d" "sst_OpenReader d = Inr r" "rd_data r = d" "sst_holds r ?mk"
      "sst_MaxTimestamp r = fold max (map (mvcc_Timestamp \<circ> fst) ?mk) 0" "sst_AppliedIndex r = db_appliedIndex db"
    using flush_table [OF _ storable_hist [OF wh] sz] by blast
  obtain nw where nw: "wal_OpenWith None (opt_SyncOnWrite (db_opts db)) = Inr nw" "wal_repr nw []"
      "wal_SyncOnWrite nw = opt_SyncOnWrite (db_opts db)"
    using wal_recovers_Open [OF wal_recovers_None] by blast
  have fd: "f_data (wal_f nw) = []" using nw(2) by (simp add: wal_repr_def)
  note fl = db_flushLocked_def Let_def it(1-4) nw(1) fd ne writeAppliedBase_def writeSessionsFile_def
  let ?db = "db\<lparr>
        db_disk := (sst_write_file (db_nextID db) (rd_data r) (db_disk db))\<lparr>dk_wal := Some [],
          dk_base := Some (le_PutUint64 (db_appliedIndex db)), dk_sessions := Some (sessions_bytes (db_sessions db))\<rparr>,
        db_memtable := mt_New (db_rand db 0), db_frozen := None, db_sstables := r # db_sstables db,
        db_sstableIDs := db_nextID db # db_sstableIDs db, db_nextID := db_nextID db + 1,
        db_rand := (\<lambda>n. db_rand db (Suc n))\<rparr>"
  have all: "db_flushLocked None db = (None, ?db\<lparr>db_wal := nw\<rparr>)"
    by (simp add: fl)
  show thesis
  proof (rule that)
    show "fst (db_flushLocked (Some f) db) = Some (DbFlush f)" for f
      by (cases f) (simp_all add: fl)
    show "db_disk (snd (db_flushLocked (Some f) db)) = db_disk db" if "f = AtNewWriter \<or> f = AtFinish" for f
      using that by (auto simp: fl)
    show "db_disk (snd (db_flushLocked (Some f) db)) = sst_write_file (db_nextID db) (rd_data r) (db_disk db)"
      if "f = AtOpenReader \<or> f = AtWalClose \<or> f = AtWalRemove" for f
      using that by (auto simp: fl)
    show "\<exists>w. wal_repr w [] \<and> wal_SyncOnWrite w = opt_SyncOnWrite (db_opts db) \<and>
        db_flushLocked None db = (None, ?db\<lparr>db_wal := w\<rparr>)"
      using all nw(2,3) by auto
  qed (use it in \<open>simp_all add: fl nw\<close>)
qed

lemma db_nextID_above:
  assumes "db_inv db sk wh orph" shows "\<forall>i\<in>set (discoverSSTables (db_disk db)). i < db_nextID db"
proof (cases "discoverSSTables (db_disk db)" rule: rev_cases)
  case (snoc ids i)
  have "sorted (discoverSSTables (db_disk db))" by (simp add: discoverSSTables_def)
  moreover have "db_nextID db = i + 1" using assms snoc by (simp add: db_inv_def)
  ultimately show ?thesis using snoc by (auto simp: sorted_append)
qed simp

lemma mk_empty_iff:
  assumes "db_inv db sk wh orph" shows "mt_Len (db_memtable db) = 0 \<longleftrightarrow> kvs_of_writes (hist_writes wh) = []"
proof -
  have "sl_repr (mt_sl (db_memtable db)) (kvs_of_writes (hist_writes wh))"
    using assms by (simp add: db_inv_def mt_repr_def)
  then show ?thesis by (simp add: mt_Len_def sl_repr_Len)
qed

lemma flush_inv:
  assumes inv: "db_inv db sk wh []" and ne: "mt_Len (db_memtable db) \<noteq> 0"
    and sz: "kv_size (kvs_of_writes (hist_writes wh)) \<le> 2 ^ 45" and n: "db_nextID db < 1000000"
  shows "\<exists>db'. db_flushLocked None db = (None, db') \<and> db_inv db' (kvs_of_writes (hist_writes wh) # sk) [] [] \<and>
    db_nextTimestamp db' = db_nextTimestamp db \<and> db_appliedTS db' = db_appliedTS db \<and>
    db_appliedIndex db' = db_appliedIndex db \<and> db_sessions db' = db_sessions db \<and>
    readAppliedBase (db_disk db') = db_appliedIndex db \<and>
    db_disk db' = (db_disk db')\<lparr>dk_sessions := Some (sessions_bytes (db_sessions db))\<rparr> \<and>
    rs_maxAI (db_sstables db') = max (db_appliedIndex db) (rs_maxAI (db_sstables db))"
proof -
  let ?mk = "kvs_of_writes (hist_writes wh)" and ?id = "db_nextID db"
  obtain r w where r: "sst_OpenReader (rd_data r) = Inr r" "sst_holds r ?mk"
      "sst_MaxTimestamp r = fold max (map (mvcc_Timestamp \<circ> fst) ?mk) 0" "sst_AppliedIndex r = db_appliedIndex db"
    and w: "wal_repr w []" and fl: "db_flushLocked None db = (None, db\<lparr>
        db_disk := (sst_write_file ?id (rd_data r) (db_disk db))\<lparr>dk_wal := Some [],
          dk_base := Some (le_PutUint64 (db_appliedIndex db)), dk_sessions := Some (sessions_bytes (db_sessions db))\<rparr>,
        db_memtable := mt_New (db_rand db 0), db_frozen := None, db_sstables := r # db_sstables db,
        db_sstableIDs := ?id # db_sstableIDs db, db_nextID := ?id + 1,
        db_rand := (\<lambda>n. db_rand db (Suc n)), db_wal := w\<rparr>)" (is "_ = (None, ?db)")
    using db_flushLocked_cases [OF inv ne sz] by metis
  have ab: "\<forall>i\<in>set (discoverSSTables (db_disk db)). i < ?id" by (rule db_nextID_above [OF inv])
  note d1 = disk_ok_write_file [OF db_inv_disk [OF inv] ab n r(1-3)]
  have d2: "disk_ok (db_disk ?db) (r # db_sstables db) (?mk # sk) [] []"
    by (rule disk_ok_drop_wal(1) [OF d1(1)]) (simp_all add: wal_recovers_bytes [of "[]", simplified])
  have "disk_maxTS (r # db_sstables db) [] \<le> disk_maxTS (db_sstables db) (hist_records wh)"
    using disk_ok_drop_wal(2) [OF d1(1), of "db_disk ?db"] d1(2) wal_recovers_bytes [of "[]"] by simp
  moreover have "discoverSSTables (db_disk ?db) = discoverSSTables (db_disk db) @ [?id]"
    using discover_write_file [OF ab n] inv by (simp add: db_inv_def disk_ok_def)
  ultimately have "db_inv ?db (?mk # sk) [] []"
    using inv d2 w mt_repr_New [of "db_rand db 0"] unfolding db_inv_def
    by (auto simp: kvs_of_writes_def mt_New_def wal_repr_def)
  then show ?thesis using fl r(4) by (simp add: readAppliedBase_def rs_maxAI_def)
qed

text \<open>A flush keeps the history, and so does a crash at any point of it.\<close>

lemma flush_holds:
  assumes inv: "db_inv db sk wh []" and sees: "sees 0 (kvs_of_writes (hist_writes wh) # sk) h"
    and sz: "kv_size (kvs_of_writes (hist_writes wh)) \<le> 2 ^ 45" and n: "db_nextID db < 1000000"
  shows "\<exists>db'. db_flushLocked None db = (None, db') \<and> db_holds db' h \<and>
    db_nextTimestamp db' = db_nextTimestamp db \<and> db_appliedTS db' = db_appliedTS db"
proof (cases "mt_Len (db_memtable db) = 0")
  case True
  then show ?thesis using inv sees by (auto simp: db_flushLocked_def db_holds_def)
next
  case False
  then obtain db' where "db_flushLocked None db = (None, db')" "db_inv db' (kvs_of_writes (hist_writes wh) # sk) [] []"
    "db_nextTimestamp db' = db_nextTimestamp db" "db_appliedTS db' = db_appliedTS db"
    using flush_inv [OF inv False sz n] by blast
  moreover have "sees 0 (kvs_of_writes (hist_writes []) # kvs_of_writes (hist_writes wh) # sk) h"
    using sees_empty_top [OF sees] by (simp add: kvs_of_writes_def)
  ultimately show ?thesis unfolding db_holds_def by blast
qed

lemma flush_crash_clean:
  assumes inv: "db_inv db sk wh []" and sees: "sees 0 (kvs_of_writes (hist_writes wh) # sk) h"
    and sz: "kv_size (kvs_of_writes (hist_writes wh)) \<le> 2 ^ 45" and n: "db_nextID db < 1000000"
  shows "disk_clean (db_disk (snd (db_flushLocked (Some f) db))) h (db_appliedTS db)"
proof -
  let ?mk = "kvs_of_writes (hist_writes wh)"
  have mx: "disk_maxTS (db_sstables db) (hist_records wh) \<le> db_appliedTS db" using inv by (simp add: db_inv_def)
  have 1: "disk_clean (db_disk db) h (db_appliedTS db)"
    using db_inv_disk [OF inv] sees mx unfolding disk_clean_def by blast
  show ?thesis
  proof (cases "mt_Len (db_memtable db) = 0")
    case True
    then show ?thesis using 1 by (simp add: db_flushLocked_def)
  next
  case False
  note ab = db_nextID_above [OF inv]
  show ?thesis
  proof (rule db_flushLocked_cases [OF inv False sz])
    fix r
    assume r: "sst_OpenReader (rd_data r) = Inr r" "sst_holds r ?mk"
      "sst_MaxTimestamp r = fold max (map (mvcc_Timestamp \<circ> fst) ?mk) 0"
    let ?d = "sst_write_file (db_nextID db) (rd_data r) (db_disk db)"
    note d1 = disk_ok_write_file [OF db_inv_disk [OF inv] ab n r]
    have 2: "disk_clean ?d h (db_appliedTS db)"
      using d1 mx sees_twice [OF sees] unfolding disk_clean_def by metis
    have empty: "sees 0 (kvs_of_writes (hist_writes []) # ?mk # sk) h"
      using sees_empty_top [OF sees] by (simp add: kvs_of_writes_def)
    have 3: "disk_clean d' h (db_appliedTS db)" if "dk_ssts d' = dk_ssts ?d" "wal_recovers (dk_wal d') []" for d'
    proof -
      note dw = disk_ok_drop_wal [OF d1(1) that(2,1)]
      have "disk_maxTS (r # db_sstables db) (hist_records []) \<le> db_appliedTS db" using dw(2) d1(2) mx by simp
      then show ?thesis using dw(1) empty unfolding disk_clean_def by blast
    qed
    assume "\<And>f. f = AtNewWriter \<or> f = AtFinish \<Longrightarrow> db_disk (snd (db_flushLocked (Some f) db)) = db_disk db"
      "\<And>f. f = AtOpenReader \<or> f = AtWalClose \<or> f = AtWalRemove \<Longrightarrow> db_disk (snd (db_flushLocked (Some f) db)) = ?d"
      "db_disk (snd (db_flushLocked (Some AtWalOpen) db)) = ?d\<lparr>dk_wal := None\<rparr>"
      "db_disk (snd (db_flushLocked (Some AtBase) db)) = ?d\<lparr>dk_wal := Some []\<rparr>"
      "db_disk (snd (db_flushLocked (Some AtSessions) db)) =
         ?d\<lparr>dk_wal := Some [], dk_base := Some (le_PutUint64 (db_appliedIndex db))\<rparr>"
    note d = this
    have "wal_recovers (Some []) []" using wal_recovers_bytes [of "[]"] by simp
    then show ?thesis
      by (cases f) (simp_all only: d simp_thms 1 2, (rule 3; simp add: wal_recovers_None)+)
  qed
qed
qed

end
