(* ===== verification/Db_Commit.thy ===== *)
theory Db_Commit
  imports Db_Durable
begin

section \<open>Committing\<close>

text \<open>
  A commit appends its records to the log, then applies them to the memtable.  Whatever the outcome of
  the single writes and syncs, the directory recovers to the history without the commit or with all of
  it.  A commit that reports success is in the history.
\<close>

subsection \<open>Appending the records of a commit\<close>

lemma wal_Append_any:
  assumes "wal_repr w old" "rec_ok r"
  shows "\<exists>res w'. wal_Append wr ok r w = (res, w') \<and> wal_SyncOnWrite w' = wal_SyncOnWrite w \<and>
    (\<exists>pre. prefix pre [r] \<and> wal_recovers (Some (f_data (wal_f w'))) (old @ pre)) \<and>
    (\<forall>off. res = Inr off \<longrightarrow> wal_repr w' (old @ [r]))"
proof (cases wr)
  case WriteOk
  have fd: "f_data (wal_f (snd (wal_Append WriteOk ok r w))) = wal_bytes (old @ [r])"
    using assms by (simp add: wal_Append_def wal_repr_def file_write_def Let_def)
  have rec: "wal_recovers (Some (wal_bytes (old @ [r]))) (old @ [r])"
    using assms by (intro wal_recovers_bytes) (simp add: wal_repr_def)
  have "fst (wal_Append WriteOk ok r w) = Inr off \<Longrightarrow> wal_SyncOnWrite w \<longrightarrow> ok" for off
    using assms(1) by (auto simp: wal_Append_def wal_repr_def Let_def split: if_splits)
  then have "\<forall>off. fst (wal_Append WriteOk ok r w) = Inr off \<longrightarrow> wal_repr (snd (wal_Append WriteOk ok r w)) (old @ [r])"
    using wal_repr_Append [OF assms] by (metis snd_conv)
  moreover have "wal_SyncOnWrite (snd (wal_Append WriteOk ok r w)) = wal_SyncOnWrite w"
    by (simp add: wal_Append_def Let_def)
  ultimately show ?thesis
    using WriteOk fd rec
    by (intro exI [of _ "fst (wal_Append wr ok r w)"] exI [of _ "snd (wal_Append wr ok r w)"])
       (auto intro: exI [of _ "[r]"])
next
  case (WriteFails n)
  have fd: "f_data (wal_f (snd (wal_Append wr ok r w))) = wal_bytes old @ take n (rec_Encode r)"
    using assms WriteFails by (simp add: wal_Append_def wal_repr_def file_write_def Let_def)
  have "\<exists>pre. prefix pre [r] \<and> wal_recovers (Some (wal_bytes old @ take n (rec_Encode r))) (old @ pre)"
  proof (cases "n < rec_size r")
    case True
    then show ?thesis using wal_recovers_torn assms by (intro exI [of _ "[]"]) (simp add: wal_repr_def)
  next
    case False
    then show ?thesis
      using wal_recovers_bytes [of "old @ [r]"] assms by (intro exI [of _ "[r]"]) (simp add: wal_repr_def)
  qed
  moreover have "fst (wal_Append wr ok r w) = Inl WalWrite" "wal_SyncOnWrite (snd (wal_Append wr ok r w)) = wal_SyncOnWrite w"
    using assms WriteFails by (simp_all add: wal_Append_def wal_repr_def Let_def)
  ultimately show ?thesis
    using fd by (intro exI [of _ "fst (wal_Append wr ok r w)"] exI [of _ "snd (wal_Append wr ok r w)"]) (auto simp: prod_eq_iff)
qed

definition with_wal :: "WAL \<Rightarrow> DB \<Rightarrow> DB" where
  "with_wal w db = db\<lparr>db_wal := w, db_disk := (db_disk db)\<lparr>dk_wal := Some (f_data (wal_f w))\<rparr>\<rparr>"

lemma with_wal_twice [simp]: "with_wal w' (with_wal w db) = with_wal w' db"
  by (simp add: with_wal_def)

lemma with_wal_sel [simp]:
  "db_wal (with_wal w db) = w" "db_disk (with_wal w db) = (db_disk db)\<lparr>dk_wal := Some (f_data (wal_f w))\<rparr>"
  "db_opts (with_wal w db) = db_opts db" "db_memtable (with_wal w db) = db_memtable db"
  "db_frozen (with_wal w db) = db_frozen db" "db_sstables (with_wal w db) = db_sstables db"
  "db_sstableIDs (with_wal w db) = db_sstableIDs db" "db_nextID (with_wal w db) = db_nextID db"
  "db_nextTimestamp (with_wal w db) = db_nextTimestamp db" "db_appliedIndex (with_wal w db) = db_appliedIndex db"
  "db_appliedTS (with_wal w db) = db_appliedTS db" "db_sessions (with_wal w db) = db_sessions db"
  "db_closed (with_wal w db) = db_closed db" "db_rand (with_wal w db) = db_rand db"
  "db_activeTxns (with_wal w db) = db_activeTxns db"
  by (simp_all add: with_wal_def)

lemma with_wal_self: "dk_wal (db_disk db) = Some (f_data (wal_f (db_wal db))) \<Longrightarrow> with_wal (db_wal db) db = db"
  by (simp add: with_wal_def)

lemma db_append_all_any:
  assumes "wal_repr (db_wal db) old" "list_all rec_ok rs" "dk_wal (db_disk db) = Some (f_data (wal_f (db_wal db)))"
  shows "\<exists>res w' pre. db_append_all io i rs db = (res, with_wal w' db) \<and> prefix pre rs \<and>
    wal_SyncOnWrite w' = wal_SyncOnWrite (db_wal db) \<and>
    wal_recovers (Some (f_data (wal_f w'))) (old @ pre) \<and> (res = None \<longrightarrow> wal_repr w' (old @ rs))"
  using assms
proof (induction rs arbitrary: db old i)
  case Nil
  then have "wal_recovers (Some (f_data (wal_f (db_wal db)))) old"
    using wal_recovers_bytes by (auto simp: wal_repr_def)
  then show ?case using Nil with_wal_self [OF Nil(3)]
    by (intro exI [of _ None] exI [of _ "db_wal db"] exI [of _ "[]"]) simp
next
  case (Cons r rs)
  obtain res w1 pre1 where a: "wal_Append (fst (io i)) (snd (io i)) r (db_wal db) = (res, w1)"
      "wal_SyncOnWrite w1 = wal_SyncOnWrite (db_wal db)"
      "prefix pre1 [r]" "wal_recovers (Some (f_data (wal_f w1))) (old @ pre1)"
      "\<forall>off. res = Inr off \<longrightarrow> wal_repr w1 (old @ [r])"
    using wal_Append_any [OF Cons.prems(1), of r "fst (io i)" "snd (io i)"] Cons.prems(2) by auto
  show ?case
  proof (cases res)
    case (Inl e)
    have "prefix pre1 (r # rs)" using a(3) prefix_order.trans [of pre1 "[r]" "r # rs"] by simp
    then show ?thesis using Inl a by (intro exI [of _ "Some e"] exI [of _ w1] exI [of _ pre1]) (simp add: with_wal_def)
  next
    case (Inr off)
    then have w1: "wal_repr w1 (old @ [r])" using a(5) by simp
    obtain res' w' pre where b: "db_append_all io (Suc i) rs (with_wal w1 db) = (res', with_wal w' (with_wal w1 db))"
        "prefix pre rs" "wal_SyncOnWrite w' = wal_SyncOnWrite w1"
        "wal_recovers (Some (f_data (wal_f w'))) ((old @ [r]) @ pre)" "res' = None \<longrightarrow> wal_repr w' ((old @ [r]) @ rs)"
      using Cons.IH [of "with_wal w1 db" "old @ [r]" "Suc i"] w1 Cons.prems(2) by auto
    then show ?thesis using a(1,2) Inr
      by (intro exI [of _ res'] exI [of _ w'] exI [of _ "r # pre"]) (simp add: with_wal_def)
  qed
qed

text \<open>When every write and sync succeeds, so does the whole sequence.\<close>

lemma db_append_all_ok:
  assumes "wal_repr (db_wal db) old" "list_all rec_ok rs" "\<forall>i. io i = (WriteOk, True)"
  shows "fst (db_append_all io i rs db) = None"
  using assms
proof (induction rs arbitrary: db old i)
  case (Cons r rs)
  obtain w' where w': "wal_Append WriteOk True r (db_wal db) = (Inr (length (wal_bytes old)), w')" "wal_repr w' (old @ [r])"
    using wal_repr_Append [OF Cons.prems(1), of r True] Cons.prems(2) by auto
  then show ?case using Cons.IH [of "with_wal w' db" "old @ [r]" "Suc i"] Cons.prems(2,3) by (simp add: with_wal_def)
qed simp

subsection \<open>The directory during and after a commit\<close>

lemma disk_maxTS_append: "disk_maxTS rs (xs @ ys) = fold max (map rec_Timestamp ys) (disk_maxTS rs xs)"
  by (simp add: disk_maxTS_def)

lemma commit_records_ts: "r \<in> set (commit_records c) \<Longrightarrow> rec_Timestamp r = cm_ts c"
  by (auto simp: commit_records_def tx_data_records_def)

lemma disk_maxTS_commit:
  assumes "set ys \<subseteq> set (commit_records c)" "disk_maxTS rs xs \<le> m" "cm_ts c \<le> m"
  shows "disk_maxTS rs (xs @ ys) \<le> m"
  unfolding disk_maxTS_append
  using assms commit_records_ts by (intro fold_max_le) auto

lemma disk_ok_commit:
  assumes d: "disk_ok d rs sk wh []" and c: "commit_ok c" "disk_maxTS rs (hist_records wh) < cm_ts c"
    and w: "wal_recovers (Some file) (hist_records (wh @ [c]))"
  shows "disk_ok (d\<lparr>dk_wal := Some file\<rparr>) rs sk (wh @ [c]) []"
proof -
  note dd = d [unfolded disk_ok_def]
  have "disk_maxTS rs (hist_records (wh @ [c])) \<le> cm_ts c"
    using disk_maxTS_commit [of "commit_records c" c rs "hist_records wh" "cm_ts c"] c(2) by simp
  then have sm: "small_ts (disk_maxTS rs (hist_records (wh @ [c])))"
    using small_ts_le c(1) by (auto simp: commit_ok_def)
  have "layers_ok (kvs_of_writes (hist_writes (wh @ [c])) # sk)"
  proof (rule layers_ok_snoc)
    show "\<forall>kvs\<in>set sk. \<forall>p\<in>set kvs. mvcc_Timestamp (fst p) < cm_ts c"
      using layer_ts_bound [of rs sk wh _ _ "[]"] dd c(2) by fastforce
  qed (use dd c in auto)
  then show ?thesis using dd c(1) w sm unfolding disk_ok_def by simp
qed

lemma disk_ok_torn_commit:
  assumes d: "disk_ok d rs sk wh []" and c: "commit_ok c"
    and w: "wal_recovers (Some file) (hist_records wh @ pre)" "strict_prefix pre (commit_records c)"
  shows "disk_ok (d\<lparr>dk_wal := Some file\<rparr>) rs sk wh pre"
proof -
  note dd = d [unfolded disk_ok_def]
  have pre: "prefix pre (tx_data_records (cm_ts c) (cm_writes c))"
    using w(2) by (auto simp: commit_records_def strict_prefix_def prefix_snoc)
  then have sub: "set pre \<subseteq> set (tx_data_records (cm_ts c) (cm_writes c))" by (rule set_mono_prefix)
  then have "list_all data_rec pre"
    using tx_data_records_ok c by (fastforce simp: list_all_iff commit_ok_def)
  moreover have "small_ts (disk_maxTS rs (hist_records wh @ pre))"
  proof -
    have "disk_maxTS rs (hist_records wh @ pre) \<le> max (disk_maxTS rs (hist_records wh)) (cm_ts c)"
      using sub by (intro disk_maxTS_commit [of _ c]) (auto simp: commit_records_def)
    moreover have "small_ts (max (disk_maxTS rs (hist_records wh)) (cm_ts c))"
      using dd c by (auto simp: commit_ok_def max_def)
    ultimately show ?thesis by (rule small_ts_le)
  qed
  ultimately show ?thesis using dd w unfolding disk_ok_def by simp
qed

lemma disk_holds_after_appends:
  assumes d: "disk_ok d rs sk wh []" and sees: "sees 0 (kvs_of_writes (hist_writes wh) # sk) h"
    and c: "commit_ok c" "disk_maxTS rs (hist_records wh) < cm_ts c"
    and w: "wal_recovers (Some file) (hist_records wh @ pre)" "prefix pre (commit_records c)"
  shows "disk_holds (d\<lparr>dk_wal := Some file\<rparr>) (if pre = commit_records c then h @ [c] else h)"
proof (cases "pre = commit_records c")
  case True
  then have "disk_ok (d\<lparr>dk_wal := Some file\<rparr>) rs sk (wh @ [c]) []"
    using disk_ok_commit [OF d c] w(1) by simp
  then show ?thesis using True sees_snoc [OF sees, of c] unfolding disk_holds_def if_P [OF True] by blast
next
  case False
  then have "strict_prefix pre (commit_records c)" using w(2) by (simp add: strict_prefix_def)
  then show ?thesis using disk_ok_torn_commit [OF d c(1) w(1)] sees False unfolding disk_holds_def by auto
qed

subsection \<open>The database after a commit\<close>

text \<open>The effect of appending a commit to the log and applying it, on every field the invariant reads.\<close>

lemma db_inv_extend:
  assumes inv: "db_inv db sk wh []" and c: "commit_ok c" "db_appliedTS db < cm_ts c"
    and w: "wal_repr w (hist_records (wh @ [c]))"
    and m: "mt_repr (db_memtable db') (kvs_of_writes (hist_writes (wh @ [c])))" "\<not> mt_frozen (db_memtable db')"
    and same: "db_wal db' = w" "db_disk db' = (db_disk db)\<lparr>dk_wal := Some (f_data (wal_f w))\<rparr>"
      "db_frozen db' = None" "\<not> db_closed db'" "db_sstables db' = db_sstables db" "db_sstableIDs db' = db_sstableIDs db"
      "db_nextID db' = db_nextID db"
    and ts: "db_appliedTS db' = cm_ts c" "cm_ts c < db_nextTimestamp db'"
  shows "db_inv db' sk (wh @ [c]) []"
proof -
  have mx: "disk_maxTS (db_sstables db) (hist_records wh) \<le> db_appliedTS db" using inv by (simp add: db_inv_def)
  then have lt: "disk_maxTS (db_sstables db) (hist_records wh) < cm_ts c" using c(2) by simp
  have "wal_recovers (Some (f_data (wal_f w))) (hist_records (wh @ [c]))"
    using w wal_recovers_bytes [of "hist_records (wh @ [c])"] by (simp add: wal_repr_def)
  then have d: "disk_ok (db_disk db') (db_sstables db) sk (wh @ [c]) []"
    unfolding same(2) by (rule disk_ok_commit [OF db_inv_disk [OF inv] c(1) lt])
  have "disk_maxTS (db_sstables db) (hist_records (wh @ [c])) \<le> cm_ts c"
    using disk_maxTS_commit [of "commit_records c" c "db_sstables db" "hist_records wh" "cm_ts c"] lt by simp
  moreover have "small_ts (cm_ts c)" using c(1) by (simp add: commit_ok_def)
  ultimately show ?thesis
    using inv d w m same ts unfolding db_inv_def by simp
qed

lemma kvs_of_writes_commit:
  "kvs_of_writes (hist_writes (wh @ [c])) = kv_writes (commit_writes c) (kvs_of_writes (hist_writes wh))"
  by (simp add: kvs_of_writes_fold)

lemma mem_apply_commit:
  assumes "commit_ok c" "mt_repr m (kvs_of_writes (hist_writes wh))" "\<not> mt_frozen m"
  shows "\<exists>m'. mem_apply (tx_data_records (cm_ts c) (cm_writes c)) m = Some m' \<and> \<not> mt_frozen m' \<and>
    mt_repr m' (kvs_of_writes (hist_writes (wh @ [c])))"
proof -
  obtain m' where m': "mt_run (commit_writes c) m = Some (Inr m')" "\<not> mt_frozen m'"
      "mt_repr m' (kvs_of_writes (hist_writes (wh @ [c])))"
    using mt_run_repr [OF assms(2,3), of "commit_writes c"] unfolding kvs_of_writes_commit by blast
  then show ?thesis
    using mem_apply_run [of "cm_writes c" "cm_ts c" m m'] assms(1) by (auto simp: commit_writes_def commit_ok_def)
qed

text \<open>The accounted size a commit can add to the memtable.\<close>

definition writes_size :: "(Op \<times> bytes) kvs \<Rightarrow> int" where
  "writes_size ws = sum_list (map (\<lambda>(k, op, v). int (length k) + int (length v) + 73) ws)"

lemma kv_size_put_le:
  assumes "kv_sorted kvs"
  shows "kv_size (kv_put k v kvs) \<le> kv_size kvs + int (length k) + int (length v) + 64"
  using kv_size_put [OF assms, of k v] by (auto split: option.splits)

lemma write_stored_length: "write_ok (k, op, v) \<Longrightarrow> length (write_stored (mem_write_of ts (k, op, v))) \<le> length v + 1"
  by (auto simp: mem_write_of_def)

lemma kv_size_commit:
  assumes "commit_ok c"
  shows "kv_size (kvs_of_writes (hist_writes (wh @ [c]))) \<le> kv_size (kvs_of_writes (hist_writes wh)) + writes_size (cm_writes c)"
proof -
  have "kv_size (kv_writes (map (mem_write_of ts) ws) kvs) \<le> kv_size kvs + writes_size ws"
    if "kv_sorted kvs" "list_all write_ok ws" for ts ws kvs
    using that
  proof (induction ws arbitrary: kvs)
    case (Cons p ws)
    obtain k op v where p: "p = (k, op, v)" by (cases p)
    let ?w = "mem_write_of ts p"
    let ?kvs = "kv_put (mvcc_Encode (write_key ?w) (write_ts ?w)) (write_stored ?w) kvs"
    have "kv_size (kv_writes (map (mem_write_of ts) ws) ?kvs) \<le> kv_size ?kvs + writes_size ws"
      using Cons by (simp add: kv_sorted_put)
    moreover have "kv_size ?kvs \<le> kv_size kvs + int (length k) + 8 + (int (length v) + 1) + 64"
      using kv_size_put_le [OF Cons.prems(1), of "mvcc_Encode (write_key ?w) (write_ts ?w)" "write_stored ?w"]
        write_of_sel [of k op v ts] write_stored_length [of k op v ts] Cons.prems(2) p by auto
    ultimately show ?case using p by (simp add: writes_size_def)
  qed (simp add: writes_size_def)
  then show ?thesis
    using assms kvs_of_writes_sorted unfolding kvs_of_writes_commit commit_writes_def commit_ok_def by blast
qed

subsection \<open>Single-node commits\<close>

definition commit_of :: "Txn \<Rightarrow> DB \<Rightarrow> Commit" where
  "commit_of t db = \<lparr>cm_ts = db_nextTimestamp db, cm_writes = tx_writes t, cm_session = [], cm_val = []\<rparr>"

text \<open>The bounds within which the theorems hold: clean keys, representable lengths, timestamps below
  \<open>2 ^ 56\<close>, table numbers of six digits, and a memtable below 32 TiB.\<close>

definition db_room :: "Txn \<Rightarrow> DB \<Rightarrow> bool" where
  "db_room t db \<longleftrightarrow> kv_sorted (tx_writes t) \<and> list_all write_ok (tx_writes t) \<and> small_ts (db_nextTimestamp db) \<and>
     db_nextID db < 1000000 \<and> mt_ApproximateSize (db_memtable db) + writes_size (tx_writes t) \<le> 2 ^ 45"

lemma commit_ok_of: "db_room t db \<Longrightarrow> commit_ok (commit_of t db)"
  by (simp add: db_room_def commit_of_def commit_ok_def)

lemma db_room_size:
  assumes "db_inv db sk wh orph" "db_room t db"
  shows "kv_size (kvs_of_writes (hist_writes (wh @ [commit_of t db]))) \<le> 2 ^ 45"
  using kv_size_commit [OF commit_ok_of [OF assms(2)], of wh] assms
  by (auto simp: db_inv_def mt_repr_def db_room_def mt_ApproximateSize_def commit_of_def)

lemma writes_size_nonneg: "0 \<le> writes_size ws"
  by (auto simp: writes_size_def intro!: sum_list_nonneg)

lemma db_room_size_old:
  assumes "db_inv db sk wh orph" "db_room t db"
  shows "kv_size (kvs_of_writes (hist_writes wh)) \<le> 2 ^ 45"
  using assms writes_size_nonneg [of "tx_writes t"]
  by (auto simp: db_inv_def mt_repr_def db_room_def mt_ApproximateSize_def)

lemma flush_if_full_cases: "db_flush_if_full fault db = (None, db) \<or> db_flush_if_full fault db = db_flushLocked fault db"
  by (simp add: db_flush_if_full_def)

lemma db_inv_disk_holds:
  "db_inv db sk wh orph \<Longrightarrow> sees 0 (kvs_of_writes (hist_writes wh) # sk) h \<Longrightarrow> disk_holds (db_disk db) h"
  using db_inv_disk unfolding disk_holds_def by blast

lemma db_holds_disk: "db_holds db h \<Longrightarrow> disk_holds (db_disk db) h"
  using db_inv_disk_holds unfolding db_holds_def by blast

lemma flush_any_disk:
  assumes "db_inv db sk wh []" "sees 0 (kvs_of_writes (hist_writes wh) # sk) h"
    and "kv_size (kvs_of_writes (hist_writes wh)) \<le> 2 ^ 45" "db_nextID db < 1000000"
  shows "disk_holds (db_disk (snd (db_flushLocked fault db))) h"
proof (cases fault)
  case None
  then show ?thesis using flush_holds [OF assms] db_holds_disk by fastforce
next
  case (Some f)
  then show ?thesis using disk_clean_holds [OF flush_crash_clean [OF assms]] by simp
qed

text \<open>The commit of a non-empty transaction without conflict: either an append fails, or the
  database holds the commit and then flushes if it is full.\<close>

lemma tx_commit_local_split:
  assumes inv: "db_inv db sk wh []" and sees: "sees 0 (kvs_of_writes (hist_writes wh) # sk) h"
    and room: "db_room t db" and ws: "tx_writes t \<noteq> []"
    and nc: "tx_conflicts (map fst (tx_writes t)) (tx_readSnap t) db = None"
  defines "c \<equiv> commit_of t db"
  shows "(\<exists>e db2 h'. tx_commit_local io fault t db = (Some (DbWal e), t\<lparr>tx_finished := True\<rparr>, db2) \<and>
            fst (db_append_all io 0 (commit_records c) (db\<lparr>db_nextTimestamp := db_nextTimestamp db + 1\<rparr>)) = Some e \<and>
            disk_holds (db_disk db2) h' \<and> (h' = h \<or> h' = h @ [c])) \<or>
    (\<exists>db2 e db3. db_inv db2 sk (wh @ [c]) [] \<and> db_nextID db2 = db_nextID db \<and>
       db_nextTimestamp db2 = db_nextTimestamp db + 1 \<and> db_appliedTS db2 = db_nextTimestamp db \<and>
       db_opts db2 = db_opts db \<and> db_flush_if_full fault db2 = (e, db3) \<and>
       tx_commit_local io fault t db = (e, t\<lparr>tx_finished := True\<rparr>, db3))"
proof -
  let ?db1 = "db\<lparr>db_nextTimestamp := db_nextTimestamp db + 1\<rparr>" and ?recs = "tx_data_records (cm_ts c) (tx_writes t)"
  have cok: "commit_ok c" unfolding c_def by (rule commit_ok_of [OF room])
  have recs: "commit_records c = ?recs @ [mkRecord OpCommit (cm_ts c) [] []]"
    by (simp add: c_def commit_of_def commit_records_def)
  have ts: "cm_ts c = db_nextTimestamp db" "db_appliedTS db < cm_ts c"
    using inv by (auto simp: c_def commit_of_def db_inv_def)
  have w0: "wal_repr (db_wal ?db1) (hist_records wh)" "dk_wal (db_disk ?db1) = Some (f_data (wal_f (db_wal ?db1)))"
    using inv by (auto simp: db_inv_def)
  obtain res w' pre where ap: "db_append_all io 0 (commit_records c) ?db1 = (res, with_wal w' ?db1)"
      "prefix pre (commit_records c)" "wal_recovers (Some (f_data (wal_f w'))) (hist_records wh @ pre)"
      "res = None \<longrightarrow> wal_repr w' (hist_records wh @ commit_records c)"
    using db_append_all_any [OF w0(1) commit_records_ok [OF cok] w0(2)] by blast
  have cl: "tx_commit_local io fault t db =
      (case db_append_all io 0 (commit_records c) ?db1 of
         (Some e, db2) \<Rightarrow> (Some (DbWal e), t\<lparr>tx_finished := True\<rparr>, db2)
       | (None, db2) \<Rightarrow>
          (case mem_apply ?recs (db_memtable db2) of
             None \<Rightarrow> (Some DbPanic, t, db2)
           | Some m \<Rightarrow> (case db_flush_if_full fault (db2\<lparr>db_memtable := m, db_appliedTS := cm_ts c\<rparr>) of
                          (e, db3) \<Rightarrow> (e, t\<lparr>tx_finished := True\<rparr>, db3))))"
    using inv ws nc unfolding tx_commit_local_def Let_def recs ts(1)
    by (simp add: db_inv_def ts(1))
  show ?thesis
  proof (cases res)
    case (Some e)
    have "disk_maxTS (db_sstables db) (hist_records wh) < cm_ts c" using inv ts(2) by (auto simp: db_inv_def)
    then have "disk_holds ((db_disk db)\<lparr>dk_wal := Some (f_data (wal_f w'))\<rparr>) (if pre = commit_records c then h @ [c] else h)"
      using disk_holds_after_appends [OF db_inv_disk [OF inv] sees cok _ ap(3,2)] by simp
    then show ?thesis using cl ap(1) Some by (intro disjI1) (auto split: if_splits)
  next
    case None
    then have w': "wal_repr w' (hist_records (wh @ [c]))" using ap(4) by simp
    obtain m where m: "mem_apply ?recs (db_memtable db) = Some m" "\<not> mt_frozen m" "mt_repr m (kvs_of_writes (hist_writes (wh @ [c])))"
      using mem_apply_commit [OF cok, of "db_memtable db" wh] inv by (auto simp: db_inv_def c_def commit_of_def)
    let ?db2 = "(with_wal w' ?db1)\<lparr>db_memtable := m, db_appliedTS := cm_ts c\<rparr>"
    have "cm_ts c < db_nextTimestamp db + 1" using small_ts_Suc room by (simp add: ts(1) db_room_def)
    then have "db_inv ?db2 sk (wh @ [c]) []"
      using inv m by (intro db_inv_extend [OF inv cok ts(2) w']) (auto simp: db_inv_def)
    moreover have "tx_commit_local io fault t db = (fst (db_flush_if_full fault ?db2), t\<lparr>tx_finished := True\<rparr>, snd (db_flush_if_full fault ?db2))"
      using cl ap(1) None m(1) by (simp add: split_def)
    ultimately show ?thesis
      by (intro disjI2 exI [of _ ?db2] exI [of _ "fst (db_flush_if_full fault ?db2)"] exI [of _ "snd (db_flush_if_full fault ?db2)"])
         (simp add: ts(1))
  qed
qed

end
