(* ===== verification/Db_Run.thy ===== *)
theory Db_Run
  imports Db_Commit
begin

section \<open>Runs of a single-node database\<close>

text \<open>
  The runs of a database that is not replicated: it starts in an empty directory and then begins,
  rolls back and commits transactions, flushes, is restarted, and crashes during a flush, in any order.
  \<open>db_reach db h\<close> says that the database \<open>db\<close> can be reached with the history \<open>h\<close> of commits.
\<close>

definition empty_disk :: Disk where
  "empty_disk = \<lparr>dk_wal = None, dk_ssts = [], dk_base = None, dk_sessions = None\<rparr>"

inductive db_reach :: "DB \<Rightarrow> Commit list \<Rightarrow> bool" where
  fresh: "db_OpenWith rnd opts empty_disk = Inr db \<Longrightarrow> db_reach db []"
| began: "db_reach db h \<Longrightarrow> db_Begin db = (t, db') \<Longrightarrow> db_reach db' h"
| rolled_back: "db_reach db h \<Longrightarrow> tx_Rollback t db = (e, t', db') \<Longrightarrow> db_reach db' h"
| committed: "db_reach db h \<Longrightarrow> db_room t db \<Longrightarrow> tx_writes t \<noteq> [] \<Longrightarrow>
    tx_Commit None io None t db = (None, t', db') \<Longrightarrow> db_reach db' (h @ [commit_of t db])"
| committed_empty: "db_reach db h \<Longrightarrow> tx_writes t = [] \<Longrightarrow>
    tx_Commit None io None t db = (None, t', db') \<Longrightarrow> db_reach db' h"
| refused: "db_reach db h \<Longrightarrow> tx_Commit None io None t db = (Some e, t', db') \<Longrightarrow>
    e = ErrConflict \<or> e = ErrTxnFinished \<Longrightarrow> db_reach db' h"
| flushed: "db_reach db h \<Longrightarrow> db_nextID db < 1000000 \<Longrightarrow> mt_ApproximateSize (db_memtable db) \<le> 2 ^ 45 \<Longrightarrow>
    db_FlushForTesting None db = (None, db') \<Longrightarrow> db_reach db' h"
| restarted: "db_reach db h \<Longrightarrow> db_OpenWith rnd opts (db_disk db) = Inr db' \<Longrightarrow> db_reach db' h"
| flush_crashed: "db_reach db h \<Longrightarrow> db_nextID db < 1000000 \<Longrightarrow> mt_ApproximateSize (db_memtable db) \<le> 2 ^ 45 \<Longrightarrow>
    db_FlushForTesting (Some f) db = (e, db1) \<Longrightarrow> db_OpenWith rnd opts (db_disk db1) = Inr db' \<Longrightarrow> db_reach db' h"

subsection \<open>The invariant of the runs\<close>

lemma empty_disk_ok: "disk_ok empty_disk [] [] [] []"
  using wal_recovers_None
  by (simp add: disk_ok_def empty_disk_def tables_on_disk_def discoverSSTables_def kvs_of_writes_def layers_ok_def
      disk_maxTS_def rs_maxTS_def small_ts_def)

lemma sees_nothing: "sees 0 [kvs_of_writes (hist_writes [])] []"
  by (simp add: sees_def kvs_of_writes_def mvcc_read_def mvcc_versions_def hist_read_def write_versions_def)

lemma db_inv_txns [simp]:
  "db_inv (db\<lparr>db_activeTxns := x\<rparr>) sk wh orph = db_inv db sk wh orph"
  "db_inv (db\<lparr>db_nextTxn := n\<rparr>) sk wh orph = db_inv db sk wh orph"
  by (simp_all add: db_inv_def)

lemma db_holds_txns [simp]:
  "db_holds (db\<lparr>db_activeTxns := x\<rparr>) h = db_holds db h" "db_holds (db\<lparr>db_nextTxn := n\<rparr>) h = db_holds db h"
  "db_holds (db_unregisterTxn t db) h = db_holds db h" "db_holds (db_registerTxn t db) h = db_holds db h"
  by (simp_all add: db_holds_def db_unregisterTxn_def db_registerTxn_def)

lemma db_holds_reopen:
  assumes "db_holds db h" "db_OpenWith rnd opts (db_disk db) = Inr db'" shows "db_holds db' h"
proof -
  obtain sk wh where inv: "db_inv db sk wh []" "sees 0 (kvs_of_writes (hist_writes wh) # sk) h"
    using assms(1) by (auto simp: db_holds_def)
  obtain db1 where "db_OpenWith rnd opts (db_disk db) = Inr db1" "db_inv db1 sk wh []"
    using db_OpenWith_ok [OF db_inv_disk [OF inv(1)]] by blast
  then show ?thesis using assms(2) inv(2) unfolding db_holds_def by auto
qed

lemma db_holds_commit:
  assumes hold: "db_holds db h" and room: "db_room t db" and ws: "tx_writes t \<noteq> []"
    and cm: "tx_commit_local io None t db = (None, t', db')"
  shows "db_holds db' (h @ [commit_of t db])" "db_appliedTS db' = db_nextTimestamp db"
    "db_nextTimestamp db' = db_nextTimestamp db + 1"
proof -
  obtain sk wh where inv: "db_inv db sk wh []" and sees: "sees 0 (kvs_of_writes (hist_writes wh) # sk) h"
    using hold by (auto simp: db_holds_def)
  let ?c = "commit_of t db"
  have "\<not> db_closed db" using inv by (simp add: db_inv_def)
  then have "tx_conflicts (map fst (tx_writes t)) (tx_readSnap t) db = None"
    using cm ws by (auto simp: tx_commit_local_def Let_def split: option.splits)
  then obtain db2 where db2: "db_inv db2 sk (wh @ [?c]) []" "db_nextID db2 = db_nextID db"
      "db_flush_if_full None db2 = (None, db')" "db_nextTimestamp db2 = db_nextTimestamp db + 1"
      "db_appliedTS db2 = db_nextTimestamp db"
    using tx_commit_local_split [OF inv sees room ws, of io None] cm by auto
  note sees' = sees_snoc [OF sees, of ?c]
  have fl: "\<exists>db'. db_flushLocked None db2 = (None, db') \<and> db_holds db' (h @ [?c]) \<and>
      db_nextTimestamp db' = db_nextTimestamp db2 \<and> db_appliedTS db' = db_appliedTS db2"
    using flush_holds [OF db2(1) sees' db_room_size [OF inv room]] db2(2) room by (simp add: db_room_def)
  have "db_holds db2 (h @ [?c])" using db2(1) sees' unfolding db_holds_def by blast
  then show "db_holds db' (h @ [?c])" "db_appliedTS db' = db_nextTimestamp db" "db_nextTimestamp db' = db_nextTimestamp db + 1"
    using fl db2(3-5) flush_if_full_cases [of None db2] by auto
qed

lemma db_holds_flush:
  assumes hold: "db_holds db h" and "db_nextID db < 1000000" "mt_ApproximateSize (db_memtable db) \<le> 2 ^ 45"
    and fl: "db_FlushForTesting None db = (None, db')"
  shows "db_holds db' h"
proof -
  obtain sk wh where inv: "db_inv db sk wh []" and sees: "sees 0 (kvs_of_writes (hist_writes wh) # sk) h"
    using hold by (auto simp: db_holds_def)
  have "kv_size (kvs_of_writes (hist_writes wh)) \<le> 2 ^ 45"
    using inv assms(3) by (simp add: db_inv_def mt_repr_def mt_ApproximateSize_def)
  then show ?thesis
    using flush_holds [OF inv sees] assms(2) fl inv by (auto simp: db_FlushForTesting_def db_inv_def)
qed

lemma db_holds_flush_ts:
  assumes "db_holds db h" "db_nextID db < 1000000" "mt_ApproximateSize (db_memtable db) \<le> 2 ^ 45"
    and "db_FlushForTesting None db = (None, db')"
  shows "db_appliedTS db' = db_appliedTS db"
proof -
  obtain sk wh where inv: "db_inv db sk wh []" and sees: "sees 0 (kvs_of_writes (hist_writes wh) # sk) h"
    using assms(1) by (auto simp: db_holds_def)
  have "kv_size (kvs_of_writes (hist_writes wh)) \<le> 2 ^ 45"
    using inv assms(3) by (simp add: db_inv_def mt_repr_def mt_ApproximateSize_def)
  then show ?thesis
    using flush_holds [OF inv sees] assms(2,4) inv by (auto simp: db_FlushForTesting_def db_inv_def)
qed

lemma db_holds_flush_crash:
  assumes hold: "db_holds db h" and "db_nextID db < 1000000" "mt_ApproximateSize (db_memtable db) \<le> 2 ^ 45"
  shows "disk_clean (db_disk (snd (db_FlushForTesting (Some f) db))) h (db_appliedTS db)"
proof -
  obtain sk wh where inv: "db_inv db sk wh []" and sees: "sees 0 (kvs_of_writes (hist_writes wh) # sk) h"
    using hold by (auto simp: db_holds_def)
  have "kv_size (kvs_of_writes (hist_writes wh)) \<le> 2 ^ 45"
    using inv assms(3) by (simp add: db_inv_def mt_repr_def mt_ApproximateSize_def)
  then show ?thesis
    using flush_crash_clean [OF inv sees] assms(2) inv by (auto simp: db_FlushForTesting_def db_inv_def)
qed

lemma flush_error: "fst (db_flushLocked fault db) \<noteq> Some ErrConflict \<and> fst (db_flushLocked fault db) \<noteq> Some ErrTxnFinished"
  by (simp add: db_flushLocked_def Let_def split: option.splits sum.splits prod.splits)

lemma commit_local_refused:
  assumes "tx_commit_local io fault t db = (Some e, t', db')" "e = ErrConflict \<or> e = ErrTxnFinished"
  shows "db' = db"
proof -
  have "fst (db_flush_if_full fault x) \<noteq> Some e" for x
    using flush_error [of fault x] assms(2) by (auto simp: db_flush_if_full_def)
  then have *: "db_flush_if_full fault x \<noteq> (Some e, y)" for x y by (metis fst_conv)
  show ?thesis
    using assms(1) assms(2) by (auto simp: tx_commit_local_def Let_def * split: if_splits option.splits prod.splits)
qed

lemma tx_Commit_local:
  "\<not> tx_finished t \<Longrightarrow> tx_Commit None io fault t db = (e, t', db') \<longleftrightarrow>
     (\<exists>db1. tx_commit_local io fault t db = (e, t', db1) \<and> db' = db_unregisterTxn t db1)"
  by (auto simp: tx_Commit_def split: prod.splits)

lemma db_reach_holds: "db_reach db h \<Longrightarrow> db_holds db h"
proof (induction rule: db_reach.induct)
  case (fresh rnd opts db)
  then have "db_inv db [] [] []" using db_OpenWith_ok [OF empty_disk_ok, of rnd opts] by auto
  then show ?case using sees_nothing unfolding db_holds_def by blast
next
  case (began db h t db')
  then show ?case by (auto simp: db_Begin_def Let_def)
next
  case (rolled_back db h t e t' db')
  then show ?case by (auto simp: tx_Rollback_def split: if_splits)
next
  case (committed db h t io t' db')
  then have "\<not> tx_finished t" by (auto simp: tx_Commit_def)
  then show ?case using committed db_holds_commit(1) by (auto simp: tx_Commit_local)
next
  case (committed_empty db h t io t' db')
  then have "\<not> tx_finished t" by (auto simp: tx_Commit_def)
  then show ?case using committed_empty
    by (auto simp: tx_Commit_local tx_commit_local_def Let_def split: if_splits)
next
  case (refused db h io t e t' db')
  show ?case
  proof (cases "tx_finished t")
    case False
    then obtain db1 where "tx_commit_local io None t db = (Some e, t', db1)" "db' = db_unregisterTxn t db1"
      using refused by (auto simp: tx_Commit_local)
    then show ?thesis using commit_local_refused [of io None t db e t' db1] refused by simp
  qed (use refused in \<open>simp add: tx_Commit_def\<close>)
next
  case (flushed db h db')
  then show ?case using db_holds_flush by blast
next
  case (restarted db h rnd opts db')
  then show ?case using db_holds_reopen by blast
next
  case (flush_crashed db h f e db1 rnd opts db')
  then have "disk_clean (db_disk db1) h (db_appliedTS db)" using db_holds_flush_crash [of db h f] by simp
  then show ?case using disk_clean_open [of "db_disk db1" h _ rnd opts] flush_crashed by auto
qed

lemma db_reach_commits: "db_reach db h \<Longrightarrow> c \<in> set h \<Longrightarrow> commit_ok c \<and> cm_writes c \<noteq> []"
proof (induction arbitrary: c rule: db_reach.induct)
  case (committed db h t io t' db')
  then show ?case using commit_ok_of [of t db] by (auto simp: commit_of_def)
qed simp_all

lemma db_reach_open: "db_reach db h \<Longrightarrow> \<not> db_closed db"
  using db_reach_holds by (auto simp: db_holds_def db_inv_def)

lemma db_reach_reads:
  "db_reach db h \<Longrightarrow> ff_free uk \<Longrightarrow> small_ts snap \<Longrightarrow> db_GetAsOf uk snap db = get_answer (hist_read h uk snap)"
  using db_reach_holds get_answer_hist unfolding db_holds_def by blast

subsection \<open>Histories\<close>

abbreviation cm_keys :: "Commit \<Rightarrow> bytes set" where
  "cm_keys c \<equiv> fst ` set (cm_writes c)"

lemma newest_above: "(\<exists>p\<in>set ps. s < fst p) \<longleftrightarrow> (case newest ps of None \<Rightarrow> False | Some p \<Rightarrow> s < fst p)"
proof (cases "newest ps")
  case (Some p)
  then show ?thesis using newest_in_set [OF Some] newest_ge [OF Some] by (auto intro: less_le_trans)
qed simp

lemma mem_write_of_sel [simp]: "write_key (mem_write_of ts p) = fst p" "write_ts (mem_write_of ts p) = ts"
  by (simp_all add: mem_write_of_def split_def)

lemma hist_versions_ts:
  "(\<exists>s. (t, s) \<in> set (write_versions (hist_writes h) uk)) \<longleftrightarrow> (\<exists>c\<in>set h. uk \<in> cm_keys c \<and> t = cm_ts c)"
proof -
  have "(\<exists>s. (t, s) \<in> set (write_versions (hist_writes h) uk)) \<longleftrightarrow>
      (\<exists>w\<in>set (hist_writes h). write_key w = uk \<and> write_ts w = t)"
    by (auto simp: write_versions_def)
  also have "\<dots> \<longleftrightarrow> (\<exists>c\<in>set h. \<exists>p\<in>set (cm_writes c). fst p = uk \<and> cm_ts c = t)"
    by (simp add: hist_writes_def commit_writes_def)
  finally show ?thesis by (auto simp: image_iff)
qed

lemma hist_read_all: "hist_read h uk (- 1) = newest (write_versions (hist_writes h) uk)"
  by (simp add: hist_read_def)

lemma hist_newer:
  "(case hist_read h uk (- 1) of None \<Rightarrow> False | Some p \<Rightarrow> snap < fst p) \<longleftrightarrow>
    (\<exists>c\<in>set h. uk \<in> cm_keys c \<and> snap < cm_ts c)"
proof -
  have "(\<exists>p\<in>set (write_versions (hist_writes h) uk). snap < fst p) \<longleftrightarrow> (\<exists>c\<in>set h. uk \<in> cm_keys c \<and> snap < cm_ts c)"
    using hist_versions_ts [of _ h uk] by (metis fst_conv surj_pair)
  then show ?thesis by (simp add: hist_read_all newest_above)
qed

lemma hist_read_none:
  "hist_read h uk (- 1) = None \<longleftrightarrow> (\<forall>c\<in>set h. uk \<notin> cm_keys c)"
proof -
  have "hist_read h uk (- 1) = None \<longleftrightarrow> (\<forall>t s. (t, s) \<notin> set (write_versions (hist_writes h) uk))"
    unfolding hist_read_all newest_None by (metis empty_iff empty_set list.set_sel(1) surj_pair)
  then show ?thesis using hist_versions_ts [of _ h uk] by blast
qed

lemma hist_read_before:
  assumes "snap < cm_ts c" shows "hist_read (h @ [c]) uk snap = hist_read h uk snap"
proof -
  have "filter (\<lambda>p. fst p \<le> snap) (write_versions (commit_writes c) uk) = []"
    using assms by (auto simp: filter_empty_conv write_versions_def commit_writes_def)
  then show ?thesis by (simp add: hist_read_def write_versions_append)
qed

lemma hist_read_other: "uk \<notin> cm_keys c \<Longrightarrow> hist_read (h @ [c]) uk snap = hist_read h uk snap"
proof -
  assume "uk \<notin> cm_keys c"
  then have "write_versions (commit_writes c) uk = []"
    by (force simp: filter_empty_conv write_versions_def commit_writes_def)
  then show ?thesis by (simp add: hist_read_def write_versions_append)
qed

text \<open>The layers know exactly the keys and newest timestamps of the history.\<close>

lemma layer_key_in_hist:
  assumes "layers_ok L" "sees 0 L h" "list_all commit_ok h" "kvs \<in> set L" "p \<in> set kvs"
  shows "\<exists>c\<in>set h. mvcc_UserKey (fst p) \<in> cm_keys c"
proof -
  have cl: "clean_key (fst p)" using assms(1,4,5) by (auto simp: layers_ok_def clean_kvs_def)
  then obtain uk ts where p: "fst p = mvcc_Encode uk ts" "ff_free uk" by (auto elim: clean_keyE)
  have "(mvcc_Encode uk ts, snd p) \<in> set (concat L)" using assms(4,5) p(1) by (metis UN_I prod.collapse set_concat)
  then have "(ts, snd p) \<in> set (mvcc_versions (concat L) uk)" by (simp add: set_mvcc_versions)
  then have "mvcc_read (concat L) uk (- 1) \<noteq> None" by (auto simp: mvcc_read_def)
  then have "hist_read h uk (- 1) \<noteq> None" using assms(2) p(2) by (simp add: sees_def)
  then show ?thesis using hist_read_none [of h uk] p(1) by auto
qed

lemma any_newer_hist:
  assumes "layers_ok L" "sees 0 L h" "list_all commit_ok h" "ff_free uk"
    and ext: "\<forall>c\<in>set h. \<forall>k\<in>cm_keys c. prefix uk k \<longrightarrow> k = uk"
  shows "any_newer L uk snap \<longleftrightarrow> (\<exists>c\<in>set h. uk \<in> cm_keys c \<and> snap < cm_ts c)"
proof -
  have "no_extension L uk" unfolding no_extension_def
    using layer_key_in_hist [OF assms(1-3)] ext by blast
  then have "any_newer L uk snap \<longleftrightarrow> (\<exists>kvs\<in>set L. \<exists>ts. mvcc_Encode uk ts \<in> fst ` set kvs \<and> ts > snap)"
    using assms(1,4) by (intro any_newer_exact) (auto simp: layers_ok_def)
  also have "\<dots> \<longleftrightarrow> (\<exists>p\<in>set (mvcc_versions (concat L) uk). snap < fst p)"
    by (force simp: set_mvcc_versions Bex_def split_paired_Ex)
  also have "\<dots> \<longleftrightarrow> (case mvcc_read (concat L) uk (- 1) of None \<Rightarrow> False | Some p \<Rightarrow> snap < fst p)"
    by (simp add: newest_above mvcc_read_def)
  also have "\<dots> \<longleftrightarrow> (\<exists>c\<in>set h. uk \<in> cm_keys c \<and> snap < cm_ts c)"
    using assms(2,4) hist_newer [of snap h uk] by (simp add: sees_def)
  finally show ?thesis .
qed

lemma db_reach_conflicts:
  assumes "db_reach db h" "list_all write_ok ws"
    and "\<forall>c\<in>set h. \<forall>k\<in>cm_keys c. \<forall>k'\<in>fst ` set ws. prefix k' k \<longrightarrow> k = k'"
  shows "tx_conflicts (map fst ws) snap db =
    (if \<exists>c\<in>set h. cm_keys c \<inter> fst ` set ws \<noteq> {} \<and> snap < cm_ts c then Some ErrConflict else None)"
proof -
  obtain sk wh where inv: "db_inv db sk wh []" "sees 0 (kvs_of_writes (hist_writes wh) # sk) h"
    using db_reach_holds [OF assms(1)] by (auto simp: db_holds_def)
  note lay = db_inv_layers [OF inv(1)]
  have ok: "list_all commit_ok h" using db_reach_commits [OF assms(1)] by (simp add: list_all_iff)
  have ff: "ff_free k" if "k \<in> fst ` set ws" for k
    using that assms(2) by (auto simp: list_all_iff write_ok_def)
  have "any_newer (kvs_of_writes (hist_writes wh) # sk) k snap \<longleftrightarrow> (\<exists>c\<in>set h. k \<in> cm_keys c \<and> snap < cm_ts c)"
    if "k \<in> fst ` set ws" for k
    using that assms(3) ff lay ok by (intro any_newer_hist [OF _ inv(2)]) auto
  then have "(\<exists>k\<in>fst ` set ws. any_newer (kvs_of_writes (hist_writes wh) # sk) k snap) \<longleftrightarrow>
      (\<exists>c\<in>set h. cm_keys c \<inter> fst ` set ws \<noteq> {} \<and> snap < cm_ts c)"
    by (simp only: cong: bex_cong) blast
  then show ?thesis unfolding tx_conflicts_any [OF conjunct1 [OF lay]] set_map by (rule if_cong) simp_all
qed

text \<open>Every commit has a larger timestamp than all earlier ones, across flushes, restarts and crashes.\<close>

lemma db_reach_ts_bound:
  assumes "db_reach db h" "c \<in> set h" shows "cm_ts c \<le> db_appliedTS db"
proof -
  obtain sk wh where inv: "db_inv db sk wh []" "sees 0 (kvs_of_writes (hist_writes wh) # sk) h"
    using db_reach_holds [OF assms(1)] by (auto simp: db_holds_def)
  let ?L = "kvs_of_writes (hist_writes wh) # sk"
  have ok: "list_all commit_ok h" using db_reach_commits [OF assms(1)] by (simp add: list_all_iff)
  obtain k op v where k: "(k, op, v) \<in> set (cm_writes c)" "ff_free k"
    using db_reach_commits [OF assms] by (cases "cm_writes c") (auto simp: commit_ok_def write_ok_def)
  have "\<exists>s. (cm_ts c, s) \<in> set (write_versions (hist_writes h) k)"
    using hist_versions_ts [of "cm_ts c" h k] assms(2) k(1) by force
  then obtain t s where t: "hist_read h k (- 1) = Some (t, s)" "cm_ts c \<le> t"
    using newest_ge [of "write_versions (hist_writes h) k"]
    by (cases "newest (write_versions (hist_writes h) k)") (fastforce simp: hist_read_all)+
  then have "mvcc_read (concat ?L) k (- 1) = Some (t, s)" using inv(2) k(2) by (simp add: sees_def)
  then have "(t, s) \<in> set (mvcc_versions (concat ?L) k)" using newest_in_set by (fastforce simp: mvcc_read_def)
  then obtain kvs where kvs: "kvs \<in> set ?L" "(mvcc_Encode k t, s) \<in> set kvs" by (auto simp: set_mvcc_versions)
  have "mvcc_Timestamp (fst (mvcc_Encode k t, s)) \<le> disk_maxTS (db_sstables db) (hist_records wh @ [])"
    using db_inv_disk [OF inv(1)] by (intro layer_ts_bound [OF _ _ kvs]) (auto simp: disk_ok_def)
  then show ?thesis using t(2) inv(1) by (auto simp: db_inv_def)
qed

lemma db_reach_next: "db_reach db h \<Longrightarrow> db_appliedTS db < db_nextTimestamp db"
  using db_reach_holds by (auto simp: db_holds_def db_inv_def)

lemma db_reach_sorted: "db_reach db h \<Longrightarrow> sorted_wrt (<) (map cm_ts h)"
proof (induction rule: db_reach.induct)
  case (committed db h t io t' db')
  have "cm_ts c < cm_ts (commit_of t db)" if "c \<in> set h" for c
    using db_reach_ts_bound [OF committed.hyps(1) that] db_reach_next [OF committed.hyps(1)] by (simp add: commit_of_def)
  then show ?case using committed.IH by (simp add: sorted_wrt_append)
qed auto

lemma db_reach_pos: "db_reach db h \<Longrightarrow> c \<in> set h \<Longrightarrow> cm_ts c \<noteq> 0"
proof (induction arbitrary: c rule: db_reach.induct)
  case (committed db h t io t' db')
  then show ?case using db_reach_next [OF committed.hyps(1)] by (auto simp: commit_of_def)
qed simp_all

text \<open>The read snapshot of a new transaction is the timestamp of the last commit.\<close>

lemma db_reach_applied: "db_reach db h \<Longrightarrow> db_appliedTS db = (if h = [] then 0 else cm_ts (last h))"
proof (induction rule: db_reach.induct)
  case (fresh rnd opts db)
  then show ?case
    using db_OpenWith_ok [OF empty_disk_ok, of rnd opts] by (auto simp: disk_maxTS_def rs_maxTS_def)
next
  case (began db h t db')
  then show ?case by (auto simp: db_Begin_def Let_def db_registerTxn_def)
next
  case (rolled_back db h t e t' db')
  then show ?case by (auto simp: tx_Rollback_def db_unregisterTxn_def split: if_splits)
next
  case (committed db h t io t' db')
  then have nf: "\<not> tx_finished t" by (auto simp: tx_Commit_def)
  then obtain db1 where "tx_commit_local io None t db = (None, t', db1)" "db' = db_unregisterTxn t db1"
    using committed.hyps by (auto simp: tx_Commit_local)
  then show ?case
    using db_holds_commit(2) [OF db_reach_holds [OF committed.hyps(1)] committed.hyps(2,3)]
    by (auto simp: db_unregisterTxn_def commit_of_def)
next
  case (committed_empty db h t io t' db')
  then show ?case by (auto simp: tx_Commit_def tx_commit_local_def Let_def db_unregisterTxn_def split: if_splits)
next
  case (refused db h io t e t' db')
  then have "db' = db \<or> db' = db_unregisterTxn t db"
    using commit_local_refused [of io None t db e] by (auto simp: tx_Commit_def split: if_splits prod.splits)
  then show ?case using refused.IH by (auto simp: db_unregisterTxn_def)
next
  case (flushed db h db')
  then show ?case using db_holds_flush_ts [OF db_reach_holds] by metis
next
  case (restarted db h rnd opts db')
  obtain sk wh where inv: "db_inv db sk wh []" using db_reach_holds [OF restarted.hyps(1)] by (auto simp: db_holds_def)
  then have "db_appliedTS db' \<le> db_appliedTS db"
    using db_OpenWith_ok [OF db_inv_disk [OF inv], of rnd opts] restarted.hyps(2) by (auto simp: db_inv_def)
  moreover have "db_reach db' h" using restarted.hyps by (rule db_reach.restarted)
  ultimately show ?case using restarted.IH db_reach_ts_bound [of db' h "last h"] by (auto split: if_splits)
next
  case (flush_crashed db h f e db1 rnd opts db')
  have "disk_clean (db_disk db1) h (db_appliedTS db)"
    using db_holds_flush_crash [OF db_reach_holds [OF flush_crashed.hyps(1)], of f] flush_crashed.hyps by simp
  then have "db_appliedTS db' \<le> db_appliedTS db"
    using disk_clean_open [of "db_disk db1" h _ rnd opts] flush_crashed.hyps(5) by auto
  moreover have "db_reach db' h" using flush_crashed.hyps by (rule db_reach.flush_crashed)
  ultimately show ?case using flush_crashed.IH db_reach_ts_bound [of db' h "last h"] by (auto split: if_splits)
qed

lemma hist_read_at_end:
  assumes "sorted_wrt (<) (map cm_ts h)"
  shows "hist_read h uk (if h = [] then 0 else cm_ts (last h)) = newest (write_versions (hist_writes h) uk)"
proof -
  have "fst p \<le> (if h = [] then 0 else cm_ts (last h))" if mem: "p \<in> set (write_versions (hist_writes h) uk)" for p
  proof -
    obtain c where c: "c \<in> set h" "fst p = cm_ts c"
      using mem hist_versions_ts [of "fst p" h uk] by (metis prod.collapse)
    then show ?thesis
      using assms by (cases h rule: rev_cases) (auto simp: sorted_wrt_append intro: less_imp_le)
  qed
  then have "filter (\<lambda>p. fst p \<le> (if h = [] then 0 else cm_ts (last h))) (write_versions (hist_writes h) uk)
      = write_versions (hist_writes h) uk"
    by (auto simp: filter_id_conv)
  then show ?thesis unfolding hist_read_def by (rule arg_cong)
qed

lemma hist_read_extend:
  "\<forall>c\<in>set h'. snap < cm_ts c \<Longrightarrow> hist_read (h @ h') uk snap = hist_read h uk snap"
proof (induction h' rule: rev_induct)
  case (snoc c h')
  then show ?case using hist_read_before [of snap c "h @ h'" uk] by simp
qed simp

subsection \<open>Progress\<close>

text \<open>A commit without conflict succeeds when the operating system does.\<close>

lemma db_commit_progress:
  assumes r: "db_reach db h" and room: "db_room t db" and nf: "\<not> tx_finished t"
    and nc: "tx_conflicts (map fst (tx_writes t)) (tx_readSnap t) db = None" and io: "\<forall>i. io i = (WriteOk, True)"
  shows "\<exists>db'. tx_Commit None io None t db = (None, t\<lparr>tx_finished := True\<rparr>, db')"
proof (cases "tx_writes t = []")
  case True
  then show ?thesis using nf db_reach_open [OF r] by (auto simp: tx_Commit_local tx_commit_local_def)
next
  case False
  obtain sk wh where inv: "db_inv db sk wh []" and sees: "sees 0 (kvs_of_writes (hist_writes wh) # sk) h"
    using db_reach_holds [OF r] by (auto simp: db_holds_def)
  let ?c = "commit_of t db" and ?db1 = "db\<lparr>db_nextTimestamp := db_nextTimestamp db + 1\<rparr>"
  have "wal_repr (db_wal ?db1) (hist_records wh)" using inv by (simp add: db_inv_def)
  then have "fst (db_append_all io 0 (commit_records ?c) ?db1) = None"
    using commit_records_ok [OF commit_ok_of [OF room]] io by (rule db_append_all_ok)
  then obtain db2 e db3 where db2: "db_inv db2 sk (wh @ [?c]) []" "db_nextID db2 = db_nextID db"
      "db_flush_if_full None db2 = (e, db3)" "tx_commit_local io None t db = (e, t\<lparr>tx_finished := True\<rparr>, db3)"
    using tx_commit_local_split [OF inv sees room False nc, of io None] by auto
  obtain db4 where "db_flushLocked None db2 = (None, db4)"
    using flush_holds [OF db2(1) sees_snoc [OF sees] db_room_size [OF inv room]] db2(2) room by (auto simp: db_room_def)
  then have "e = None" using db2(3) flush_if_full_cases [of None db2] by auto
  then show ?thesis using db2(4) nf by (auto simp: tx_Commit_local)
qed

text \<open>A commit that does not fill the memtable: the state afterwards.\<close>

lemma commit_noflush:
  assumes inv: "db_inv db sk wh []" and sees: "sees 0 (kvs_of_writes (hist_writes wh) # sk) h"
    and room: "db_room t db" and ws: "tx_writes t \<noteq> []" and nf: "\<not> tx_finished t"
    and nc: "tx_conflicts (map fst (tx_writes t)) (tx_readSnap t) db = None" and io: "\<forall>i. io i = (WriteOk, True)"
    and small: "mt_ApproximateSize (db_memtable db) + writes_size (tx_writes t) < opt_MemtableSizeMax (db_opts db)"
  shows "\<exists>db'. tx_Commit None io fault t db = (None, t\<lparr>tx_finished := True\<rparr>, db') \<and>
    db_inv db' sk (wh @ [commit_of t db]) [] \<and> db_nextID db' = db_nextID db \<and>
    db_nextTimestamp db' = db_nextTimestamp db + 1 \<and> db_opts db' = db_opts db \<and>
    mt_ApproximateSize (db_memtable db') \<le> mt_ApproximateSize (db_memtable db) + writes_size (tx_writes t)"
proof -
  let ?c = "commit_of t db"
  have "wal_repr (db_wal (db\<lparr>db_nextTimestamp := db_nextTimestamp db + 1\<rparr>)) (hist_records wh)"
    using inv by (simp add: db_inv_def)
  then have "fst (db_append_all io 0 (commit_records ?c) (db\<lparr>db_nextTimestamp := db_nextTimestamp db + 1\<rparr>)) = None"
    using commit_records_ok [OF commit_ok_of [OF room]] io by (rule db_append_all_ok)
  then obtain db2 e db3 where db2: "db_inv db2 sk (wh @ [?c]) []" "db_nextID db2 = db_nextID db"
      "db_nextTimestamp db2 = db_nextTimestamp db + 1" "db_opts db2 = db_opts db"
      "db_flush_if_full fault db2 = (e, db3)" "tx_commit_local io fault t db = (e, t\<lparr>tx_finished := True\<rparr>, db3)"
    using tx_commit_local_split [OF inv sees room ws nc, of io fault] by auto
  have le: "mt_ApproximateSize (db_memtable db2) \<le> mt_ApproximateSize (db_memtable db) + writes_size (tx_writes t)"
    using kv_size_commit [OF commit_ok_of [OF room], of wh] inv db2(1)
    by (simp add: db_inv_def mt_repr_def mt_ApproximateSize_def commit_of_def)
  then have "db_flush_if_full fault db2 = (None, db2)" using small db2(4) by (simp add: db_flush_if_full_def)
  then show ?thesis using db2 le nf by (auto simp: tx_Commit_local db_unregisterTxn_def)
qed

text \<open>The first commit of a new database, for the examples.\<close>

lemma first_open:
  "\<exists>db. db_OpenWith rnd db_DefaultOptions empty_disk = Inr db \<and> db_reach db [] \<and> db_inv db [] [] [] \<and>
     db_nextTimestamp db = 1 \<and> db_nextID db = 1 \<and> opt_MemtableSizeMax (db_opts db) = defaultMemtableSizeMax \<and>
     mt_ApproximateSize (db_memtable db) = 0"
proof -
  obtain db where db: "db_OpenWith rnd db_DefaultOptions empty_disk = Inr db" "db_inv db [] [] []" "db_sstables db = []"
      "db_nextTimestamp db = 1" "opt_MemtableSizeMax (db_opts db) = defaultMemtableSizeMax"
    using db_OpenWith_ok [OF empty_disk_ok, of rnd db_DefaultOptions]
    by (auto simp: disk_maxTS_def rs_maxTS_def db_DefaultOptions_def)
  have "db_reach db []" using db(1) by (rule db_reach.fresh)
  moreover have "mt_ApproximateSize (db_memtable db) = 0"
    using db(2) by (simp add: db_inv_def mt_repr_def kvs_of_writes_def kv_size_def mt_ApproximateSize_def)
  moreover have "db_nextID db = 1" using db(2,3) by (simp add: db_inv_def disk_ok_def tables_on_disk_def)
  ultimately show ?thesis using db by blast
qed

lemma first_commit:
  assumes "kv_sorted (tx_writes t)" "list_all write_ok (tx_writes t)" "writes_size (tx_writes t) < 1048576"
    "tx_writes t \<noteq> []" "\<not> tx_finished t"
  defines "c \<equiv> \<lparr>cm_ts = 1, cm_writes = tx_writes t, cm_session = [], cm_val = []\<rparr>"
  shows "\<exists>db db'. db_OpenWith rnd db_DefaultOptions empty_disk = Inr db \<and> db_reach db [] \<and> db_room t db \<and>
    tx_Commit None (\<lambda>i. (WriteOk, True)) None t db = (None, t\<lparr>tx_finished := True\<rparr>, db') \<and>
    db_reach db' [c] \<and> db_inv db' [] [c] [] \<and> db_nextTimestamp db' = 2 \<and> db_nextID db' = 1 \<and>
    opt_MemtableSizeMax (db_opts db') = defaultMemtableSizeMax \<and> mt_ApproximateSize (db_memtable db') \<le> 1048576"
proof -
  obtain db where db: "db_OpenWith rnd db_DefaultOptions empty_disk = Inr db" "db_reach db []" "db_inv db [] [] []"
     "db_nextTimestamp db = 1" "db_nextID db = 1" "opt_MemtableSizeMax (db_opts db) = defaultMemtableSizeMax"
     "mt_ApproximateSize (db_memtable db) = 0"
    using first_open [of rnd] by blast
  have room: "db_room t db" using assms db by (simp add: db_room_def small_ts_def)
  have c: "commit_of t db = c" using db(4) by (simp add: commit_of_def c_def)
  have nc: "tx_conflicts (map fst (tx_writes t)) (tx_readSnap t) db = None"
    using db_reach_conflicts [OF db(2) assms(2)] by simp
  obtain db' where db': "tx_Commit None (\<lambda>i. (WriteOk, True)) None t db = (None, t\<lparr>tx_finished := True\<rparr>, db')"
      "db_inv db' [] ([] @ [commit_of t db]) []" "db_nextID db' = db_nextID db"
      "db_nextTimestamp db' = db_nextTimestamp db + 1" "db_opts db' = db_opts db"
      "mt_ApproximateSize (db_memtable db') \<le> mt_ApproximateSize (db_memtable db) + writes_size (tx_writes t)"
    using commit_noflush [OF db(3) _ room assms(4,5) nc, of "[]" "\<lambda>i. (WriteOk, True)" None] sees_nothing assms(3) db(6,7) by auto
  have "db_reach db' ([] @ [commit_of t db])" using db_reach.committed [OF db(2) room assms(4) db'(1)] .
  then show ?thesis using db db' room c assms(3) by (intro exI [of _ db] exI [of _ db']) auto
qed

subsection \<open>Properties\<close>

text \<open>C1: in every run of the database (transactions begun, rolled back, committed and refused, flushes,
  restarts and crashes during a flush in any order), a read of a clean key at a snapshot returns what the
  history of commits says: the value of the newest committed write at or before the snapshot, and not
  found when there is none or it is a deletion.\<close>

theorem db_run_reads:
  assumes "db_reach db h" "ff_free uk" "small_ts snap"
  shows "db_GetAsOf uk snap db = get_answer (newest (filter (\<lambda>p. fst p \<le> snap) (write_versions (hist_writes h) uk)))"
  using db_reach_reads [OF assms] by (simp add: hist_read_def)

abbreviation put_txn :: "bytes \<Rightarrow> bytes \<Rightarrow> Txn" where
  "put_txn k v \<equiv> \<lparr>tx_id = 0, tx_readSnap = 0, tx_writes = [(k, OpPut, v)], tx_finished = False, tx_session = [], tx_seq = 0\<rparr>"

theorem db_run_reads_witness:
  "\<exists>db. db_reach db [\<lparr>cm_ts = 1, cm_writes = [([97], OpPut, [5])], cm_session = [], cm_val = []\<rparr>] \<and>
        db_GetAsOf [97] 3 db = Inr [5] \<and> db_GetAsOf [97] 0 db = Inl ErrKeyNotFound"
proof -
  obtain db where r: "db_reach db [\<lparr>cm_ts = 1, cm_writes = [([97], OpPut, [5])], cm_session = [], cm_val = []\<rparr>]"
    using first_commit [of "put_txn [97] [5]"] by (auto simp: write_ok_def ff_free_def writes_size_def)
  show ?thesis
    using r db_run_reads [OF r, of "[97]" 3] db_run_reads [OF r, of "[97]" 0]
    by (auto simp: ff_free_def small_ts_def hist_writes_def commit_writes_def mem_write_of_def write_versions_def
        get_answer_def read_result_def)
qed

text \<open>C2: a commit with any outcome of its writes, syncs and flush, followed by a crash, is atomic: opening
  the directory again succeeds, and all reads see the history without the commit or with all of it; with it
  if the commit had reported success, without it if it had reported a conflict.\<close>

theorem db_commit_crash_atomic:
  assumes "db_reach db h" "db_room t db" "tx_Commit None io fault t db = (e, t', db')" "tx_writes t \<noteq> []" "\<not> tx_finished t"
  shows "\<exists>h' db''. db_OpenWith rnd opts (db_disk db') = Inr db'' \<and>
    (h' = h \<or> h' = h @ [commit_of t db]) \<and>
    (e = None \<longrightarrow> h' = h @ [commit_of t db]) \<and> (e = Some ErrConflict \<longrightarrow> h' = h) \<and>
    (\<forall>uk snap. ff_free uk \<longrightarrow> small_ts snap \<longrightarrow> db_GetAsOf uk snap db'' = get_answer (hist_read h' uk snap))"
proof -
  let ?c = "commit_of t db"
  obtain sk wh where inv: "db_inv db sk wh []" and sees: "sees 0 (kvs_of_writes (hist_writes wh) # sk) h"
    using db_reach_holds [OF assms(1)] by (auto simp: db_holds_def)
  obtain db1 where cl: "tx_commit_local io fault t db = (e, t', db1)" "db_disk db' = db_disk db1"
    using assms(3,5) by (auto simp: tx_Commit_local db_unregisterTxn_def)
  have "\<exists>h'. disk_holds (db_disk db1) h' \<and> (h' = h \<or> h' = h @ [?c]) \<and>
      (e = None \<longrightarrow> h' = h @ [?c]) \<and> (e = Some ErrConflict \<longrightarrow> h' = h)"
  proof (cases "tx_conflicts (map fst (tx_writes t)) (tx_readSnap t) db")
    case (Some ce)
    then have "e = Some ce" "db1 = db"
      using cl assms(4) db_reach_open [OF assms(1)] by (auto simp: tx_commit_local_def Let_def)
    then show ?thesis using db_inv_disk_holds [OF inv sees] by auto
  next
    case None
    from tx_commit_local_split [OF inv sees assms(2,4) None, of io fault] show ?thesis
    proof (elim disjE exE conjE)
      fix db2 e' db3
      assume a: "db_inv db2 sk (wh @ [?c]) []" "db_nextID db2 = db_nextID db" "db_flush_if_full fault db2 = (e', db3)"
        "tx_commit_local io fault t db = (e', t\<lparr>tx_finished := True\<rparr>, db3)"
      have "disk_holds (db_disk (snd (db_flushLocked fault db2))) (h @ [?c])"
        using a(2) assms(2) flush_any_disk [OF a(1) sees_snoc [OF sees] db_room_size [OF inv assms(2)]]
        by (simp add: db_room_def)
      then have "disk_holds (db_disk db1) (h @ [?c])"
        using a(3,4) cl(1) db_inv_disk_holds [OF a(1) sees_snoc [OF sees]]
        by (cases "db_flushLocked fault db2") (auto simp: db_flush_if_full_def split: if_splits)
      moreover have "e \<noteq> Some ErrConflict"
        using a(3,4) cl(1) flush_error [of fault db2] by (auto simp: db_flush_if_full_def split: if_splits)
      ultimately show ?thesis by blast
    qed (use cl in auto)
  qed
  then obtain h' where h': "disk_holds (db_disk db') h'" "h' = h \<or> h' = h @ [?c]"
      "e = None \<longrightarrow> h' = h @ [?c]" "e = Some ErrConflict \<longrightarrow> h' = h" using cl(2) by auto
  then show ?thesis using disk_holds_open [OF h'(1), of rnd opts] by blast
qed

theorem db_commit_crash_atomic_witness:
  "\<exists>db db'. db_OpenWith (\<lambda>_ _. False) db_DefaultOptions empty_disk = Inr db \<and>
     db_OpenWith (\<lambda>_ _. False) db_DefaultOptions
       (db_disk (snd (snd (tx_Commit None (\<lambda>i. if i = 0 then (WriteOk, True) else (WriteFails 3, True)) None
          (put_txn [97] [5]) db)))) = Inr db' \<and>
     db_GetAsOf [97] 0 db' = Inl ErrKeyNotFound"
proof -
  let ?io = "\<lambda>i. if i = 0 then (WriteOk, True) else (WriteFails 3, True)" and ?t = "put_txn [97] [5]"
  obtain db where db: "db_OpenWith (\<lambda>_ _. False) db_DefaultOptions empty_disk = Inr db" "db_reach db []" "db_room ?t db"
      "db_nextTimestamp db = 1"
    using first_open [of "\<lambda>_ _. False"] by (auto simp: db_room_def write_ok_def ff_free_def small_ts_def writes_size_def)
  obtain e t' db' where c: "tx_Commit None ?io None ?t db = (e, t', db')" by (metis prod_cases3)
  obtain h' db'' where h: "db_OpenWith (\<lambda>_ _. False) db_DefaultOptions (db_disk db') = Inr db''"
      "h' = [] \<or> h' = [] @ [commit_of ?t db]"
      "\<forall>uk snap. ff_free uk \<longrightarrow> small_ts snap \<longrightarrow> db_GetAsOf uk snap db'' = get_answer (hist_read h' uk snap)"
    using db_commit_crash_atomic [OF db(2,3) c, of "\<lambda>_ _. False" db_DefaultOptions] by auto
  have "db_GetAsOf [97] 0 db'' = get_answer (hist_read h' [97] 0)" using h(3) by (simp add: ff_free_def small_ts_def)
  also have "hist_read h' [97] 0 = None"
    using h(2) db(4) by (auto simp: hist_read_def hist_writes_def commit_writes_def commit_of_def mem_write_of_def write_versions_def)
  finally show ?thesis using db(1) c h(1) by (auto simp: get_answer_def read_result_def)
qed

text \<open>C3: first-committer-wins is exact where no committed key extends a key the transaction writes: the
  commit reports a conflict if a key it writes was committed after its read snapshot, and succeeds
  otherwise.\<close>

theorem db_first_committer_wins:
  assumes "db_reach db h" "db_room t db" "\<not> tx_finished t" "\<forall>i. io i = (WriteOk, True)"
    and "\<forall>c\<in>set h. \<forall>k\<in>fst ` set (cm_writes c). \<forall>k'\<in>fst ` set (tx_writes t). prefix k' k \<longrightarrow> k = k'"
  shows "fst (tx_Commit None io None t db) =
    (if \<exists>c\<in>set h. fst ` set (cm_writes c) \<inter> fst ` set (tx_writes t) \<noteq> {} \<and> tx_readSnap t < cm_ts c
     then Some ErrConflict else None)"
proof -
  have ok: "list_all write_ok (tx_writes t)" using assms(2) by (simp add: db_room_def)
  note cf = db_reach_conflicts [OF assms(1) ok assms(5), of "tx_readSnap t"]
  show ?thesis
  proof (cases "\<exists>c\<in>set h. cm_keys c \<inter> fst ` set (tx_writes t) \<noteq> {} \<and> tx_readSnap t < cm_ts c")
    case True
    then have "tx_writes t \<noteq> []" by auto
    then show ?thesis
      using True cf assms(3) db_reach_open [OF assms(1)] by (simp add: tx_Commit_def tx_commit_local_def)
  next
    case False
    then have "tx_conflicts (map fst (tx_writes t)) (tx_readSnap t) db = None" using cf by simp
    then show ?thesis using db_commit_progress [OF assms(1-3) _ assms(4)] False by auto
  qed
qed

text \<open>The writes of a client inside a transaction.\<close>

datatype txn_write = WritePut bytes bytes | WriteDelete bytes

primrec tx_write :: "txn_write \<Rightarrow> Txn \<Rightarrow> db_error + Txn" where
  "tx_write (WritePut k v) t = tx_Put k v t"
| "tx_write (WriteDelete k) t = tx_Delete k t"

fun tx_writes_all :: "txn_write list \<Rightarrow> Txn \<Rightarrow> db_error + Txn" where
  "tx_writes_all [] t = Inr t"
| "tx_writes_all (x # xs) t = (case tx_write x t of Inl e \<Rightarrow> Inl e | Inr t' \<Rightarrow> tx_writes_all xs t')"

text \<open>What the last of them says about a key: nothing, a value or a deletion.\<close>

fun own_write :: "txn_write list \<Rightarrow> bytes \<Rightarrow> bytes option option" where
  "own_write [] k = None"
| "own_write (x # xs) k =
     (case own_write xs k of
        Some r \<Rightarrow> Some r
      | None \<Rightarrow> (case x of WritePut k' v \<Rightarrow> if k' = k then Some (Some v) else None
                 | WriteDelete k' \<Rightarrow> if k' = k then Some None else None))"

lemma tx_writes_all_spec:
  assumes "\<not> tx_finished t"
  shows "\<exists>t'. tx_writes_all xs t = Inr t' \<and> \<not> tx_finished t' \<and> tx_readSnap t' = tx_readSnap t \<and>
    (\<forall>k. map_of (tx_writes t') k = (case own_write xs k of None \<Rightarrow> map_of (tx_writes t) k
       | Some (Some v) \<Rightarrow> Some (OpPut, v) | Some None \<Rightarrow> Some (OpDelete, [])))"
  using assms
proof (induction xs arbitrary: t)
  case (Cons x xs)
  obtain k0 e where x: "tx_write x t = Inr (t\<lparr>tx_writes := kv_put k0 e (tx_writes t)\<rparr>)"
    "x = WritePut k0 (snd e) \<and> fst e = OpPut \<or> x = WriteDelete k0 \<and> e = (OpDelete, [])"
    using Cons.prems by (cases x) (auto simp: tx_Put_def tx_Delete_def)
  obtain t' where t': "tx_writes_all xs (t\<lparr>tx_writes := kv_put k0 e (tx_writes t)\<rparr>) = Inr t'" "\<not> tx_finished t'" "tx_readSnap t' = tx_readSnap t"
    "\<forall>k. map_of (tx_writes t') k = (case own_write xs k of None \<Rightarrow> map_of (tx_writes (t\<lparr>tx_writes := kv_put k0 e (tx_writes t)\<rparr>)) k
       | Some (Some v) \<Rightarrow> Some (OpPut, v) | Some None \<Rightarrow> Some (OpDelete, []))"
    using Cons.IH [of "t\<lparr>tx_writes := kv_put k0 e (tx_writes t)\<rparr>"] Cons.prems by auto
  have "\<forall>k. map_of (tx_writes t') k = (case own_write (x # xs) k of None \<Rightarrow> map_of (tx_writes t) k
       | Some (Some v) \<Rightarrow> Some (OpPut, v) | Some None \<Rightarrow> Some (OpDelete, []))"
    using t'(4) x(2) by (cases e) (auto simp: map_of_kv_put split: option.splits)
  then show ?case using x(1) t'(1-3) by simp
qed simp

text \<open>C4: snapshot isolation with own writes.  A transaction begins, makes any puts and deletes of its own, and the
  database goes on (commits of other transactions, flushes, restarts).  The writes succeed; a key the
  transaction wrote then reads as its own last write says, and every other key without the byte \<open>0xFF\<close> reads as in the history at the
  begin of the transaction.\<close>

theorem db_snapshot_isolation:
  assumes "db_reach db h" "db_Begin db = (t, db0)" "db_reach db' (h @ h')" "ff_free k"
  shows "\<exists>t'. tx_writes_all xs t = Inr t' \<and>
    tx_Get k t' db' = (case own_write xs k of
        Some (Some v) \<Rightarrow> Inr v
      | Some None \<Rightarrow> Inl ErrKeyNotFound
      | None \<Rightarrow> get_answer (newest (write_versions (hist_writes h) k)))"
proof -
  let ?s = "if h = [] then 0 else cm_ts (last h)"
  have t: "tx_readSnap t = ?s" "tx_writes t = []" "\<not> tx_finished t"
    using assms(2) db_reach_applied [OF assms(1)] by (auto simp: db_Begin_def Let_def)
  have "small_ts (db_appliedTS db)" using db_reach_holds [OF assms(1)] by (auto simp: db_holds_def db_inv_def)
  then have sm: "small_ts ?s" by (simp only: db_reach_applied [OF assms(1)])
  note srt = db_reach_sorted [OF assms(3)]
  have "?s < cm_ts c" if "c \<in> set h'" for c
  proof (cases "h = []")
    case True
    have "cm_ts c \<noteq> 0"
      using db_reach_pos [OF assms(3)] that by simp
    then show ?thesis using True by (simp add: word_gt_0)
  qed (use srt that in \<open>auto simp: sorted_wrt_append\<close>)
  then have "hist_read (h @ h') k ?s = hist_read h k ?s" by (intro hist_read_extend) blast
  also have "\<dots> = newest (write_versions (hist_writes h) k)"
    by (rule hist_read_at_end [OF db_reach_sorted [OF assms(1)]])
  finally have "db_GetAsOf k ?s db' = get_answer (newest (write_versions (hist_writes h) k))"
    using db_reach_reads [OF assms(3,4) sm] by simp
  note rd = this
  obtain t' where t': "tx_writes_all xs t = Inr t'" "\<not> tx_finished t'" "tx_readSnap t' = ?s"
    "\<forall>k. map_of (tx_writes t') k = (case own_write xs k of None \<Rightarrow> map_of (tx_writes t) k
       | Some (Some v) \<Rightarrow> Some (OpPut, v) | Some None \<Rightarrow> Some (OpDelete, []))"
    using tx_writes_all_spec [OF t(3), of xs] unfolding t(1) by blast
  have "tx_Get k t' db' = (case own_write xs k of Some (Some v) \<Rightarrow> Inr v | Some None \<Rightarrow> Inl ErrKeyNotFound | None \<Rightarrow> db_GetAsOf k ?s db')"
    using t'(2,3,4) t(2) by (simp add: tx_Get_def split: option.splits)
  then show ?thesis using t'(1) unfolding rd by blast
qed

text \<open>C5: commit timestamps strictly increase along every run, across flushes, restarts and crashes, and
  the next timestamp is above all of them.\<close>

theorem db_timestamps_increase:
  assumes "db_reach db h"
  shows "sorted_wrt (<) (map cm_ts h) \<and> (\<forall>c\<in>set h. cm_ts c < db_nextTimestamp db)"
  using db_reach_sorted [OF assms] db_reach_ts_bound [OF assms] db_reach_next [OF assms] by fastforce

theorem db_first_committer_wins_witness:
  "\<exists>db. db_reach db [\<lparr>cm_ts = 1, cm_writes = [([97], OpPut, [5])], cm_session = [], cm_val = []\<rparr>] \<and>
     fst (tx_Commit None (\<lambda>i. (WriteOk, True)) None (put_txn [97] [6]) db) = Some ErrConflict \<and>
     fst (tx_Commit None (\<lambda>i. (WriteOk, True)) None (put_txn [98] [6]) db) = None"
proof -
  obtain db where r: "db_reach db [\<lparr>cm_ts = 1, cm_writes = [([97], OpPut, [5])], cm_session = [], cm_val = []\<rparr>]"
      and n: "db_nextTimestamp db = 2" "db_nextID db = 1" "mt_ApproximateSize (db_memtable db) \<le> 1048576"
    using first_commit [of "put_txn [97] [5]"] by (auto simp: write_ok_def ff_free_def writes_size_def)
  have room: "db_room (put_txn k [6]) db" if "k = [97] \<or> k = [98]" for k
    using n that by (auto simp: db_room_def write_ok_def ff_free_def small_ts_def writes_size_def)
  show ?thesis
    using r db_first_committer_wins [OF r room, of "[97]" "\<lambda>i. (WriteOk, True)"]
      db_first_committer_wins [OF r room, of "[98]" "\<lambda>i. (WriteOk, True)"] by auto
qed

theorem db_snapshot_isolation_witness:
  "\<exists>db db0 t t'. db_reach db [\<lparr>cm_ts = 1, cm_writes = [([97], OpPut, [5])], cm_session = [], cm_val = []\<rparr>] \<and>
     db_Begin db = (t, db0) \<and> tx_writes_all [WritePut [98] [1], WriteDelete [98], WritePut [98] [6]] t = Inr t' \<and>
     tx_Get [97] t' db = Inr [5] \<and> tx_Get [98] t' db = Inr [6]"
proof -
  let ?h = "[\<lparr>cm_ts = 1, cm_writes = [([97], OpPut, [5])], cm_session = [], cm_val = []\<rparr>]"
  let ?xs = "[WritePut [98] [1], WriteDelete [98], WritePut [98] [6]]"
  obtain db where r: "db_reach db ?h"
    using first_commit [of "put_txn [97] [5]"] by (auto simp: write_ok_def ff_free_def writes_size_def)
  obtain t db0 where b: "db_Begin db = (t, db0)" by fastforce
  have "get_answer (newest (write_versions (hist_writes ?h) [97])) = Inr [5]" "ff_free [97]" "ff_free [98]" by code_simp+
  then show ?thesis
    using r b db_snapshot_isolation [OF r b, of db "[]" "[97]" ?xs] db_snapshot_isolation [OF r b, of db "[]" "[98]" ?xs] by auto
qed

theorem db_timestamps_increase_witness:
  "\<exists>db. db_reach db [\<lparr>cm_ts = 1, cm_writes = [([97], OpPut, [5])], cm_session = [], cm_val = []\<rparr>] \<and>
     1 < db_nextTimestamp db"
proof -
  obtain db where r: "db_reach db [\<lparr>cm_ts = 1, cm_writes = [([97], OpPut, [5])], cm_session = [], cm_val = []\<rparr>]"
    using first_commit [of "put_txn [97] [5]"] by (auto simp: write_ok_def ff_free_def writes_size_def)
  show ?thesis using r db_timestamps_increase [OF r] by auto
qed

end
