(* ===== verification/Scan.thy ===== *)
theory Scan
  imports Layer_Merge Sstable_Iterator Db_Run
begin

section \<open>Range scans (\<open>internal/db/scan.go\<close>)\<close>

text \<open>
  A scan merges cursors over the active memtable, the frozen one and the tables with a heap, drops the
  copies of a version that older layers hold, and groups the versions by user key.  The loops are
  \<open>None\<close> where they do not return; the theorems show that they do.
\<close>

subsection \<open>Cursors\<close>

record sliceCursor =
  sc_entries :: "VersionEntry list"
  sc_i :: nat

datatype versionCursor = SliceCursor sliceCursor | SstCursor Iterator

text \<open>\<^verbatim>\<open>EncKey\<close>, \<^verbatim>\<open>Op\<close> and \<^verbatim>\<open>Value\<close> of an exhausted slice cursor panic; the merge calls them on valid cursors
  only.\<close>

definition sc_Valid :: "sliceCursor \<Rightarrow> bool" where "sc_Valid c \<longleftrightarrow> sc_i c < length (sc_entries c)"
definition sc_EncKey :: "sliceCursor \<Rightarrow> bytes" where "sc_EncKey c = ve_EncKey (sc_entries c ! sc_i c)"
definition sc_Op :: "sliceCursor \<Rightarrow> byte" where "sc_Op c = ve_Op (sc_entries c ! sc_i c)"
definition sc_Value :: "sliceCursor \<Rightarrow> bytes" where "sc_Value c = ve_Value (sc_entries c ! sc_i c)"
definition sc_Advance :: "sliceCursor \<Rightarrow> sliceCursor" where "sc_Advance c = c\<lparr>sc_i := sc_i c + 1\<rparr>"
definition sc_Err :: "sliceCursor \<Rightarrow> sst_error option" where "sc_Err c = None"

primrec vc_Valid :: "versionCursor \<Rightarrow> bool" where
  "vc_Valid (SliceCursor c) = sc_Valid c" | "vc_Valid (SstCursor it) = it_Valid it"

primrec vc_EncKey :: "versionCursor \<Rightarrow> bytes" where
  "vc_EncKey (SliceCursor c) = sc_EncKey c" | "vc_EncKey (SstCursor it) = it_EncKey it"

primrec vc_Op :: "versionCursor \<Rightarrow> byte" where
  "vc_Op (SliceCursor c) = sc_Op c" | "vc_Op (SstCursor it) = it_Op it"

primrec vc_Value :: "versionCursor \<Rightarrow> bytes" where
  "vc_Value (SliceCursor c) = sc_Value c" | "vc_Value (SstCursor it) = it_Value it"

primrec vc_Advance :: "versionCursor \<Rightarrow> versionCursor" where
  "vc_Advance (SliceCursor c) = SliceCursor (sc_Advance c)" | "vc_Advance (SstCursor it) = SstCursor (it_Advance it)"

primrec vc_Err :: "versionCursor \<Rightarrow> sst_error option" where
  "vc_Err (SliceCursor c) = sc_Err c" | "vc_Err (SstCursor it) = it_Err it"

primrec vc_Close :: "versionCursor \<Rightarrow> versionCursor" where
  "vc_Close (SliceCursor c) = SliceCursor c" | "vc_Close (SstCursor it) = SstCursor (it_Close it)"

subsection \<open>The merge\<close>

record heapCursor =
  hc_cur :: versionCursor
  hc_priority :: nat

definition hc_Less :: "heapCursor \<Rightarrow> heapCursor \<Rightarrow> bool" where
  "hc_Less a b \<longleftrightarrow>
     (if vc_EncKey (hc_cur a) \<noteq> vc_EncKey (hc_cur b) then vc_EncKey (hc_cur a) < vc_EncKey (hc_cur b)
      else hc_priority a < hc_priority b)"

text \<open>\<^verbatim>\<open>lastEnc\<close> is nil before the first record; a copy of an empty key is nil too.\<close>

record mergeIterator =
  mi_h :: "heapCursor list"
  mi_encKey :: bytes
  mi_value :: bytes
  mi_op :: byte
  mi_valid :: bool
  mi_err :: "sst_error option"
  mi_lastEnc :: bytes

partial_function (option) mi_Advance :: "mergeIterator \<Rightarrow> mergeIterator option" where
  "mi_Advance m =
     (case mi_h m of
        [] \<Rightarrow> Some (m\<lparr>mi_valid := False\<rparr>)
      | hc # rest \<Rightarrow>
          let enc = vc_EncKey (hc_cur hc); opv = vc_Op (hc_cur hc); val = vc_Value (hc_cur hc);
              hc' = hc\<lparr>hc_cur := vc_Advance (hc_cur hc)\<rparr>
          in if vc_Err (hc_cur hc') \<noteq> None
             then Some (m\<lparr>mi_h := hc' # rest, mi_err := vc_Err (hc_cur hc'), mi_valid := False\<rparr>)
             else case (if vc_Valid (hc_cur hc') then Some (heap_Fix hc_Less (hc' # rest) 0)
                        else map_option snd (heap_Pop hc_Less (hc' # rest))) of
                    None \<Rightarrow> None
                  | Some h \<Rightarrow>
                      if mi_lastEnc m \<noteq> [] \<and> enc = mi_lastEnc m then mi_Advance (m\<lparr>mi_h := h\<rparr>)
                      else Some (m\<lparr>mi_h := h, mi_lastEnc := enc, mi_encKey := enc, mi_op := opv, mi_value := val,
                                   mi_valid := True\<rparr>))"

declare mi_Advance.simps [code]

definition newMergeIterator :: "versionCursor list \<Rightarrow> mergeIterator option" where
  "newMergeIterator cursors =
     mi_Advance \<lparr>mi_h = heap_Init hc_Less
         (map (\<lambda>(i, c). \<lparr>hc_cur = c, hc_priority = i\<rparr>) (filter (\<lambda>(i, c). vc_Valid c) (enumerate 0 cursors))),
       mi_encKey = [], mi_value = [], mi_op = 0, mi_valid = False, mi_err = None, mi_lastEnc = []\<rparr>"

subsection \<open>The iterator\<close>

record DbIterator =
  di_merge :: mergeIterator
  di_snapshot :: u64
  di_key :: bytes
  di_value :: bytes
  di_err :: "db_error option"
  di_done :: bool
  di_closed :: bool

text \<open>The inner loop of \<^verbatim>\<open>Next\<close> over the versions of one user key; \<open>emit\<close> is \<^verbatim>\<open>emitVal\<close> when
  \<^verbatim>\<open>emitFound\<close> holds.\<close>

partial_function (option) di_versions ::
  "bytes \<Rightarrow> u64 \<Rightarrow> bool \<Rightarrow> bytes option \<Rightarrow> mergeIterator \<Rightarrow> (db_error option \<times> bytes option \<times> mergeIterator) option" where
  "di_versions curUK snap decided emit m =
     (if mi_valid m then
        let d = mvcc_Decode (mi_encKey m) in
        if \<not> snd (snd d) then Some (Some DbScanMalformed, emit, m)
        else if fst d \<noteq> curUK then Some (None, emit, m)
        else let visible = (\<not> decided \<and> fst (snd d) \<le> snap);
                 emit' = (if visible \<and> mi_op m = OpPut then Some (mi_value m) else emit)
             in case mi_Advance m of
                  None \<Rightarrow> None
                | Some m' \<Rightarrow>
                    (case mi_err m' of
                       Some e \<Rightarrow> Some (Some (DbSst e), emit', m')
                     | None \<Rightarrow> di_versions curUK snap (decided \<or> visible) emit' m')
      else Some (None, emit, m))"

declare di_versions.simps [code]

partial_function (option) di_loop :: "DbIterator \<Rightarrow> (bool \<times> DbIterator) option" where
  "di_loop it =
     (if mi_valid (di_merge it) then
        let d = mvcc_Decode (mi_encKey (di_merge it)) in
        if \<not> snd (snd d) then Some (False, it\<lparr>di_err := Some DbScanMalformed\<rparr>)
        else case di_versions (fst d) (di_snapshot it) False None (di_merge it) of
               None \<Rightarrow> None
             | Some (Some e, emit, m) \<Rightarrow> Some (False, it\<lparr>di_merge := m, di_err := Some e\<rparr>)
             | Some (None, Some v, m) \<Rightarrow> Some (True, it\<lparr>di_merge := m, di_key := fst d, di_value := v\<rparr>)
             | Some (None, None, m) \<Rightarrow> di_loop (it\<lparr>di_merge := m\<rparr>)
      else Some (False, it\<lparr>di_done := True\<rparr>))"

declare di_loop.simps [code]

definition di_Next :: "DbIterator \<Rightarrow> (bool \<times> DbIterator) option" where
  "di_Next it = (if di_done it \<or> di_closed it \<or> di_err it \<noteq> None then Some (False, it) else di_loop it)"

text \<open>\<^verbatim>\<open>Close\<close> closes the cursors of the heap; the exhausted ones are not reachable any more.\<close>

definition di_Close :: "DbIterator \<Rightarrow> DbIterator" where
  "di_Close it =
     (if di_closed it then it
      else it\<lparr>di_closed := True, di_merge := (di_merge it)\<lparr>mi_h := map (\<lambda>c. c\<lparr>hc_cur := vc_Close (hc_cur c)\<rparr>) (mi_h (di_merge it))\<rparr>\<rparr>)"

subsection \<open>Opening a scan\<close>

fun scan_tables :: "bytes option \<Rightarrow> bytes option \<Rightarrow> Reader list \<Rightarrow> (sst_error + versionCursor list) option" where
  "scan_tables start end1 [] = Some (Inr [])"
| "scan_tables start end1 (r # rs) =
     (case it_New r start end1 of
        None \<Rightarrow> None
      | Some (Some e, it) \<Rightarrow> Some (Inl e)
      | Some (None, it) \<Rightarrow>
          (case scan_tables start end1 rs of
             None \<Rightarrow> None | Some (Inl e) \<Rightarrow> Some (Inl e) | Some (Inr cs) \<Rightarrow> Some (Inr (SstCursor it # cs))))"

definition scan_memtable :: "bytes option \<Rightarrow> bytes option \<Rightarrow> Memtable \<Rightarrow> versionCursor option" where
  "scan_memtable start end1 m =
     map_option (\<lambda>es. SliceCursor \<lparr>sc_entries = es, sc_i = 0\<rparr>) (mt_RangeSnapshot m start end1)"

definition scan_cursors :: "bytes option \<Rightarrow> bytes option \<Rightarrow> DB \<Rightarrow> (sst_error + versionCursor list) option" where
  "scan_cursors start end1 db =
     do { a \<leftarrow> scan_memtable start end1 (db_memtable db);
          f \<leftarrow> (case db_frozen db of None \<Rightarrow> Some [] | Some fm \<Rightarrow> map_option (\<lambda>c. [c]) (scan_memtable start end1 fm));
          ts \<leftarrow> scan_tables start end1 (db_sstables db);
          Some (case ts of Inl e \<Rightarrow> Inl e | Inr cs \<Rightarrow> Inr (a # f @ cs)) }"

definition open_scan :: "versionCursor list \<Rightarrow> u64 \<Rightarrow> DbIterator option" where
  "open_scan cursors snap =
     map_option (\<lambda>m. \<lparr>di_merge = m, di_snapshot = snap, di_key = [], di_value = [], di_err = map_option DbSst (mi_err m),
                      di_done = False, di_closed = False\<rparr>) (newMergeIterator cursors)"

definition db_Scan :: "bytes option \<Rightarrow> bytes option \<Rightarrow> u64 \<Rightarrow> DB \<Rightarrow> (db_error + DbIterator) option" where
  "db_Scan start end1 snap db =
     (if db_closed db then Some (Inl DbClosed)
      else case scan_cursors start end1 db of
             None \<Rightarrow> None
           | Some (Inl e) \<Rightarrow> Some (Inl (DbSst e))
           | Some (Inr cs) \<Rightarrow> map_option Inr (open_scan cs snap))"

definition db_SnapshotScan :: "DB \<Rightarrow> (db_error + DbIterator \<times> u64 \<times> u64) option" where
  "db_SnapshotScan db =
     (if db_closed db then Some (Inl DbClosed)
      else case scan_cursors None None db of
             None \<Rightarrow> None
           | Some (Inl e) \<Rightarrow> Some (Inl (DbSst e))
           | Some (Inr cs) \<Rightarrow>
               map_option (\<lambda>it. Inr (it, db_appliedIndex db, db_appliedTS db)) (open_scan cs (db_appliedTS db)))"

definition db_ScanNow :: "bytes option \<Rightarrow> bytes option \<Rightarrow> DB \<Rightarrow> (db_error + DbIterator) option" where
  "db_ScanNow start end1 db =
     (if db_closed db then Some (Inl DbClosed)
      else db_Scan start end1 (if db_nextTimestamp db > 0 then db_nextTimestamp db - 1 else db_nextTimestamp db) db)"

text \<open>Draining an iterator, as its clients do.\<close>

partial_function (option) di_drain :: "DbIterator \<Rightarrow> (bytes \<times> bytes) list \<Rightarrow> ((bytes \<times> bytes) list \<times> DbIterator) option" where
  "di_drain it acc =
     (case di_Next it of
        None \<Rightarrow> None
      | Some (found, it') \<Rightarrow>
          if found then di_drain it' (acc @ [(di_key it', di_value it')]) else Some (acc, it'))"

declare di_drain.simps [code]

subsection \<open>Cursors yield the entries of their layers\<close>

definition sc_yields :: "sliceCursor \<Rightarrow> bytes kvs \<Rightarrow> bool" where
  "sc_yields c kvs \<longleftrightarrow> kvs = map (\<lambda>e. (ve_EncKey e, ve_Op e # ve_Value e)) (drop (sc_i c) (sc_entries c))"

interpretation slice_cursor: version_cursor sc_Valid sc_EncKey sc_Op sc_Value sc_Advance sc_Err sc_yields
proof unfold_locales
  fix c k v kvs
  show "\<not> sc_Valid c \<and> sc_Err c = None" if "sc_yields c []"
    using that by (simp add: sc_yields_def sc_Valid_def sc_Err_def)
  assume y: "sc_yields c ((k, v) # kvs)"
  then have "sc_i c < length (sc_entries c)" by (cases "sc_i c < length (sc_entries c)") (simp_all add: sc_yields_def)
  then show "sc_Valid c \<and> sc_EncKey c = k \<and> sc_Op c # sc_Value c = v \<and> sc_Err c = None \<and> sc_yields (sc_Advance c) kvs"
    using y by (auto simp: sc_yields_def sc_Valid_def sc_EncKey_def sc_Op_def sc_Value_def sc_Err_def sc_Advance_def
        Cons_nth_drop_Suc [symmetric])
qed

primrec vc_yields :: "versionCursor \<Rightarrow> bytes kvs \<Rightarrow> bool" where
  "vc_yields (SliceCursor c) kvs = sc_yields c kvs"
| "vc_yields (SstCursor it) kvs = it_yields it kvs"

interpretation vc: version_cursor vc_Valid vc_EncKey vc_Op vc_Value vc_Advance vc_Err vc_yields
proof unfold_locales
  fix c k v kvs
  show "\<not> vc_Valid c \<and> vc_Err c = None" if "vc_yields c []"
    using that slice_cursor.yields_Nil sst_cursor.yields_Nil by (cases c) auto
  show "vc_Valid c \<and> vc_EncKey c = k \<and> vc_Op c # vc_Value c = v \<and> vc_Err c = None \<and> vc_yields (vc_Advance c) kvs"
    if "vc_yields c ((k, v) # kvs)"
    using that slice_cursor.yields_Cons sst_cursor.yields_Cons by (cases c) auto
qed

interpretation cursor_heap: layer_heap hc_Less "\<lambda>c. vc_EncKey (hc_cur c)" hc_priority
  by unfold_locales (simp add: hc_Less_def)

subsection \<open>The merge iterator yields the merged layers\<close>

text \<open>The heap holds one cursor per layer with entries left, its priority the number of the layer.\<close>

definition heap_layers :: "heapCursor list \<Rightarrow> bytes kvs list \<Rightarrow> bool" where
  "heap_layers h R \<longleftrightarrow> is_heap hc_Less h \<and> distinct (map hc_priority h) \<and>
     hc_priority ` set h = {p. p < length R \<and> R ! p \<noteq> []} \<and>
     (\<forall>c\<in>set h. vc_yields (hc_cur c) (R ! hc_priority c))"

lemma heap_layersI:
  assumes "is_heap hc_Less h'" "mset h' = mset h" "distinct (map hc_priority h)"
    "hc_priority ` set h = {p. p < length R \<and> R ! p \<noteq> []}" "\<forall>c\<in>set h. vc_yields (hc_cur c) (R ! hc_priority c)"
  shows "heap_layers h' R"
proof -
  have "mset (map hc_priority h') = mset (map hc_priority h)" using assms(2) by simp
  then have "distinct (map hc_priority h')" using assms(3) mset_eq_imp_distinct_iff by blast
  then show ?thesis using assms mset_eq_setD [OF assms(2)] by (simp add: heap_layers_def)
qed

text \<open>The first cursor of the heap stands at the least entry, in the newest layer that has it.\<close>

lemma heap_layers_top:
  assumes h: "heap_layers (c # rest) R" and srt: "\<forall>a\<in>set R. kv_sorted a"
  shows "\<exists>k v t. R ! hc_priority c = (k, v) # t \<and> hc_priority c < length R \<and>
    (\<forall>a\<in>set R. \<forall>x\<in>set a. k \<le> fst x) \<and> (\<forall>q<hc_priority c. k \<notin> fst ` set (R ! q))"
proof -
  have hd: "vc_EncKey (hc_cur x) = fst (hd (R ! hc_priority x))" if x: "x \<in> set (c # rest)" for x
  proof -
    have "hc_priority x \<in> hc_priority ` set (c # rest)" using x by blast
    then have "R ! hc_priority x \<noteq> []" using h unfolding heap_layers_def by auto
    moreover have "vc_yields (hc_cur x) (R ! hc_priority x)" using h x unfolding heap_layers_def by blast
    ultimately show ?thesis using vc.current [of "hc_cur x"] by (cases "R ! hc_priority x") auto
  qed
  have "is_heap hc_Less (c # rest)" "hc_priority ` set (c # rest) = {p. p < length R \<and> R ! p \<noteq> []}"
    using h unfolding heap_layers_def by blast+
  then show ?thesis using cursor_heap.top_of_layers [of c rest R, OF _ _ hd srt] by blast
qed

lemma heap_layers_advance:
  assumes h: "heap_layers (c # rest) R" and p: "R ! hc_priority c = (k, v) # t" "hc_priority c < length R"
  defines "c' \<equiv> c\<lparr>hc_cur := vc_Advance (hc_cur c)\<rparr>"
  shows "vc_yields (hc_cur c') t"
    and "t \<noteq> [] \<Longrightarrow> heap_layers (heap_Fix hc_Less (c' # rest) 0) (R[hc_priority c := t])"
    and "t = [] \<Longrightarrow> \<exists>h'. heap_Pop hc_Less (c' # rest) = Some (c', h') \<and> heap_layers h' (R[hc_priority c := t])"
proof -
  let ?p = "hc_priority c" and ?R = "R[hc_priority c := t]"
  have y: "vc_yields (hc_cur c) ((k, v) # t)" using h p(1) by (simp add: heap_layers_def)
  then show y': "vc_yields (hc_cur c') t" using vc.advanced by (auto simp: c'_def)
  have hp: "is_heap hc_Less (c # rest)" and dist: "?p \<notin> hc_priority ` set rest" "distinct (map hc_priority rest)"
    and set: "insert ?p (hc_priority ` set rest) = {p. p < length R \<and> R ! p \<noteq> []}"
    using h by (auto simp: heap_layers_def)
  have rest: "hc_priority ` set rest = {q. q < length R \<and> q \<noteq> ?p \<and> R ! q \<noteq> []}" using set dist(1) by blast
  have yr: "\<forall>x\<in>set rest. vc_yields (hc_cur x) (?R ! hc_priority x)"
  proof
    fix x assume x: "x \<in> set rest"
    then have "hc_priority x \<noteq> ?p" using dist(1) by (metis image_eqI)
    then show "vc_yields (hc_cur x) (?R ! hc_priority x)" using h x by (simp add: heap_layers_def)
  qed
  show "heap_layers (heap_Fix hc_Less (c' # rest) 0) ?R" if "t \<noteq> []"
  proof (rule heap_layersI)
    show "is_heap hc_Less (heap_Fix hc_Less (c' # rest) 0)" using hp by (rule cursor_heap.Fix_top_heap)
    show "mset (heap_Fix hc_Less (c' # rest) 0) = mset (c' # rest)" by (rule heap_Fix_mset) simp
    show "distinct (map hc_priority (c' # rest))" using dist by (simp add: c'_def)
    show "hc_priority ` set (c' # rest) = {p. p < length ?R \<and> ?R ! p \<noteq> []}"
      using rest p(2) that by (auto simp: c'_def nth_list_update)
    show "\<forall>x\<in>set (c' # rest). vc_yields (hc_cur x) (?R ! hc_priority x)"
      using y' yr p(2) by (simp add: c'_def)
  qed
  show "\<exists>h'. heap_Pop hc_Less (c' # rest) = Some (c', h') \<and> heap_layers h' ?R" if "t = []"
  proof -
    obtain h' where h': "heap_Pop hc_Less (c' # rest) = Some (c', h')" "is_heap hc_Less h'" "mset h' = mset rest"
      using cursor_heap.Pop_top [OF hp, of c'] by blast
    have "heap_layers h' ?R"
      using h'(2,3) dist(2) rest yr \<open>t = []\<close> p(2)
      by (intro heap_layersI [of h' rest]) (auto simp: nth_list_update)
    then show ?thesis using h'(1) by blast
  qed
qed

primrec mi_yields :: "bytes kvs \<Rightarrow> mergeIterator \<Rightarrow> bool" where
  "mi_yields [] m \<longleftrightarrow> \<not> mi_valid m \<and> mi_err m = None"
| "mi_yields (p # kvs) m \<longleftrightarrow> mi_valid m \<and> mi_err m = None \<and> p = (mi_encKey m, mi_op m # mi_value m) \<and>
     (\<exists>m'. mi_Advance m = Some m' \<and> mi_yields kvs m')"

lemma mi_Advance_step:
  assumes h: "mi_h m = c # rest" "heap_layers (c # rest) R" and p: "R ! hc_priority c = (k, v) # t" "hc_priority c < length R"
  shows "\<exists>h'. heap_layers h' (R[hc_priority c := t]) \<and> mi_Advance m =
    (if mi_lastEnc m \<noteq> [] \<and> k = mi_lastEnc m then mi_Advance (m\<lparr>mi_h := h'\<rparr>)
     else Some (m\<lparr>mi_h := h', mi_lastEnc := k, mi_encKey := k, mi_op := vc_Op (hc_cur c), mi_value := vc_Value (hc_cur c),
                  mi_valid := True\<rparr>)) \<and> v = vc_Op (hc_cur c) # vc_Value (hc_cur c)"
proof -
  let ?c = "c\<lparr>hc_cur := vc_Advance (hc_cur c)\<rparr>"
  note adv = heap_layers_advance [OF h(2) p]
  have y: "vc_yields (hc_cur c) ((k, v) # t)" using h(2) p(1) by (simp add: heap_layers_def)
  then have cur: "vc_EncKey (hc_cur c) = k" "v = vc_Op (hc_cur c) # vc_Value (hc_cur c)" using vc.current [OF y] by auto
  have e: "vc_Err (vc_Advance (hc_cur c)) = None" "vc_Valid (vc_Advance (hc_cur c)) \<longleftrightarrow> t \<noteq> []"
    using vc.no_err vc.valid_iff adv(1) by auto
  obtain h' where h': "heap_layers h' (R[hc_priority c := t])"
      "(if t \<noteq> [] then Some (heap_Fix hc_Less (?c # rest) 0) else map_option snd (heap_Pop hc_Less (?c # rest))) = Some h'"
    using adv(2,3) by (cases "t = []") auto
  have "mi_Advance m =
    (if mi_lastEnc m \<noteq> [] \<and> k = mi_lastEnc m then mi_Advance (m\<lparr>mi_h := h'\<rparr>)
     else Some (m\<lparr>mi_h := h', mi_lastEnc := k, mi_encKey := k, mi_op := vc_Op (hc_cur c), mi_value := vc_Value (hc_cur c),
                  mi_valid := True\<rparr>))"
    by (subst mi_Advance.simps) (simp add: h(1) cur(1) e h'(2) Let_def cong: if_cong)
  then show ?thesis using h'(1) cur(2) by blast
qed

lemma mi_Advance_layers:
  assumes "heap_layers (mi_h m) R" "\<forall>a\<in>set R. kv_sorted a" "mi_err m = None"
    and "\<forall>a\<in>set R. \<forall>x\<in>set a. mi_lastEnc m \<le> fst x \<and> fst x \<noteq> []"
  shows "\<exists>m'. mi_Advance m = Some m' \<and> mi_yields (filter (\<lambda>x. fst x \<noteq> mi_lastEnc m) (merge_layers R)) m'"
  using assms
proof (induction "sum_list (map length R)" arbitrary: m R rule: less_induct)
  case less
  show ?case
  proof (cases "mi_h m")
    case Nil
    then have "\<forall>p<length R. R ! p = []" using less.prems(1) by (auto simp: heap_layers_def)
    then have "merge_layers R = []" by (intro merge_layers_empty) (metis in_set_conv_nth)
    moreover have "mi_Advance m = Some (m\<lparr>mi_valid := False\<rparr>)" using Nil by (simp add: mi_Advance.simps)
    ultimately show ?thesis using less.prems(3) by simp
  next
    case (Cons c rest)
    let ?p = "hc_priority c"
    have h: "heap_layers (c # rest) R" using less.prems(1) Cons by simp
    obtain k v t where top: "R ! ?p = (k, v) # t" "?p < length R" "\<forall>a\<in>set R. \<forall>x\<in>set a. k \<le> fst x"
        "\<forall>q<?p. k \<notin> fst ` set (R ! q)"
      using heap_layers_top [OF h less.prems(2)] by blast
    let ?R = "R[?p := t]"
    obtain h' where h': "heap_layers h' ?R" and adv: "mi_Advance m =
        (if mi_lastEnc m \<noteq> [] \<and> k = mi_lastEnc m then mi_Advance (m\<lparr>mi_h := h'\<rparr>)
         else Some (m\<lparr>mi_h := h', mi_lastEnc := k, mi_encKey := k, mi_op := vc_Op (hc_cur c), mi_value := vc_Value (hc_cur c),
                  mi_valid := True\<rparr>))" and v: "v = vc_Op (hc_cur c) # vc_Value (hc_cur c)"
      using mi_Advance_step [OF Cons h top(1,2)] by blast
    have kin: "(k, v) \<in> set (R ! ?p)" "R ! ?p \<in> set R" using top(1) nth_mem [OF top(2)] by simp_all
    have k: "mi_lastEnc m \<le> k" "k \<noteq> []" using less.prems(4) kin by force+
    have sub: "\<exists>b\<in>set R. x \<in> set b" if "a \<in> set ?R" "x \<in> set a" for a x
    proof -
      have "a = t \<or> a \<in> set R" using that(1) by (auto dest!: set_update_subset_insert [THEN subsetD])
      moreover have "x \<in> set (R ! ?p)" if "a = t" using top(1) that \<open>x \<in> set a\<close> by simp
      ultimately show ?thesis using kin(2) that(2) by blast
    qed
    have srt: "\<forall>a\<in>set ?R. kv_sorted a"
      using less.prems(2) kin(2) top(1) by (auto dest!: set_update_subset_insert [THEN subsetD])
    have len: "sum_list (map length ?R) < sum_list (map length R)"
      using top(1,2) elem_le_sum_list [of ?p "map length R"] by (simp add: map_update sum_list_update)
    have K: "\<forall>a\<in>set ?R. \<forall>x\<in>set a. mi_lastEnc m \<le> fst x \<and> fst x \<noteq> []"
        "\<forall>a\<in>set ?R. \<forall>x\<in>set a. k \<le> fst x \<and> fst x \<noteq> []"
      using less.prems(4) top(3) sub by blast+
    note step = merge_layers_step [OF top(2,1) less.prems(2) top(3,4)]
    show ?thesis
    proof (cases "k = mi_lastEnc m")
      case True
      have "\<exists>m'. mi_Advance (m\<lparr>mi_h := h'\<rparr>) = Some m' \<and>
          mi_yields (filter (\<lambda>x. fst x \<noteq> mi_lastEnc (m\<lparr>mi_h := h'\<rparr>)) (merge_layers ?R)) m'"
        using h' srt less.prems(3) K(1) by (intro less.hyps [OF len]) simp_all
      then show ?thesis using adv True k(2) step by simp
    next
      case False
      let ?m = "m\<lparr>mi_h := h', mi_lastEnc := k, mi_encKey := k, mi_op := vc_Op (hc_cur c), mi_value := vc_Value (hc_cur c),
                  mi_valid := True\<rparr>"
      have "\<exists>m'. mi_Advance ?m = Some m' \<and> mi_yields (filter (\<lambda>x. fst x \<noteq> mi_lastEnc ?m) (merge_layers ?R)) m'"
        using h' srt less.prems(3) K(2) by (intro less.hyps [OF len]) simp_all
      then have "mi_yields ((k, v) # filter (\<lambda>x. fst x \<noteq> k) (merge_layers ?R)) ?m" using less.prems(3) v by simp
      moreover have "fst x \<noteq> mi_lastEnc m" if x: "x \<in> set (merge_layers R)" for x
      proof -
        obtain a y where "a \<in> set R" "y \<in> set a" "fst y = fst x" using merge_key_in [OF less.prems(2) x] .
        then have "k \<le> fst x" using top(3) by metis
        then show ?thesis using k(1) False by auto
      qed
      then have "filter (\<lambda>x. fst x \<noteq> mi_lastEnc m) (merge_layers R) = merge_layers R" by (simp add: filter_id_conv)
      ultimately show ?thesis using adv False step by auto
    qed
  qed
qed

lemma newMergeIterator_yields:
  assumes y: "list_all2 vc_yields cs L" and srt: "\<forall>a\<in>set L. kv_sorted a" and ne: "\<forall>a\<in>set L. \<forall>x\<in>set a. fst x \<noteq> []"
  shows "\<exists>m. newMergeIterator cs = Some m \<and> mi_yields (merge_layers L) m"
proof -
  let ?h = "map (\<lambda>(i, c). \<lparr>hc_cur = c, hc_priority = i\<rparr>) (filter (\<lambda>(i, c). vc_Valid c) (enumerate 0 cs))"
  have len: "length cs = length L" using y by (rule list_all2_lengthD)
  have yi: "vc_yields (cs ! i) (L ! i)" "vc_Valid (cs ! i) \<longleftrightarrow> L ! i \<noteq> []" if "i < length L" for i
    using list_all2_nthD2 [OF y that] vc.valid_iff by auto
  have en: "(i, c) \<in> set (enumerate 0 cs) \<longleftrightarrow> i < length L \<and> c = cs ! i" for i c
    using len by (auto simp: in_set_enumerate_eq)
  have "map hc_priority ?h = map fst (filter (\<lambda>(i, c). vc_Valid c) (enumerate 0 cs))" by (auto simp: split_beta)
  moreover have "distinct (map fst (filter P (enumerate 0 cs)))" for P
    by (rule distinct_map_filter) (simp add: distinct_enumerate)
  ultimately have d: "distinct (map hc_priority ?h)" by metis
  have "heap_layers (heap_Init hc_Less ?h) L"
  proof (rule heap_layersI)
    show "is_heap hc_Less (heap_Init hc_Less ?h)" by (rule cursor_heap.Init_heap)
    show "mset (heap_Init hc_Less ?h) = mset ?h" by (rule heap_Init_mset)
    show "distinct (map hc_priority ?h)" by (rule d)
    show "hc_priority ` set ?h = {p. p < length L \<and> L ! p \<noteq> []}"
      using en yi(2) by (auto simp: image_iff split_beta)
    show "\<forall>c\<in>set ?h. vc_yields (hc_cur c) (L ! hc_priority c)" using en yi(1) by auto
  qed
  then have "\<exists>m'. newMergeIterator cs = Some m' \<and> mi_yields (filter (\<lambda>x. fst x \<noteq> []) (merge_layers L)) m'"
    using mi_Advance_layers [of "\<lparr>mi_h = heap_Init hc_Less ?h, mi_encKey = [], mi_value = [], mi_op = 0, mi_valid = False,
        mi_err = None, mi_lastEnc = []\<rparr>" L] srt ne by (simp add: newMergeIterator_def)
  moreover have "fst x \<noteq> []" if x: "x \<in> set (merge_layers L)" for x
  proof -
    obtain a z where "a \<in> set L" "z \<in> set a" "fst z = fst x" using merge_key_in [OF srt x] .
    then show ?thesis using ne by metis
  qed
  then have "filter (\<lambda>x. fst x \<noteq> []) (merge_layers L) = merge_layers L" by (simp add: filter_id_conv)
  ultimately show ?thesis by simp
qed

subsection \<open>The iterator yields the visible values\<close>

definition live :: "(u64 \<times> bytes) option \<Rightarrow> bytes option" where
  "live r = (case r of Some (_, opb # v) \<Rightarrow> if opb = OpPut then Some v else None | _ \<Rightarrow> None)"

text \<open>The reference: the entries grouped by user key, the visible put of each group.\<close>

function scan_kvs :: "u64 \<Rightarrow> bytes kvs \<Rightarrow> (bytes \<times> bytes) list" where
  "scan_kvs snap [] = []"
| "scan_kvs snap (p # kvs) =
     (let uk = mvcc_UserKey (fst p);
          grp = p # takeWhile (\<lambda>q. mvcc_UserKey (fst q) = uk) kvs
      in (case live (mvcc_read grp uk snap) of None \<Rightarrow> [] | Some v \<Rightarrow> [(uk, v)]) @
         scan_kvs snap (dropWhile (\<lambda>q. mvcc_UserKey (fst q) = uk) kvs))"
  by pat_completeness auto
termination by (relation "measure (\<lambda>(snap, kvs). length kvs)") (auto simp: length_dropWhile_le le_imp_less_Suc)

lemma clean_tail: "clean_kvs (p # kvs) \<Longrightarrow> clean_kvs kvs"
  by (simp add: clean_kvs_def)

lemma clean_append: "clean_kvs (xs @ ys) \<Longrightarrow> clean_kvs xs \<and> clean_kvs ys"
  by (auto simp: clean_kvs_def sorted_wrt_append)

lemma mvcc_Decode_sel:
  "snd (snd (mvcc_Decode k)) \<Longrightarrow> fst (mvcc_Decode k) = mvcc_UserKey k \<and> fst (snd (mvcc_Decode k)) = mvcc_Timestamp k"
  using mvcc_Decode_ok_iff [of k] by auto

lemma read_group:
  assumes "clean_kvs grp" "\<forall>q\<in>set grp. mvcc_UserKey (fst q) = uk"
  shows "mvcc_read grp uk snap =
    map_option (\<lambda>q. (mvcc_Timestamp (fst q), snd q)) (find (\<lambda>q. mvcc_Timestamp (fst q) \<le> snap) grp)"
  using assms
proof (induction grp)
  case (Cons p grp)
  obtain ts where p: "fst p = mvcc_Encode uk ts" "ff_free uk" "small_ts ts"
    using Cons.prems by (metis clean_keyE clean_kvs_def list.set_intros(1) mvcc_UserKey_Encode)
  have vs: "mvcc_versions (p # grp) uk = (ts, snd p) # mvcc_versions grp uk"
    using p(1) by (cases p) (simp add: mvcc_versions_def)
  have lt: "fst q < ts" if "q \<in> set (mvcc_versions grp uk)" for q
  proof -
    obtain t v where q: "q = (t, v)" by (cases q)
    have in1: "(mvcc_Encode uk t, v) \<in> set grp" using that by (simp add: q set_mvcc_versions)
    then have "mvcc_Encode uk ts < mvcc_Encode uk t" using Cons.prems(1) p(1) by (force simp: clean_kvs_def)
    moreover have "small_ts t" using Cons.prems(1) in1 by (force simp: clean_kvs_def)
    ultimately show ?thesis using p(2,3) q by (simp add: mvcc_Encode_less_iff)
  qed
  show ?case
  proof (cases "ts \<le> snap")
    case True
    have "newest ((ts, snd p) # filter (\<lambda>q. fst q \<le> snap) (mvcc_versions grp uk)) = Some (ts, snd p)"
      using lt by (intro newest_eqI) (auto simp: order.strict_iff_order)
    then show ?thesis using True p(1) by (simp add: mvcc_read_def vs)
  next
    case False
    then show ?thesis using Cons.IH [OF clean_tail [OF Cons.prems(1)]] Cons.prems(2) p(1) by (simp add: mvcc_read_def vs)
  qed
qed (simp add: mvcc_read_def mvcc_versions_def)

lemma di_versions_group:
  assumes "mi_yields (grp @ rest) m" "\<forall>q\<in>set (grp @ rest). snd (snd (mvcc_Decode (fst q)))"
    "\<forall>q\<in>set grp. mvcc_UserKey (fst q) = uk" "rest \<noteq> [] \<Longrightarrow> mvcc_UserKey (fst (hd rest)) \<noteq> uk"
    and "\<forall>q\<in>set grp. snd q \<noteq> []"
  shows "\<exists>m'. mi_yields rest m' \<and> di_versions uk snap decided emit m = Some (None,
    (if decided then emit else case find (\<lambda>q. mvcc_Timestamp (fst q) \<le> snap) grp of
       None \<Rightarrow> emit | Some q \<Rightarrow> if hd (snd q) = OpPut then Some (tl (snd q)) else emit), m')"
  using assms
proof (induction grp arbitrary: m decided emit)
  case Nil
  show ?case
  proof (cases rest)
    case Nil
    then show ?thesis using Nil.prems(1) by (auto simp: di_versions.simps)
  next
    case (Cons q rest')
    then have "mi_valid m" "mi_encKey m = fst q" using Nil.prems(1) by auto
    moreover have "fst (mvcc_Decode (fst q)) \<noteq> uk" using Nil.prems(2,4) Cons by (simp add: mvcc_Decode_sel)
    ultimately have "di_versions uk snap decided emit m = Some (None, emit, m)"
      using Nil.prems(2) Cons by (subst di_versions.simps) (simp add: Let_def)
    then show ?thesis using Nil.prems(1) by auto
  qed
next
  case (Cons q grp)
  obtain m1 where m: "mi_valid m" "q = (mi_encKey m, mi_op m # mi_value m)" "mi_Advance m = Some m1" "mi_yields (grp @ rest) m1"
    using Cons.prems(1) by auto
  have e: "mi_err m1 = None" using m(4) by (cases "grp @ rest") auto
  have d: "snd (snd (mvcc_Decode (mi_encKey m)))" "fst (mvcc_Decode (mi_encKey m)) = uk"
      "fst (snd (mvcc_Decode (mi_encKey m))) = mvcc_Timestamp (mi_encKey m)"
    using Cons.prems(2,3) m(2) by (simp_all add: mvcc_Decode_sel)
  let ?vis = "\<not> decided \<and> mvcc_Timestamp (mi_encKey m) \<le> snap"
  let ?emit = "if ?vis \<and> mi_op m = OpPut then Some (mi_value m) else emit"
  have st: "di_versions uk snap decided emit m = di_versions uk snap (decided \<or> ?vis) ?emit m1"
    using m(1,3) e d by (subst di_versions.simps) (simp add: Let_def)
  show ?case
    using Cons.IH [OF m(4), of "decided \<or> ?vis" ?emit] Cons.prems(2-) m(2) unfolding st by auto
qed

lemma di_loop_kvs:
  assumes "mi_yields kvs (di_merge it)" "clean_kvs kvs" "\<forall>q\<in>set kvs. snd q \<noteq> []"
  shows "\<exists>b it' kvs'. di_loop it = Some (b, it') \<and> di_err it' = di_err it \<and> di_closed it' = di_closed it \<and>
    di_snapshot it' = di_snapshot it \<and>
    (if b then scan_kvs (di_snapshot it) kvs = (di_key it', di_value it') # scan_kvs (di_snapshot it) kvs' \<and>
       di_done it' = di_done it \<and> mi_yields kvs' (di_merge it') \<and> clean_kvs kvs' \<and> set kvs' \<subseteq> set kvs \<and> length kvs' < length kvs
     else scan_kvs (di_snapshot it) kvs = [])"
  using assms
proof (induction "length kvs" arbitrary: kvs it rule: less_induct)
  case less
  let ?s = "di_snapshot it" and ?m = "di_merge it"
  show ?case
  proof (cases kvs)
    case Nil
    then show ?thesis using less.prems(1) by (auto simp: di_loop.simps)
  next
    case (Cons p kvs')
    let ?uk = "mvcc_UserKey (fst p)"
    let ?same = "\<lambda>q. mvcc_UserKey (fst q) = ?uk"
    let ?grp = "p # takeWhile ?same kvs'" and ?rest = "dropWhile ?same kvs'"
    have dec: "\<forall>q\<in>set kvs. snd (snd (mvcc_Decode (fst q)))" using less.prems(2) by (auto simp: clean_kvs_def clean_key_def)
    have split: "kvs = ?grp @ ?rest" using Cons by simp
    have cl: "clean_kvs ?grp" "clean_kvs ?rest" using clean_append [of ?grp ?rest] less.prems(2) split by simp_all
    have hd: "?rest \<noteq> [] \<Longrightarrow> \<not> ?same (hd ?rest)" by (rule hd_dropWhile)
    have same: "\<forall>q\<in>set ?grp. ?same q" by (auto dest: set_takeWhileD)
    have ne: "\<forall>q\<in>set ?grp. snd q \<noteq> []" using less.prems(3) Cons by (auto dest: set_takeWhileD)
    let ?v = "live (mvcc_read ?grp ?uk ?s)"
    have rd: "(case find (\<lambda>q. mvcc_Timestamp (fst q) \<le> ?s) ?grp of
       None \<Rightarrow> None | Some q \<Rightarrow> if hd (snd q) = OpPut then Some (tl (snd q)) else None) = ?v"
    proof (cases "find (\<lambda>q. mvcc_Timestamp (fst q) \<le> ?s) ?grp")
      case (Some q)
      then have "q \<in> set ?grp" by (metis find_Some_iff nth_mem)
      then obtain b bs where "snd q = b # bs" using ne by (meson neq_Nil_conv)
      then show ?thesis using Some read_group [OF cl(1) same, of ?s] by (simp add: live_def)
    qed (use read_group [OF cl(1) same, of ?s] in \<open>simp add: live_def\<close>)
    obtain m' where m': "mi_yields ?rest m'" "di_versions ?uk ?s False None ?m = Some (None, ?v, m')"
      using di_versions_group [OF less.prems(1) [unfolded split] dec [unfolded split] same hd ne, of ?s False None]
      unfolding if_False rd by blast
    have mv: "mi_valid ?m" "mi_encKey ?m = fst p" using less.prems(1) Cons by auto
    have sk: "scan_kvs ?s kvs = (case ?v of None \<Rightarrow> [] | Some v \<Rightarrow> [(?uk, v)]) @ scan_kvs ?s ?rest"
      using Cons by (simp add: Let_def)
    have len: "length ?rest < length kvs" using Cons length_dropWhile_le [of ?same kvs'] by (simp add: le_imp_less_Suc)
    have sub: "set ?rest \<subseteq> set kvs" using Cons by (auto dest: set_dropWhileD)
    have dp: "snd (snd (mvcc_Decode (fst p)))" "fst (mvcc_Decode (fst p)) = ?uk" using dec Cons by (simp_all add: mvcc_Decode_sel)
    show ?thesis
    proof (cases ?v)
      case None
      have "di_loop it = di_loop (it\<lparr>di_merge := m'\<rparr>)"
        using mv dp m'(2) None by (subst di_loop.simps) (simp add: Let_def)
      moreover have "\<exists>b it' kvs'. di_loop (it\<lparr>di_merge := m'\<rparr>) = Some (b, it') \<and>
          di_err it' = di_err (it\<lparr>di_merge := m'\<rparr>) \<and> di_closed it' = di_closed (it\<lparr>di_merge := m'\<rparr>) \<and>
          di_snapshot it' = di_snapshot (it\<lparr>di_merge := m'\<rparr>) \<and>
          (if b then scan_kvs (di_snapshot (it\<lparr>di_merge := m'\<rparr>)) ?rest =
               (di_key it', di_value it') # scan_kvs (di_snapshot (it\<lparr>di_merge := m'\<rparr>)) kvs' \<and>
             di_done it' = di_done (it\<lparr>di_merge := m'\<rparr>) \<and> mi_yields kvs' (di_merge it') \<and> clean_kvs kvs' \<and>
             set kvs' \<subseteq> set ?rest \<and> length kvs' < length ?rest
           else scan_kvs (di_snapshot (it\<lparr>di_merge := m'\<rparr>)) ?rest = [])"
        using m'(1) cl(2) sub less.prems(3) by (intro less.hyps [OF len]) auto
      ultimately show ?thesis using sk None sub len by (fastforce split: if_splits)
    next
      case (Some v)
      let ?it = "it\<lparr>di_merge := m', di_key := ?uk, di_value := v\<rparr>"
      have "di_loop it = Some (True, ?it)" using mv dp m'(2) Some by (subst di_loop.simps) (simp add: Let_def)
      then show ?thesis using sk Some m'(1) cl(2) sub len by (intro exI [of _ True] exI [of _ ?it] exI [of _ ?rest]) auto
    qed
  qed
qed

lemma di_drain_kvs:
  assumes "mi_yields kvs (di_merge it)" "clean_kvs kvs" "\<forall>q\<in>set kvs. snd q \<noteq> []"
    and "\<not> di_done it" "\<not> di_closed it" "di_err it = None"
  shows "\<exists>it'. di_drain it acc = Some (acc @ scan_kvs (di_snapshot it) kvs, it') \<and> di_err it' = None"
  using assms
proof (induction "length kvs" arbitrary: kvs it acc rule: less_induct)
  case less
  obtain b it' kvs' where n: "di_loop it = Some (b, it')" "di_err it' = di_err it" "di_closed it' = di_closed it"
      "di_snapshot it' = di_snapshot it"
    and c: "if b then scan_kvs (di_snapshot it) kvs = (di_key it', di_value it') # scan_kvs (di_snapshot it) kvs' \<and>
       di_done it' = di_done it \<and> mi_yields kvs' (di_merge it') \<and> clean_kvs kvs' \<and> set kvs' \<subseteq> set kvs \<and> length kvs' < length kvs
     else scan_kvs (di_snapshot it) kvs = []"
    using di_loop_kvs [OF less.prems(1-3)] by blast
  have nx: "di_Next it = Some (b, it')" using n(1) less.prems(4-6) by (simp add: di_Next_def)
  show ?case
  proof (cases b)
    case True
    have "\<exists>it''. di_drain it' (acc @ [(di_key it', di_value it')]) =
        Some ((acc @ [(di_key it', di_value it')]) @ scan_kvs (di_snapshot it') kvs', it'') \<and> di_err it'' = None"
      using c True less.prems n(2,3) by (intro less.hyps) auto
    then show ?thesis using nx True c n(4) by (subst di_drain.simps) simp
  next
    case False
    then show ?thesis using nx c n(2) less.prems(6) by (subst di_drain.simps) simp
  qed
qed

text \<open>In clean entries the versions of a user key are together.\<close>

lemma clean_groups:
  assumes cl: "clean_kvs (grp @ rest)" and grp: "p \<in> set grp" "\<forall>q\<in>set grp. mvcc_UserKey (fst q) = uk"
    and hd: "rest \<noteq> [] \<Longrightarrow> mvcc_UserKey (fst (hd rest)) \<noteq> uk"
  shows "q \<in> set rest \<Longrightarrow> key_before uk (mvcc_UserKey (fst q))"
    and "mvcc_read (grp @ rest) uk' snap = (if uk' = uk then mvcc_read grp uk' snap else mvcc_read rest uk' snap)"
proof -
  have enc: "\<exists>ts. fst q = mvcc_Encode (mvcc_UserKey (fst q)) ts \<and> ff_free (mvcc_UserKey (fst q)) \<and> small_ts ts"
    if "q \<in> set grp \<or> q \<in> set rest" for q
  proof -
    have "clean_key (fst q)" using that cl by (auto simp: clean_kvs_def)
    then show ?thesis by (metis clean_keyE mvcc_UserKey_Encode)
  qed
  have lt: "x \<in> set grp \<Longrightarrow> y \<in> set rest \<Longrightarrow> fst x < fst y" for x y using cl by (auto simp: clean_kvs_def sorted_wrt_append)
  have before: "key_before uk (mvcc_UserKey (fst q))" if q: "q \<in> set rest" for q
  proof -
    obtain r rest' where r: "rest = r # rest'" using q by (cases rest) auto
    have "key_before uk (mvcc_UserKey (fst r))"
      using lt [OF grp(1), of r] enc [of p] enc [of r] grp hd r by (metis list.sel(1) list.set_intros(1) list.discI mvcc_Encode_less_iff)
    moreover have "q = r \<or> fst r < fst q" using cl q r by (auto simp: clean_kvs_def sorted_wrt_append)
    then have "q = r \<or> key_before (mvcc_UserKey (fst r)) (mvcc_UserKey (fst q)) \<or> mvcc_UserKey (fst r) = mvcc_UserKey (fst q)"
      using enc [of q] enc [of r] q r by (metis list.set_intros(1) mvcc_Encode_less_iff)
    ultimately show ?thesis using key_before_trans by metis
  qed
  then show "q \<in> set rest \<Longrightarrow> key_before uk (mvcc_UserKey (fst q))" .
  have "mvcc_UserKey (fst q) \<noteq> uk" if "q \<in> set rest" for q using before [OF that] by auto
  then have "mvcc_versions rest uk = []" by (force simp: mvcc_versions_def filter_empty_conv)
  moreover have "mvcc_versions grp uk' = []" if "uk' \<noteq> uk" using that grp(2) by (auto simp: mvcc_versions_def filter_empty_conv)
  ultimately show "mvcc_read (grp @ rest) uk' snap = (if uk' = uk then mvcc_read grp uk' snap else mvcc_read rest uk' snap)"
    by (simp add: mvcc_read_def mvcc_versions_append)
qed

lemma live_read_in:
  assumes "live (mvcc_read kvs uk snap) = Some v" obtains t w where "(mvcc_Encode uk t, w) \<in> set kvs"
proof -
  have "mvcc_versions kvs uk \<noteq> []" using assms by (auto simp: live_def mvcc_read_def)
  then obtain x where "x \<in> set (mvcc_versions kvs uk)" by (meson last_in_set)
  then show thesis using that set_mvcc_versions [of "fst x" "snd x" kvs uk] by simp
qed

text \<open>The reference lists the visible values of all keys, in the order of the encoded keys.\<close>

lemma scan_kvs_spec:
  "clean_kvs M \<Longrightarrow> sorted_wrt key_before (map fst (scan_kvs snap M)) \<and>
     (\<forall>uk v. (uk, v) \<in> set (scan_kvs snap M) \<longleftrightarrow> live (mvcc_read M uk snap) = Some v)"
proof (induction snap M rule: scan_kvs.induct)
  case (1 snap)
  then show ?case by (simp add: mvcc_read_def mvcc_versions_def live_def)
next
  case (2 snap p kvs)
  let ?uk = "mvcc_UserKey (fst p)"
  let ?same = "\<lambda>q. mvcc_UserKey (fst q) = ?uk"
  define grp rest where "grp = p # takeWhile ?same kvs" and "rest = dropWhile ?same kvs"
  have M: "p # kvs = grp @ rest" by (simp add: grp_def rest_def)
  have cl: "clean_kvs (grp @ rest)" "clean_kvs rest" using 2(2) clean_append [of grp rest] unfolding M by blast+
  have IH: "sorted_wrt key_before (map fst (scan_kvs snap rest))"
      "\<And>uk v. (uk, v) \<in> set (scan_kvs snap rest) \<longleftrightarrow> live (mvcc_read rest uk snap) = Some v"
    using 2(1) [OF refl refl] cl(2) unfolding rest_def by blast+
  have "p \<in> set grp" "\<forall>q\<in>set grp. ?same q" by (auto simp: grp_def dest: set_takeWhileD)
  moreover have "rest \<noteq> [] \<Longrightarrow> \<not> ?same (hd rest)" unfolding rest_def by (rule hd_dropWhile)
  ultimately have before: "\<And>q. q \<in> set rest \<Longrightarrow> key_before ?uk (mvcc_UserKey (fst q))"
    and rd: "\<And>uk'. mvcc_read (grp @ rest) uk' snap = (if uk' = ?uk then mvcc_read grp uk' snap else mvcc_read rest uk' snap)"
    using clean_groups [OF cl(1)] by blast+
  have keys: "key_before ?uk uk" if l: "live (mvcc_read rest uk snap) = Some v" for uk v
  proof -
    obtain t w where "(mvcc_Encode uk t, w) \<in> set rest" using live_read_in [OF l] .
    then show ?thesis using before by fastforce
  qed
  have sk: "scan_kvs snap (p # kvs) = (case live (mvcc_read grp ?uk snap) of None \<Rightarrow> [] | Some v \<Rightarrow> [(?uk, v)]) @ scan_kvs snap rest"
    by (simp add: Let_def grp_def rest_def)
  have ks: "key_before ?uk uk" if "uk \<in> fst ` set (scan_kvs snap rest)" for uk using that keys IH(2) by auto
  then have srt: "sorted_wrt key_before (map fst (scan_kvs snap (p # kvs)))"
    unfolding sk using IH(1) by (auto simp: sorted_wrt_append split: option.splits)
  have "(uk, v) \<in> set (scan_kvs snap (p # kvs)) \<longleftrightarrow> live (mvcc_read (p # kvs) uk snap) = Some v" for uk v
    unfolding sk rd [folded M] using IH(2) keys [of ?uk] by (cases "uk = ?uk") (auto split: option.splits)
  then show ?case using srt by blast
qed

subsection \<open>A scan of a database\<close>

definition stored_kvs :: "bytes kvs \<Rightarrow> bool" where
  "stored_kvs kvs \<longleftrightarrow> (\<forall>q\<in>set kvs. snd q \<noteq> [])"

lemma scan_memtable_yields:
  assumes "mt_repr m kvs" "clean_kvs kvs" "stored_kvs kvs"
  shows "\<exists>c. scan_memtable start end1 m = Some c \<and> vc_yields c (seek_range start end1 kvs)"
proof -
  have dec: "\<forall>p\<in>set kvs. snd (snd (mvcc_Decode (fst p)))" using assms(2) by (auto simp: clean_kvs_def clean_key_def)
  have "map (\<lambda>e. (ve_EncKey e, ve_Op e # ve_Value e)) (map version_entry ps) = ps" if "set ps \<subseteq> set kvs" for ps
  proof -
    have "(ve_EncKey (version_entry p), ve_Op (version_entry p) # ve_Value (version_entry p)) = p" if "p \<in> set ps" for p
    proof -
      have "snd p \<noteq> []" using assms(3) \<open>set ps \<subseteq> set kvs\<close> that by (auto simp: stored_kvs_def)
      then show ?thesis by (cases p; cases "snd p") (auto simp: version_entry_def decodeValue_def)
    qed
    then show ?thesis by (simp add: map_idI)
  qed
  moreover have "set (seek_range start end1 kvs) \<subseteq> set kvs" by (auto simp: kv_seek_def dest!: set_takeWhileD set_dropWhileD)
  ultimately show ?thesis
    using mt_RangeSnapshot_seek [OF assms(1) dec, of start end1] by (simp add: scan_memtable_def sc_yields_def)
qed

lemma scan_tables_yields:
  "list_all2 sst_holds rs sk \<Longrightarrow>
     \<exists>cs. scan_tables start end1 rs = Some (Inr cs) \<and> list_all2 vc_yields cs (map (seek_range start end1) sk)"
proof (induction rule: list_all2_induct)
  case (Cons r rs kvs sk)
  obtain bs where bs: "sst_repr r bs" "kvs = kvs_of_recs (concat bs)" using Cons(1) by (auto simp: sst_holds_def)
  then show ?case using it_New_yields [OF bs(1), of start end1] Cons.IH by auto
qed simp

lemma scan_cursors_yield:
  assumes "db_layers db L" "layers_ok L" "\<forall>kvs\<in>set L. stored_kvs kvs"
  shows "\<exists>cs. scan_cursors start end1 db = Some (Inr cs) \<and> list_all2 vc_yields cs (map (seek_range start end1) L)"
proof -
  obtain mk fk sk where L: "L = mk # fk @ sk" "mt_repr (db_memtable db) mk"
      "list_all2 mt_repr (case db_frozen db of None \<Rightarrow> [] | Some m \<Rightarrow> [m]) fk" "list_all2 sst_holds (db_sstables db) sk"
    using assms(1) by (auto simp: db_layers_def)
  have cl: "\<forall>kvs\<in>set L. clean_kvs kvs" using assms(2) by (simp add: layers_ok_def)
  obtain a where a: "scan_memtable start end1 (db_memtable db) = Some a" "vc_yields a (seek_range start end1 mk)"
    using scan_memtable_yields [OF L(2), of start end1] cl assms(3) L(1) by auto
  obtain f where f: "(case db_frozen db of None \<Rightarrow> Some [] | Some fm \<Rightarrow> map_option (\<lambda>c. [c]) (scan_memtable start end1 fm)) = Some f"
      "list_all2 vc_yields f (map (seek_range start end1) fk)"
  proof (cases "db_frozen db")
    case (Some fm)
    then obtain k where k: "fk = [k]" "mt_repr fm k" using L(3) by (auto simp: list_all2_Cons1)
    then show thesis using that scan_memtable_yields [OF k(2), of start end1] cl assms(3) L(1) Some by auto
  qed (use L(3) that in auto)
  obtain cs where "scan_tables start end1 (db_sstables db) = Some (Inr cs)" "list_all2 vc_yields cs (map (seek_range start end1) sk)"
    using scan_tables_yields [OF L(4)] by blast
  then show ?thesis using a f L(1) by (auto simp: scan_cursors_def intro!: list_all2_appendI)
qed

lemma seek_range_clean: "clean_kvs kvs \<Longrightarrow> clean_kvs (seek_range start end1 kvs)"
proof -
  assume c: "clean_kvs kvs"
  obtain a b where "kvs = a @ seek_range start end1 kvs @ b"
    unfolding kv_seek_def by (metis append.assoc takeWhile_dropWhile_id)
  then show ?thesis using c clean_append by metis
qed

lemma open_scan_drains:
  assumes "list_all2 vc_yields cs L" "\<forall>a\<in>set L. clean_kvs a \<and> stored_kvs a"
  shows "\<exists>it it'. open_scan cs snap = Some it \<and> di_drain it [] = Some (scan_kvs snap (merge_layers L), it') \<and> di_err it' = None"
proof -
  have srt: "\<forall>a\<in>set L. kv_sorted a" using assms(2) by (simp add: clean_kvs_def)
  have "fst x \<noteq> []" if "a \<in> set L" "x \<in> set a" for a x
    using that assms(2) clean_keyE [of "fst x"] by (metis clean_kvs_def mvcc_Encode_neq_Nil)
  then obtain m where m: "newMergeIterator cs = Some m" "mi_yields (merge_layers L) m"
    using newMergeIterator_yields [OF assms(1) srt] by blast
  have cl: "clean_kvs (merge_layers L)" using assms(2) by (intro clean_merge) simp
  have st: "\<forall>q\<in>set (merge_layers L). snd q \<noteq> []"
  proof
    fix q assume "q \<in> set (merge_layers L)"
    then have "map_of (merge_layers L) (fst q) = Some (snd q)" using kv_sorted_distinct [OF kv_sorted_merge [of L]] by simp
    then have "map_of (concat L) (fst q) = Some (snd q)" using map_of_merge [OF srt] by simp
    then have "(fst q, snd q) \<in> set (concat L)" by (rule map_of_SomeD)
    then obtain a where "a \<in> set L" "q \<in> set a" by auto
    then show "snd q \<noteq> []" using assms(2) unfolding stored_kvs_def by blast
  qed
  have e: "mi_err m = None" using m(2) by (cases "merge_layers L") auto
  show ?thesis
    using di_drain_kvs [of "merge_layers L" "\<lparr>di_merge = m, di_snapshot = snap, di_key = [], di_value = [], di_err = None,
                      di_done = False, di_closed = False\<rparr>" "[]"] m cl st e by (auto simp: open_scan_def)
qed

lemma db_inv_stored:
  assumes "db_inv db sk wh orph" "kvs \<in> set (kvs_of_writes (hist_writes wh) # sk)"
  shows "stored_kvs kvs"
proof -
  have "stored_kvs (kvs_of_writes ws)" for ws
    using kvs_of_writes_in [of _ _ ws] by (auto simp: stored_kvs_def) (metis list.distinct(1) mem_write.exhaust write_stored.simps)
  moreover have "list_all2 table_holds (db_sstables db) sk" using assms(1) by (simp add: db_inv_def disk_ok_def)
  then have "stored_kvs kvs" if "kvs \<in> set sk" for kvs
    using that by (auto simp: list_all2_conv_all_nth in_set_conv_nth table_holds_def sst_holds_def kvs_of_recs_def stored_kvs_def)
  ultimately show ?thesis using assms(2) by auto
qed

lemma live_answer: "live r = Some v \<longleftrightarrow> get_answer r = Inr v \<and> (\<exists>t b bs. r = Some (t, b # bs) \<and> b = OpPut)"
  by (auto simp: live_def get_answer_def read_result_def split: option.splits list.splits if_splits)

text \<open>All scans: the result lists the live values of the restricted layers.\<close>

lemma db_scan_layers:
  assumes "db_inv db sk wh []" "L = kvs_of_writes (hist_writes wh) # sk"
  shows "\<exists>cs it it'. scan_cursors start end1 db = Some (Inr cs) \<and> open_scan cs snap = Some it \<and>
    di_drain it [] = Some (scan_kvs snap (merge_layers (map (seek_range start end1) L)), it') \<and> di_err it' = None"
    and "clean_kvs (merge_layers (map (seek_range start end1) L))"
    and "mvcc_read (merge_layers (map (seek_range start end1) L)) uk snap' =
      mvcc_read (concat (map (seek_range start end1) L)) uk snap'"
proof -
  have lay: "db_layers db L" "layers_ok L" using db_inv_layers [OF assms(1)] assms(2) by auto
  have st: "\<forall>kvs\<in>set L. stored_kvs kvs" using db_inv_stored [OF assms(1)] assms(2) by blast
  have cl: "\<forall>kvs\<in>set L. clean_kvs kvs" using lay(2) by (simp add: layers_ok_def)
  have sub: "set (seek_range start end1 kvs) \<subseteq> set kvs" for kvs :: "bytes kvs"
    by (auto simp: kv_seek_def dest!: set_takeWhileD set_dropWhileD)
  have L: "\<forall>a\<in>set (map (seek_range start end1) L). clean_kvs a \<and> stored_kvs a"
  proof
    fix a assume "a \<in> set (map (seek_range start end1) L)"
    then obtain kvs where "kvs \<in> set L" "a = seek_range start end1 kvs" by auto
    then show "clean_kvs a \<and> stored_kvs a"
      using seek_range_clean [of kvs end1 start] cl st sub [of kvs] unfolding stored_kvs_def by blast
  qed
  show "clean_kvs (merge_layers (map (seek_range start end1) L))" using L by (intro clean_merge) blast
  show "mvcc_read (merge_layers (map (seek_range start end1) L)) uk snap' =
      mvcc_read (concat (map (seek_range start end1) L)) uk snap'"
    using L by (intro mvcc_read_merge) (metis clean_kvs_def)
  obtain cs where cs: "scan_cursors start end1 db = Some (Inr cs)" "list_all2 vc_yields cs (map (seek_range start end1) L)"
    using scan_cursors_yield [OF lay st] by blast
  then show "\<exists>cs it it'. scan_cursors start end1 db = Some (Inr cs) \<and> open_scan cs snap = Some it \<and>
    di_drain it [] = Some (scan_kvs snap (merge_layers (map (seek_range start end1) L)), it') \<and> di_err it' = None"
    using open_scan_drains [OF cs(2) L, of snap] by blast
qed

lemma seek_range_all: "seek_range None None kvs = kvs"
  by (simp add: kv_seek_def)

lemma scan_in_range:
  assumes "\<And>kvs. kvs \<in> set L \<Longrightarrow> f kvs = filter (\<lambda>p. R (mvcc_UserKey (fst p))) kvs"
  shows "mvcc_read (concat (map f L)) uk snap = (if R uk then mvcc_read (concat L) uk snap else None)"
proof -
  have "mvcc_versions (concat (map f L)) uk = (if R uk then mvcc_versions (concat L) uk else [])"
    using assms
  proof (induction L)
    case (Cons kvs L)
    have "mvcc_versions (f kvs) uk = (if R uk then mvcc_versions kvs uk else [])"
      using Cons.prems [of kvs] by (auto simp: mvcc_versions_def filter_empty_conv intro!: arg_cong [where f = "map _"] filter_cong)
    then show ?case using Cons by (simp add: mvcc_versions_append)
  qed (simp add: mvcc_versions_def)
  then show ?thesis by (simp add: mvcc_read_def)
qed

lemma hist_read_dirty:
  assumes "list_all commit_ok h" "\<not> ff_free k" shows "hist_read h k snap = None"
proof -
  have "k \<notin> cm_keys c" if "c \<in> set h" for c
    using assms that by (fastforce simp: list_all_iff commit_ok_def write_ok_def)
  then have "hist_read h k (- 1) = None" by (simp add: hist_read_none)
  then show ?thesis by (simp add: hist_read_def)
qed

lemma hist_values_put:
  assumes "list_all commit_ok h" "hist_read h k snap = Some (t, s)"
  shows "\<exists>b bs. s = b # bs \<and> (b = OpPut \<or> b = OpDelete)"
proof -
  have "(t, s) \<in> set (write_versions (hist_writes h) k)"
    using newest_in_set assms(2) by (fastforce simp: hist_read_def)
  then obtain w where "w \<in> set (hist_writes h)" "s = write_stored w" by (auto simp: write_versions_def)
  moreover have "\<exists>b bs. write_stored w = b # bs \<and> (b = OpPut \<or> b = OpDelete)" by (cases w) simp_all
  ultimately show ?thesis by simp
qed

lemma live_hist:
  assumes "list_all commit_ok h" shows "live (hist_read h k snap) = Some v \<longleftrightarrow> get_answer (hist_read h k snap) = Inr v"
proof (cases "hist_read h k snap")
  case (Some p)
  then obtain b bs where "snd p = b # bs" "b = OpPut \<or> b = OpDelete" using hist_values_put [OF assms, of k snap "fst p" "snd p"] by auto
  then show ?thesis using Some by (cases p) (auto simp: live_def get_answer_def read_result_def)
qed (simp add: live_def get_answer_def read_result_def)

lemma key_before_distinct: "sorted_wrt key_before ks \<Longrightarrow> distinct ks"
  by (induction ks) auto

lemma kv_below_takeWhile:
  assumes "kv_sorted kvs" "p \<in> set (takeWhile P kvs)" "q \<in> set kvs" "fst q < fst p"
  shows "q \<in> set (takeWhile P kvs)"
proof (rule ccontr)
  assume "q \<notin> set (takeWhile P kvs)"
  then have "q \<in> set (dropWhile P kvs)" using assms(3) by (metis Un_iff set_append takeWhile_dropWhile_id)
  moreover have "kv_sorted (takeWhile P kvs @ dropWhile P kvs)" using assms(1) by simp
  ultimately have "fst p < fst q" using assms(2) unfolding kv_sorted_append by blast
  then show False using assms(4) by simp
qed

lemma layers_live_hist:
  assumes "layers_ok L" "sees 0 L h" "list_all commit_ok h"
  shows "live (mvcc_read (concat L) k snap) = live (hist_read h k snap)"
proof (cases "ff_free k")
  case True
  then show ?thesis using assms(2) by (simp add: sees_def)
next
  case False
  have "live (mvcc_read (concat L) k snap) = None"
  proof (rule ccontr)
    assume "live (mvcc_read (concat L) k snap) \<noteq> None"
    then obtain v where v: "live (mvcc_read (concat L) k snap) = Some v" by blast
    obtain t w where "(mvcc_Encode k t, w) \<in> set (concat L)" using live_read_in [OF v] .
    then show False using assms(1) False by (force simp: layers_ok_def clean_kvs_def)
  qed
  then show ?thesis using hist_read_dirty [OF assms(3) False] by (simp add: live_def)
qed

subsection \<open>Properties\<close>

text \<open>C13: when no key of the history or bound of the scan is a proper prefix of another one, a scan of
  \<open>[start, end)\<close> at a snapshot returns, in every reachable state, exactly the keys of the range that a read at
  that snapshot finds, each once with its value, in ascending order.\<close>

theorem db_scan_exact:
  assumes "db_reach db h" "prefix_free (concat (map (\<lambda>c. map fst (cm_writes c)) h) @ bound_keys start end1)"
  shows "\<exists>it it' kvs. db_Scan start end1 snap db = Some (Inr it) \<and> di_drain it [] = Some (kvs, it') \<and> di_err it' = None \<and>
    sorted_wrt (<) (map fst kvs) \<and>
    (\<forall>k v. (k, v) \<in> set kvs \<longleftrightarrow> in_range start end1 k \<and> get_answer (hist_read h k snap) = Inr v)"
proof -
  obtain sk wh where inv: "db_inv db sk wh []" and sees: "sees 0 (kvs_of_writes (hist_writes wh) # sk) h"
    using db_reach_holds [OF assms(1)] by (auto simp: db_holds_def)
  let ?L = "kvs_of_writes (hist_writes wh) # sk" and ?ks = "concat (map (\<lambda>c. map fst (cm_writes c)) h)"
  let ?M = "merge_layers (map (seek_range start end1) ?L)"
  have ok: "list_all commit_ok h" using db_reach_commits [OF assms(1)] by (auto simp: list_all_iff)
  have lay: "layers_ok ?L" using db_inv_layers [OF inv] by blast
  note scan = db_scan_layers [OF inv refl, where start = start and ?end1.0 = end1]
  have keys: "mvcc_UserKey (fst p) \<in> set ?ks" if "kvs \<in> set ?L" "p \<in> set kvs" for kvs p
    using layer_key_in_hist [OF lay sees ok that] by auto
  have rng: "seek_range start end1 kvs = filter (\<lambda>p. in_range start end1 (mvcc_UserKey (fst p))) kvs" if "kvs \<in> set ?L" for kvs
    using that lay keys by (intro range_seek_exact [OF _ _ assms(2)]) (auto simp: layers_ok_def clean_kvs_def clean_key_def)
  have rd: "mvcc_read ?M uk snap = (if in_range start end1 uk then mvcc_read (concat ?L) uk snap else None)" for uk
    unfolding scan(3) using scan_in_range [OF rng] by blast
  have mem: "(k, v) \<in> set (scan_kvs snap ?M) \<longleftrightarrow> in_range start end1 k \<and> get_answer (hist_read h k snap) = Inr v" for k v
  proof -
    have "live (mvcc_read ?M k snap) = Some v \<longleftrightarrow> in_range start end1 k \<and> live (mvcc_read (concat ?L) k snap) = Some v"
      using rd by (simp add: live_def)
    also have "live (mvcc_read (concat ?L) k snap) = live (hist_read h k snap)"
      using layers_live_hist [OF lay sees ok] .
    finally show ?thesis using scan_kvs_spec [OF scan(2)] live_hist [OF ok] by simp
  qed
  have "sorted_wrt (<) (map fst (scan_kvs snap ?M))"
  proof (rule sorted_wrt_mono_rel [of _ key_before])
    fix a b assume ab: "a \<in> set (map fst (scan_kvs snap ?M))" "b \<in> set (map fst (scan_kvs snap ?M))" "key_before a b"
    have in_ks: "k \<in> set ?ks" if k: "k \<in> set (map fst (scan_kvs snap ?M))" for k
    proof -
      obtain v where "get_answer (hist_read h k snap) = Inr v" using k mem by auto
      then have "hist_read h k (- 1) \<noteq> None" by (auto simp: hist_read_def get_answer_def read_result_def)
      then show ?thesis using hist_read_none [of h k] by auto
    qed
    have "\<not> prefix a b \<and> \<not> prefix b a"
      using in_ks [OF ab(1)] in_ks [OF ab(2)] assms(2) ab(3) key_before_irrefl by (force simp: prefix_free_def)
    then show "a < b" using ab(3) key_before_parallel by blast
  qed (use scan_kvs_spec [OF scan(2)] in blast)
  moreover obtain cs it it' where "scan_cursors start end1 db = Some (Inr cs)" "open_scan cs snap = Some it"
      "di_drain it [] = Some (scan_kvs snap ?M, it')" "di_err it' = None"
    using scan(1) by blast
  moreover have "\<not> db_closed db" by (rule db_reach_open [OF assms(1)])
  ultimately show ?thesis using mem by (auto simp: db_Scan_def)
qed

theorem db_scan_exact_witness:
  "\<exists>db it it'. db_reach db [\<lparr>cm_ts = 1, cm_writes = [([97], OpPut, [5]), ([98], OpPut, [6])], cm_session = [], cm_val = []\<rparr>] \<and>
     db_Scan (Some [98]) None 1 db = Some (Inr it) \<and> di_drain it [] = Some ([([98], [6])], it')"
proof -
  let ?h = "[\<lparr>cm_ts = 1, cm_writes = [([97], OpPut, [5]), ([98], OpPut, [6])], cm_session = [], cm_val = []\<rparr>]"
  obtain db where r: "db_reach db ?h"
    using first_commit [of "(put_txn [97] [5])\<lparr>tx_writes := [([97], OpPut, [5]), ([98], OpPut, [6])]\<rparr>"]
    by (auto simp: write_ok_def ff_free_def writes_size_def)
  have pf: "prefix_free (concat (map (\<lambda>c. map fst (cm_writes c)) ?h) @ bound_keys (Some [98]) None)"
    by (simp add: prefix_free_def bound_keys_def)
  obtain it it' kvs where s: "db_Scan (Some [98]) None 1 db = Some (Inr it)" "di_drain it [] = Some (kvs, it')"
      "sorted_wrt (<) (map fst kvs)"
      "\<forall>k v. (k, v) \<in> set kvs \<longleftrightarrow> in_range (Some [98]) None k \<and> get_answer (hist_read ?h k 1) = Inr v"
    using db_scan_exact [OF r pf, of 1] by blast
  have "(k, v) \<in> set kvs \<longleftrightarrow> k = [98] \<and> v = [6]" for k v
    using s(4) by (auto simp: in_range_def hist_read_def hist_writes_def commit_writes_def mem_write_of_def write_versions_def
        get_answer_def read_result_def)
  then have "set kvs = {([98], [6])}" by auto
  then have "kvs = [([98], [6])]" using s(3) by (cases kvs; cases "tl kvs") (auto simp: neq_Nil_conv)
  then show ?thesis using r s(1,2) by blast
qed

text \<open>C15: a scan with an upper bound can skip a key of its range.  When the memtable holds a version of an
  extension \<open>k @ x # r\<close> that is not below the bound \<open>e\<close>, and nothing is flushed yet, \<open>k\<close> is not returned
  by a scan from the first key up to \<open>e\<close>, whatever was committed for \<open>k < e\<close>.\<close>

theorem db_scan_misses_prefix:
  assumes "db_reach db h" "db_sstables db = []" "c \<in> set h" "k @ x # r \<in> fst ` set (cm_writes c)" "e \<le> k @ x # r" "x \<noteq> 255"
  shows "\<exists>it it' kvs. db_Scan None (Some e) snap db = Some (Inr it) \<and> di_drain it [] = Some (kvs, it') \<and> di_err it' = None \<and>
    k \<notin> fst ` set kvs"
proof -
  obtain sk wh where inv: "db_inv db sk wh []" and sees: "sees 0 (kvs_of_writes (hist_writes wh) # sk) h"
    using db_reach_holds [OF assms(1)] by (auto simp: db_holds_def)
  have sk: "sk = []" using inv assms(2) by (auto simp: db_inv_def disk_ok_def)
  let ?kvs = "kvs_of_writes (hist_writes wh)"
  let ?M = "merge_layers (map (seek_range None (Some e)) [?kvs])"
  note scan = db_scan_layers [OF inv refl, unfolded sk, where start = None and ?end1.0 = "Some e"]
  have ok: "list_all commit_ok h" using db_reach_commits [OF assms(1)] by (auto simp: list_all_iff)
  have cl: "clean_kvs ?kvs" using db_inv_layers [OF inv] by (simp add: layers_ok_def)
  have ff: "ff_free (k @ x # r)" using hist_read_dirty [OF ok, of "k @ x # r" "- 1"] hist_read_none [of h "k @ x # r"] assms(3,4) by auto
  have "hist_read h (k @ x # r) (- 1) \<noteq> None" using hist_read_none [of h "k @ x # r"] assms(3,4) by auto
  then have "mvcc_versions ?kvs (k @ x # r) \<noteq> []" using sees ff sk by (auto simp: sees_def mvcc_read_def)
  then obtain y where "y \<in> set (mvcc_versions ?kvs (k @ x # r))" by (meson last_in_set)
  then have ext: "(mvcc_Encode (k @ x # r) (fst y), snd y) \<in> set ?kvs" using set_mvcc_versions by (metis prod.collapse)
  have "k \<notin> fst ` set (scan_kvs snap ?M)"
  proof
    assume "k \<in> fst ` set (scan_kvs snap ?M)"
    then obtain v where "live (mvcc_read ?M k snap) = Some v" using scan_kvs_spec [OF scan(2)] by auto
    then have "live (mvcc_read (seek_range None (Some e) ?kvs) k snap) = Some v" unfolding scan(3) by simp
    then obtain t w where kin: "(mvcc_Encode k t, w) \<in> set (seek_range None (Some e) ?kvs)" by (rule live_read_in)
    have "small_ts (fst y)" using cl ext by (force simp: clean_kvs_def)
    moreover have "(mvcc_Encode k t, w) \<in> set ?kvs" using kin by (auto simp: kv_seek_def dest: set_takeWhileD)
    then have "small_ts t" using cl by (force simp: clean_kvs_def)
    ultimately have "mvcc_Encode (k @ x # r) (fst y) < mvcc_Encode k t"
      using mvcc_Encode_less_iff [OF ff _, of k "fst y" t] key_before_extension [OF assms(6)] ff by (simp add: ff_free_def)
    moreover have "(mvcc_Encode (k @ x # r) (fst y), snd y) \<in> set ?kvs" by (rule ext)
    moreover have "kv_sorted ?kvs" using cl by (simp add: clean_kvs_def)
    ultimately have "(mvcc_Encode (k @ x # r) (fst y), snd y) \<in> set (seek_range None (Some e) ?kvs)"
      using kin kv_below_takeWhile by (fastforce simp: kv_seek_def)
    then show False using assms(5) by (auto dest!: set_takeWhileD)
  qed
  then show ?thesis using scan(1) [of snap] db_reach_open [OF assms(1)] by (auto simp: db_Scan_def)
qed

text \<open>C14: a snapshot scan is complete: it returns exactly the live keys and values of the whole history, each
  key once, together with the applied index and the timestamp of the last commit.\<close>

theorem db_snapshot_scan_complete:
  assumes "db_reach db h"
  shows "\<exists>it it' kvs. db_SnapshotScan db = Some (Inr (it, db_appliedIndex db, if h = [] then 0 else cm_ts (last h))) \<and>
    di_drain it [] = Some (kvs, it') \<and> di_err it' = None \<and> distinct (map fst kvs) \<and>
    (\<forall>k v. (k, v) \<in> set kvs \<longleftrightarrow> get_answer (newest (write_versions (hist_writes h) k)) = Inr v)"
proof -
  obtain sk wh where inv: "db_inv db sk wh []" and sees: "sees 0 (kvs_of_writes (hist_writes wh) # sk) h"
    using db_reach_holds [OF assms] by (auto simp: db_holds_def)
  let ?L = "kvs_of_writes (hist_writes wh) # sk" and ?s = "db_appliedTS db"
  let ?M = "merge_layers (map (seek_range None None) ?L)"
  note scan = db_scan_layers [OF inv refl, where start = None and ?end1.0 = None]
  have ok: "list_all commit_ok h" using db_reach_commits [OF assms] by (auto simp: list_all_iff)
  have s: "?s = (if h = [] then 0 else cm_ts (last h))" by (rule db_reach_applied [OF assms])
  have mem: "(k, v) \<in> set (scan_kvs ?s ?M) \<longleftrightarrow> get_answer (newest (write_versions (hist_writes h) k)) = Inr v" for k v
  proof -
    have "live (mvcc_read ?M k ?s) = live (hist_read h k ?s)"
      unfolding scan(3) unfolding map_idI [OF seek_range_all] using layers_live_hist [OF _ sees ok] db_inv_layers [OF inv] by blast
    also have "hist_read h k ?s = newest (write_versions (hist_writes h) k)"
      unfolding s by (rule hist_read_at_end [OF db_reach_sorted [OF assms]])
    finally show ?thesis
      using scan_kvs_spec [OF scan(2)] live_hist [OF ok, of k ?s v] hist_read_at_end [OF db_reach_sorted [OF assms], of k] s by simp
  qed
  have "sorted_wrt key_before (map fst (scan_kvs ?s ?M))" using scan_kvs_spec [OF scan(2)] by blast
  then have "distinct (map fst (scan_kvs ?s ?M))" by (rule key_before_distinct)
  moreover obtain cs it it' where "scan_cursors None None db = Some (Inr cs)" "open_scan cs ?s = Some it"
      "di_drain it [] = Some (scan_kvs ?s ?M, it')" "di_err it' = None"
    using scan(1) by blast
  ultimately show ?thesis using mem s db_reach_open [OF assms] by (auto simp: db_SnapshotScan_def)
qed

theorem db_snapshot_scan_complete_witness:
  "\<exists>db it it'. db_reach db [\<lparr>cm_ts = 1, cm_writes = [([97], OpPut, [5])], cm_session = [], cm_val = []\<rparr>] \<and>
     db_SnapshotScan db = Some (Inr (it, db_appliedIndex db, 1)) \<and> di_drain it [] = Some ([([97], [5])], it')"
proof -
  let ?h = "[\<lparr>cm_ts = 1, cm_writes = [([97], OpPut, [5])], cm_session = [], cm_val = []\<rparr>]"
  obtain db where r: "db_reach db ?h"
    using first_commit [of "put_txn [97] [5]"] by (auto simp: write_ok_def ff_free_def writes_size_def)
  obtain it it' kvs where s: "db_SnapshotScan db = Some (Inr (it, db_appliedIndex db, if ?h = [] then 0 else cm_ts (last ?h)))"
      "di_drain it [] = Some (kvs, it')" "distinct (map fst kvs)"
      "\<forall>k v. (k, v) \<in> set kvs \<longleftrightarrow> get_answer (newest (write_versions (hist_writes ?h) k)) = Inr v"
    using db_snapshot_scan_complete [OF r] by blast
  have "(k, v) \<in> set kvs \<longleftrightarrow> k = [97] \<and> v = [5]" for k v
    using s(4) by (auto simp: hist_writes_def commit_writes_def mem_write_of_def write_versions_def get_answer_def read_result_def)
  then have "set kvs = {([97], [5])}" by auto
  then have "kvs = [([97], [5])]" using s(3) by (cases kvs; cases "tl kvs") (auto simp: neq_Nil_conv)
  then show ?thesis using r s(1,2) by auto
qed

theorem db_scan_misses_prefix_witness:
  "\<exists>db it it' kvs. db_reach db [\<lparr>cm_ts = 1, cm_writes = [([97], OpPut, [5]), ([97, 98], OpPut, [6])], cm_session = [], cm_val = []\<rparr>] \<and>
     db_Scan None (Some [97, 97]) 1 db = Some (Inr it) \<and> di_drain it [] = Some (kvs, it') \<and> [97] \<notin> fst ` set kvs \<and>
     [97] < [97, 97 :: byte] \<and> db_GetAsOf [97] 1 db = Inr [5]"
proof -
  let ?h = "[\<lparr>cm_ts = 1, cm_writes = [([97], OpPut, [5]), ([97, 98], OpPut, [6])], cm_session = [], cm_val = []\<rparr>]"
  obtain db where r: "db_reach db ?h" and i: "db_inv db [] ?h []"
    using first_commit [of "(put_txn [97] [5])\<lparr>tx_writes := [([97], OpPut, [5]), ([97, 98], OpPut, [6])]\<rparr>"]
    by (auto simp: write_ok_def ff_free_def writes_size_def)
  have "db_sstables db = []" using i by (simp add: db_inv_def disk_ok_def)
  moreover have "db_GetAsOf [97] 1 db = Inr [5]"
    using db_reach_reads [OF r, of "[97]" 1]
    by (simp add: ff_free_def small_ts_def hist_read_def hist_writes_def commit_writes_def mem_write_of_def write_versions_def
        get_answer_def read_result_def)
  ultimately show ?thesis
    using r db_scan_misses_prefix [OF r, of "hd ?h" "[97]" 98 "[]" "[97, 97]" 1] by auto
qed

end
