(* ===== verification/Compaction.thy ===== *)
theory Compaction
  imports Layer_Merge Db_Run
begin

section \<open>Compaction (\<open>internal/db/compaction.go\<close>)\<close>

text \<open>
  The compaction merges the oldest tables into one table that replaces the newest of them and removes the
  others.  Versions and tombstones that no snapshot at or above the watermark can see are dropped when
  the output becomes the oldest table.
\<close>

subsection \<open>Merging tables\<close>

record mergeEntry =
  me_encKey :: bytes
  me_value :: bytes
  me_op :: byte
  me_sourceIdx :: nat

definition me_Less :: "mergeEntry \<Rightarrow> mergeEntry \<Rightarrow> bool" where
  "me_Less a b \<longleftrightarrow>
     (if me_encKey a \<noteq> me_encKey b then me_encKey a < me_encKey b else me_sourceIdx a < me_sourceIdx b)"

fun compact_sources :: "nat \<Rightarrow> Reader list \<Rightarrow> sst_error + mergeEntry list list" where
  "compact_sources i [] = Inr []"
| "compact_sources i (r # rs) =
     (case sst_Iterate r (\<lambda>opv k v src.
          (src @ [\<lparr>me_encKey = k, me_value = v, me_op = opv, me_sourceIdx = i\<rparr>], True)) [] of
        Inl e \<Rightarrow> Inl e
      | Inr src \<Rightarrow> (case compact_sources (Suc i) rs of Inl e \<Rightarrow> Inl e | Inr srcs \<Rightarrow> Inr (src # srcs)))"

fun compact_init :: "mergeEntry list list \<Rightarrow> mergeEntry list \<times> nat list \<Rightarrow> mergeEntry list \<times> nat list" where
  "compact_init [] (h, pos) = (h, pos)"
| "compact_init (src # srcs) (h, pos) =
     compact_init srcs (if length src > 0 then (heap_Push me_Less (src ! 0) h, pos @ [1]) else (h, pos @ [0]))"

text \<open>\<open>cs_last\<close> is \<^verbatim>\<open>lastEncKey\<close> when \<^verbatim>\<open>lastValid\<close> holds; \<open>cs_current\<close> is \<open>None\<close> while \<^verbatim>\<open>currentUserKey\<close> is nil, which
  appending an empty user key does not change.\<close>

record CompactState =
  cs_h :: "mergeEntry list"
  cs_positions :: "nat list"
  cs_last :: "bytes option"
  cs_current :: "bytes option"
  cs_prevTS :: u64
  cs_w :: Writer

definition compact_emit :: "u64 \<Rightarrow> bool \<Rightarrow> mergeEntry \<Rightarrow> CompactState \<Rightarrow> db_error + CompactState" where
  "compact_emit watermark bottom e st =
     (case mvcc_Decode (me_encKey e) of (userKey, ts, ok) \<Rightarrow>
        if \<not> ok then Inl (DbCompactMalformed (length (me_encKey e)))
        else let
          firstOfUserKey = (cs_current st = None \<or> cs_current st \<noteq> Some userKey);
          st1 = (if firstOfUserKey
                 then st\<lparr>cs_current := (if cs_current st = None \<and> userKey = [] then None else Some userKey)\<rparr> else st)
        in if firstOfUserKey \<and> bottom \<and> me_op e = OpDelete \<and> ts \<le> watermark then Inr (st1\<lparr>cs_prevTS := ts\<rparr>)
           else if \<not> firstOfUserKey \<and> bottom \<and> cs_prevTS st1 \<le> watermark then Inr st1
           else case sst_Add (me_op e) userKey (me_value e) ts (cs_w st1) of
                  Inl err \<Rightarrow> Inl (DbSst err)
                | Inr w \<Rightarrow> Inr (st1\<lparr>cs_prevTS := ts, cs_w := w\<rparr>))"

definition compact_refill :: "mergeEntry list list \<Rightarrow> mergeEntry \<Rightarrow> mergeEntry list \<Rightarrow> CompactState \<Rightarrow> CompactState" where
  "compact_refill sources e h st =
     (let i = me_sourceIdx e; p = cs_positions st ! i in
      if p < length (sources ! i)
      then st\<lparr>cs_h := heap_Push me_Less (sources ! i ! p) h, cs_positions := (cs_positions st)[i := p + 1]\<rparr>
      else st\<lparr>cs_h := h\<rparr>)"

partial_function (option) compact_loop ::
  "mergeEntry list list \<Rightarrow> u64 \<Rightarrow> bool \<Rightarrow> CompactState \<Rightarrow> (db_error + CompactState) option" where
  "compact_loop sources watermark bottom st =
     (case heap_Pop me_Less (cs_h st) of
        None \<Rightarrow> Some (Inr st)
      | Some (e, h) \<Rightarrow>
          let st1 = compact_refill sources e h st in
          if cs_last st = Some (me_encKey e) then compact_loop sources watermark bottom st1
          else case compact_emit watermark bottom e (st1\<lparr>cs_last := Some (me_encKey e)\<rparr>) of
                 Inl err \<Rightarrow> Some (Inl err)
               | Inr st2 \<Rightarrow> compact_loop sources watermark bottom st2)"

declare compact_loop.simps [code]

text \<open>\<open>fault\<close> is the operating-system call that fails, if any.  The result is the file at \<^verbatim>\<open>outputPath\<close>.\<close>

datatype compact_point = CpNewWriter | CpFinish | CpOpenReader

definition compactSSTables ::
  "compact_point option \<Rightarrow> Reader list \<Rightarrow> u64 \<Rightarrow> bool \<Rightarrow> (db_error + bytes) option" where
  "compactSSTables fault inputs watermark bottom =
     (case compact_sources 0 inputs of
        Inl e \<Rightarrow> Some (Inl (DbSst e))
      | Inr sources \<Rightarrow>
          let totalRecords = sum_list (map length sources);
              hp = compact_init sources ([], []);
              mergedApplied = fold (\<lambda>r m. if sst_AppliedIndex r > m then sst_AppliedIndex r else m) inputs 0
          in if fault = Some CpNewWriter then Some (Inl DbCompactIO)
             else case compact_loop sources watermark bottom
                 \<lparr>cs_h = fst hp, cs_positions = snd hp, cs_last = None, cs_current = None, cs_prevTS = 0,
                  cs_w = sst_NewWriter (int totalRecords) mergedApplied\<rparr> of
               None \<Rightarrow> None
             | Some (Inl e) \<Rightarrow> Some (Inl e)
             | Some (Inr st) \<Rightarrow>
                 Some (if fault = Some CpFinish then Inl DbCompactIO
                       else case sst_Finish (cs_w st) of Inl e \<Rightarrow> Inl (DbSst e) | Inr file \<Rightarrow> Inr file))"

subsection \<open>One compaction\<close>

text \<open>\<^verbatim>\<open>tryCompactOnce\<close> takes the lock twice.  Between the capture and the installation other operations may
  run; they may add tables at the front.  \<^verbatim>\<open>OpenWith\<close> makes the trigger at least 2, so the inputs are not empty.\<close>

record CompactJob =
  cj_inputs :: "Reader list"
  cj_inputIDs :: "nat list"
  cj_bottom :: bool
  cj_outputID :: nat

definition db_compact_capture :: "DB \<Rightarrow> CompactJob option" where
  "db_compact_capture db =
     (let n = nat (opt_CompactionTrigger (db_opts db)) in
      if db_closed db then None
      else if length (db_sstables db) < n then None
      else let start = length (db_sstables db) - n; ids = drop start (db_sstableIDs db) in
           Some \<lparr>cj_inputs = drop start (db_sstables db), cj_inputIDs = ids,
                 cj_bottom = (Min (set ids) = Min (set (db_sstableIDs db))), cj_outputID = ids ! 0\<rparr>)"

definition sst_remove_file :: "nat \<Rightarrow> Disk \<Rightarrow> Disk" where
  "sst_remove_file i d = d\<lparr>dk_ssts := filter (\<lambda>p. fst p \<noteq> i) (dk_ssts d)\<rparr>"

definition db_compact_write ::
  "compact_point option \<Rightarrow> CompactJob \<Rightarrow> u64 \<Rightarrow> Disk \<Rightarrow> ((db_error + Reader) \<times> Disk) option" where
  "db_compact_write fault job watermark d =
     (case compactSSTables fault (cj_inputs job) watermark (cj_bottom job) of
        None \<Rightarrow> None
      | Some (Inl e) \<Rightarrow> Some (Inl e, sst_remove_file (cj_outputID job) d)
      | Some (Inr file) \<Rightarrow>
          let d1 = sst_write_file (cj_outputID job) file d in
          if fault = Some CpOpenReader then Some (Inl DbCompactIO, sst_remove_file (cj_outputID job) d1)
          else case sst_OpenReader file of
                 Inl e \<Rightarrow> Some (Inl (DbSst e), sst_remove_file (cj_outputID job) d1)
               | Inr r \<Rightarrow> Some (Inr r, d1))"

definition db_compact_install :: "CompactJob \<Rightarrow> Reader \<Rightarrow> DB \<Rightarrow> (db_error option + unit) \<times> DB" where
  "db_compact_install job r db =
     (let drop_out = db\<lparr>db_disk := sst_remove_file (cj_outputID job) (db_disk db)\<rparr>;
          k = length (cj_inputIDs job)
      in if db_closed db then (Inl None, drop_out)
         else if length (db_sstables db) < k then (Inl (Some DbCompactShrank), drop_out)
         else let tailStart = length (db_sstables db) - k in
           if \<exists>i<k. db_sstableIDs db ! (tailStart + i) \<noteq> cj_inputIDs job ! i
           then (Inl (Some DbCompactTail), drop_out)
           else (Inr (), db\<lparr>db_sstables := take tailStart (db_sstables db) @ [r],
                            db_sstableIDs := take tailStart (db_sstableIDs db) @ [cj_outputID job]\<rparr>))"

definition db_compact_cleanup :: "CompactJob \<Rightarrow> Disk \<Rightarrow> Disk" where
  "db_compact_cleanup job d = fold sst_remove_file (filter (\<lambda>i. i \<noteq> cj_outputID job) (cj_inputIDs job)) d"

definition db_tryCompactOnce :: "compact_point option \<Rightarrow> DB \<Rightarrow> ((db_error + bool) \<times> DB) option" where
  "db_tryCompactOnce fault db =
     (case db_compact_capture db of
        None \<Rightarrow> Some (Inr False, db)
      | Some job \<Rightarrow>
          (case db_compact_write fault job (db_computeWatermark db) (db_disk db) of
             None \<Rightarrow> None
           | Some (Inl e, d) \<Rightarrow> Some (Inl e, db\<lparr>db_disk := d\<rparr>)
           | Some (Inr r, d) \<Rightarrow>
               (case db_compact_install job r (db\<lparr>db_disk := d\<rparr>) of
                  (Inl None, db1) \<Rightarrow> Some (Inr False, db1)
                | (Inl (Some e), db1) \<Rightarrow> Some (Inl e, db1)
                | (Inr _, db1) \<Rightarrow> Some (Inr True, db1\<lparr>db_disk := db_compact_cleanup job (db_disk db1)\<rparr>))))"

partial_function (option) db_CompactForTesting :: "DB \<Rightarrow> (db_error option \<times> DB) option" where
  "db_CompactForTesting db =
     (case db_tryCompactOnce None db of
        None \<Rightarrow> None
      | Some p \<Rightarrow>
          (case fst p of
             Inl e \<Rightarrow> Some (Some e, snd p)
           | Inr again \<Rightarrow> if again then db_CompactForTesting (snd p) else Some (None, snd p)))"

declare db_CompactForTesting.simps [code]

end
