(* ===== verification/Compaction_Merge.thy ===== *)
theory Compaction_Merge
  imports Compaction
begin

section \<open>What the compaction writes\<close>

text \<open>
  The heap of \<open>compactSSTables\<close> yields the merge of the inputs, and the table it writes holds the merge
  without the versions that the garbage collection drops.
\<close>

subsection \<open>Sources and the heap\<close>

definition me_of :: "nat \<Rightarrow> bytes \<times> bytes \<Rightarrow> mergeEntry" where
  "me_of i p = \<lparr>me_encKey = fst p, me_value = tl (snd p), me_op = hd (snd p), me_sourceIdx = i\<rparr>"

lemma me_of_sel [simp]: "me_encKey (me_of i p) = fst p" "me_sourceIdx (me_of i p) = i"
    "me_op (me_of i p) = hd (snd p)" "me_value (me_of i p) = tl (snd p)"
  by (simp_all add: me_of_def)

interpretation me_heap: layer_heap me_Less me_encKey me_sourceIdx
  by unfold_locales (simp add: me_Less_def)

fun srcs_from :: "nat \<Rightarrow> bytes kvs list \<Rightarrow> mergeEntry list list" where
  "srcs_from i [] = []"
| "srcs_from i (kvs # sk) = map (me_of i) kvs # srcs_from (Suc i) sk"

fun heads_from :: "nat \<Rightarrow> bytes kvs list \<Rightarrow> mergeEntry list" where
  "heads_from i [] = []"
| "heads_from i (kvs # sk) = map (me_of i) (take 1 kvs) @ heads_from (Suc i) sk"

lemma length_srcs_from [simp]: "length (srcs_from i sk) = length sk"
  by (induction i sk rule: srcs_from.induct) auto

lemma srcs_from_nth: "j < length sk \<Longrightarrow> srcs_from i sk ! j = map (me_of (i + j)) (sk ! j)"
  by (induction i sk arbitrary: j rule: srcs_from.induct) (auto simp: nth_Cons split: nat.splits)

lemma heads_from_update:
  "j < length R \<Longrightarrow> mset (heads_from i (R[j := t])) + mset (map (me_of (i + j)) (take 1 (R ! j))) =
     mset (heads_from i R) + mset (map (me_of (i + j)) (take 1 t))"
proof (induction i R arbitrary: j rule: heads_from.induct)
  case (2 i kvs sk)
  show ?case
  proof (cases j)
    case 0
    then show ?thesis by (simp add: add_ac)
  next
    case (Suc n)
    then show ?thesis using 2(1) [of n] 2(2) by (simp add: add.assoc)
  qed
qed simp

lemma set_heads_from: "x \<in> set (heads_from i R) \<longleftrightarrow> (\<exists>j < length R. R ! j \<noteq> [] \<and> x = me_of (i + j) (hd (R ! j)))"
proof (induction i R rule: heads_from.induct)
  case (2 i kvs sk)
  have "x \<in> set (map (me_of i) (take 1 kvs)) \<longleftrightarrow> kvs \<noteq> [] \<and> x = me_of i (hd kvs)" by (cases kvs) auto
  then show ?case using 2 by (simp add: Ex_less_Suc2)
qed simp

lemma collect_entries:
  "iter_recs (\<lambda>opv k v src. (src @ [\<lparr>me_encKey = k, me_value = v, me_op = opv, me_sourceIdx = i\<rparr>], True)) rs acc =
     (acc @ map (me_of i) (kvs_of_recs rs), True)"
  by (induction rs arbitrary: acc) (simp_all add: kvs_of_recs_def me_of_def)

lemma compact_sources_tables: "list_all2 sst_holds rs sk \<Longrightarrow> compact_sources i rs = Inr (srcs_from i sk)"
proof (induction rs sk arbitrary: i rule: list_all2_induct)
  case (Cons r rs kvs sk)
  obtain bs where "sst_repr r bs" "kvs = kvs_of_recs (concat bs)" using Cons(1) by (auto simp: sst_holds_def)
  then show ?case using Cons.IH [of "Suc i"] by (simp add: sst_Iterate_records collect_entries)
qed simp

lemma compact_init_heap:
  assumes "is_heap me_Less h"
  shows "\<exists>h'. compact_init (srcs_from i sk) (h, pos) = (h', pos @ map (\<lambda>kvs. if kvs = [] then 0 else 1) sk) \<and>
    is_heap me_Less h' \<and> mset h' = mset h + mset (heads_from i sk)"
  using assms
proof (induction i sk arbitrary: h pos rule: srcs_from.induct)
  case (2 i kvs sk)
  show ?case
  proof (cases kvs)
    case Nil
    then show ?thesis using 2(1) [OF 2(2), of "pos @ [0]"] by simp
  next
    case (Cons x xs)
    have "is_heap me_Less (heap_Push me_Less (me_of i x) h)" by (rule me_heap.Push_heap [OF 2(2)])
    from 2(1) [OF this, of "pos @ [1]"] show ?thesis using Cons by (auto simp: heap_Push_mset)
  qed
qed simp

subsection \<open>The loop\<close>

text \<open>\<open>R\<close> holds what is left of every input, the entry in the heap included.\<close>

definition merge_inv :: "mergeEntry list list \<Rightarrow> bytes kvs list \<Rightarrow> mergeEntry list \<Rightarrow> nat list \<Rightarrow> bool" where
  "merge_inv sources R h pos \<longleftrightarrow>
     is_heap me_Less h \<and> mset h = mset (heads_from 0 R) \<and> length pos = length R \<and> length sources = length R \<and>
     (\<forall>i < length R. \<exists>pre. sources ! i = map (me_of i) (pre @ R ! i) \<and>
        pos ! i = (if R ! i = [] then length pre else Suc (length pre)))"

lemma merge_inv_start:
  "compact_init (srcs_from 0 sk) ([], []) = (h, pos) \<Longrightarrow> merge_inv (srcs_from 0 sk) sk h pos"
proof -
  assume a: "compact_init (srcs_from 0 sk) ([], []) = (h, pos)"
  have "is_heap me_Less []" by (simp add: heap_from_def)
  from compact_init_heap [OF this, of 0 sk "[]"] a
  have "pos = map (\<lambda>kvs. if kvs = [] then 0 else 1) sk" "is_heap me_Less h" "mset h = mset (heads_from 0 sk)" by auto
  then show ?thesis unfolding merge_inv_def by (auto simp: srcs_from_nth intro!: exI [of _ "[]"])
qed

lemma merge_inv_end: "merge_inv sources R [] pos \<Longrightarrow> merge_layers R = []"
proof (rule merge_layers_empty, rule ballI)
  fix a
  assume "merge_inv sources R [] pos" "a \<in> set R"
  then show "a = []" using set_heads_from [of _ 0 R] by (auto simp: merge_inv_def in_set_conv_nth)
qed

lemma merge_inv_top:
  assumes inv: "merge_inv sources R (y # hs) pos" and srt: "\<forall>a\<in>set R. kv_sorted a"
  obtains i k v t where "y = me_of i (k, v)" "i < length R" "R ! i = (k, v) # t"
    "\<forall>a\<in>set R. \<forall>x\<in>set a. k \<le> fst x" "\<forall>q<i. k \<notin> fst ` set (R ! q)"
proof -
  have h: "is_heap me_Less (y # hs)" and ms: "mset (y # hs) = mset (heads_from 0 R)" using inv by (simp_all add: merge_inv_def)
  have set: "x \<in> set (y # hs) \<longleftrightarrow> (\<exists>j < length R. R ! j \<noteq> [] \<and> x = me_of j (hd (R ! j)))" for x
    using mset_eq_setD [OF ms] set_heads_from [of x 0 R] by simp
  have "me_sourceIdx ` set (y # hs) = {p. p < length R \<and> R ! p \<noteq> []}"
  proof (rule set_eqI)
    fix p
    show "p \<in> me_sourceIdx ` set (y # hs) \<longleftrightarrow> p \<in> {p. p < length R \<and> R ! p \<noteq> []}"
      using set me_of_sel(2) unfolding image_iff mem_Collect_eq Bex_def by metis
  qed
  moreover have "me_encKey x = fst (hd (R ! me_sourceIdx x))" if "x \<in> set (y # hs)" for x
    using that unfolding set by auto
  ultimately obtain k v t where top: "R ! me_sourceIdx y = (k, v) # t" "me_sourceIdx y < length R" "me_encKey y = k"
    "\<forall>a\<in>set R. \<forall>x\<in>set a. k \<le> fst x" "\<forall>q<me_sourceIdx y. k \<notin> fst ` set (R ! q)"
    using me_heap.top_of_layers [OF h _ _ srt] by blast
  obtain j where "j < length R" "y = me_of j (hd (R ! j))" using set [of y] by auto
  then have "y = me_of (me_sourceIdx y) (k, v)" using top(1) by simp
  then show ?thesis using that top by blast
qed

lemma merge_inv_refill:
  assumes inv: "merge_inv sources R (y # hs) pos" and y: "y = me_of i (k, v)" "i < length R" "R ! i = (k, v) # t"
    and h': "is_heap me_Less h'" "mset h' = mset hs" and pos: "cs_positions st = pos"
  shows "\<exists>st1. compact_refill sources y h' st = st1 \<and> merge_inv sources (R[i := t]) (cs_h st1) (cs_positions st1) \<and>
    st1 = st\<lparr>cs_h := cs_h st1, cs_positions := cs_positions st1\<rparr>"
proof -
  obtain pre where pre: "sources ! i = map (me_of i) (pre @ (k, v) # t)" "pos ! i = Suc (length pre)"
    using inv y(2,3) unfolding merge_inv_def by (metis list.distinct(1))
  have heads: "mset (heads_from 0 (R[i := t])) = mset h' + mset (map (me_of i) (take 1 t))"
  proof -
    have "add_mset y (mset h') = mset (heads_from 0 R)" using inv h'(2) by (simp add: merge_inv_def)
    with heads_from_update [OF y(2), of 0 t] y
    have "add_mset y (mset (heads_from 0 (R[i := t]))) = add_mset y (mset h' + mset (map (me_of i) (take 1 t)))" by simp
    then show ?thesis by simp
  qed
  have len: "length pos = length R" "length sources = length R" using inv by (simp_all add: merge_inv_def)
  have old: "\<exists>pre. sources ! j = map (me_of j) (pre @ R ! j) \<and> pos ! j = (if R ! j = [] then length pre else Suc (length pre))"
    if "j < length R" for j using inv that by (simp add: merge_inv_def)
  show ?thesis
  proof (cases t)
    case Nil
    then have "compact_refill sources y h' st = st\<lparr>cs_h := h'\<rparr>" using y(1) pre pos by (simp add: compact_refill_def)
    moreover have "merge_inv sources (R[i := t]) h' pos"
      using h' heads len old pre Nil y(2) unfolding merge_inv_def
      by (auto simp: nth_list_update intro: exI [of _ "pre @ [(k, v)]"])
    ultimately show ?thesis using pos by simp
  next
    case (Cons x xs)
    let ?h = "heap_Push me_Less (me_of i x) h'"
    have "compact_refill sources y h' st = st\<lparr>cs_h := ?h, cs_positions := pos[i := Suc (Suc (length pre))]\<rparr>"
      using y(1) pre pos Cons by (simp add: compact_refill_def nth_append)
    moreover have "merge_inv sources (R[i := t]) ?h (pos[i := Suc (Suc (length pre))])"
      using h' heads len old pre Cons y(2) me_heap.Push_heap [OF h'(1)] unfolding merge_inv_def
      by (auto simp: nth_list_update heap_Push_mset intro: exI [of _ "pre @ [(k, v)]"])
    ultimately show ?thesis by simp
  qed
qed

text \<open>The part of the loop body that depends on the entry alone: current user key, previous timestamp and writer.\<close>

type_synonym gc_state = "bytes option \<times> u64 \<times> Writer"

definition gc_of :: "CompactState \<Rightarrow> gc_state" where
  "gc_of st = (cs_current st, cs_prevTS st, cs_w st)"

definition gc_step :: "u64 \<Rightarrow> bool \<Rightarrow> bytes \<times> bytes \<Rightarrow> gc_state \<Rightarrow> db_error + gc_state" where
  "gc_step watermark bottom p g =
     map_sum id gc_of (compact_emit watermark bottom (me_of 0 p)
       \<lparr>cs_h = [], cs_positions = [], cs_last = None, cs_current = fst g, cs_prevTS = fst (snd g), cs_w = snd (snd g)\<rparr>)"

fun gc_run :: "u64 \<Rightarrow> bool \<Rightarrow> bytes kvs \<Rightarrow> gc_state \<Rightarrow> db_error + gc_state" where
  "gc_run watermark bottom [] g = Inr g"
| "gc_run watermark bottom (p # m) g =
     (case gc_step watermark bottom p g of Inl e \<Rightarrow> Inl e | Inr g' \<Rightarrow> gc_run watermark bottom m g')"

lemma compact_emit_gc:
  "map_sum id gc_of (compact_emit watermark bottom (me_of i p) st) = gc_step watermark bottom p (gc_of st)"
  by (auto simp: compact_emit_def gc_step_def gc_of_def Let_def split: prod.splits sum.splits)

lemma compact_emit_frame:
  "compact_emit watermark bottom e st = Inr st' \<Longrightarrow> cs_h st' = cs_h st \<and> cs_positions st' = cs_positions st \<and> cs_last st' = cs_last st"
  by (auto simp: compact_emit_def Let_def split: prod.splits sum.splits if_splits)

definition unseen :: "bytes option \<Rightarrow> bytes kvs \<Rightarrow> bytes kvs" where
  "unseen lastKey m = (case lastKey of None \<Rightarrow> m | Some k \<Rightarrow> filter (\<lambda>x. fst x \<noteq> k) m)"

lemma unseen_step:
  assumes "merge_layers R = (k, v) # filter (\<lambda>x. fst x \<noteq> k) (merge_layers R')" "lastKey \<noteq> Some k"
    "\<forall>k0. lastKey = Some k0 \<longrightarrow> (\<forall>x \<in> set (merge_layers R'). k0 < fst x)"
  shows "unseen lastKey (merge_layers R) = (k, v) # unseen (Some k) (merge_layers R')"
proof (cases lastKey)
  case None
  then show ?thesis using assms(1) by (simp add: unseen_def)
next
  case (Some k0)
  then have "filter (\<lambda>x. fst x \<noteq> k0) (filter (\<lambda>x. fst x \<noteq> k) (merge_layers R')) = filter (\<lambda>x. fst x \<noteq> k) (merge_layers R')"
    using assms(3) Some unfolding filter_filter by (intro filter_cong) auto
  then show ?thesis using assms(1,2) Some by (simp add: unseen_def)
qed

lemma update_layer: "\<forall>a\<in>set R. P a \<Longrightarrow> P t \<Longrightarrow> \<forall>a\<in>set (R[i := t]). P a"
  by (auto dest!: set_update_subset_insert [THEN subsetD])

lemma compact_loop_merge:
  assumes "merge_inv sources R (cs_h st) (cs_positions st)" "\<forall>a\<in>set R. kv_sorted a"
    "\<forall>k0. cs_last st = Some k0 \<longrightarrow> (\<forall>a\<in>set R. \<forall>x\<in>set a. k0 \<le> fst x)"
  shows "\<exists>res. compact_loop sources watermark bottom st = Some res \<and>
    map_sum id gc_of res = gc_run watermark bottom (unseen (cs_last st) (merge_layers R)) (gc_of st)"
  using assms
proof (induction "sum_list (map length R)" arbitrary: R st rule: less_induct)
  case less
  show ?case
  proof (cases "cs_h st")
    case Nil
    then have "merge_layers R = []" using merge_inv_end less.prems(1) by metis
    moreover have "compact_loop sources watermark bottom st = Some (Inr st)"
      using Nil by (simp add: compact_loop.simps [of _ _ _ st] heap_Pop_def)
    ultimately show ?thesis by (auto simp: unseen_def split: option.splits)
  next
    case (Cons y hs)
    note inv = less.prems(1) [unfolded Cons]
    obtain i k v t where y: "y = me_of i (k, v)" "i < length R" "R ! i = (k, v) # t"
      "\<forall>a\<in>set R. \<forall>x\<in>set a. k \<le> fst x" "\<forall>q<i. k \<notin> fst ` set (R ! q)"
      by (rule merge_inv_top [OF inv less.prems(2)])
    obtain h' where h': "heap_Pop me_Less (y # hs) = Some (y, h')" "is_heap me_Less h'" "mset h' = mset hs"
      using me_heap.Pop_heap inv unfolding merge_inv_def by blast
    obtain st1 where st1: "compact_refill sources y h' st = st1" "merge_inv sources (R[i := t]) (cs_h st1) (cs_positions st1)"
      "st1 = st\<lparr>cs_h := cs_h st1, cs_positions := cs_positions st1\<rparr>"
      using merge_inv_refill [OF inv y(1-3) h'(2,3) refl] by blast
    have keep: "cs_last st1 = cs_last st" "gc_of st1 = gc_of st" by (subst st1(3), simp add: gc_of_def)+
    have loop: "compact_loop sources watermark bottom st =
        (if cs_last st = Some k then compact_loop sources watermark bottom st1
         else case compact_emit watermark bottom y (st1\<lparr>cs_last := Some k\<rparr>) of
                Inl err \<Rightarrow> Some (Inl err) | Inr st2 \<Rightarrow> compact_loop sources watermark bottom st2)"
      using Cons h'(1) st1(1) y(1) by (simp add: compact_loop.simps [of _ _ _ st] Let_def)
    have "(k, v) # t \<in> set R" using nth_mem [OF y(2)] y(3) by simp
    then have kt: "kv_sorted ((k, v) # t)" "\<forall>x\<in>set ((k, v) # t). k \<le> fst x"
      and k0: "\<forall>k0. cs_last st = Some k0 \<longrightarrow> k0 \<le> k" using less.prems(2,3) y(4) by fastforce+
    have srt: "\<forall>a\<in>set (R[i := t]). kv_sorted a" using less.prems(2) kt(1) by (intro update_layer) simp_all
    have ge: "\<forall>a\<in>set (R[i := t]). \<forall>x\<in>set a. k \<le> fst x" using y(4) kt(2) by (intro update_layer) simp_all
    have smaller: "sum_list (map length (R[i := t])) < sum_list (map length R)"
      using y(2,3) elem_le_sum_list [of i "map length R"] by (simp add: map_update sum_list_update)
    show ?thesis
    proof (cases "cs_last st = Some k")
      case True
      then obtain res where res: "compact_loop sources watermark bottom st1 = Some res"
        "map_sum id gc_of res = gc_run watermark bottom (unseen (Some k) (merge_layers (R[i := t]))) (gc_of st1)"
        using less.hyps [OF smaller st1(2) srt] keep(1) ge by auto
      moreover have "unseen (Some k) (merge_layers R) = unseen (Some k) (merge_layers (R[i := t]))"
        using merge_layers_skip [OF y(2,3) less.prems(2) y(4,5)] by (simp add: unseen_def)
      ultimately show ?thesis using loop True keep(2) by auto
    next
      case False
      have "\<forall>k0. cs_last st = Some k0 \<longrightarrow> (\<forall>x \<in> set (merge_layers (R[i := t])). k0 < fst x)"
      proof (intro allI impI ballI)
        fix k0 x
        assume a: "cs_last st = Some k0" "x \<in> set (merge_layers (R[i := t]))"
        have "k0 \<le> k" using k0 a(1) by simp
        moreover obtain b z where "b \<in> set (R[i := t])" "z \<in> set b" "fst z = fst x" using merge_key_in [OF srt a(2)] .
        ultimately show "k0 < fst x" using ge False a(1) by force
      qed
      then have run: "unseen (cs_last st) (merge_layers R) = (k, v) # unseen (Some k) (merge_layers (R[i := t]))"
        using unseen_step [OF merge_layers_step [OF y(2,3) less.prems(2) y(4,5)] False] by blast
      let ?st = "st1\<lparr>cs_last := Some k\<rparr>"
      have g: "gc_of ?st = gc_of st" using keep(2) by (simp add: gc_of_def)
      have e: "map_sum id gc_of (compact_emit watermark bottom y ?st) = gc_step watermark bottom (k, v) (gc_of st)"
        using compact_emit_gc [of watermark bottom i "(k, v)" ?st] y(1) g by simp
      show ?thesis
      proof (cases "compact_emit watermark bottom y ?st")
        case (Inl err)
        then have "gc_step watermark bottom (k, v) (gc_of st) = Inl err" using e [symmetric] Inl by simp
        then show ?thesis using loop False Inl run by simp
      next
        case (Inr st2)
        have f: "cs_h st2 = cs_h st1" "cs_positions st2 = cs_positions st1" "cs_last st2 = Some k"
          using compact_emit_frame [OF Inr] by simp_all
        have "\<exists>res. compact_loop sources watermark bottom st2 = Some res \<and>
            map_sum id gc_of res = gc_run watermark bottom (unseen (Some k) (merge_layers (R[i := t]))) (gc_of st2)"
          using less.hyps [OF smaller, of st2] st1(2) srt ge f by simp
        moreover have "gc_step watermark bottom (k, v) (gc_of st) = Inr (gc_of st2)" using e [symmetric] Inr by simp
        ultimately show ?thesis using loop False Inr run by simp
      qed
    qed
  qed
qed

end
