(* ===== verification/Compaction_Gc.thy ===== *)
theory Compaction_Gc
  imports Compaction_Merge
begin

section \<open>Garbage collection of versions\<close>

text \<open>
  The versions that the compaction keeps, as a function on the merged store.  For every snapshot at or
  above the watermark, a read of the kept versions answers like a read of all of them.
\<close>

fun gc :: "u64 \<Rightarrow> bool \<Rightarrow> bytes option \<Rightarrow> u64 \<Rightarrow> bytes kvs \<Rightarrow> bytes kvs" where
  "gc w b cur prev [] = []"
| "gc w b cur prev (p # m) =
     (let uk = mvcc_UserKey (fst p); ts = mvcc_Timestamp (fst p);
          cur' = (if cur = None \<and> uk = [] then None else Some uk)
      in if cur \<noteq> Some uk \<and> b \<and> hd (snd p) = OpDelete \<and> ts \<le> w then gc w b cur' ts m
         else if cur = Some uk \<and> b \<and> prev \<le> w then gc w b cur' prev m
         else p # gc w b cur' ts m)"

lemma gc_step_entry:
  "gc_step w b (mvcc_Encode uk ts, opv # v) (cur, prev, wr) =
     (if cur \<noteq> Some uk \<and> b \<and> opv = OpDelete \<and> ts \<le> w
      then Inr (if cur = None \<and> uk = [] then None else Some uk, ts, wr)
      else if cur = Some uk \<and> b \<and> prev \<le> w then Inr (cur, prev, wr)
      else case sst_Add opv uk v ts wr of
             Inl e \<Rightarrow> Inl (DbSst e)
           | Inr wr' \<Rightarrow> Inr (if cur = None \<and> uk = [] then None else Some uk, ts, wr'))"
  by (auto simp: gc_step_def compact_emit_def gc_of_def Let_def split: sum.splits)

lemma tabular_Cons:
  assumes "tabular (p # m)"
  obtains uk ts opv v where "p = (mvcc_Encode uk ts, opv # v)" "tabular m"
proof -
  have "tabular m" using assms unfolding tabular_def by simp
  with tabularE [OF assms list.set_intros(1)] that show ?thesis by metis
qed

lemma gc_run_writes:
  assumes "tabular m" "sst_add_all (map entry_of (gc w b cur prev m)) wr = Inr wr'"
  shows "\<exists>c p. gc_run w b m (cur, prev, wr) = Inr (c, p, wr')"
  using assms
proof (induction m arbitrary: cur prev wr)
  case (Cons p m)
  obtain uk ts opv v where p: "p = (mvcc_Encode uk ts, opv # v)" "tabular m" using tabular_Cons [OF Cons.prems(1)] .
  show ?case
    using Cons.prems(2) Cons.IH [OF p(2)] p(1)
    by (auto simp: gc_step_entry entry_of_Encode Let_def split: if_splits sum.splits)
qed simp

lemma gc_Cons:
  obtains c q where "gc w b cur prev (p # m) = gc w b c q m" | c q where "gc w b cur prev (p # m) = p # gc w b c q m"
proof -
  have "\<exists>c q. gc w b cur prev (p # m) = gc w b c q m \<or> gc w b cur prev (p # m) = p # gc w b c q m"
    by (auto simp: Let_def)
  then show ?thesis using that by blast
qed

lemma gc_subset: "set (gc w b cur prev m) \<subseteq> set m"
proof (induction m arbitrary: cur prev)
  case (Cons p m)
  show ?case by (rule gc_Cons [of w b cur prev p m]) (use Cons in auto)
qed simp

lemma gc_sorted: "kv_sorted m \<Longrightarrow> kv_sorted (gc w b cur prev m)"
proof (induction m arbitrary: cur prev)
  case (Cons p m)
  show ?case
  proof (rule gc_Cons [of w b cur prev p m])
    fix c q
    assume "gc w b cur prev (p # m) = p # gc w b c q m"
    then show ?thesis using Cons gc_subset [of w b c q m] by auto
  qed (use Cons in simp)
qed simp

lemma gc_tabular: "tabular m \<Longrightarrow> tabular (gc w b cur prev m)"
  unfolding tabular_def using gc_subset gc_sorted by blast

lemma gc_clean: "clean_kvs m \<Longrightarrow> clean_kvs (gc w b cur prev m)"
  unfolding clean_kvs_def using gc_subset gc_sorted by blast

lemma kv_size_Cons: "kv_size (p # m) = kv_size [p] + kv_size m" "0 \<le> kv_size m" "0 \<le> kv_size [p]"
  by (auto simp: kv_size_def intro!: sum_list_nonneg split: prod.splits)

lemma gc_size: "kv_size (gc w b cur prev m) \<le> kv_size m"
proof (induction m arbitrary: cur prev)
  case (Cons p m)
  note k = kv_size_Cons(1) [of p m] kv_size_Cons(3) [of p] kv_size_Cons(1) [of p "gc w b _ _ m"]
  show ?case
  proof (rule gc_Cons [of w b cur prev p m])
    fix c q
    assume "gc w b cur prev (p # m) = gc w b c q m"
    then show ?thesis using Cons [of c q] k(1,2) by simp
  next
    fix c q
    assume "gc w b cur prev (p # m) = p # gc w b c q m"
    then show ?thesis using Cons [of c q] k(1) k(3) [of c q] by simp
  qed
qed simp

subsection \<open>One user key\<close>

lemma gc_append:
  "\<exists>c' p'. (\<forall>ys. gc w b cur prev (xs @ ys) = gc w b cur prev xs @ gc w b c' p' ys) \<and>
     (c' = cur \<or> c' \<in> (\<lambda>q. Some (mvcc_UserKey (fst q))) ` set xs)"
proof (induction xs arbitrary: cur prev)
  case (Cons p xs)
  let ?uk = "mvcc_UserKey (fst p)" and ?ts = "mvcc_Timestamp (fst p)"
  let ?cur = "if cur = None \<and> ?uk = [] then None else Some ?uk"
  let ?prev = "if cur = Some ?uk \<and> b \<and> prev \<le> w then prev else ?ts"
  obtain c' p' where ih: "\<forall>ys. gc w b ?cur ?prev (xs @ ys) = gc w b ?cur ?prev xs @ gc w b c' p' ys"
    "c' = ?cur \<or> c' \<in> (\<lambda>q. Some (mvcc_UserKey (fst q))) ` set xs" using Cons [of ?cur ?prev] by blast
  have "gc w b cur prev ((p # xs) @ ys) = gc w b cur prev (p # xs) @ gc w b c' p' ys" for ys
    using ih(1) [rule_format, of ys] by (auto simp: Let_def split: if_splits)
  moreover have "c' = cur \<or> c' \<in> (\<lambda>q. Some (mvcc_UserKey (fst q))) ` set (p # xs)" using ih(2) by (auto split: if_splits)
  ultimately show ?case by blast
qed auto

text \<open>The first version at or below the snapshot, in a group of versions from new to old.\<close>

definition first_le :: "u64 \<Rightarrow> bytes kvs \<Rightarrow> (u64 \<times> bytes) option" where
  "first_le snap g =
     (case filter (\<lambda>q. mvcc_Timestamp (fst q) \<le> snap) g of [] \<Rightarrow> None | q # _ \<Rightarrow> Some (mvcc_Timestamp (fst q), snd q))"

lemma gc_tail_read:
  assumes "\<forall>q \<in> set g. mvcc_UserKey (fst q) = uk" "snap < prev" "w \<le> snap"
  shows "first_le snap (gc w True (Some uk) prev g) = first_le snap g"
  using assms
proof (induction g arbitrary: prev)
  case (Cons q g)
  have "\<not> prev \<le> w" using Cons.prems(2,3) by simp
  then have eq: "gc w True (Some uk) prev (q # g) = q # gc w True (Some uk) (mvcc_Timestamp (fst q)) g"
    using Cons.prems(1) by (simp add: Let_def)
  show ?case
  proof (cases "mvcc_Timestamp (fst q) \<le> snap")
    case False
    then have "first_le snap (gc w True (Some uk) (mvcc_Timestamp (fst q)) g) = first_le snap g" using Cons by (simp add: not_le)
    then show ?thesis using False unfolding eq by (simp add: first_le_def)
  qed (simp add: eq first_le_def del: gc.simps)
qed (simp add: first_le_def)

lemma gc_all_old: "\<forall>q \<in> set g. mvcc_UserKey (fst q) = uk \<Longrightarrow> prev \<le> w \<Longrightarrow> gc w True (Some uk) prev g = []"
  by (induction g) (auto simp: Let_def)

lemma gc_group_read:
  assumes "\<forall>q \<in> set g. mvcc_UserKey (fst q) = uk" "\<forall>q \<in> set g. snd q \<noteq> []" "cur \<noteq> Some uk" "uk \<noteq> []" "w \<le> snap"
  shows "get_answer (first_le snap (gc w True cur prev g)) = get_answer (first_le snap g)"
proof (cases g)
  case (Cons q g')
  have uk: "mvcc_UserKey (fst q) = uk" "\<forall>q \<in> set g'. mvcc_UserKey (fst q) = uk" using assms(1) Cons by simp_all
  obtain opv v where v: "snd q = opv # v" using assms(2) Cons by (cases "snd q") auto
  show ?thesis
  proof (cases "opv = OpDelete \<and> mvcc_Timestamp (fst q) \<le> w")
    case True
    then have "gc w True cur prev g = []" using gc_all_old [OF uk(2)] uk(1) assms(3,4) Cons v by (simp add: Let_def)
    moreover have "mvcc_Timestamp (fst q) \<le> snap" using True assms(5) by (blast intro: order_trans)
    then have "first_le snap g = Some (mvcc_Timestamp (fst q), OpDelete # v)" using True Cons v by (simp add: first_le_def)
    moreover have "first_le snap [] = None" by (simp add: first_le_def)
    ultimately show ?thesis by (simp add: get_answer_def read_result_def)
  next
    case False
    then have g: "gc w True cur prev g = q # gc w True (Some uk) (mvcc_Timestamp (fst q)) g'"
      using uk(1) assms(3,4) Cons v by (auto simp: Let_def)
    show ?thesis
    proof (cases "mvcc_Timestamp (fst q) \<le> snap")
      case True
      then show ?thesis using g Cons by (simp add: first_le_def)
    next
      case gt: False
      then have "first_le snap (gc w True (Some uk) (mvcc_Timestamp (fst q)) g') = first_le snap g'"
        using gc_tail_read [OF uk(2) _ assms(5)] by (simp add: not_le)
      then show ?thesis using g gt Cons by (simp add: first_le_def)
    qed
  qed
qed simp

subsection \<open>Reads\<close>

lemma newest_desc: "sorted_wrt (\<lambda>a b. fst b < fst a) vs \<Longrightarrow> newest vs = (case vs of [] \<Rightarrow> None | v # _ \<Rightarrow> Some v)"
proof (cases vs)
  case (Cons v vs')
  assume "sorted_wrt (\<lambda>a b. fst b < fst a) vs"
  then have "newest vs = Some v" using Cons by (intro newest_eqI) fastforce+
  then show ?thesis using Cons by simp
qed simp

lemma mvcc_read_group:
  assumes "kv_sorted g" "\<forall>q \<in> set g. \<exists>t. fst q = mvcc_Encode uk t"
  shows "mvcc_read g uk snap = first_le snap g"
proof -
  have f: "filter (\<lambda>(k, v). snd (snd (mvcc_Decode k)) \<and> mvcc_UserKey k = uk) g = g"
    using assms(2) by (auto simp: filter_id_conv)
  then have v: "mvcc_versions g uk = map (\<lambda>q. (mvcc_Timestamp (fst q), snd q)) g"
    by (simp add: mvcc_versions_def split_def)
  have "sorted_wrt (\<lambda>a b. mvcc_Timestamp (fst b) < mvcc_Timestamp (fst a)) g"
    using assms(1) unfolding sorted_wrt_map
  proof (rule sorted_wrt_mono_rel [rotated])
    fix x y
    assume a: "x \<in> set g" "y \<in> set g" "fst x < fst y"
    then obtain t t' where "fst x = mvcc_Encode uk t" "fst y = mvcc_Encode uk t'" using assms(2) by blast
    then show "mvcc_Timestamp (fst y) < mvcc_Timestamp (fst x)" using a(3) by simp
  qed
  then have "sorted_wrt (\<lambda>a b. fst b < fst a) (filter (\<lambda>p. fst p \<le> snap) (map (\<lambda>q. (mvcc_Timestamp (fst q), snd q)) g))"
    by (simp add: sorted_wrt_map sorted_wrt_filter filter_map comp_def)
  from newest_desc [OF this] show ?thesis
    by (simp add: mvcc_read_def v first_le_def filter_map comp_def split: list.splits)
qed

lemma mvcc_read_frame:
  assumes "\<forall>q \<in> set xs \<union> set ys. mvcc_UserKey (fst q) \<noteq> uk"
  shows "mvcc_read (xs @ g @ ys) uk snap = mvcc_read g uk snap"
proof -
  have "mvcc_versions zs uk = []" if "\<forall>q \<in> set zs. mvcc_UserKey (fst q) \<noteq> uk" for zs :: "'a kvs"
    using that by (auto simp: mvcc_versions_def filter_empty_conv)
  then have "mvcc_versions xs uk = []" "mvcc_versions ys uk = []" using assms by simp_all
  then show ?thesis by (simp add: mvcc_read_def mvcc_versions_append)
qed

text \<open>The versions of a user key are adjacent.\<close>

lemma clean_group:
  assumes "clean_kvs m"
  obtains xs g ys where "m = xs @ g @ ys" "\<forall>q \<in> set g. \<exists>t. fst q = mvcc_Encode uk t"
    "\<forall>q \<in> set xs \<union> set ys. mvcc_UserKey (fst q) \<noteq> uk"
proof -
  let ?P = "\<lambda>q. mvcc_UserKey (fst q) = uk"
  define xs where "xs = takeWhile (\<lambda>q. \<not> ?P q) m"
  define r where "r = dropWhile (\<lambda>q. \<not> ?P q) m"
  define g where "g = takeWhile ?P r"
  define ys where "ys = dropWhile ?P r"
  have m: "m = xs @ g @ ys" by (simp add: xs_def r_def g_def ys_def)
  have enc: "\<exists>uk t. fst q = mvcc_Encode uk t \<and> ff_free uk \<and> small_ts t" if "q \<in> set m" for q
  proof -
    have "clean_key (fst q)" using assms that by (simp add: clean_kvs_def)
    then show ?thesis by (rule clean_keyE) blast
  qed
  have g: "\<forall>q \<in> set g. ?P q" unfolding g_def by (auto dest: set_takeWhileD)
  have "\<forall>q \<in> set ys. \<not> ?P q"
  proof (cases ys)
    case (Cons y zs)
    then have y: "\<not> ?P y" using hd_dropWhile [of ?P r] unfolding ys_def by (metis list.distinct(1) list.sel(1))
    have "r \<noteq> []" using Cons ys_def by auto
    then have "?P (hd r)" using hd_dropWhile [of "\<lambda>q. \<not> ?P q" m] unfolding r_def by simp
    then obtain x g' where x: "g = x # g'" using \<open>r \<noteq> []\<close> g_def by (cases r) auto
    have "\<not> ?P z" if z: "z \<in> set zs" for z
    proof
      assume pz: "?P z"
      have ms: "x \<in> set m" "y \<in> set m" "z \<in> set m" using m x Cons z by auto
      have less: "fst x < fst y" "fst y < fst z" using assms m x Cons z by (auto simp: clean_kvs_def sorted_wrt_append)
      obtain tx ty tz uy where e: "fst x = mvcc_Encode uk tx" "fst y = mvcc_Encode uy ty" "fst z = mvcc_Encode uk tz"
        "ff_free uk" "ff_free uy" "small_ts tx" "small_ts ty" "small_ts tz"
        using enc [OF ms(1)] enc [OF ms(2)] enc [OF ms(3)] g x pz by (metis list.set_intros(1) mvcc_UserKey_Encode)
      have "uy = uk" using mvcc_Encode_between [OF e(4,5,6,8,7)] less e by (simp add: less_imp_le)
      then show False using y e(2) by simp
    qed
    then show ?thesis using y Cons by simp
  qed simp
  moreover have "\<forall>q \<in> set xs. \<not> ?P q" unfolding xs_def by (auto dest: set_takeWhileD)
  moreover have "\<forall>q \<in> set g. \<exists>t. fst q = mvcc_Encode uk t" using g enc m by (metis UnCI mvcc_UserKey_Encode set_append)
  ultimately show ?thesis using that m by blast
qed

lemma gc_read:
  assumes "clean_kvs m" "\<forall>q \<in> set m. snd q \<noteq> []" "uk \<noteq> []" "w \<le> snap"
  shows "get_answer (mvcc_read (gc w True None 0 m) uk snap) = get_answer (mvcc_read m uk snap)"
proof -
  obtain xs g ys where m: "m = xs @ g @ ys" "\<forall>q \<in> set g. \<exists>t. fst q = mvcc_Encode uk t"
    "\<forall>q \<in> set xs \<union> set ys. mvcc_UserKey (fst q) \<noteq> uk" using clean_group [OF assms(1)] by metis
  obtain c1 p1 where 1: "\<forall>zs. gc w True None 0 (xs @ zs) = gc w True None 0 xs @ gc w True c1 p1 zs"
    "c1 = None \<or> c1 \<in> (\<lambda>q. Some (mvcc_UserKey (fst q))) ` set xs" using gc_append [of w True None 0 xs] by blast
  obtain c2 p2 where 2: "\<forall>zs. gc w True c1 p1 (g @ zs) = gc w True c1 p1 g @ gc w True c2 p2 zs"
    using gc_append [of w True c1 p1 g] by blast
  have eq: "gc w True None 0 m = gc w True None 0 xs @ gc w True c1 p1 g @ gc w True c2 p2 ys" using 1(1) 2 m(1) by simp
  have "\<forall>q \<in> set (gc w True None 0 xs) \<union> set (gc w True c2 p2 ys). mvcc_UserKey (fst q) \<noteq> uk"
    using m(3) gc_subset by blast
  then have "mvcc_read (gc w True None 0 m) uk snap = mvcc_read (gc w True c1 p1 g) uk snap" unfolding eq by (rule mvcc_read_frame)
  also have "\<dots> = first_le snap (gc w True c1 p1 g)"
  proof (rule mvcc_read_group)
    show "kv_sorted (gc w True c1 p1 g)" using assms(1) m(1) by (auto simp: clean_kvs_def sorted_wrt_append intro: gc_sorted)
  qed (use m(2) gc_subset in blast)
  also have "get_answer \<dots> = get_answer (first_le snap g)"
    using m assms 1(2) by (intro gc_group_read [of g uk]) auto
  also have "first_le snap g = mvcc_read g uk snap"
    using mvcc_read_group [of g uk] m assms(1) by (auto simp: clean_kvs_def sorted_wrt_append)
  also have "\<dots> = mvcc_read m uk snap" unfolding m(1) using m(3) by (simp add: mvcc_read_frame)
  finally show ?thesis .
qed

end
