(* ===== verification/Compaction_Run.thy ===== *)
theory Compaction_Run
  imports Compaction_Gc
begin

section \<open>Compacting a database\<close>

text \<open>
  A compaction without faults replaces the oldest tables by one that answers every read at or above the
  watermark alike, on the running database and after a restart, and repeated compaction ends.
\<close>

subsection \<open>The output table\<close>

lemma kv_size_append: "kv_size (xs @ ys) = kv_size xs + kv_size ys"
  by (simp add: kv_size_def)

lemma kv_size_put_bound: "kv_sorted b \<Longrightarrow> kv_size (kv_put k v b) \<le> kv_size [(k, v)] + kv_size b"
  by (simp add: kv_size_put) (simp add: kv_size_def split: option.splits)

lemma kv_size_union: "kv_sorted b \<Longrightarrow> kv_size (kv_union a b) \<le> kv_size a + kv_size b"
  unfolding kv_union_def
proof (induction a arbitrary: b)
  case (Cons p a)
  have "kv_sorted (kv_put (fst p) (snd p) b)" using Cons.prems by (simp add: kv_simps)
  from Cons.IH [OF this] kv_size_put_bound [OF Cons.prems, of "fst p" "snd p"] show ?case
    using kv_size_Cons(1) [of p a] by simp
qed (simp add: kv_size_def)

lemma kv_size_merge: "\<forall>a\<in>set L. kv_sorted a \<Longrightarrow> kv_size (merge_layers L) \<le> sum_list (map kv_size L)"
proof (induction L)
  case (Cons a L)
  then show ?case using kv_size_union [OF kv_sorted_merge, of a L] by simp
qed (simp add: kv_size_def)

lemma merge_in_layer:
  assumes "\<forall>a\<in>set L. kv_sorted a" "p \<in> set (merge_layers L)"
  shows "\<exists>a\<in>set L. p \<in> set a"
proof -
  obtain k v where p: "p = (k, v)" by (cases p)
  have "map_of (merge_layers L) k = Some v"
    using assms(2) p kv_sorted_merge kv_sorted_distinct by (metis map_of_is_SomeI)
  then have "map_of (concat L) k = Some v" using map_of_merge [OF assms(1)] by simp
  then show ?thesis using p by (auto dest: map_of_SomeD)
qed

lemma tabular_merge:
  assumes "\<forall>a\<in>set L. tabular a"
  shows "tabular (merge_layers L)"
proof -
  have "\<forall>a\<in>set L. kv_sorted a" using assms by (simp add: tabular_def)
  then show ?thesis
    using assms kv_sorted_merge [of L] merge_in_layer unfolding tabular_def by blast
qed

lemma fold_max_AI: "fold (\<lambda>r m. if sst_AppliedIndex r > m then sst_AppliedIndex r else m) rs a = max a (rs_maxAI rs)"
  by (induction rs arbitrary: a) (auto simp: rs_maxAI_def max_def)

lemma length_le_size: "2 * int (length m) \<le> kv_size m"
  by (induction m) (auto simp: kv_size_def split_def)

lemma length_srcs: "sum_list (map length (srcs_from i sk)) = sum_list (map length sk)"
  by (induction i sk rule: srcs_from.induct) simp_all

lemma sum_lengths_le: "2 * int (sum_list (map length sk)) \<le> sum_list (map kv_size sk)"
proof (induction sk)
  case (Cons a sk)
  then show ?case using length_le_size [of a] by simp
qed simp

lemma compactSSTables_table:
  assumes h: "list_all2 sst_holds rs sk" and size: "sum_list (map kv_size sk) \<le> 2 ^ 45"
  obtains out r where "compactSSTables None rs w b = Some (Inr out)" "sst_OpenReader out = Inr r" "rd_data r = out"
    "sst_holds r (gc w b None 0 (merge_layers sk))"
    "sst_MaxTimestamp r = fold max (map (mvcc_Timestamp \<circ> fst) (gc w b None 0 (merge_layers sk))) 0"
    "sst_AppliedIndex r = rs_maxAI rs"
proof -
  let ?m = "merge_layers sk" and ?g = "gc w b None 0 (merge_layers sk)" and ?n = "sum_list (map length sk)"
  have tabs: "\<forall>a\<in>set sk. tabular a"
    using h tabular_table by (metis in_set_conv_nth list_all2_conv_all_nth)
  then have srt: "\<forall>a\<in>set sk. kv_sorted a" by (simp add: tabular_def)
  have tm: "tabular ?m" by (rule tabular_merge [OF tabs])
  have "kv_size ?g \<le> 2 ^ 45" using gc_size [of w b None 0 ?m] kv_size_merge [OF srt] size by linarith
  moreover have "2 * int ?n \<le> 2 ^ 45" using sum_lengths_le [of sk] size by linarith
  ultimately have "3 * kv_size ?g + 2 * int ?n \<le> 2 ^ 48 - 60" by simp
  then obtain wr out r where w: "sst_add_all (map entry_of ?g) (sst_NewWriter (int ?n) (rs_maxAI rs)) = Inr wr" "sst_Finish wr = Inr out"
    "sst_OpenReader out = Inr r" "rd_data r = out" "sst_holds r ?g"
    "sst_MaxTimestamp r = fold max (map (mvcc_Timestamp \<circ> fst) ?g) 0" "sst_AppliedIndex r = rs_maxAI rs"
    using write_table [OF gc_tabular [OF tm]] by metis
  obtain hp pos where init: "compact_init (srcs_from 0 sk) ([], []) = (hp, pos)" by fastforce
  let ?st = "\<lparr>cs_h = hp, cs_positions = pos, cs_last = None, cs_current = None, cs_prevTS = 0, cs_w = sst_NewWriter (int ?n) (rs_maxAI rs)\<rparr>"
  obtain res where res: "compact_loop (srcs_from 0 sk) w b ?st = Some res"
    "map_sum id gc_of res = gc_run w b ?m (None, 0, sst_NewWriter (int ?n) (rs_maxAI rs))"
    using compact_loop_merge [of "srcs_from 0 sk" sk ?st w b] merge_inv_start [OF init] srt by (auto simp: unseen_def gc_of_def)
  obtain c p where "gc_run w b ?m (None, 0, sst_NewWriter (int ?n) (rs_maxAI rs)) = Inr (c, p, wr)"
    using gc_run_writes [OF tm w(1)] by blast
  then obtain st where st: "res = Inr st" "cs_w st = wr" using res(2) by (cases res) (auto simp: gc_of_def)
  have "compactSSTables None rs w b = Some (Inr out)"
    using compact_sources_tables [OF h, of 0] init res(1) st w(2)
    by (simp add: compactSSTables_def Let_def length_srcs fold_max_AI)
  then show ?thesis using that w(3-) by blast
qed

subsection \<open>The layers after a compaction\<close>

lemma first_read_append: "first_read (L @ L') uk snap = (case first_read L uk snap of None \<Rightarrow> first_read L' uk snap | Some p \<Rightarrow> Some p)"
  by (induction L) (auto split: option.splits)

lemma covers_subset: "covers a b \<Longrightarrow> fst ` set b' \<subseteq> fst ` set b \<Longrightarrow> covers a b'"
  unfolding covers_def by blast

lemma covers_union: "\<forall>b\<in>set L. covers a b \<Longrightarrow> fst ` set m \<subseteq> (\<Union>b\<in>set L. fst ` set b) \<Longrightarrow> covers a m"
  unfolding covers_def by blast

lemma layers_ok_append: "layers_ok (L @ L') \<longleftrightarrow> layers_ok L \<and> layers_ok L' \<and> (\<forall>a\<in>set L. \<forall>b\<in>set L'. covers a b)"
  by (auto simp: layers_ok_def sorted_wrt_append)

lemma compacted_layers:
  assumes L: "layers_ok (L @ L')" and ne: "\<forall>a\<in>set L'. \<forall>q\<in>set a. snd q \<noteq> []"
  shows "layers_ok (L @ [gc w True None 0 (merge_layers L')])"
    and "uk \<noteq> [] \<Longrightarrow> ff_free uk \<Longrightarrow> small_ts snap \<Longrightarrow> w \<le> snap \<Longrightarrow>
      get_answer (first_read (L @ [gc w True None 0 (merge_layers L')]) uk snap) = get_answer (first_read (L @ L') uk snap)"
proof -
  let ?m = "merge_layers L'" and ?g = "gc w True None 0 (merge_layers L')"
  have cl: "\<forall>a\<in>set L'. clean_kvs a" "layers_ok L" "layers_ok L'" using L unfolding layers_ok_append by (simp_all add: layers_ok_def)
  then have srt: "\<forall>a\<in>set L'. kv_sorted a" by (simp add: clean_kvs_def)
  have cm: "clean_kvs ?m" by (rule clean_merge [OF cl(1)])
  have "\<exists>b\<in>set L'. p \<in> set b" if "p \<in> set ?g" for p
    using merge_in_layer [OF srt] gc_subset [of w True None 0 ?m] that by blast
  then have "fst ` set ?g \<subseteq> (\<Union>b\<in>set L'. fst ` set b)" by blast
  then have "\<forall>a\<in>set L. covers a ?g" using L covers_union unfolding layers_ok_append by blast
  then show ok: "layers_ok (L @ [?g])" using cl(2) gc_clean [OF cm] by (simp add: layers_ok_append) (simp add: layers_ok_def)
  assume uk: "uk \<noteq> []" "ff_free uk" "small_ts snap" "w \<le> snap"
  have "first_read [?g] uk snap = mvcc_read ?g uk snap"
    using seek_version_read [OF gc_clean [OF cm] uk(2,3)] by (simp split: option.splits)
  moreover have "first_read L' uk snap = mvcc_read ?m uk snap"
    using first_read_newest [OF cl(3) uk(2,3)] mvcc_read_merge [OF srt] by simp
  moreover have "get_answer (mvcc_read ?g uk snap) = get_answer (mvcc_read ?m uk snap)"
    using merge_in_layer [OF srt] ne by (intro gc_read cm uk(1,4)) blast
  ultimately show "get_answer (first_read (L @ [?g]) uk snap) = get_answer (first_read (L @ L') uk snap)"
    by (simp only: first_read_append) (simp split: option.splits)
qed

subsection \<open>The directory after a compaction\<close>

lemma remove_files: "fold sst_remove_file is d = d\<lparr>dk_ssts := filter (\<lambda>p. fst p \<notin> set is) (dk_ssts d)\<rparr>"
  by (induction "is" arbitrary: d) (simp_all add: sst_remove_file_def conj_commute)

lemma discover_props:
  "sorted (discoverSSTables d)" "distinct (map fst (dk_ssts d)) \<Longrightarrow> distinct (discoverSSTables d)"
  "\<forall>p\<in>set (dk_ssts d). fst p < 1000000 \<Longrightarrow> set (discoverSSTables d) = fst ` set (dk_ssts d)"
  by (auto simp: discoverSSTables_def)

definition compacted_disk :: "nat \<Rightarrow> bytes \<Rightarrow> Disk \<Rightarrow> Disk" where
  "compacted_disk start out d =
     (let ids = rev (discoverSSTables d)
      in fold sst_remove_file (drop (Suc start) ids) (sst_write_file (ids ! start) out d))"

lemma compacted_disk_files:
  assumes "distinct (map fst (dk_ssts d))" "\<forall>p\<in>set (dk_ssts d). fst p < 1000000" "start < length (discoverSSTables d)"
  shows "rev (discoverSSTables (compacted_disk start out d)) = take (Suc start) (rev (discoverSSTables d))"
    and "i \<in> set (take start (rev (discoverSSTables d))) \<Longrightarrow> map_of (dk_ssts (compacted_disk start out d)) i = map_of (dk_ssts d) i"
    and "map_of (dk_ssts (compacted_disk start out d)) (rev (discoverSSTables d) ! start) = Some out"
    and "distinct (map fst (dk_ssts (compacted_disk start out d)))" "\<forall>p\<in>set (dk_ssts (compacted_disk start out d)). fst p < 1000000"
proof -
  define ids where "ids = rev (discoverSSTables d)"
  let ?d = "compacted_disk start out d" and ?o = "ids ! start"
  have st: "start < length ids" using assms(3) by (simp add: ids_def)
  have dist: "distinct ids" "set ids = fst ` set (dk_ssts d)" using discover_props(2) [OF assms(1)] discover_props(3) [OF assms(2)] by (simp_all add: ids_def)
  have split: "ids = take start ids @ ?o # drop (Suc start) ids" using st by (rule id_take_nth_drop)
  then have disj: "?o \<notin> set (drop (Suc start) ids)" "set (take start ids) \<inter> set (?o # drop (Suc start) ids) = {}"
    using dist(1) by (metis distinct.simps(2) distinct_append)+
  have f: "dk_ssts ?d = filter (\<lambda>p. fst p \<notin> set (drop (Suc start) ids)) ((?o, out) # filter (\<lambda>p. fst p \<noteq> ?o) (dk_ssts d))"
    by (simp add: compacted_disk_def Let_def remove_files sst_write_file_def ids_def)
  show d1: "distinct (map fst (dk_ssts ?d))" unfolding f using assms(1) disj(1) by (auto simp: distinct_map_filter)
  have "?o \<in> set ids" using st by simp
  then have o: "?o < 1000000" using dist(2) assms(2) by auto
  then show d2: "\<forall>p\<in>set (dk_ssts ?d). fst p < 1000000" unfolding f using assms(2) by auto
  have "fst ` set (dk_ssts ?d) = set (take (Suc start) ids)"
  proof -
    have "fst ` set (dk_ssts ?d) = insert ?o (fst ` set (dk_ssts d) - set (drop (Suc start) ids))" unfolding f using disj(1) by auto
    also have "\<dots> = set (take (Suc start) ids)"
      using arg_cong [OF split, of set] disj st unfolding dist(2) [symmetric] take_Suc_conv_app_nth [OF st] by auto
    finally show ?thesis .
  qed
  then have "set (discoverSSTables ?d) = set (rev (take (Suc start) ids))" using discover_props(3) [OF d2] by simp
  moreover have "sorted (rev (take (Suc start) ids))" "distinct (rev (take (Suc start) ids))"
    using discover_props(1) [of d] dist(1) by (simp_all add: ids_def rev_take sorted_wrt_drop)
  ultimately have "discoverSSTables ?d = rev (take (Suc start) ids)"
    using discover_props(1) [of ?d] discover_props(2) [OF d1] by (intro sorted_distinct_set_unique) simp_all
  then show "rev (discoverSSTables ?d) = take (Suc start) (rev (discoverSSTables d))" by (simp add: ids_def)
  show "map_of (dk_ssts ?d) (rev (discoverSSTables d) ! start) = Some out" unfolding ids_def [symmetric] f using disj(1) by simp
  show "map_of (dk_ssts ?d) i = map_of (dk_ssts d) i" if "i \<in> set (take start (rev (discoverSSTables d)))"
  proof -
    have "i \<noteq> ?o" "i \<notin> set (drop (Suc start) ids)" using that disj(2) unfolding ids_def [symmetric] by auto
    then show ?thesis unfolding f
      using map_of_filter_fst [of "\<lambda>j. j \<noteq> ?o \<and> j \<notin> set (drop (Suc start) ids)" "dk_ssts d" i] by simp
  qed
qed

subsection \<open>One compaction\<close>

lemma Min_last: "sorted (rev ids) \<Longrightarrow> ids \<noteq> [] \<Longrightarrow> Min (set ids) = last (ids :: nat list)"
proof (rule Min_eqI)
  fix i
  assume "sorted (rev ids)" "ids \<noteq> []" "i \<in> set ids"
  then show "last ids \<le> i" by (cases ids rule: rev_cases) auto
qed simp_all

text \<open>Where a compaction starts, and what its tables hold afterwards.\<close>

definition compact_start :: "DB \<Rightarrow> nat" where
  "compact_start db = length (db_sstables db) - nat (opt_CompactionTrigger (db_opts db))"

definition compacted_tables :: "DB \<Rightarrow> bytes kvs list \<Rightarrow> bytes kvs list" where
  "compacted_tables db sk =
     take (compact_start db) sk @ [gc (db_computeWatermark db) True None 0 (merge_layers (drop (compact_start db) sk))]"

lemma db_inv_tables:
  assumes "db_inv db sk wh []"
  shows "list_all2 sst_holds (db_sstables db) sk" "length sk = length (db_sstables db)" "length (db_sstableIDs db) = length (db_sstables db)"
    "length (discoverSSTables (db_disk db)) = length (db_sstables db)"
proof -
  have d: "disk_ok (db_disk db) (db_sstables db) sk wh []" and i: "db_sstableIDs db = rev (discoverSSTables (db_disk db))"
    using assms by (simp_all add: db_inv_def)
  have "list_all2 table_holds (db_sstables db) sk" using d by (simp add: disk_ok_def)
  then show "list_all2 sst_holds (db_sstables db) sk" by (rule list_all2_mono) (simp add: table_holds_def)
  then show "length sk = length (db_sstables db)" by (simp add: list_all2_lengthD)
  show l: "length (discoverSSTables (db_disk db)) = length (db_sstables db)"
    using d by (auto simp: disk_ok_def tables_on_disk_def dest: list_all2_lengthD)
  show "length (db_sstableIDs db) = length (db_sstables db)" using i l by simp
qed

lemma capture_job:
  assumes "db_inv db sk wh []" "2 \<le> opt_CompactionTrigger (db_opts db)" "nat (opt_CompactionTrigger (db_opts db)) \<le> length (db_sstables db)"
  shows "db_compact_capture db = Some \<lparr>cj_inputs = drop (compact_start db) (db_sstables db), cj_inputIDs = drop (compact_start db) (db_sstableIDs db),
    cj_bottom = True, cj_outputID = db_sstableIDs db ! compact_start db\<rparr>"
proof -
  let ?ids = "db_sstableIDs db"
  have st: "compact_start db < length ?ids" using assms db_inv_tables(3) [OF assms(1)] by (simp add: compact_start_def)
  have srt: "sorted (rev ?ids)" using assms(1) by (simp add: db_inv_def discover_props)
  have "Min (set (drop (compact_start db) ?ids)) = last (drop (compact_start db) ?ids)"
    using st srt by (intro Min_last) (simp_all add: rev_drop sorted_wrt_take)
  moreover have "Min (set ?ids) = last ?ids" using st srt by (intro Min_last) auto
  ultimately have "Min (set (drop (compact_start db) ?ids)) = Min (set ?ids)" using st by simp
  then show ?thesis using assms st by (simp add: db_compact_capture_def compact_start_def db_inv_def Let_def)
qed

lemma sum_take_drop: "sum_list (map kv_size (take n sk)) + sum_list (map kv_size (drop n sk)) = sum_list (map kv_size sk)"
  by (metis append_take_drop_id map_append sum_list.append)

lemma sum_sizes_nonneg: "0 \<le> sum_list (map kv_size sk)"
  using kv_size_Cons(2) by (auto intro!: sum_list_nonneg)

lemma tryCompactOnce_result:
  assumes inv: "db_inv db sk wh []" and t: "2 \<le> opt_CompactionTrigger (db_opts db)" "nat (opt_CompactionTrigger (db_opts db)) \<le> length (db_sstables db)"
    and size: "sum_list (map kv_size sk) \<le> 2 ^ 45"
  obtains r where "sst_OpenReader (rd_data r) = Inr r"
    "sst_holds r (gc (db_computeWatermark db) True None 0 (merge_layers (drop (compact_start db) sk)))"
    "sst_MaxTimestamp r = fold max (map (mvcc_Timestamp \<circ> fst) (gc (db_computeWatermark db) True None 0 (merge_layers (drop (compact_start db) sk)))) 0"
    "db_tryCompactOnce None db = Some (Inr True, db\<lparr>db_disk := compacted_disk (compact_start db) (rd_data r) (db_disk db),
       db_sstables := take (compact_start db) (db_sstables db) @ [r], db_sstableIDs := take (Suc (compact_start db)) (db_sstableIDs db)\<rparr>)"
proof -
  let ?s = "compact_start db" and ?w = "db_computeWatermark db" and ?k = "nat (opt_CompactionTrigger (db_opts db))"
  note tabs = db_inv_tables [OF inv]
  have len: "?s + ?k = length (db_sstables db)" "2 \<le> ?k" using t by (simp_all add: compact_start_def)
  have ids: "db_sstableIDs db = rev (discoverSSTables (db_disk db))" "\<not> db_closed db" using inv by (simp_all add: db_inv_def)
  have h: "list_all2 sst_holds (drop ?s (db_sstables db)) (drop ?s sk)" using tabs(1) by (rule list_all2_dropI)
  have "sum_list (map kv_size (drop ?s sk)) \<le> sum_list (map kv_size sk)"
    using sum_take_drop [of ?s sk] sum_sizes_nonneg [of "take ?s sk"] by linarith
  then have "sum_list (map kv_size (drop ?s sk)) \<le> 2 ^ 45" using size by linarith
  then obtain out r where r: "compactSSTables None (drop ?s (db_sstables db)) ?w True = Some (Inr out)" "sst_OpenReader out = Inr r" "rd_data r = out"
    "sst_holds r (gc ?w True None 0 (merge_layers (drop ?s sk)))"
    "sst_MaxTimestamp r = fold max (map (mvcc_Timestamp \<circ> fst) (gc ?w True None 0 (merge_layers (drop ?s sk)))) 0"
    using compactSSTables_table [OF h] by metis
  let ?o = "db_sstableIDs db ! ?s"
  have tail: "drop ?s (db_sstableIDs db) = ?o # drop (Suc ?s) (db_sstableIDs db)" using len tabs(3) by (simp add: Cons_nth_drop_Suc)
  have "distinct (db_sstableIDs db)" using inv discover_props(2) by (auto simp: db_inv_def disk_ok_def)
  then have "?o \<notin> set (drop (Suc ?s) (db_sstableIDs db))"
    using tail by (metis distinct.simps(2) distinct_drop)
  then have others: "filter (\<lambda>i. i \<noteq> ?o) (drop ?s (db_sstableIDs db)) = drop (Suc ?s) (db_sstableIDs db)"
    unfolding tail by (auto simp: filter_id_conv)
  have "take ?s (db_sstableIDs db) @ [?o] = take (Suc ?s) (db_sstableIDs db)" using len tabs(3) by (simp add: take_Suc_conv_app_nth)
  then have "db_tryCompactOnce None db = Some (Inr True, db\<lparr>db_disk := compacted_disk ?s (rd_data r) (db_disk db),
       db_sstables := take ?s (db_sstables db) @ [r], db_sstableIDs := take (Suc ?s) (db_sstableIDs db)\<rparr>)"
    using r(1-3) len tabs(3) others ids(2)
    by (simp add: db_tryCompactOnce_def capture_job [OF inv t] db_compact_write_def db_compact_install_def db_compact_cleanup_def
        compacted_disk_def Let_def flip: ids(1))
  then show ?thesis using that [of r] r by simp
qed

lemma compacted_ts:
  assumes "list_all2 table_holds rs sk" "p \<in> set (gc w True None 0 (merge_layers (drop n sk)))" "\<forall>a\<in>set sk. kv_sorted a"
  shows "mvcc_Timestamp (fst p) \<le> rs_maxTS rs"
proof -
  have "\<forall>a\<in>set (drop n sk). kv_sorted a" using assms(3) by (auto dest: in_set_dropD)
  then obtain a where a: "a \<in> set (drop n sk)" "p \<in> set a"
    using merge_in_layer gc_subset [of w True None 0 "merge_layers (drop n sk)"] assms(2) by blast
  then have "a \<in> set sk" by (auto dest: in_set_dropD)
  then obtain r where "r \<in> set rs" "table_holds r a" using assms(1) by (metis in_set_conv_nth list_all2_conv_all_nth)
  then show ?thesis using a(2) rs_maxTS_ge [of r rs] by (auto simp: table_holds_def intro: order_trans)
qed

lemma rs_maxTS_append: "rs_maxTS (xs @ ys) = max (rs_maxTS xs) (rs_maxTS ys)"
  by (induction xs) (simp_all add: rs_maxTS_def max.assoc)

lemma fold_max_mono: "a \<le> b \<Longrightarrow> fold max xs a \<le> fold max xs (b :: 'a::linorder)"
  by (induction xs arbitrary: a b) (simp_all add: max.coboundedI2)

lemma compacted_maxTS:
  assumes "list_all2 table_holds rs sk" "\<forall>a\<in>set sk. kv_sorted a"
    and r: "sst_MaxTimestamp r = fold max (map (mvcc_Timestamp \<circ> fst) (gc w True None 0 (merge_layers (drop n sk)))) 0"
  shows "disk_maxTS (take n rs @ [r]) recs \<le> disk_maxTS rs recs"
proof -
  have "rs_maxTS (take n rs) \<le> rs_maxTS rs"
    using rs_maxTS_append [of "take n rs" "drop n rs"] by simp
  moreover have "sst_MaxTimestamp r \<le> rs_maxTS rs"
    unfolding r using compacted_ts [OF assms(1) _ assms(2)] by (intro fold_max_le) auto
  ultimately have "rs_maxTS (take n rs @ [r]) \<le> rs_maxTS rs" by (simp add: rs_maxTS_append) (simp add: rs_maxTS_def)
  then show ?thesis unfolding disk_maxTS_def by (rule fold_max_mono)
qed

lemma tables_nonempty: "list_all2 sst_holds rs sk \<Longrightarrow> a \<in> set sk \<Longrightarrow> q \<in> set a \<Longrightarrow> snd q \<noteq> []"
proof -
  assume "list_all2 sst_holds rs sk" "a \<in> set sk" "q \<in> set a"
  then obtain r where "sst_holds r a" by (metis in_set_conv_nth list_all2_conv_all_nth)
  from tabularE [OF tabular_table [OF this] \<open>q \<in> set a\<close>] show ?thesis by (metis list.distinct(1) snd_conv)
qed

lemma compacted_inv:
  assumes inv: "db_inv db sk wh []" and n: "n < length sk"
    and r: "sst_OpenReader (rd_data r) = Inr r" "sst_holds r (gc w True None 0 (merge_layers (drop n sk)))"
      "sst_MaxTimestamp r = fold max (map (mvcc_Timestamp \<circ> fst) (gc w True None 0 (merge_layers (drop n sk)))) 0"
  shows "db_inv (db\<lparr>db_disk := compacted_disk n (rd_data r) (db_disk db), db_sstables := take n (db_sstables db) @ [r],
    db_sstableIDs := take (Suc n) (db_sstableIDs db)\<rparr>) (take n sk @ [gc w True None 0 (merge_layers (drop n sk))]) wh []"
proof -
  let ?g = "gc w True None 0 (merge_layers (drop n sk))" and ?d = "compacted_disk n (rd_data r) (db_disk db)" and ?rs = "db_sstables db"
  note tabs = db_inv_tables [OF inv]
  have d: "disk_ok (db_disk db) ?rs sk wh []" and ids: "db_sstableIDs db = rev (discoverSSTables (db_disk db))"
    using inv by (simp_all add: db_inv_def)
  note dd = d [unfolded disk_ok_def]
  have th: "list_all2 table_holds ?rs sk" and lay: "layers_ok ((kvs_of_writes (hist_writes wh) # take n sk) @ drop n sk)" using dd by simp_all
  have srt: "\<forall>a\<in>set sk. kv_sorted a" using dd by (auto simp: layers_ok_def clean_kvs_def)
  have n': "n < length (discoverSSTables (db_disk db))" using n tabs by simp
  note files = compacted_disk_files [OF _ _ n', where out = "rd_data r"]
  have dist: "distinct (map fst (dk_ssts (db_disk db)))" "\<forall>p\<in>set (dk_ssts (db_disk db)). fst p < 1000000" using dd by simp_all
  have tod: "tables_on_disk ?d (take n ?rs @ [r])"
  proof -
    let ?ids = "rev (discoverSSTables (db_disk db))"
    have "list_all2 (\<lambda>i r. map_of (dk_ssts (db_disk db)) i = Some (rd_data r) \<and> sst_OpenReader (rd_data r) = Inr r) (take n ?ids) (take n ?rs)"
      using conjunct1 [OF dd, unfolded tables_on_disk_def] by (rule list_all2_takeI)
    then have "list_all2 (\<lambda>i r. map_of (dk_ssts ?d) i = Some (rd_data r) \<and> sst_OpenReader (rd_data r) = Inr r) (take n ?ids) (take n ?rs)"
      by (rule list.rel_mono_strong) (simp add: files(2) [OF dist])
    then show ?thesis unfolding tables_on_disk_def files(1) [OF dist]
      using files(3) [OF dist] r(1) n' by (simp add: take_Suc_conv_app_nth list_all2_appendI)
  qed
  have "table_holds r ?g"
    using r(2) fold_max_ge(2) [of _ "map (mvcc_Timestamp \<circ> fst) ?g" 0] by (auto simp: table_holds_def r(3))
  then have th': "list_all2 table_holds (take n ?rs @ [r]) (take n sk @ [?g])" using th by (auto intro!: list_all2_appendI list_all2_takeI)
  have "\<forall>a\<in>set (drop n sk). \<forall>q\<in>set a. snd q \<noteq> []" using tables_nonempty [OF tabs(1)] in_set_dropD by metis
  then have lay': "layers_ok (kvs_of_writes (hist_writes wh) # take n sk @ [?g])" using compacted_layers(1) [OF lay] by simp
  note ts = compacted_maxTS [OF th srt r(3)]
  have wal: "dk_wal ?d = dk_wal (db_disk db)" by (simp add: compacted_disk_def Let_def remove_files sst_write_file_def)
  have ok: "disk_ok ?d (take n ?rs @ [r]) (take n sk @ [?g]) wh []"
    using dd tod th' lay' files(4,5) [OF dist] wal small_ts_le [OF ts] unfolding disk_ok_def by auto
  have "(case take (Suc n) (db_sstableIDs db) of [] \<Rightarrow> 1 | i # _ \<Rightarrow> i + 1) = (case db_sstableIDs db of [] \<Rightarrow> 1 | i # _ \<Rightarrow> i + 1)"
    by (cases "db_sstableIDs db") simp_all
  then show ?thesis using inv ok wal files(1) [OF dist] ids order_trans [OF ts] unfolding db_inv_def by simp
qed

subsection \<open>Reads and repeated compaction\<close>

lemma db_inv_first_read:
  assumes "db_inv db sk wh []" "ff_free uk" "small_ts snap"
  shows "db_GetAsOf uk snap db = get_answer (first_read (kvs_of_writes (hist_writes wh) # sk) uk snap)"
proof -
  have "\<not> db_closed db" using assms(1) by (simp add: db_inv_def)
  then show ?thesis
    using db_inv_layers [OF assms(1)] db_GetAsOf_layers [OF _ _ _ assms(2,3)] first_read_newest [OF _ assms(2,3)] by metis
qed

text \<open>The reads a compaction has to preserve.\<close>

definition same_reads :: "u64 \<Rightarrow> DB \<Rightarrow> DB \<Rightarrow> bool" where
  "same_reads w db db' \<longleftrightarrow> (\<forall>uk snap. uk \<noteq> [] \<longrightarrow> ff_free uk \<longrightarrow> small_ts snap \<longrightarrow> w \<le> snap \<longrightarrow> db_GetAsOf uk snap db' = db_GetAsOf uk snap db)"

lemma compact_once:
  assumes inv: "db_inv db sk wh []" and t: "2 \<le> opt_CompactionTrigger (db_opts db)" "nat (opt_CompactionTrigger (db_opts db)) \<le> length (db_sstables db)"
    and size: "sum_list (map kv_size sk) \<le> 2 ^ 45"
  obtains db' sk' where "db_tryCompactOnce None db = Some (Inr True, db')" "db_inv db' sk' wh []"
    "length (db_sstables db') < length (db_sstables db)" "sum_list (map kv_size sk') \<le> sum_list (map kv_size sk)"
    "same_reads (db_computeWatermark db) db db'" "db_computeWatermark db' = db_computeWatermark db" "db_opts db' = db_opts db"
proof -
  let ?s = "compact_start db" and ?w = "db_computeWatermark db"
  let ?g = "gc ?w True None 0 (merge_layers (drop ?s sk))" and ?mk = "kvs_of_writes (hist_writes wh)"
  note tabs = db_inv_tables [OF inv]
  have s: "?s + 2 \<le> length sk" using t tabs(2) by (simp add: compact_start_def)
  obtain r where r: "sst_OpenReader (rd_data r) = Inr r" "sst_holds r ?g" "sst_MaxTimestamp r = fold max (map (mvcc_Timestamp \<circ> fst) ?g) 0"
    "db_tryCompactOnce None db = Some (Inr True, db\<lparr>db_disk := compacted_disk ?s (rd_data r) (db_disk db),
       db_sstables := take ?s (db_sstables db) @ [r], db_sstableIDs := take (Suc ?s) (db_sstableIDs db)\<rparr>)" (is "_ = Some (_, ?db)")
    using tryCompactOnce_result [OF inv t size] .
  have inv': "db_inv ?db (take ?s sk @ [?g]) wh []" using compacted_inv [OF inv _ r(1-3)] s by simp
  have lay: "layers_ok ((?mk # take ?s sk) @ drop ?s sk)" using db_inv_layers [OF inv] by simp
  have ne: "\<forall>a\<in>set (drop ?s sk). \<forall>q\<in>set a. snd q \<noteq> []" using tables_nonempty [OF tabs(1)] in_set_dropD by metis
  have "same_reads ?w db ?db"
    unfolding same_reads_def
  proof (intro allI impI)
    fix uk snap
    assume a: "uk \<noteq> []" "ff_free uk" "small_ts snap" "?w \<le> snap"
    show "db_GetAsOf uk snap ?db = db_GetAsOf uk snap db"
      using compacted_layers(2) [OF lay ne a] by (simp add: db_inv_first_read [OF inv a(2,3)] db_inv_first_read [OF inv' a(2,3)])
  qed
  moreover have "\<forall>a\<in>set (drop ?s sk). kv_sorted a" using lay by (auto simp: layers_ok_def clean_kvs_def dest: in_set_dropD)
  then have "kv_size ?g \<le> sum_list (map kv_size (drop ?s sk))"
    using gc_size [of ?w True None 0 "merge_layers (drop ?s sk)"] kv_size_merge [of "drop ?s sk"] by linarith
  then have "sum_list (map kv_size (take ?s sk @ [?g])) \<le> sum_list (map kv_size sk)"
    using sum_take_drop [of ?s sk] by simp
  moreover have "length (db_sstables ?db) < length (db_sstables db)" using s tabs(2) by simp
  ultimately show ?thesis using that [OF r(4) inv'] by (simp add: db_computeWatermark_def)
qed

lemma compact_idle:
  "\<not> db_closed db \<Longrightarrow> length (db_sstables db) < nat (opt_CompactionTrigger (db_opts db)) \<Longrightarrow> db_tryCompactOnce None db = Some (Inr False, db)"
  by (simp add: db_tryCompactOnce_def db_compact_capture_def Let_def)

lemma compact_all:
  assumes "db_inv db sk wh []" "2 \<le> opt_CompactionTrigger (db_opts db)" "sum_list (map kv_size sk) \<le> 2 ^ 45"
  shows "\<exists>db' sk'. db_CompactForTesting db = Some (None, db') \<and> db_inv db' sk' wh [] \<and>
    length (db_sstables db') < nat (opt_CompactionTrigger (db_opts db)) \<and> same_reads (db_computeWatermark db) db db'"
  using assms
proof (induction "length (db_sstables db)" arbitrary: db sk rule: less_induct)
  case less
  show ?case
  proof (cases "nat (opt_CompactionTrigger (db_opts db)) \<le> length (db_sstables db)")
    case False
    moreover have "\<not> db_closed db" using less.prems(1) by (simp add: db_inv_def)
    ultimately have "db_CompactForTesting db = Some (None, db)"
      using compact_idle [of db] by (simp add: db_CompactForTesting.simps [of db])
    then show ?thesis using False less.prems(1) by (auto simp: same_reads_def)
  next
    case True
    obtain db1 sk1 where 1: "db_tryCompactOnce None db = Some (Inr True, db1)" "db_inv db1 sk1 wh []"
      "length (db_sstables db1) < length (db_sstables db)" "sum_list (map kv_size sk1) \<le> sum_list (map kv_size sk)"
      "same_reads (db_computeWatermark db) db db1" "db_computeWatermark db1 = db_computeWatermark db" "db_opts db1 = db_opts db"
      using compact_once [OF less.prems(1,2) True less.prems(3)] .
    then obtain db' sk' where "db_CompactForTesting db1 = Some (None, db')" "db_inv db' sk' wh []"
      "length (db_sstables db') < nat (opt_CompactionTrigger (db_opts db))" "same_reads (db_computeWatermark db) db1 db'"
      using less.hyps [OF 1(3,2)] less.prems(2,3) by auto
    moreover have "db_CompactForTesting db = db_CompactForTesting db1" using 1(1) by (simp add: db_CompactForTesting.simps [of db])
    ultimately show ?thesis using 1(5) unfolding same_reads_def by fastforce
  qed
qed

lemma sst_holds_unique: "sst_holds r a \<Longrightarrow> sst_holds r b \<Longrightarrow> a = b"
proof -
  let ?fn = "\<lambda>opv k v acc. (acc @ [(k, opv # v)], True)"
  have it: "sst_Iterate r ?fn [] = Inr c" if "sst_holds r c" for c
  proof -
    obtain bs where bs: "sst_repr r bs" "c = kvs_of_recs (concat bs)" using \<open>sst_holds r c\<close> by (auto simp: sst_holds_def)
    have "iter_recs ?fn rs acc = (acc @ kvs_of_recs rs, True)" for rs acc
      by (induction rs arbitrary: acc) (simp_all add: kvs_of_recs_def)
    then show ?thesis using bs by (simp add: sst_Iterate_records)
  qed
  assume "sst_holds r a" "sst_holds r b"
  from it [OF this(1)] it [OF this(2)] show ?thesis by simp
qed

end
