(* ===== verification/Compaction_Reads.thy ===== *)
theory Compaction_Reads
  imports Compaction_Run
begin

section \<open>Reads after a compaction\<close>

text \<open>
  The theorem on compactions: from every reachable database the compactions end, leave fewer tables than the
  trigger, and keep every answer a reader at or above the watermark can see, also after a restart.  The
  example is a database with two tables, which the theory on failed compactions uses too.
\<close>

subsection \<open>A database with two tables\<close>

lemma flush_keeps:
  "db_opts (snd (db_flushLocked fault db)) = db_opts db" "db_nextID (snd (db_flushLocked fault db)) \<le> db_nextID db + 1"
  by (simp_all add: db_flushLocked_def Let_def split: option.splits prod.splits sum.splits)

lemma open_trigger:
  "db_OpenWith rnd opts d = Inr db \<Longrightarrow> opt_CompactionTrigger (db_opts db) =
     (if opt_CompactionTrigger opts < 2 then defaultCompactionTrigger else opt_CompactionTrigger opts)"
  by (auto simp: db_OpenWith_def Let_def split: sum.splits prod.splits if_splits)

abbreviation txn_of :: "u64 \<Rightarrow> (Op \<times> bytes) kvs \<Rightarrow> Txn" where
  "txn_of snap ws \<equiv> \<lparr>tx_id = 0, tx_readSnap = snap, tx_writes = ws, tx_finished = False, tx_session = [], tx_seq = 0\<rparr>"

abbreviation commit_at :: "u64 \<Rightarrow> (Op \<times> bytes) kvs \<Rightarrow> Commit" where
  "commit_at ts ws \<equiv> \<lparr>cm_ts = ts, cm_writes = ws, cm_session = [], cm_val = []\<rparr>"

abbreviation table_of :: "Commit \<Rightarrow> bytes kvs" where
  "table_of c \<equiv> kvs_of_writes (hist_writes [c])"

definition small_writes :: "(Op \<times> bytes) kvs \<Rightarrow> bool" where
  "small_writes ws \<longleftrightarrow> kv_sorted ws \<and> list_all write_ok ws \<and> writes_size ws < 1048576 \<and> ws \<noteq> []"

lemma flush_commit:
  assumes r: "db_reach db h" and inv: "db_inv db sk [c] []" and c: "cm_writes c \<noteq> []"
    and small: "mt_ApproximateSize (db_memtable db) \<le> 1048576" "db_nextID db < 100"
  shows "\<exists>db'. db_reach db' h \<and> db_inv db' (table_of c # sk) [] [] \<and> db_nextTimestamp db' = db_nextTimestamp db \<and>
    db_nextID db' \<le> db_nextID db + 1 \<and> db_opts db' = db_opts db \<and> mt_ApproximateSize (db_memtable db') = 0"
proof -
  have "commit_writes c \<noteq> []" using c by (simp add: commit_writes_def)
  then have "table_of c \<noteq> []" using fst_kvs_of_writes [of "hist_writes [c]"] by auto
  then have ne: "mt_Len (db_memtable db) \<noteq> 0" using mk_empty_iff [OF inv] by simp
  have sz: "kv_size (table_of c) \<le> 2 ^ 45" using inv small(1) by (simp add: db_inv_def mt_repr_def mt_ApproximateSize_def)
  obtain db' where db': "db_flushLocked None db = (None, db')" "db_inv db' (table_of c # sk) [] []" "db_nextTimestamp db' = db_nextTimestamp db"
    using flush_inv [OF inv ne sz] small(2) by auto
  have "db_FlushForTesting None db = (None, db')" using db'(1) inv by (simp add: db_FlushForTesting_def db_inv_def)
  then have "db_reach db' h" using db_reach.flushed [OF r] small by simp
  moreover have "mt_ApproximateSize (db_memtable db') = 0"
    using db'(2) by (simp add: db_inv_def mt_repr_def kvs_of_writes_def kv_size_def mt_ApproximateSize_def)
  ultimately show ?thesis using db' flush_keeps [of None db] by (intro exI [of _ db']) simp
qed

lemma two_tables:
  assumes ws1: "small_writes ws1" and ws2: "small_writes ws2"
    and keys: "\<forall>k\<in>fst ` set ws1. \<forall>k'\<in>fst ` set ws2. prefix k' k \<longrightarrow> k = k'"
  obtains db where "db_reach db [commit_at 1 ws1, commit_at 2 ws2]" "db_inv db [table_of (commit_at 2 ws2), table_of (commit_at 1 ws1)] [] []"
    "opt_CompactionTrigger (db_opts db) = 2" "db_nextTimestamp db = 3" "db_activeTxns db = []"
proof -
  let ?c1 = "commit_at 1 ws1" and ?c2 = "commit_at 2 ws2" and ?io = "\<lambda>i :: nat. (WriteOk, True)"
  obtain db1 where db1: "db_reach db1 [?c1]" "db_inv db1 [] [?c1] []" "db_nextTimestamp db1 = 2" "db_nextID db1 = 1"
    "opt_MemtableSizeMax (db_opts db1) = defaultMemtableSizeMax" "mt_ApproximateSize (db_memtable db1) \<le> 1048576"
    using first_commit [of "txn_of 0 ws1"] ws1 by (auto simp: small_writes_def)
  obtain db2 where db2: "db_reach db2 [?c1]" "db_inv db2 [table_of ?c1] [] []" "db_nextTimestamp db2 = 2" "db_nextID db2 \<le> 2"
    "db_opts db2 = db_opts db1" "mt_ApproximateSize (db_memtable db2) = 0"
    using flush_commit [OF db1(1,2) _ db1(6)] db1(3,4) ws1 by (auto simp: small_writes_def numeral_2_eq_2)
  let ?t = "txn_of 1 ws2"
  have room: "db_room ?t db2" using ws2 db2(3,4,6) by (simp add: db_room_def small_writes_def small_ts_def)
  have nc: "tx_conflicts (map fst ws2) 1 db2 = None"
    using db_reach_conflicts [OF db2(1), of ws2 1] ws2 keys by (simp add: small_writes_def)
  have "sees 0 [table_of ?c1] [?c1]" using sees_snoc [OF sees_nothing, of ?c1] by simp
  then have sees: "sees 0 (kvs_of_writes (hist_writes []) # [table_of ?c1]) [?c1]"
    using sees_empty_top by (simp add: kvs_of_writes_def)
  have c2: "commit_of ?t db2 = ?c2" using db2(3) by (simp add: commit_of_def)
  have pre: "tx_writes ?t \<noteq> []" "\<not> tx_finished ?t" "tx_conflicts (map fst (tx_writes ?t)) (tx_readSnap ?t) db2 = None"
    "\<forall>i. ?io i = (WriteOk, True)"
    "mt_ApproximateSize (db_memtable db2) + writes_size (tx_writes ?t) < opt_MemtableSizeMax (db_opts db2)"
    using nc ws2 db1(5) db2(5,6) by (simp_all add: small_writes_def)
  obtain db3 where db3: "tx_Commit None ?io None ?t db2 = (None, ?t\<lparr>tx_finished := True\<rparr>, db3)"
    "db_inv db3 [table_of ?c1] ([] @ [commit_of ?t db2]) []" "db_nextID db3 = db_nextID db2"
    "db_nextTimestamp db3 = db_nextTimestamp db2 + 1"
    "mt_ApproximateSize (db_memtable db3) \<le> mt_ApproximateSize (db_memtable db2) + writes_size (tx_writes ?t)"
    using commit_noflush [OF db2(2) sees room pre, of None] by blast
  have inv3: "db_inv db3 [table_of ?c1] [?c2] []" and small3: "mt_ApproximateSize (db_memtable db3) \<le> 1048576"
    using db3(2,5) c2 ws2 db2(6) by (simp_all add: small_writes_def)
  have r3: "db_reach db3 [?c1, ?c2]"
    using db_reach.committed [OF db2(1) room pre(1) db3(1)] c2 by simp
  obtain db4 where db4: "db_reach db4 [?c1, ?c2]" "db_inv db4 [table_of ?c2, table_of ?c1] [] []" "db_nextTimestamp db4 = 3"
    using flush_commit [OF r3 inv3 _ small3] db2(3,4) db3(3,4) ws2 by (auto simp: small_writes_def)
  let ?opts = "db_DefaultOptions\<lparr>opt_CompactionTrigger := 2\<rparr>" and ?rs = "db_sstables db4"
  obtain db5 where db5: "db_OpenWith (db_rand db4) ?opts (db_disk db4) = Inr db5" "db_inv db5 [table_of ?c2, table_of ?c1] [] []"
    "db_appliedTS db5 = disk_maxTS ?rs []" "db_nextTimestamp db5 = db_appliedTS db5 + 1" "db_activeTxns db5 = []"
    using db_OpenWith_ok [OF db_inv_disk [OF db4(2)], of "db_rand db4" ?opts] by auto
  have "disk_maxTS ?rs [] \<le> db_appliedTS db4" "db_appliedTS db4 < 3" using db4(2,3) by (auto simp: db_inv_def)
  then have le: "disk_maxTS ?rs [] \<le> 2" by (simp add: word_le_nat_alt word_less_nat_alt)
  obtain w where w: "w \<in> set (hist_writes [?c2])" using ws2 by (cases ws2) (auto simp: small_writes_def commit_writes_def)
  then have "write_ts w = 2" using hist_writes_ok(4) [of "[?c2]" w] commit_ok_of [OF room] c2 by auto
  then obtain p where "p \<in> set (table_of ?c2)" "mvcc_Timestamp (fst p) = 2"
    using fst_kvs_of_writes [of "hist_writes [?c2]"] w by (metis (mono_tags, lifting) imageE image_eqI mvcc_Timestamp_Encode)
  then have "2 \<le> disk_maxTS ?rs []"
    using layer_ts_bound [of ?rs "[table_of ?c2, table_of ?c1]" "[]" "table_of ?c2" p "[]"] db4(2) by (auto simp: db_inv_def disk_ok_def)
  then have "db_nextTimestamp db5 = 3" using le db5(3,4) by simp
  moreover have "opt_CompactionTrigger (db_opts db5) = 2" using open_trigger [OF db5(1)] by simp
  moreover have "db_reach db5 [?c1, ?c2]" using db_reach.restarted [OF db4(1) db5(1)] .
  ultimately show ?thesis using that db5(2,5) by blast
qed

subsection \<open>All compactions\<close>

text \<open>C9: Compaction of a reachable database returns, with fewer tables than the trigger, whatever tables there were.
  Every read of a non-empty clean key at a snapshot at or above the watermark still returns what the history of commits
  says, on the running database and on the database opened from the compacted directory: the heap merge, the rule for
  dropping versions and tombstones, the file replacement and the removal of the inputs lose nothing a reader can see.\<close>

theorem db_compaction_reads:
  assumes "db_reach db h" "2 \<le> opt_CompactionTrigger (db_opts db)" "list_all2 sst_holds (db_sstables db) sk" "sum_list (map kv_size sk) \<le> 2 ^ 45"
  shows "\<exists>db' db''. db_CompactForTesting db = Some (None, db') \<and> int (length (db_sstables db')) < opt_CompactionTrigger (db_opts db) \<and>
    db_OpenWith rnd opts (db_disk db') = Inr db'' \<and>
    (\<forall>uk snap. uk \<noteq> [] \<longrightarrow> ff_free uk \<longrightarrow> small_ts snap \<longrightarrow> db_computeWatermark db \<le> snap \<longrightarrow>
       db_GetAsOf uk snap db' = get_answer (hist_read h uk snap) \<and> db_GetAsOf uk snap db'' = get_answer (hist_read h uk snap))"
proof -
  obtain sk1 wh where inv: "db_inv db sk1 wh []" "sees 0 (kvs_of_writes (hist_writes wh) # sk1) h"
    using db_reach_holds [OF assms(1)] by (auto simp: db_holds_def)
  have "sk1 = sk"
  proof (rule nth_equalityI)
    show "length sk1 = length sk" using db_inv_tables(2) [OF inv(1)] list_all2_lengthD [OF assms(3)] by simp
    show "sk1 ! i = sk ! i" if "i < length sk1" for i
      using list_all2_nthD2 [OF db_inv_tables(1) [OF inv(1)] that] list_all2_nthD2 [OF assms(3), of i] that
        \<open>length sk1 = length sk\<close> sst_holds_unique by simp
  qed
  then obtain db' sk' where db': "db_CompactForTesting db = Some (None, db')" "db_inv db' sk' wh []"
    "length (db_sstables db') < nat (opt_CompactionTrigger (db_opts db))" "same_reads (db_computeWatermark db) db db'"
    using compact_all [OF inv(1) assms(2)] assms(4) by blast
  obtain db'' where db'': "db_OpenWith rnd opts (db_disk db') = Inr db''" "db_inv db'' sk' wh []"
    using db_OpenWith_ok [OF db_inv_disk [OF db'(2)]] by blast
  have "db_GetAsOf uk snap db' = get_answer (hist_read h uk snap) \<and> db_GetAsOf uk snap db'' = get_answer (hist_read h uk snap)"
    if "uk \<noteq> []" "ff_free uk" "small_ts snap" "db_computeWatermark db \<le> snap" for uk snap
  proof -
    have "db_GetAsOf uk snap db' = get_answer (hist_read h uk snap)"
      using db'(4) get_answer_hist [OF inv] that by (simp add: same_reads_def)
    moreover have "db_GetAsOf uk snap db'' = db_GetAsOf uk snap db'"
      using db_inv_first_read [OF db'(2)] db_inv_first_read [OF db''(2)] that by simp
    ultimately show ?thesis by simp
  qed
  moreover have "int (length (db_sstables db')) < opt_CompactionTrigger (db_opts db)" using db'(3) by linarith
  ultimately show ?thesis using db'(1) db''(1) by (intro exI [of _ db'] exI [of _ db'']) simp
qed

theorem db_compaction_reads_witness:
  "\<exists>db h db' db''. db_reach db h \<and> length (db_sstables db) = 2 \<and> db_CompactForTesting db = Some (None, db') \<and> length (db_sstables db') < 2 \<and>
    db_OpenWith (db_rand db) db_DefaultOptions (db_disk db') = Inr db'' \<and>
    db_GetAsOf [97] 2 db' = Inl ErrKeyNotFound \<and> db_GetAsOf [98] 2 db'' = Inr [2]"
proof -
  let ?ws1 = "[([97], OpPut, [1]), ([98], OpPut, [2])] :: (Op \<times> bytes) kvs" and ?ws2 = "[([97], OpDelete, [])] :: (Op \<times> bytes) kvs"
  let ?a = "table_of (commit_at 2 ?ws2)" and ?b = "table_of (commit_at 1 ?ws1)" and ?h = "[commit_at 1 ?ws1, commit_at 2 ?ws2]"
  have "small_writes ?ws1" "small_writes ?ws2" by code_simp+
  then obtain db where db: "db_reach db ?h" "db_inv db [?a, ?b] [] []" "opt_CompactionTrigger (db_opts db) = 2"
    "db_nextTimestamp db = 3" "db_activeTxns db = []"
    by (rule two_tables) simp_all
  have w: "db_computeWatermark db = 2" using db(4,5) by (simp add: db_computeWatermark_def)
  have sz: "sum_list (map kv_size [?a, ?b]) \<le> 2 ^ 45" by code_simp
  obtain db' db'' where c: "db_CompactForTesting db = Some (None, db')" "int (length (db_sstables db')) < 2"
    "db_OpenWith (db_rand db) db_DefaultOptions (db_disk db') = Inr db''"
    "\<forall>uk snap. uk \<noteq> [] \<longrightarrow> ff_free uk \<longrightarrow> small_ts snap \<longrightarrow> 2 \<le> snap \<longrightarrow>
       db_GetAsOf uk snap db' = get_answer (hist_read ?h uk snap) \<and> db_GetAsOf uk snap db'' = get_answer (hist_read ?h uk snap)"
    using db_compaction_reads [OF db(1) _ db_inv_tables(1) [OF db(2)] sz, of "db_rand db" db_DefaultOptions] db(3) unfolding w by auto
  have "ff_free [97]" "ff_free [98]" "small_ts 2" "get_answer (hist_read ?h [97] 2) = Inl ErrKeyNotFound" "get_answer (hist_read ?h [98] 2) = Inr [2]"
    by code_simp+
  then have "db_GetAsOf [97] 2 db' = Inl ErrKeyNotFound" "db_GetAsOf [98] 2 db'' = Inr [2]" using c(4) by simp_all
  moreover have "length (db_sstables db) = 2" using db_inv_tables(2) [OF db(2)] by simp
  ultimately show ?thesis using db(1) c(1-3) by (intro exI [of _ db] exI [of _ ?h] exI [of _ db'] exI [of _ db'']) simp
qed

end
