(* ===== verification/Compaction_Faults.thy ===== *)
theory Compaction_Faults
  imports Compaction_Reads
begin

section \<open>Compactions that lose or resurrect data\<close>

text \<open>
  A failed compaction removes the newest of its inputs, a crash before the inputs are removed can bring
  deleted keys back, and the empty key is collected wrongly.
\<close>

subsection \<open>Files of a database with two tables\<close>

lemma two_files:
  assumes inv: "db_inv db [a, b] [] []"
  obtains ra rb i j where "db_sstables db = [ra, rb]" "db_sstableIDs db = [i, j]" "j < i" "fst ` set (dk_ssts (db_disk db)) = {i, j}"
    "map_of (dk_ssts (db_disk db)) j = Some (rd_data rb)" "sst_OpenReader (rd_data rb) = Inr rb" "table_holds rb b"
proof -
  let ?d = "db_disk db"
  have d: "disk_ok ?d (db_sstables db) [a, b] [] []" and ids: "db_sstableIDs db = rev (discoverSSTables ?d)"
    using inv by (simp_all add: db_inv_def)
  obtain ra rb where rs: "db_sstables db = [ra, rb]" "table_holds rb b"
    using d by (auto simp: disk_ok_def list_all2_Cons2)
  then obtain i j where ij: "db_sstableIDs db = [i, j]" "map_of (dk_ssts ?d) j = Some (rd_data rb)" "sst_OpenReader (rd_data rb) = Inr rb"
    using d unfolding ids by (auto simp: disk_ok_def tables_on_disk_def list_all2_Cons2)
  then have "discoverSSTables ?d = [j, i]" using ids by (simp add: rev_swap)
  then have "j < i" "fst ` set (dk_ssts ?d) = {i, j}"
    using discover_props [of ?d] d by (auto simp: disk_ok_def)
  then show ?thesis using that rs ij by blast
qed

lemma disk_ok_files:
  assumes d: "disk_ok d rs sk [] []" and S: "distinct (map fst S)" "\<forall>p\<in>set S. fst p < 1000000" "set ids = fst ` set S"
    and ids: "sorted (rev ids)" "distinct ids" "list_all2 (\<lambda>i r. map_of S i = Some (rd_data r) \<and> sst_OpenReader (rd_data r) = Inr r) ids rs'"
    and sk': "list_all2 table_holds rs' sk'" "layers_ok ([] # sk')" "rs_maxTS rs' \<le> rs_maxTS rs"
  shows "disk_ok (d\<lparr>dk_ssts := S\<rparr>) rs' sk' [] []"
proof -
  let ?d = "d\<lparr>dk_ssts := S\<rparr>"
  have "discoverSSTables ?d = rev ids"
    using discover_props [of ?d] S ids(1,2) by (intro sorted_distinct_set_unique) simp_all
  then have "tables_on_disk ?d rs'" using ids(3) by (simp add: tables_on_disk_def)
  moreover have "small_ts (disk_maxTS rs' [])"
    using d sk'(3) by (auto simp: disk_ok_def disk_maxTS_def hist_records_def small_ts_def word_le_nat_alt)
  ultimately show ?thesis
    using d S(1,2) sk'(1,2) by (simp add: disk_ok_def hist_records_def kvs_of_writes_def hist_writes_def)
qed

lemma compactSSTables_fault:
  assumes "compactSSTables None rs w b = Some (Inr out)"
  shows "compactSSTables (Some f) rs w b = Some (if f = CpOpenReader then Inr out else Inl DbCompactIO)"
  using assms by (cases f) (auto simp: compactSSTables_def Let_def split: sum.splits option.splits)

lemma failed_compaction:
  assumes inv: "db_inv db sk wh []" and t: "2 \<le> opt_CompactionTrigger (db_opts db)" "nat (opt_CompactionTrigger (db_opts db)) \<le> length (db_sstables db)"
    and size: "sum_list (map kv_size sk) \<le> 2 ^ 45"
  shows "db_tryCompactOnce (Some f) db =
    Some (Inl DbCompactIO, db\<lparr>db_disk := sst_remove_file (db_sstableIDs db ! compact_start db) (db_disk db)\<rparr>)"
proof -
  let ?s = "compact_start db"
  have "sum_list (map kv_size (drop ?s sk)) \<le> 2 ^ 45"
    using sum_take_drop [of ?s sk] sum_sizes_nonneg [of "take ?s sk"] size by linarith
  then obtain out where "compactSSTables None (drop ?s (db_sstables db)) (db_computeWatermark db) True = Some (Inr out)"
    using compactSSTables_table [OF list_all2_dropI [OF db_inv_tables(1) [OF inv]]] by metis
  note compactSSTables_fault [OF this, of f]
  then show ?thesis
    by (cases f) (simp_all add: db_tryCompactOnce_def capture_job [OF inv t] db_compact_write_def sst_write_file_def sst_remove_file_def Let_def)
qed

subsection \<open>A failed compaction\<close>

lemma lookup_disk [simp]: "db_GetAsOf uk snap (db\<lparr>db_disk := d\<rparr>) = db_GetAsOf uk snap db"
  by (simp add: db_GetAsOf_def)

lemma failed_compaction_disk:
  assumes inv: "db_inv db [a, b] [] []" and t: "opt_CompactionTrigger (db_opts db) = 2"
  shows "disk_ok (sst_remove_file (db_sstableIDs db ! compact_start db) (db_disk db)) [db_sstables db ! 1] [b] [] []"
proof -
  obtain ra rb i j where f: "db_sstables db = [ra, rb]" "db_sstableIDs db = [i, j]" "j < i" "fst ` set (dk_ssts (db_disk db)) = {i, j}"
    "map_of (dk_ssts (db_disk db)) j = Some (rd_data rb)" "sst_OpenReader (rd_data rb) = Inr rb" "table_holds rb b"
    using two_files [OF inv] .
  let ?S = "filter (\<lambda>p. fst p \<noteq> i) (dk_ssts (db_disk db))"
  have d: "disk_ok (db_disk db) [ra, rb] [a, b] [] []" using inv f(1) by (simp add: db_inv_def)
  have "set [j] = fst ` set ?S" using f(3,4) by auto
  moreover have "map_of ?S j = Some (rd_data rb)" using map_of_filter_fst [of "\<lambda>k. k \<noteq> i" "dk_ssts (db_disk db)" j] f(3,5) by simp
  moreover have "layers_ok [[], b]" using d by (simp add: disk_ok_def layers_ok_def)
  ultimately have "disk_ok (db_disk db\<lparr>dk_ssts := ?S\<rparr>) [rb] [b] [] []"
    using d f(6,7) by (intro disk_ok_files [OF d, of _ "[j]"]) (auto simp: disk_ok_def distinct_map_filter rs_maxTS_def)
  then show ?thesis using f(1,2) t by (simp add: sst_remove_file_def compact_start_def)
qed

text \<open>C10: A compaction that fails, at whichever call of the operating system (creating the writer, finishing the
  table, opening it again), destroys acknowledged data.  The output of a compaction is named after the newest of
  its inputs, and the error paths of \<^verbatim>\<open>tryCompactOnce\<close> remove that file, which is the input itself.  A reachable
  database holds the two commits \<open>97 := 1\<close> and \<open>98 := 2\<close> in two tables; after the failed compaction the running
  database still answers 2 for the key 98, but after a restart the key is gone.\<close>

theorem db_failed_compaction_loses_commit:
  "\<exists>db h db' db''. db_reach db h \<and> db_tryCompactOnce (Some fault) db = Some (Inl DbCompactIO, db') \<and>
    db_GetAsOf [98] 2 db' = Inr [2] \<and> db_OpenWith rnd opts (db_disk db') = Inr db'' \<and> db_GetAsOf [98] 2 db'' = Inl ErrKeyNotFound"
proof -
  let ?ws1 = "[([97], OpPut, [1])] :: (Op \<times> bytes) kvs" and ?ws2 = "[([98], OpPut, [2])] :: (Op \<times> bytes) kvs"
  let ?a = "table_of (commit_at 2 ?ws2)" and ?b = "table_of (commit_at 1 ?ws1)"
  have "small_writes ?ws1" "small_writes ?ws2" by code_simp+
  then obtain db where db: "db_reach db [commit_at 1 ?ws1, commit_at 2 ?ws2]" "db_inv db [?a, ?b] [] []" "opt_CompactionTrigger (db_opts db) = 2"
    by (rule two_tables) simp_all
  let ?db = "db\<lparr>db_disk := sst_remove_file (db_sstableIDs db ! compact_start db) (db_disk db)\<rparr>"
  have "sum_list (map kv_size [?a, ?b]) \<le> 2 ^ 45" by code_simp
  then have f: "db_tryCompactOnce (Some fault) db = Some (Inl DbCompactIO, ?db)"
    using failed_compaction [OF db(2)] db(3) db_inv_tables(2) [OF db(2)] by simp
  obtain db'' where o: "db_OpenWith rnd opts (db_disk ?db) = Inr db''" "db_inv db'' [?b] [] []"
    using db_OpenWith_ok [OF failed_compaction_disk [OF db(2,3)]] by auto
  have small: "ff_free [98]" "small_ts 2" by code_simp+
  have "db_GetAsOf [98] 2 ?db = get_answer (first_read (kvs_of_writes (hist_writes []) # [?a, ?b]) [98] 2)"
    using db_inv_first_read [OF db(2) small] by simp
  also have "\<dots> = Inr [2]" by code_simp
  finally have "db_GetAsOf [98] 2 ?db = Inr [2]" .
  moreover have "get_answer (first_read (kvs_of_writes (hist_writes []) # [?b]) [98] 2) = Inl ErrKeyNotFound" by code_simp
  then have "db_GetAsOf [98] 2 db'' = Inl ErrKeyNotFound" using db_inv_first_read [OF o(2) small] by simp
  ultimately show ?thesis using db(1) f o(1) by blast
qed

subsection \<open>A crash before the inputs are removed\<close>

lemma crashed_compaction:
  assumes inv: "db_inv db [a, b] [] []" and t: "opt_CompactionTrigger (db_opts db) = 2" and size: "sum_list (map kv_size [a, b]) \<le> 2 ^ 45"
    and g: "gc (db_computeWatermark db) True None 0 (merge_layers [a, b]) = []"
  obtains job r r' d where "db_compact_capture db = Some job"
    "db_compact_write None job (db_computeWatermark db) (db_disk db) = Some (Inr r, d)" "disk_ok d [r, r'] [[], b] [] []"
proof -
  obtain ra rb i j where f: "db_sstables db = [ra, rb]" "db_sstableIDs db = [i, j]" "j < i" "fst ` set (dk_ssts (db_disk db)) = {i, j}"
    "map_of (dk_ssts (db_disk db)) j = Some (rd_data rb)" "sst_OpenReader (rd_data rb) = Inr rb" "table_holds rb b"
    using two_files [OF inv] .
  obtain out r where r: "compactSSTables None (db_sstables db) (db_computeWatermark db) True = Some (Inr out)" "sst_OpenReader out = Inr r"
    "rd_data r = out" "sst_holds r []" "sst_MaxTimestamp r = 0"
    using compactSSTables_table [OF db_inv_tables(1) [OF inv] size] g by (metis fold_simps(1) list.simps(8))
  let ?S = "(i, out) # filter (\<lambda>p. fst p \<noteq> i) (dk_ssts (db_disk db))"
  have d: "disk_ok (db_disk db) [ra, rb] [a, b] [] []" using inv f(1) by (simp add: db_inv_def)
  have "set [i, j] = fst ` set ?S" using f(3,4) by auto
  moreover have "map_of ?S j = Some (rd_data rb)" using map_of_filter_fst [of "\<lambda>k. k \<noteq> i" "dk_ssts (db_disk db)" j] f(3,5) by simp
  moreover have "layers_ok [[], [], b]" using d by (simp add: disk_ok_def layers_ok_def clean_kvs_def)
  moreover have "i < 1000000" using d f(4) by (force simp: disk_ok_def)
  ultimately have "disk_ok (db_disk db\<lparr>dk_ssts := ?S\<rparr>) [r, rb] [[], b] [] []"
    using d f(3,6,7) r(2-5)
    by (intro disk_ok_files [OF d, of _ "[i, j]"]) (auto simp: disk_ok_def distinct_map_filter rs_maxTS_def table_holds_def)
  moreover have "compact_start db = 0" using f(1) t by (simp add: compact_start_def)
  then have "db_compact_capture db = Some \<lparr>cj_inputs = db_sstables db, cj_inputIDs = db_sstableIDs db, cj_bottom = True, cj_outputID = i\<rparr>"
    using capture_job [OF inv] t f(1,2) by simp
  ultimately show ?thesis using that r(1,2) by (simp add: db_compact_write_def sst_write_file_def Let_def)
qed

text \<open>C11: A crash in the middle of a compaction can bring a deleted key back.  The compacted table replaces the
  newest input before the older inputs are removed, and at the bottom it no longer holds the deletion.  In a
  reachable database the key 97 was put and then deleted, and reads do not find it; when the process stops after
  the compacted table is in place and before the older input is removed, the next process answers 1.\<close>

theorem db_compaction_crash_resurrects:
  "\<exists>db h job r d db'. db_reach db h \<and> db_GetAsOf [97] 2 db = Inl ErrKeyNotFound \<and> db_compact_capture db = Some job \<and>
    db_compact_write None job (db_computeWatermark db) (db_disk db) = Some (Inr r, d) \<and>
    db_OpenWith rnd opts d = Inr db' \<and> db_GetAsOf [97] 2 db' = Inr [1]"
proof -
  let ?ws1 = "[([97], OpPut, [1])] :: (Op \<times> bytes) kvs" and ?ws2 = "[([97], OpDelete, [])] :: (Op \<times> bytes) kvs"
  let ?a = "table_of (commit_at 2 ?ws2)" and ?b = "table_of (commit_at 1 ?ws1)"
  have "small_writes ?ws1" "small_writes ?ws2" by code_simp+
  then obtain db where db: "db_reach db [commit_at 1 ?ws1, commit_at 2 ?ws2]" "db_inv db [?a, ?b] [] []" "opt_CompactionTrigger (db_opts db) = 2"
    "db_nextTimestamp db = 3" "db_activeTxns db = []"
    by (rule two_tables) simp_all
  have w: "db_computeWatermark db = 2" using db(4,5) by (simp add: db_computeWatermark_def)
  have sz: "sum_list (map kv_size [?a, ?b]) \<le> 2 ^ 45" by code_simp
  have g: "gc (db_computeWatermark db) True None 0 (merge_layers [?a, ?b]) = []" unfolding w by code_simp
  obtain job r r' d where c: "db_compact_capture db = Some job"
    "db_compact_write None job (db_computeWatermark db) (db_disk db) = Some (Inr r, d)" "disk_ok d [r, r'] [[], ?b] [] []"
    using crashed_compaction [OF db(2,3) sz g] .
  obtain db' where o: "db_OpenWith rnd opts d = Inr db'" "db_inv db' [[], ?b] [] []" using db_OpenWith_ok [OF c(3)] by auto
  have small: "ff_free [97]" "small_ts 2" by code_simp+
  have "get_answer (first_read (kvs_of_writes (hist_writes []) # [?a, ?b]) [97] 2) = Inl ErrKeyNotFound"
    "get_answer (first_read (kvs_of_writes (hist_writes []) # [[], ?b]) [97] 2) = Inr [1]" by code_simp+
  then have "db_GetAsOf [97] 2 db = Inl ErrKeyNotFound" "db_GetAsOf [97] 2 db' = Inr [1]"
    using db_inv_first_read [OF db(2) small] db_inv_first_read [OF o(2) small] by simp_all
  then show ?thesis using db(1) c(1,2) o(1) by blast
qed

subsection \<open>The empty key\<close>

text \<open>C12: A compaction brings a deleted empty key back when it is the only key of its inputs.  The collector takes a
  nil current key for \<^verbatim>\<open>no key yet\<close>, and appending the empty key to nil leaves nil, so every version of the empty
  key counts as the first of its key: the deletion is dropped and the older put is kept.  \<^verbatim>\<open>Put\<close> and \<^verbatim>\<open>Delete\<close>
  accept the empty key.  This is why the theorem on compactions asks for a nonempty key.\<close>

theorem db_compaction_empty_key:
  "\<exists>db h db'. db_reach db h \<and> db_GetAsOf [] 2 db = Inl ErrKeyNotFound \<and>
    db_tryCompactOnce None db = Some (Inr True, db') \<and> db_GetAsOf [] 2 db' = Inr [1]"
proof -
  let ?ws1 = "[([], OpPut, [1])] :: (Op \<times> bytes) kvs" and ?ws2 = "[([], OpDelete, [])] :: (Op \<times> bytes) kvs"
  let ?a = "table_of (commit_at 2 ?ws2)" and ?b = "table_of (commit_at 1 ?ws1)"
  have "small_writes ?ws1" "small_writes ?ws2" by code_simp+
  then obtain db where db: "db_reach db [commit_at 1 ?ws1, commit_at 2 ?ws2]" "db_inv db [?a, ?b] [] []" "opt_CompactionTrigger (db_opts db) = 2"
    "db_nextTimestamp db = 3" "db_activeTxns db = []"
    by (rule two_tables) simp_all
  have w: "db_computeWatermark db = 2" using db(4,5) by (simp add: db_computeWatermark_def)
  have st: "compact_start db = 0" and len: "length (db_sstables db) = 2"
    using db(3) db_inv_tables(2) [OF db(2)] by (simp_all add: compact_start_def)
  have sz: "sum_list (map kv_size [?a, ?b]) \<le> 2 ^ 45" by code_simp
  let ?g = "gc 2 True None 0 (merge_layers [?a, ?b])"
  obtain r where r: "sst_OpenReader (rd_data r) = Inr r" "sst_holds r ?g" "sst_MaxTimestamp r = fold max (map (mvcc_Timestamp \<circ> fst) ?g) 0"
    "db_tryCompactOnce None db = Some (Inr True, db\<lparr>db_disk := compacted_disk 0 (rd_data r) (db_disk db),
       db_sstables := [r], db_sstableIDs := take 1 (db_sstableIDs db)\<rparr>)" (is "_ = Some (_, ?db)")
    using tryCompactOnce_result [OF db(2) _ _ sz] db(3) len by (auto simp: w st)
  have inv': "db_inv ?db [?g] [] []" using compacted_inv [OF db(2), where n = 0 and w = 2 and r = r] r(1-3) by simp
  have small: "ff_free []" "small_ts 2" by code_simp+
  have "get_answer (first_read (kvs_of_writes (hist_writes []) # [?a, ?b]) [] 2) = Inl ErrKeyNotFound"
    "get_answer (first_read (kvs_of_writes (hist_writes []) # [?g]) [] 2) = Inr [1]" by code_simp+
  then have "db_GetAsOf [] 2 db = Inl ErrKeyNotFound" "db_GetAsOf [] 2 ?db = Inr [1]"
    using db_inv_first_read [OF db(2) small] db_inv_first_read [OF inv' small] by simp_all
  then show ?thesis using db(1) r(4) by blast
qed

end
