(* ===== verification/Snapshot.thy ===== *)
theory Snapshot
  imports Scan Compaction_Run
begin

section \<open>Building a database from a snapshot (\<open>internal/db/snapshot.go\<close>)\<close>

text \<open>
  \<^verbatim>\<open>BuildSnapshotDB\<close> writes the keys and values of a snapshot into one table, all at the timestamp of the snapshot,
  with the applied index and the sessions in their files.  The theorem composes it with the scan that
  takes the snapshot and with the opening of the new directory.
\<close>

subsection \<open>The operation\<close>

record KV =
  kv_Key :: bytes
  kv_Value :: bytes

datatype snap_point = SnNewWriter | SnFinish | SnBase | SnSessions

datatype snap_error = SnapIO snap_point | SnapAdd bytes sst_error | SnapFinish sst_error

fun snap_add_all :: "u64 \<Rightarrow> KV list \<Rightarrow> Writer \<Rightarrow> snap_error + Writer" where
  "snap_add_all snapshotTS [] w = Inr w"
| "snap_add_all snapshotTS (kv # kvs) w =
     (case sst_Add OpPut (kv_Key kv) (kv_Value kv) snapshotTS w of
        Inl e \<Rightarrow> Inl (SnapAdd (kv_Key kv) e)
      | Inr w' \<Rightarrow> snap_add_all snapshotTS kvs w')"

definition snap_table :: "snap_point option \<Rightarrow> KV list \<Rightarrow> u64 \<Rightarrow> u64 \<Rightarrow> snap_error + bytes" where
  "snap_table fault kvs lastIncludedIndex snapshotTS =
     (if fault = Some SnNewWriter then Inl (SnapIO SnNewWriter)
      else case snap_add_all snapshotTS kvs (sst_NewWriter (int (length kvs)) lastIncludedIndex) of
             Inl e \<Rightarrow> Inl e
           | Inr w \<Rightarrow>
               if fault = Some SnFinish then Inl (SnapIO SnFinish)
               else case sst_Finish w of Inl e \<Rightarrow> Inl (SnapFinish e) | Inr file \<Rightarrow> Inr file)"

text \<open>\<open>fault\<close> is the operating-system call that fails, if any; the result has the directory as it is then.\<close>

definition snap_files :: "snap_point option \<Rightarrow> sessions \<Rightarrow> u64 \<Rightarrow> Disk \<Rightarrow> snap_error option \<times> Disk" where
  "snap_files fault sess lastIncludedIndex d =
     (if fault = Some SnBase then (Some (SnapIO SnBase), d)
      else let d1 = writeAppliedBase lastIncludedIndex d in
        if sess = [] then (None, d1)
        else if fault = Some SnSessions then (Some (SnapIO SnSessions), d1)
        else (None, writeSessionsFile sess d1))"

definition BuildSnapshotDB ::
  "snap_point option \<Rightarrow> KV list \<Rightarrow> sessions \<Rightarrow> u64 \<Rightarrow> u64 \<Rightarrow> Disk \<Rightarrow> snap_error option \<times> Disk" where
  "BuildSnapshotDB fault kvs sess lastIncludedIndex snapshotTS d =
     (if kvs = [] then snap_files fault sess lastIncludedIndex d
      else case snap_table fault kvs lastIncludedIndex snapshotTS of
             Inl e \<Rightarrow> (Some e, d)
           | Inr file \<Rightarrow> snap_files fault sess lastIncludedIndex (sst_write_file 1 file d))"

subsection \<open>The sessions file\<close>

abbreviation sess_entry :: "bytes \<times> u64 \<Rightarrow> bytes" where
  "sess_entry p \<equiv> le_PutUint32 (word_of_nat (length (fst p))) @ fst p @ le_PutUint64 (snd p)"

lemma sess_put_new: "k \<notin> fst ` set m \<Longrightarrow> sess_put k s m = m @ [(k, s)]"
  by (induction m) auto

lemma read_sessions_entries:
  assumes "distinct (map fst (out @ m))" "\<forall>p\<in>set m. length (fst p) < 2 ^ 32"
  shows "readSessions_loop (length m) (pre @ concat (map sess_entry m)) (length pre) out = out @ m"
  using assms
proof (induction m arbitrary: pre out)
  case (Cons p m)
  let ?e = "sess_entry p"
  have n: "unat (word_of_nat (length (fst p)) :: u32) = length (fst p)" using Cons.prems(2) by (simp add: unat_of_nat take_bit_nat_eq_self)
  have "readSessions_loop (length m) ((pre @ ?e) @ concat (map sess_entry m)) (length (pre @ ?e)) (out @ [p]) = (out @ [p]) @ m"
    using Cons.prems by (intro Cons.IH) auto
  moreover have "fst p \<notin> fst ` set out" using Cons.prems(1) by auto
  ultimately show ?case by (simp add: Let_def n bslice_def sess_put_new add.assoc)
qed simp

lemma sessions_file:
  assumes "distinct (map fst m)" "\<forall>p\<in>set m. length (fst p) < 2 ^ 32" "length m < 2 ^ 64"
  shows "readSessionsFile (writeSessionsFile m d) = m"
proof -
  have "concat (map (\<lambda>(k, seq). le_PutUint32 (word_of_nat (length k)) @ k @ le_PutUint64 seq) m) = concat (map sess_entry m)"
    by (simp add: case_prod_unfold)
  then show ?thesis
    using read_sessions_entries [of "[]" m "le_PutUint64 (word_of_nat (length m))"] assms
    by (simp add: readSessionsFile_def writeSessionsFile_def sessions_bytes_def unat_of_nat take_bit_nat_eq_self)
qed

subsection \<open>The table of a snapshot\<close>

definition snap_kvs :: "u64 \<Rightarrow> (bytes \<times> bytes) list \<Rightarrow> bytes kvs" where
  "snap_kvs ts kvs = map (\<lambda>(k, v). (mvcc_Encode k ts, OpPut # v)) kvs"

lemma snap_add_entries:
  "sst_add_all (map entry_of (snap_kvs ts kvs)) w = Inr w' \<Longrightarrow> snap_add_all ts (map (\<lambda>(k, v). \<lparr>kv_Key = k, kv_Value = v\<rparr>) kvs) w = Inr w'"
  by (induction kvs arbitrary: w) (auto simp: snap_kvs_def entry_of_Encode split: sum.splits)

lemma snap_kvs_clean:
  assumes "sorted_wrt key_before (map fst kvs)" "\<forall>k\<in>fst ` set kvs. ff_free k" "small_ts ts"
  shows "clean_kvs (snap_kvs ts kvs)"
proof -
  have "sorted_wrt (\<lambda>a b. mvcc_Encode a ts < mvcc_Encode b ts) (map fst kvs)"
    using mvcc_Encode_less_iff assms(2,3) by (intro sorted_wrt_mono_rel [OF _ assms(1)]) (metis list.set_map)
  then have "kv_sorted (snap_kvs ts kvs)" by (simp add: snap_kvs_def sorted_wrt_map case_prod_unfold comp_def)
  then show ?thesis using assms(2,3) by (auto simp: clean_kvs_def snap_kvs_def clean_key_def)
qed

lemma live_read_entry:
  assumes "live (mvcc_read M uk snap) = Some v" obtains t where "(mvcc_Encode uk t, OpPut # v) \<in> set M"
proof -
  obtain t where "mvcc_read M uk snap = Some (t, OpPut # v)" using assms by (auto simp: live_def split: option.splits list.splits if_splits)
  then have "(t, OpPut # v) \<in> set (mvcc_versions M uk)" unfolding mvcc_read_def using newest_in_set by fastforce
  then show thesis using that set_mvcc_versions [of t "OpPut # v" M uk] by simp
qed

lemma kv_size_member: "q \<in> set m \<Longrightarrow> kv_size [q] \<le> kv_size m"
proof (induction m)
  case (Cons p m)
  then show ?case using kv_size_Cons(1) [of p m] kv_size_Cons(2) [of m] kv_size_Cons(3) [of p] by auto
qed simp

lemma snap_kvs_size: "kv_size (snap_kvs ts (scan_kvs snap M)) \<le> kv_size M"
proof (induction snap M rule: scan_kvs.induct)
  case (2 snap p kvs)
  let ?uk = "mvcc_UserKey (fst p)"
  let ?same = "\<lambda>q. mvcc_UserKey (fst q) = ?uk"
  let ?g = "p # takeWhile ?same kvs" and ?rest = "dropWhile ?same kvs"
  have IH: "kv_size (snap_kvs ts (scan_kvs snap ?rest)) \<le> kv_size ?rest" using 2 [OF refl refl] .
  have "kv_size (snap_kvs ts (case live (mvcc_read ?g ?uk snap) of None \<Rightarrow> [] | Some v \<Rightarrow> [(?uk, v)])) \<le> kv_size ?g"
  proof (cases "live (mvcc_read ?g ?uk snap)")
    case None
    then show ?thesis using kv_size_Cons(2) [of ?g] by (simp add: snap_kvs_def kv_size_def)
  next
    case (Some v)
    obtain t where "(mvcc_Encode ?uk t, OpPut # v) \<in> set ?g" using live_read_entry [OF Some] .
    from kv_size_member [OF this] show ?thesis using Some by (simp add: snap_kvs_def kv_size_def)
  qed
  moreover have "kv_size (p # kvs) = kv_size ?g + kv_size ?rest" using kv_size_append [of ?g ?rest] by simp
  moreover have "scan_kvs snap (p # kvs) = (case live (mvcc_read ?g ?uk snap) of None \<Rightarrow> [] | Some v \<Rightarrow> [(?uk, v)]) @ scan_kvs snap ?rest"
    by (simp add: Let_def)
  ultimately show ?case using IH by (simp add: snap_kvs_def kv_size_append)
qed (simp add: snap_kvs_def)

lemma snap_kvs_tabular:
  assumes "tabular M" "clean_kvs (snap_kvs ts kvs)" "\<forall>k v. (k, v) \<in> set kvs \<longrightarrow> live (mvcc_read M k snap) = Some v"
  shows "tabular (snap_kvs ts kvs)"
  unfolding tabular_def
proof (intro conjI ballI)
  show "kv_sorted (snap_kvs ts kvs)" using assms(2) by (simp add: clean_kvs_def)
  fix p assume "p \<in> set (snap_kvs ts kvs)"
  then obtain k v where p: "p = (mvcc_Encode k ts, OpPut # v)" "live (mvcc_read M k snap) = Some v" using assms(3) by (auto simp: snap_kvs_def)
  then obtain t where "(mvcc_Encode k t, OpPut # v) \<in> set M" using live_read_entry by blast
  then have "rec_ok (mkRecord OpPut ts (mvcc_Encode k ts) v)"
    by (rule tabularE [OF assms(1)]) (auto simp: rec_ok_def mkRecord_def)
  then show "\<exists>uk ts opv v. p = (mvcc_Encode uk ts, opv # v) \<and> rec_ok (mkRecord opv ts (mvcc_Encode uk ts) v)" using p(1) by blast
qed

subsection \<open>The new directory\<close>

abbreviation to_kvs :: "(bytes \<times> bytes) list \<Rightarrow> KV list" where
  "to_kvs kvs \<equiv> map (\<lambda>(k, v). \<lparr>kv_Key = k, kv_Value = v\<rparr>) kvs"

definition sess_ok :: "sessions \<Rightarrow> bool" where
  "sess_ok m \<longleftrightarrow> distinct (map fst m) \<and> (\<forall>p\<in>set m. length (fst p) < 2 ^ 32) \<and> length m < 2 ^ 64"

lemma snap_files_read:
  assumes "snap_files None m idx d = (e, d')" "sess_ok m" "dk_sessions d = None"
  shows "e = None" "readAppliedBase d' = idx" "readSessionsFile d' = m" "dk_ssts d' = dk_ssts d" "dk_wal d' = dk_wal d"
proof -
  have "d' = (if m = [] then writeAppliedBase idx d else writeSessionsFile m (writeAppliedBase idx d))" and e: "e = None"
    using assms(1) by (auto simp: snap_files_def Let_def split: if_splits)
  then show "e = None" "readAppliedBase d' = idx" "readSessionsFile d' = m" "dk_ssts d' = dk_ssts d" "dk_wal d' = dk_wal d"
    using sessions_file [of m "writeAppliedBase idx d"] assms(2,3)
    by (simp_all add: sess_ok_def readAppliedBase_def writeAppliedBase_def) (simp_all add: writeSessionsFile_def readSessionsFile_def)
qed

lemma snap_maxTS: "kvs \<noteq> [] \<Longrightarrow> fold max (map (mvcc_Timestamp \<circ> fst) (snap_kvs ts kvs)) 0 = (ts :: u64)"
proof (induction kvs rule: rev_induct)
  case (snoc p kvs)
  then show ?case by (cases kvs) (auto simp: snap_kvs_def case_prod_unfold max_def)
qed simp

lemma snap_table_ok:
  assumes "tabular (snap_kvs ts kvs)" "kv_size (snap_kvs ts kvs) \<le> 2 ^ 45" "kvs \<noteq> []"
  obtains out r where "snap_table None (to_kvs kvs) idx ts = Inr out" "sst_OpenReader out = Inr r" "rd_data r = out"
    "table_holds r (snap_kvs ts kvs)" "sst_MaxTimestamp r = ts" "sst_AppliedIndex r = idx"
proof -
  let ?T = "snap_kvs ts kvs"
  have "length ?T = length kvs" by (simp add: snap_kvs_def)
  then have "3 * kv_size ?T + 2 * int (length kvs) \<le> 2 ^ 48 - 60" using length_le_size [of ?T] assms(2) by simp
  then obtain w out r where w: "sst_add_all (map entry_of ?T) (sst_NewWriter (int (length kvs)) idx) = Inr w" "sst_Finish w = Inr out"
    "sst_OpenReader out = Inr r" "rd_data r = out" "sst_holds r ?T" "sst_MaxTimestamp r = fold max (map (mvcc_Timestamp \<circ> fst) ?T) 0"
    "sst_AppliedIndex r = idx"
    using write_table [OF assms(1)] by blast
  have "snap_table None (to_kvs kvs) idx ts = Inr out" using snap_add_entries [OF w(1)] w(2) by (simp add: snap_table_def)
  moreover have "table_holds r ?T" using w(5,6) snap_maxTS [OF assms(3)] by (auto simp: table_holds_def snap_kvs_def)
  ultimately show ?thesis using that w snap_maxTS [OF assms(3)] by metis
qed

lemma build_snapshot:
  assumes T: "tabular (snap_kvs ts kvs)" "clean_kvs (snap_kvs ts kvs)" "kv_size (snap_kvs ts kvs) \<le> 2 ^ 45" "small_ts ts"
    and m: "sess_ok m"
  obtains d rs where "BuildSnapshotDB None (to_kvs kvs) m idx ts empty_disk = (None, d)"
    "disk_ok d rs (if kvs = [] then [] else [snap_kvs ts kvs]) [] []" "readAppliedBase d = idx" "readSessionsFile d = m"
    "rs_maxAI rs \<le> idx" "rs_maxTS rs = (if kvs = [] then 0 else ts)"
proof (cases "kvs = []")
  case True
  obtain e d where d: "snap_files None m idx empty_disk = (e, d)" by fastforce
  note f = snap_files_read [OF d m]
  have "disk_ok d [] [] [] []"
    using empty_disk_ok f by (simp add: disk_ok_def tables_on_disk_def discoverSSTables_def empty_disk_def)
  then show ?thesis using that [of d "[]"] d f True by (simp add: BuildSnapshotDB_def empty_disk_def rs_maxAI_def rs_maxTS_def)
next
  case False
  obtain out r where r: "snap_table None (to_kvs kvs) idx ts = Inr out" "sst_OpenReader out = Inr r" "rd_data r = out"
    "table_holds r (snap_kvs ts kvs)" "sst_MaxTimestamp r = ts" "sst_AppliedIndex r = idx"
    using snap_table_ok [OF T(1,3) False] .
  obtain e d where d: "snap_files None m idx (sst_write_file 1 out empty_disk) = (e, d)" by fastforce
  note f = snap_files_read [OF d m]
  have ssts: "dk_ssts d = [(1, out)]" "dk_wal d = None" using f(4,5) by (simp_all add: sst_write_file_def empty_disk_def)
  have mx: "rs_maxTS [r] = ts" "rs_maxAI [r] = idx" using r(5,6) by (simp_all add: rs_maxTS_def rs_maxAI_def)
  have "disk_ok d [r] [snap_kvs ts kvs] [] []"
    using empty_disk_ok ssts r(2-4) T(2,4) mx(1)
    by (simp add: disk_ok_def tables_on_disk_def discoverSSTables_def empty_disk_def layers_ok_def disk_maxTS_def hist_records_def
        kvs_of_writes_def)
  then show ?thesis using that [of d "[r]"] d f False r(1) mx by (simp add: BuildSnapshotDB_def sst_write_file_def empty_disk_def)
qed

subsection \<open>Taking and restoring a snapshot\<close>

lemma snapshot_scan:
  assumes r: "db_reach db h" and inv: "db_inv db sk wh []" and sees: "sees 0 (kvs_of_writes (hist_writes wh) # sk) h"
  obtains it it' M where "db_SnapshotScan db = Some (Inr (it, db_appliedIndex db, db_appliedTS db))"
    "di_drain it [] = Some (scan_kvs (db_appliedTS db) M, it')" "di_err it' = None" "clean_kvs M"
    "M = merge_layers (kvs_of_writes (hist_writes wh) # sk)"
    "\<forall>uk. live (mvcc_read M uk (db_appliedTS db)) = live (hist_read h uk (db_appliedTS db))"
proof -
  let ?L = "kvs_of_writes (hist_writes wh) # sk"
  note scan = db_scan_layers [OF inv refl, where start = None and ?end1.0 = None, unfolded map_idI [OF seek_range_all]]
  have ok: "list_all commit_ok h" using db_reach_commits [OF r] by (auto simp: list_all_iff)
  have "live (mvcc_read (merge_layers ?L) uk (db_appliedTS db)) = live (hist_read h uk (db_appliedTS db))" for uk
    unfolding scan(3) using layers_live_hist [OF _ sees ok] db_inv_layers [OF inv] by blast
  moreover obtain cs it it' where "scan_cursors None None db = Some (Inr cs)" "open_scan cs (db_appliedTS db) = Some it"
      "di_drain it [] = Some (scan_kvs (db_appliedTS db) (merge_layers ?L), it')" "di_err it' = None"
    using scan(1) by blast
  ultimately show ?thesis using that scan(2) db_reach_open [OF r] by (auto simp: db_SnapshotScan_def)
qed

text \<open>A read of the restored table at or above the snapshot.\<close>

lemma snap_kvs_read:
  assumes "distinct (map fst kvs)" "ts \<le> snap"
  shows "mvcc_read (snap_kvs ts kvs) uk snap = (case map_of kvs uk of None \<Rightarrow> None | Some v \<Rightarrow> Some (ts, OpPut # v))"
proof -
  have "mvcc_versions (snap_kvs ts kvs) uk = (case map_of kvs uk of None \<Rightarrow> [] | Some v \<Rightarrow> [(ts, OpPut # v)])"
    using assms(1) by (induction kvs) (force simp: snap_kvs_def mvcc_versions_def split: option.splits)+
  then show ?thesis using assms(2) by (simp add: mvcc_read_def split: option.splits)
qed

lemma hist_read_later:
  assumes r: "db_reach db h" and snap: "db_appliedTS db \<le> snap"
  shows "hist_read h uk snap = hist_read h uk (db_appliedTS db)"
proof -
  have "fst p \<le> db_appliedTS db" if p: "p \<in> set (write_versions (hist_writes h) uk)" for p
  proof -
    obtain c where "c \<in> set h" "fst p = cm_ts c" using p hist_versions_ts [of "fst p" h uk] by (metis prod.collapse)
    then show ?thesis using db_reach_sorted [OF r] db_reach_applied [OF r]
      by (cases h rule: rev_cases) (auto simp: sorted_wrt_append intro: less_imp_le)
  qed
  then have "\<forall>p\<in>set (write_versions (hist_writes h) uk). fst p \<le> db_appliedTS db \<and> fst p \<le> snap" using snap order_trans by blast
  then show ?thesis by (simp add: hist_read_def filter_id_conv cong: filter_cong)
qed

lemma get_answer_none: "\<forall>v. get_answer r \<noteq> Inr v \<Longrightarrow> get_answer r = Inl ErrKeyNotFound"
  by (cases "read_result r") (auto simp: get_answer_def split: if_splits)

lemma snapshot_answer:
  assumes r: "db_reach db h" and g: "\<forall>uk v. (uk, v) \<in> set kvs \<longleftrightarrow> live (hist_read h uk (db_appliedTS db)) = Some v" "distinct (map fst kvs)"
    and snap: "db_appliedTS db \<le> snap"
  shows "get_answer (mvcc_read (snap_kvs (db_appliedTS db) kvs) uk snap) = get_answer (hist_read h uk snap)"
proof -
  have ok: "list_all commit_ok h" using db_reach_commits [OF r] by (auto simp: list_all_iff)
  have "hist_read h uk snap = hist_read h uk (db_appliedTS db)" by (rule hist_read_later [OF r snap])
  moreover have "map_of kvs uk = live (hist_read h uk (db_appliedTS db))"
    using g map_of_eq_Some_iff [OF g(2)] by (metis not_None_eq)
  ultimately show ?thesis
  proof (cases "map_of kvs uk")
    case None
    then have "get_answer (hist_read h uk snap) \<noteq> Inr v" for v
      using live_hist [OF ok, of uk "db_appliedTS db" v] \<open>map_of kvs uk = live _\<close> \<open>hist_read h uk snap = _\<close> by simp
    then have "get_answer (hist_read h uk snap) = Inl ErrKeyNotFound" using get_answer_none by blast
    then show ?thesis using snap_kvs_read [OF g(2) snap, of uk] None by (simp add: get_answer_def read_result_def)
  next
    case (Some v)
    then have "get_answer (hist_read h uk snap) = Inr v"
      using live_hist [OF ok, of uk "db_appliedTS db" v] \<open>map_of kvs uk = live _\<close> \<open>hist_read h uk snap = _\<close> by simp
    then show ?thesis using snap_kvs_read [OF g(2) snap, of uk] Some by (simp add: get_answer_def read_result_def)
  qed
qed

lemma sst_holds_all_unique: "list_all2 sst_holds rs a \<Longrightarrow> list_all2 sst_holds rs b \<Longrightarrow> a = b"
proof (induction arbitrary: b rule: list_all2_induct)
  case (Cons r rs x xs)
  then obtain y ys where "b = y # ys" "sst_holds r y" "list_all2 sst_holds rs ys" by (auto simp: list_all2_Cons1)
  then show ?case using Cons sst_holds_unique by blast
qed simp

lemma snapshot_table:
  assumes inv: "db_inv db sk wh []" and M: "clean_kvs M" "M = merge_layers (kvs_of_writes (hist_writes wh) # sk)"
    and k: "sorted_wrt key_before (map fst (scan_kvs ts M))" "\<forall>uk v. (uk, v) \<in> set (scan_kvs ts M) \<longleftrightarrow> live (mvcc_read M uk ts) = Some v"
    and ts: "ts = db_appliedTS db"
  shows "tabular (snap_kvs ts (scan_kvs ts M)) \<and> clean_kvs (snap_kvs ts (scan_kvs ts M)) \<and> small_ts ts \<and>
    kv_size (snap_kvs ts (scan_kvs ts M)) \<le> mt_ApproximateSize (db_memtable db) + sum_list (map kv_size sk)"
proof -
  let ?mk = "kvs_of_writes (hist_writes wh)"
  have wh: "list_all commit_ok wh" and mk: "kv_size ?mk = mt_ApproximateSize (db_memtable db)" and small: "small_ts ts"
    using inv ts by (simp_all add: db_inv_def disk_ok_def mt_repr_def mt_ApproximateSize_def)
  have "tabular a" if "a \<in> set (?mk # sk)" for a
    using that tabular_storable [OF storable_hist [OF wh]] db_inv_tables(1) [OF inv] tabular_table
    by (metis in_set_conv_nth list_all2_conv_all_nth set_ConsD)
  then have tab: "\<forall>a\<in>set (?mk # sk). tabular a" by blast
  then have "kv_size M \<le> sum_list (map kv_size (?mk # sk))" unfolding M(2) by (intro kv_size_merge) (auto simp: tabular_def)
  then have "kv_size (snap_kvs ts (scan_kvs ts M)) \<le> kv_size ?mk + sum_list (map kv_size sk)" using snap_kvs_size [of ts ts M] by simp
  moreover have "ff_free uk" if "(uk, v) \<in> set (scan_kvs ts M)" for uk v
  proof -
    have "live (mvcc_read M uk ts) = Some v" using k(2) that by blast
    then obtain t where "(mvcc_Encode uk t, OpPut # v) \<in> set M" using live_read_entry by blast
    then show ?thesis using M(1) by (force simp: clean_kvs_def)
  qed
  then have "clean_kvs (snap_kvs ts (scan_kvs ts M))" by (intro snap_kvs_clean [OF k(1) _ small]) auto
  moreover have "tabular M" unfolding M(2) by (rule tabular_merge [OF tab])
  ultimately show ?thesis using snap_kvs_tabular k(2) small mk by metis
qed

lemma snapshot_read:
  assumes "db_inv db (if kvs = [] then [] else [snap_kvs ts kvs]) [] []" "clean_kvs (snap_kvs ts kvs)" "ff_free uk" "small_ts snap"
  shows "db_GetAsOf uk snap db = get_answer (mvcc_read (snap_kvs ts kvs) uk snap)"
proof -
  let ?L = "kvs_of_writes (hist_writes []) # (if kvs = [] then [] else [snap_kvs ts kvs])"
  have "\<not> db_closed db" using assms(1) by (simp add: db_inv_def)
  then have "db_GetAsOf uk snap db = get_answer (mvcc_read (concat ?L) uk snap)"
    using db_inv_layers [OF assms(1)] db_GetAsOf_layers assms(3,4) by blast
  also have "concat ?L = snap_kvs ts kvs" by (simp add: kvs_of_writes_def hist_writes_def snap_kvs_def)
  finally show ?thesis .
qed

text \<open>C16: Taking a snapshot, building a database from it and opening that database loses nothing: for every
  reachable database (within a size bound) the scan returns, the build succeeds, the new directory opens, reports the applied index
  of the source and the given sessions, and every read at or above the timestamp of the snapshot has the
  answer of the source.  With at least one live key its clock continues where the source's stands.\<close>

theorem snapshot_transfer:
  assumes "db_reach db h" "list_all2 sst_holds (db_sstables db) sk"
    and "mt_ApproximateSize (db_memtable db) + sum_list (map kv_size sk) \<le> 2 ^ 45" "sess_ok m"
  shows "\<exists>it it' kvs d db'. db_SnapshotScan db = Some (Inr (it, db_appliedIndex db, db_appliedTS db)) \<and>
    di_drain it [] = Some (kvs, it') \<and> di_err it' = None \<and>
    BuildSnapshotDB None (to_kvs kvs) m (db_appliedIndex db) (db_appliedTS db) empty_disk = (None, d) \<and> db_OpenWith rnd opts d = Inr db' \<and>
    db_recoveredApplied db' = db_appliedIndex db \<and> db_sessions db' = m \<and> (kvs \<noteq> [] \<longrightarrow> db_appliedTS db' = db_appliedTS db) \<and>
    (\<forall>uk snap. ff_free uk \<longrightarrow> small_ts snap \<longrightarrow> db_appliedTS db \<le> snap \<longrightarrow> db_GetAsOf uk snap db' = db_GetAsOf uk snap db)"
proof -
  obtain sk1 wh where inv: "db_inv db sk1 wh []" and sees: "sees 0 (kvs_of_writes (hist_writes wh) # sk1) h"
    using db_reach_holds [OF assms(1)] by (auto simp: db_holds_def)
  have sk: "sk1 = sk" by (rule sst_holds_all_unique [OF db_inv_tables(1) [OF inv] assms(2)])
  let ?ts = "db_appliedTS db"
  obtain it it' M where s: "db_SnapshotScan db = Some (Inr (it, db_appliedIndex db, ?ts))"
    "di_drain it [] = Some (scan_kvs ?ts M, it')" "di_err it' = None" "clean_kvs M"
    "M = merge_layers (kvs_of_writes (hist_writes wh) # sk)" "\<forall>uk. live (mvcc_read M uk ?ts) = live (hist_read h uk ?ts)"
    using snapshot_scan [OF assms(1) inv sees] unfolding sk .
  define kvs where "kvs = scan_kvs ?ts M"
  have k: "sorted_wrt key_before (map fst kvs)" "\<forall>uk v. (uk, v) \<in> set kvs \<longleftrightarrow> live (mvcc_read M uk ?ts) = Some v"
    using scan_kvs_spec [OF s(4)] by (auto simp: kvs_def)
  have T: "tabular (snap_kvs ?ts kvs)" "clean_kvs (snap_kvs ?ts kvs)" "kv_size (snap_kvs ?ts kvs) \<le> 2 ^ 45" "small_ts ?ts"
    using snapshot_table [OF inv s(4) s(5) [folded sk] k [unfolded kvs_def] refl] assms(3) by (auto simp: kvs_def sk)
  obtain d rs where d: "BuildSnapshotDB None (to_kvs kvs) m (db_appliedIndex db) ?ts empty_disk = (None, d)"
    "disk_ok d rs (if kvs = [] then [] else [snap_kvs ?ts kvs]) [] []" "readAppliedBase d = db_appliedIndex db" "readSessionsFile d = m"
    "rs_maxAI rs \<le> db_appliedIndex db" "rs_maxTS rs = (if kvs = [] then 0 else ?ts)"
    using build_snapshot [OF T assms(4)] .
  obtain db' where db': "db_OpenWith rnd opts d = Inr db'" "db_inv db' (if kvs = [] then [] else [snap_kvs ?ts kvs]) [] []"
    "db_appliedTS db' = disk_maxTS rs []" "db_sessions db' = m" "db_recoveredApplied db' = db_appliedIndex db"
    using db_OpenWith_ok [OF d(2), of rnd opts] d(3-5) by (auto simp: hist_records_def max_absorb2)
  have rd: "db_GetAsOf uk snap db' = get_answer (mvcc_read (snap_kvs ?ts kvs) uk snap)" if "ff_free uk" "small_ts snap" for uk snap
    using snapshot_read [OF db'(2) T(2) that] .
  have "db_GetAsOf uk snap db' = db_GetAsOf uk snap db" if q: "ff_free uk" "small_ts snap" "?ts \<le> snap" for uk snap
    using rd [OF q(1,2)] get_answer_hist [OF inv sees q(1,2)] snapshot_answer [OF assms(1) _ key_before_distinct [OF k(1)] q(3)] k(2) s(6) by simp
  then show ?thesis using s(1-3) d db' by (intro exI [of _ it] exI [of _ it'] exI [of _ kvs] exI [of _ d] exI [of _ db'])
      (simp add: kvs_def disk_maxTS_def)
qed

theorem snapshot_transfer_witness:
  "\<exists>db h kvs d db'. db_reach db h \<and> BuildSnapshotDB None (to_kvs kvs) [([115], 3)] (db_appliedIndex db) 1 empty_disk = (None, d) \<and>
    db_OpenWith (db_rand db) db_DefaultOptions d = Inr db' \<and> db_GetAsOf [97] 1 db' = Inr [5] \<and> db_sessions db' = [([115], 3)]"
proof -
  let ?h = "[\<lparr>cm_ts = 1, cm_writes = [([97], OpPut, [5])], cm_session = [], cm_val = []\<rparr>]"
  obtain db where db: "db_reach db ?h" "db_inv db [] ?h []" "mt_ApproximateSize (db_memtable db) \<le> 1048576"
    using first_commit [of "put_txn [97] [5]"] by (auto simp: write_ok_def ff_free_def writes_size_def)
  have m: "sess_ok [([115], 3)]" and small: "ff_free [97]" "small_ts 1" and a: "get_answer (hist_read ?h [97] 1) = Inr [5]" by code_simp+
  have "sees 0 (kvs_of_writes (hist_writes ?h) # []) ?h" using sees_snoc [OF sees_nothing, of "hd ?h"] by simp
  then have rd: "db_GetAsOf [97] 1 db = Inr [5]" using get_answer_hist [OF db(2) _ small] a by simp
  have ts: "db_appliedTS db = 1" using db_reach_applied [OF db(1)] by simp
  have sz: "mt_ApproximateSize (db_memtable db) + sum_list (map kv_size []) \<le> 2 ^ 45" using db(3) by simp
  obtain it it' kvs d db' where "BuildSnapshotDB None (to_kvs kvs) [([115], 3)] (db_appliedIndex db) 1 empty_disk = (None, d)"
    "db_OpenWith (db_rand db) db_DefaultOptions d = Inr db'" "db_sessions db' = [([115], 3)]"
    "\<forall>uk snap. ff_free uk \<longrightarrow> small_ts snap \<longrightarrow> 1 \<le> snap \<longrightarrow> db_GetAsOf uk snap db' = db_GetAsOf uk snap db"
    using snapshot_transfer [OF db(1) db_inv_tables(1) [OF db(2)] sz m, of "db_rand db" db_DefaultOptions] unfolding ts by blast
  then show ?thesis using db(1) rd small by (intro exI [of _ db] exI [of _ ?h] exI [of _ kvs] exI [of _ d] exI [of _ db']) simp
qed

end
