(* ===== verification/Raft_Log.thy ===== *)
theory Raft_Log
  imports Prelude
begin

section \<open>The in-memory Raft log (\<open>internal/cluster/raftlog.go\<close>)\<close>

text \<open>
  A 1-based log with a compaction base.  Indices and terms are 64-bit words.  An operation that
  panics in the source (a compacted index, an index past the end) returns \<open>None\<close>.
  \<open>rl_repr l full\<close> says that \<open>l\<close> holds the log \<open>full\<close> of which the entries up to the base have been
  discarded; compaction does not change \<open>full\<close>.
\<close>

subsection \<open>State\<close>

type_synonym EntryKind = byte

definition EntryData :: EntryKind where "EntryData = 0"
definition EntryConfig :: EntryKind where "EntryConfig = 1"

text \<open>
  The three Go structs of a term, a kind and a payload (\<^verbatim>\<open>logEntry\<close> in memory, \<^verbatim>\<open>persistedEntry\<close> in the
  file, \<^verbatim>\<open>Entry\<close> on the wire) are one record.
\<close>

record logEntry =
  le_term :: u64
  le_kind :: EntryKind
  le_bytes :: bytes

type_synonym persistedEntry = logEntry
type_synonym Entry = logEntry

record RaftLog =
  rl_baseIndex :: u64
  rl_baseTerm :: u64
  rl_entries :: "logEntry list"

subsection \<open>Operations\<close>

definition NewRaftLog :: RaftLog where
  "NewRaftLog = \<lparr>rl_baseIndex = 0, rl_baseTerm = 0, rl_entries = []\<rparr>"

definition NewRaftLogWithBase :: "u64 \<Rightarrow> u64 \<Rightarrow> RaftLog" where
  "NewRaftLogWithBase baseIndex baseTerm =
     \<lparr>rl_baseIndex = baseIndex, rl_baseTerm = baseTerm, rl_entries = []\<rparr>"

definition rl_lastIndex :: "RaftLog \<Rightarrow> u64" where
  "rl_lastIndex l = rl_baseIndex l + of_nat (length (rl_entries l))"

text \<open>The slice access \<^verbatim>\<open>l.entries[idx-l.baseIndex-1]\<close>, which panics out of range.\<close>

definition rl_slot :: "RaftLog \<Rightarrow> u64 \<Rightarrow> logEntry option" where
  "rl_slot l idx =
     (let i = unat (idx - rl_baseIndex l - 1)
      in if i < length (rl_entries l) then Some (rl_entries l ! i) else None)"

definition rl_term :: "RaftLog \<Rightarrow> u64 \<Rightarrow> u64 option" where
  "rl_term l idx =
     (if idx = rl_baseIndex l then Some (rl_baseTerm l)
      else if idx < rl_baseIndex l then None
      else map_option le_term (rl_slot l idx))"

definition rl_lastTerm :: "RaftLog \<Rightarrow> u64 option" where
  "rl_lastTerm l = rl_term l (rl_lastIndex l)"

definition rl_has :: "RaftLog \<Rightarrow> u64 \<Rightarrow> bool" where
  "rl_has l idx \<longleftrightarrow> idx \<ge> rl_baseIndex l \<and> idx \<le> rl_lastIndex l"

definition rl_entryAt :: "RaftLog \<Rightarrow> u64 \<Rightarrow> bytes option" where
  "rl_entryAt l idx = map_option le_bytes (rl_slot l idx)"

definition rl_kindAt :: "RaftLog \<Rightarrow> u64 \<Rightarrow> EntryKind option" where
  "rl_kindAt l idx = map_option le_kind (rl_slot l idx)"

definition rl_append :: "u64 \<Rightarrow> EntryKind \<Rightarrow> bytes \<Rightarrow> RaftLog \<Rightarrow> u64 \<times> RaftLog" where
  "rl_append t k b l =
     (let l' = l\<lparr>rl_entries := rl_entries l @ [\<lparr>le_term = t, le_kind = k, le_bytes = b\<rparr>]\<rparr>
      in (rl_lastIndex l', l'))"

definition rl_truncateFrom :: "u64 \<Rightarrow> RaftLog \<Rightarrow> RaftLog" where
  "rl_truncateFrom idx l =
     (if idx \<le> rl_baseIndex l then l
      else if idx \<le> rl_lastIndex l
           then l\<lparr>rl_entries := take (unat (idx - rl_baseIndex l - 1)) (rl_entries l)\<rparr>
           else l)"

definition rl_matchesPrev :: "u64 \<Rightarrow> u64 \<Rightarrow> RaftLog \<Rightarrow> bool option" where
  "rl_matchesPrev prevLogIndex prevLogTerm l =
     (if prevLogIndex < rl_baseIndex l then Some True
      else if prevLogIndex = rl_baseIndex l then Some (prevLogTerm = rl_baseTerm l)
      else if prevLogIndex \<le> rl_lastIndex l
           then map_option (\<lambda>t. t = prevLogTerm) (rl_term l prevLogIndex)
           else Some False)"

definition rl_compactTo :: "u64 \<Rightarrow> u64 \<Rightarrow> RaftLog \<Rightarrow> RaftLog" where
  "rl_compactTo newBaseIndex newBaseTerm l =
     (if newBaseIndex \<le> rl_baseIndex l \<or> newBaseIndex > rl_lastIndex l then l
      else \<lparr>rl_baseIndex = newBaseIndex, rl_baseTerm = newBaseTerm,
            rl_entries = drop (unat (newBaseIndex - rl_baseIndex l)) (rl_entries l)\<rparr>)"

definition rl_resetToBase :: "u64 \<Rightarrow> u64 \<Rightarrow> RaftLog \<Rightarrow> RaftLog" where
  "rl_resetToBase newBaseIndex newBaseTerm l =
     l\<lparr>rl_entries := [], rl_baseIndex := newBaseIndex, rl_baseTerm := newBaseTerm\<rparr>"

text \<open>A start past the end makes the capacity given to \<^verbatim>\<open>make\<close> wrap around, which panics.\<close>

definition rl_entriesAfter :: "u64 \<Rightarrow> RaftLog \<Rightarrow> persistedEntry list option" where
  "rl_entriesAfter idx l =
     (let start = unat (idx - rl_baseIndex l)
      in if start \<le> length (rl_entries l) then Some (drop start (rl_entries l)) else None)"

subsection \<open>The log a compacted log stands for\<close>

definition log_term :: "logEntry list \<Rightarrow> nat \<Rightarrow> u64" where
  "log_term full i = (if i = 0 then 0 else le_term (full ! (i - 1)))"

definition rl_repr :: "RaftLog \<Rightarrow> logEntry list \<Rightarrow> bool" where
  "rl_repr l full \<longleftrightarrow>
     length full < 2 ^ 64 \<and> unat (rl_baseIndex l) \<le> length full \<and>
     rl_entries l = drop (unat (rl_baseIndex l)) full \<and>
     rl_baseTerm l = log_term full (unat (rl_baseIndex l))"

lemma unat_of_nat_u64 [simp]: "n < 2 ^ 64 \<Longrightarrow> unat (of_nat n :: u64) = n"
  by (simp add: unat_of_nat)

lemma unat_sub_u64: "(b :: u64) \<le> a \<Longrightarrow> unat (a - b) = unat a - unat b"
  by (rule unat_sub)

lemma unat_sub_one_u64: "(b :: u64) < a \<Longrightarrow> unat (a - b - 1) = unat a - unat b - 1"
proof -
  assume "b < a"
  then have d: "unat (a - b) = unat a - unat b" by (simp add: unat_sub)
  moreover have "1 \<le> a - b" using \<open>b < a\<close> d by (simp add: word_le_nat_alt word_less_nat_alt)
  ultimately show ?thesis by (simp add: unat_sub)
qed

lemma unat_add_u64: "unat (b :: u64) + n < 2 ^ 64 \<Longrightarrow> unat (b + of_nat n) = unat b + n"
  by (simp add: unat_word_ariths unat_of_nat)

lemma rl_repr_New: "rl_repr NewRaftLog []"
  by (simp add: rl_repr_def NewRaftLog_def log_term_def)

lemma unat_lastIndex [simp]: "rl_repr l full \<Longrightarrow> unat (rl_lastIndex l) = length full"
  by (auto simp: rl_repr_def rl_lastIndex_def unat_add_u64)

lemma rl_slot_repr:
  assumes "rl_repr l full" "rl_baseIndex l < idx"
  shows "rl_slot l idx = (if unat idx \<le> length full then Some (full ! (unat idx - 1)) else None)"
proof -
  have "unat (rl_baseIndex l) < unat idx" using assms(2) by (simp add: word_less_nat_alt)
  then show ?thesis
    using assms by (auto simp: rl_slot_def Let_def unat_sub_one_u64 rl_repr_def)
qed

lemma rl_term_repr:
  assumes "rl_repr l full" "rl_baseIndex l \<le> idx" "idx \<le> rl_lastIndex l"
  shows "rl_term l idx = Some (log_term full (unat idx))"
proof (cases "idx = rl_baseIndex l")
  case True
  then show ?thesis using assms(1) by (simp add: rl_term_def rl_repr_def)
next
  case False
  then have "rl_baseIndex l < idx" using assms(2) by simp
  moreover have "unat idx \<le> length full"
    using assms(3) unat_lastIndex [OF assms(1)] by (simp add: word_le_nat_alt)
  moreover have "unat idx \<noteq> 0" using \<open>rl_baseIndex l < idx\<close> by (simp add: word_less_nat_alt)
  ultimately show ?thesis
    using False by (simp add: rl_term_def rl_slot_repr [OF assms(1)] log_term_def)
qed

lemma unat_wrap_u64:
  assumes "(idx :: u64) \<le> b"
  shows "2 ^ 64 - 1 \<le> unat (idx - b - 1) + unat b"
proof -
  have "(idx - b - 1) + (b - idx) = - 1" by simp
  moreover have "unat (- 1 :: u64) = 2 ^ 64 - 1" by (simp add: unsigned_minus_1_eq_mask mask_eq_exp_minus_1)
  ultimately have "(unat (idx - b - 1) + unat (b - idx)) mod 2 ^ 64 = 2 ^ 64 - 1"
    using unat_word_ariths(1) [of "idx - b - 1" "b - idx"] by simp
  then have "2 ^ 64 - 1 \<le> unat (idx - b - 1) + unat (b - idx)" by (metis mod_less_eq_dividend)
  moreover have "unat (b - idx) \<le> unat b" using assms by (simp add: unat_sub)
  ultimately show ?thesis by linarith
qed

lemma rl_slot_compacted:
  assumes "rl_repr l full" "idx \<le> rl_baseIndex l"
  shows "rl_slot l idx = None"
  using unat_wrap_u64 [OF assms(2)] assms(1) by (auto simp: rl_slot_def Let_def rl_repr_def)

lemma rl_term_repr_iff:
  assumes "rl_repr l full"
  shows "rl_term l idx = (if unat (rl_baseIndex l) \<le> unat idx \<and> unat idx \<le> length full
                          then Some (log_term full (unat idx)) else None)"
proof -
  consider "idx < rl_baseIndex l" | "rl_baseIndex l \<le> idx" "idx \<le> rl_lastIndex l" | "rl_lastIndex l < idx" "rl_baseIndex l \<le> idx"
    by fastforce
  then show ?thesis
  proof cases
    case 1
    then show ?thesis by (auto simp: rl_term_def word_less_nat_alt)
  next
    case 2
    then show ?thesis using rl_term_repr [OF assms 2] unat_lastIndex [OF assms] by (simp add: word_le_nat_alt)
  next
    case 3
    then have "length full < unat idx" using unat_lastIndex [OF assms] by (simp add: word_less_nat_alt)
    moreover have "rl_baseIndex l < idx"
      using calculation 3 assms by (auto simp: word_less_nat_alt word_le_nat_alt rl_repr_def)
    ultimately show ?thesis using rl_slot_repr [OF assms] by (auto simp: rl_term_def)
  qed
qed

lemma rl_slot_repr_iff:
  assumes "rl_repr l full"
  shows "rl_slot l idx = (if unat (rl_baseIndex l) < unat idx \<and> unat idx \<le> length full
                          then Some (full ! (unat idx - 1)) else None)"
  using rl_slot_repr [OF assms, of idx] rl_slot_compacted [OF assms, of idx]
  by (cases "rl_baseIndex l < idx") (auto simp: word_less_nat_alt word_le_nat_alt)

lemma rl_matchesPrev_repr:
  assumes "rl_repr l full"
  shows "rl_matchesPrev p t l =
     Some (unat p < unat (rl_baseIndex l) \<or> unat p \<le> length full \<and> log_term full (unat p) = t)"
proof -
  have b: "unat (rl_baseIndex l) \<le> length full" and bt: "rl_baseTerm l = log_term full (unat (rl_baseIndex l))"
    using assms by (auto simp: rl_repr_def)
  consider "p < rl_baseIndex l" | "p = rl_baseIndex l" | "rl_baseIndex l < p" by fastforce
  then show ?thesis
    by cases (use b bt in \<open>auto simp: rl_matchesPrev_def rl_term_repr_iff [OF assms] unat_lastIndex [OF assms] word_less_nat_alt word_le_nat_alt\<close>)
qed

lemma log_term_append: "i \<le> length full \<Longrightarrow> log_term (full @ ys) i = log_term full i"
  by (auto simp: log_term_def nth_append)

lemma log_term_take: "i \<le> n \<Longrightarrow> log_term (take n full) i = log_term full i"
  by (auto simp: log_term_def)

lemma rl_append_repr:
  assumes "rl_repr l full" "length full + 1 < 2 ^ 64"
  shows "rl_repr (snd (rl_append t k b l)) (full @ [\<lparr>le_term = t, le_kind = k, le_bytes = b\<rparr>])"
    and "unat (fst (rl_append t k b l)) = length full + 1"
    and "rl_baseIndex (snd (rl_append t k b l)) = rl_baseIndex l"
proof -
  show r: "rl_repr (snd (rl_append t k b l)) (full @ [\<lparr>le_term = t, le_kind = k, le_bytes = b\<rparr>])"
    using assms by (auto simp: rl_repr_def rl_append_def Let_def log_term_append)
  show "unat (fst (rl_append t k b l)) = length full + 1"
    using unat_lastIndex [OF r] by (simp add: rl_append_def Let_def)
  show "rl_baseIndex (snd (rl_append t k b l)) = rl_baseIndex l" by (simp add: rl_append_def Let_def)
qed

lemma rl_truncateFrom_repr:
  assumes "rl_repr l full"
  shows "rl_repr (rl_truncateFrom idx l) (if idx \<le> rl_baseIndex l then full else take (unat idx - 1) full)"
    and "rl_baseIndex (rl_truncateFrom idx l) = rl_baseIndex l"
proof -
  have "rl_repr (rl_truncateFrom idx l) (take (unat idx - 1) full)" if i: "rl_baseIndex l < idx"
  proof (cases "idx \<le> rl_lastIndex l")
    case True
    have lt: "unat (rl_baseIndex l) < unat idx" using i by (simp add: word_less_nat_alt)
    have "take (unat idx - unat (rl_baseIndex l) - 1) (drop (unat (rl_baseIndex l)) full)
        = drop (unat (rl_baseIndex l)) (take (unat idx - 1) full)"
      using lt by (simp add: drop_take)
    moreover have "min (length full) (unat idx - 1) < 2 ^ 64" using assms by (auto simp: rl_repr_def)
    ultimately show ?thesis
      using assms i lt True
      by (auto simp: rl_repr_def rl_truncateFrom_def unat_sub_one_u64 log_term_take)
  next
    case False
    then have "length full \<le> unat idx - 1" using unat_lastIndex [OF assms] by (simp add: word_le_nat_alt)
    then show ?thesis using assms i False by (simp add: rl_truncateFrom_def)
  qed
  then show "rl_repr (rl_truncateFrom idx l) (if idx \<le> rl_baseIndex l then full else take (unat idx - 1) full)"
    using assms by (auto simp: rl_truncateFrom_def)
  show "rl_baseIndex (rl_truncateFrom idx l) = rl_baseIndex l" by (simp add: rl_truncateFrom_def)
qed

text \<open>Compaction to an index the log holds leaves the represented log as it is.\<close>

lemma rl_compactTo_repr:
  assumes "rl_repr l full" "rl_term l idx = Some t"
  shows "rl_repr (rl_compactTo idx t l) full" "rl_baseIndex (rl_compactTo idx t l) = idx"
proof -
  have le: "unat (rl_baseIndex l) \<le> unat idx" "unat idx \<le> length full" and t: "t = log_term full (unat idx)"
    using assms(2) by (auto simp: rl_term_repr_iff [OF assms(1)] split: if_splits)
  show "rl_baseIndex (rl_compactTo idx t l) = idx"
    using le by (auto simp: rl_compactTo_def unat_lastIndex [OF assms(1)] word_less_nat_alt word_le_nat_alt word_unat_eq_iff)
  show "rl_repr (rl_compactTo idx t l) full"
    using assms(1) le t by (auto simp: rl_compactTo_def rl_repr_def unat_sub word_le_nat_alt)
qed

lemma rl_resetToBase_repr:
  assumes "length full < 2 ^ 64" "unat idx = length full" "t = log_term full (length full)"
  shows "rl_repr (rl_resetToBase idx t l) full"
  using assms by (simp add: rl_repr_def rl_resetToBase_def)

lemma rl_entriesAfter_repr:
  assumes "rl_repr l full" "rl_baseIndex l \<le> idx" "unat idx \<le> length full"
  shows "rl_entriesAfter idx l = Some (drop (unat idx) full)"
  using assms by (auto simp: rl_entriesAfter_def rl_repr_def Let_def unat_sub word_le_nat_alt)

subsection \<open>Histories of the log\<close>

text \<open>
  The mutations of a log: append, the truncation of a conflicting suffix, and compaction, whose
  caller reads the term of the new base from the log first and stops at a base it already has.
  The specification keeps the whole log and the base.
\<close>

datatype log_op = LAppend u64 EntryKind bytes | LTruncate u64 | LCompact u64

primrec rl_op :: "log_op \<Rightarrow> RaftLog \<Rightarrow> RaftLog option" where
  "rl_op (LAppend t k b) l = Some (snd (rl_append t k b l))"
| "rl_op (LTruncate idx) l = Some (rl_truncateFrom idx l)"
| "rl_op (LCompact idx) l =
     (if idx \<le> rl_baseIndex l then Some l
      else case rl_term l idx of None \<Rightarrow> None | Some t \<Rightarrow> Some (rl_compactTo idx t l))"

primrec full_op :: "log_op \<Rightarrow> nat \<times> logEntry list \<Rightarrow> (nat \<times> logEntry list) option" where
  "full_op (LAppend t k b) s = Some (fst s, snd s @ [\<lparr>le_term = t, le_kind = k, le_bytes = b\<rparr>])"
| "full_op (LTruncate idx) s = Some (if unat idx \<le> fst s then s else (fst s, take (unat idx - 1) (snd s)))"
| "full_op (LCompact idx) s =
     (if unat idx \<le> fst s then Some s else if unat idx \<le> length (snd s) then Some (unat idx, snd s) else None)"

primrec op_run :: "('o \<Rightarrow> 's \<Rightarrow> 's option) \<Rightarrow> 'o list \<Rightarrow> 's \<Rightarrow> 's option" where
  "op_run f [] s = Some s"
| "op_run f (x # xs) s = (case f x s of None \<Rightarrow> None | Some s' \<Rightarrow> op_run f xs s')"

lemma rl_op_repr:
  assumes r: "rl_repr l full" and bound: "length full + 1 < 2 ^ 64"
  shows "case full_op x (unat (rl_baseIndex l), full) of
           None \<Rightarrow> rl_op x l = None
         | Some (b, full') \<Rightarrow> \<exists>l'. rl_op x l = Some l' \<and> rl_repr l' full' \<and> unat (rl_baseIndex l') = b \<and> length full' \<le> length full + 1"
proof (cases x)
  case (LAppend t k b)
  then show ?thesis using rl_append_repr [OF r bound] by simp
next
  case (LTruncate idx)
  then show ?thesis using rl_truncateFrom_repr [OF r, of idx] by (auto simp: word_le_nat_alt)
next
  case (LCompact idx)
  show ?thesis
  proof (cases "rl_term l idx")
    case None
    then show ?thesis using LCompact r by (auto simp: rl_term_repr_iff [OF r] word_le_nat_alt split: if_splits)
  next
    case (Some t)
    then have "unat idx \<le> length full" by (auto simp: rl_term_repr_iff [OF r] split: if_splits)
    then show ?thesis using LCompact Some rl_compactTo_repr [OF r Some] r by (auto simp: word_le_nat_alt)
  qed
qed

lemma rl_run_repr:
  assumes "rl_repr l full" "length full + length ops < 2 ^ 64"
  shows "case op_run full_op ops (unat (rl_baseIndex l), full) of
           None \<Rightarrow> op_run rl_op ops l = None
         | Some (b, full') \<Rightarrow> \<exists>l'. op_run rl_op ops l = Some l' \<and> rl_repr l' full' \<and> unat (rl_baseIndex l') = b"
  using assms
proof (induction ops arbitrary: l full)
  case (Cons x ops)
  have bound: "length full + 1 < 2 ^ 64" using Cons.prems(2) by simp
  note step = rl_op_repr [OF Cons.prems(1) bound, of x]
  show ?case
  proof (cases "full_op x (unat (rl_baseIndex l), full)")
    case None
    then show ?thesis using step by simp
  next
    case (Some s)
    then obtain l' where l': "rl_op x l = Some l'" "rl_repr l' (snd s)" "unat (rl_baseIndex l') = fst s" "length (snd s) \<le> length full + 1"
      using step by (auto split: prod.splits)
    have "op_run rl_op (x # ops) l = op_run rl_op ops l'"
      "op_run full_op (x # ops) (unat (rl_baseIndex l), full) = op_run full_op ops (unat (rl_baseIndex l'), snd s)"
      using l' Some by simp_all
    then show ?thesis using Cons.IH [OF l'(2)] Cons.prems(2) l'(4) by (simp only:) simp
  qed
qed simp

text \<open>C24: Over every history of appends, truncations and compactions the compacted log behaves as the
  uncompacted one: it panics exactly when a compaction names an index past the end, and otherwise its
  last index, the terms and payloads above the base, and the consistency check of AppendEntries are
  those of the whole log.\<close>

theorem raft_log_refines:
  assumes "length ops < 2 ^ 64"
  shows "case op_run full_op ops (0, []) of
           None \<Rightarrow> op_run rl_op ops NewRaftLog = None
         | Some (b, full) \<Rightarrow> \<exists>l. op_run rl_op ops NewRaftLog = Some l \<and>
             unat (rl_lastIndex l) = length full \<and>
             (\<forall>i. rl_term l i = (if b \<le> unat i \<and> unat i \<le> length full then Some (log_term full (unat i)) else None)) \<and>
             (\<forall>i. rl_entryAt l i = (if b < unat i \<and> unat i \<le> length full then Some (le_bytes (full ! (unat i - 1))) else None)) \<and>
             (\<forall>p t. rl_matchesPrev p t l = Some (unat p < b \<or> unat p \<le> length full \<and> log_term full (unat p) = t))"
proof -
  have b: "unat (rl_baseIndex NewRaftLog) = 0" by (simp add: NewRaftLog_def)
  have "case op_run full_op ops (0, []) of
           None \<Rightarrow> op_run rl_op ops NewRaftLog = None
         | Some (b, full') \<Rightarrow> \<exists>l'. op_run rl_op ops NewRaftLog = Some l' \<and> rl_repr l' full' \<and> unat (rl_baseIndex l') = b"
    using rl_run_repr [OF rl_repr_New, of ops] assms b by simp
  then show ?thesis
    by (auto simp: rl_term_repr_iff rl_entryAt_def rl_slot_repr_iff rl_matchesPrev_repr split: option.splits)
qed

theorem raft_log_refines_witness:
  "\<exists>l. op_run rl_op [LAppend 1 0 [7], LAppend 1 0 [8], LAppend 2 0 [9], LCompact 2, LTruncate 3, LAppend 3 0 [6]] NewRaftLog = Some l \<and>
     unat (rl_lastIndex l) = 3 \<and> rl_term l 1 = None \<and> rl_term l 2 = Some 1 \<and> rl_entryAt l 3 = Some [6] \<and>
     rl_matchesPrev 3 2 l = Some False"
  using raft_log_refines [of "[LAppend 1 0 [7], LAppend 1 0 [8], LAppend 2 0 [9], LCompact 2, LTruncate 3, LAppend 3 0 [6]]"]
  by (auto simp: log_term_def)

subsection \<open>The interface the node uses\<close>

text \<open>
  A node keeps its log twice, in memory and in a file, and mutates the two together.  Both provide
  this contract: \<open>repr l b t es\<close> says that \<open>l\<close> has base \<open>b\<close> of term \<open>t\<close> and holds \<open>es\<close> above it.
\<close>

locale entry_log =
  fixes repr :: "'l \<Rightarrow> u64 \<Rightarrow> u64 \<Rightarrow> logEntry list \<Rightarrow> bool"
    and app :: "logEntry \<Rightarrow> 'l \<Rightarrow> 'l option"
    and trunc :: "u64 \<Rightarrow> 'l \<Rightarrow> 'l option"
    and compact :: "u64 \<Rightarrow> u64 \<Rightarrow> logEntry list \<Rightarrow> 'l \<Rightarrow> 'l option"
  assumes app: "repr l b t es \<Longrightarrow> unat b + length es + 1 < 2 ^ 64 \<Longrightarrow> length (le_bytes e) < 2 ^ 32 \<Longrightarrow>
        \<exists>l'. app e l = Some l' \<and> repr l' b t (es @ [e])"
    and trunc: "repr l b t es \<Longrightarrow> b < idx \<Longrightarrow> \<exists>l'. trunc idx l = Some l' \<and> repr l' b t (take (unat idx - unat b - 1) es)"
    and compact: "repr l b t es \<Longrightarrow> b < nb \<Longrightarrow> unat nb \<le> unat b + length es \<Longrightarrow> list_all (\<lambda>e. length (le_bytes e) < 2 ^ 32) es \<Longrightarrow>
        \<exists>l'. compact nb nt (drop (unat nb - unat b) es) l = Some l' \<and> repr l' nb nt (drop (unat nb - unat b) es)"

definition rl_holds :: "RaftLog \<Rightarrow> u64 \<Rightarrow> u64 \<Rightarrow> logEntry list \<Rightarrow> bool" where
  "rl_holds l b t es \<longleftrightarrow> l = \<lparr>rl_baseIndex = b, rl_baseTerm = t, rl_entries = es\<rparr> \<and> unat b + length es < 2 ^ 64"

interpretation mem_log: entry_log rl_holds
  "\<lambda>e l. Some (snd (rl_append (le_term e) (le_kind e) (le_bytes e) l))"
  "\<lambda>idx l. Some (rl_truncateFrom idx l)" "\<lambda>nb nt es l. Some (rl_compactTo nb nt l)"
proof
  fix l b t es idx
  assume h: "rl_holds l b t es" "b < idx"
  have last: "unat (rl_lastIndex l) = unat b + length es"
    using h by (auto simp: rl_holds_def rl_lastIndex_def unat_add_u64)
  have "take (unat idx - unat b - 1) es = es" if "\<not> idx \<le> rl_lastIndex l"
    using that last by (simp add: word_le_nat_alt)
  then show "\<exists>l'. Some (rl_truncateFrom idx l) = Some l' \<and> rl_holds l' b t (take (unat idx - unat b - 1) es)"
    using h by (auto simp: rl_holds_def rl_truncateFrom_def unat_sub_one_u64)
next
  fix l b t es nb nt
  assume h: "rl_holds l b t es" "b < nb" "unat nb \<le> unat b + length es"
  have "nb \<le> rl_lastIndex l"
    using h by (auto simp: rl_holds_def rl_lastIndex_def unat_add_u64 word_le_nat_alt)
  moreover have "unat nb + length (drop (unat nb - unat b) es) < 2 ^ 64"
    using h by (auto simp: rl_holds_def word_less_nat_alt)
  ultimately show "\<exists>l'. Some (rl_compactTo nb nt l) = Some l' \<and> rl_holds l' nb nt (drop (unat nb - unat b) es)"
    using h by (auto simp: rl_holds_def rl_compactTo_def unat_sub)
qed (auto simp: rl_holds_def rl_append_def Let_def)

end
