(* ===== verification/Raft_Log_File.thy ===== *)
theory Raft_Log_File
  imports Raft_Log Wal
begin

section \<open>The durable Raft log (\<open>internal/cluster/raftlogfile.go\<close>)\<close>

text \<open>
  The log file is a 24-byte header and one frame per entry.  The state keeps the open descriptor (its
  inode's contents and position) and, where a rename has replaced the file under the path while the
  descriptor still refers to the old inode, the contents of the path; \<open>lf_disk\<close> is what the next open
  reads.  The failures of write, fsync, truncate, rename and reopen are arguments of the operations
  on an open log; the calls of \<^verbatim>\<open>load\<close> and \<^verbatim>\<open>writeFreshHeader\<close> while the log is opened (stat, read, seek,
  truncate, write and fsync) are taken to succeed.  A payload is shorter than 4 GiB wherever a
  lemma needs its length field to be exact.
\<close>

subsection \<open>State and frames\<close>

record raftLogFile =
  lf_f :: File
  lf_open :: bool
  lf_path :: "bytes option"
  lf_sync :: bool
  lf_baseIndex :: u64
  lf_baseTerm :: u64
  lf_offsets :: "nat list"
  lf_size :: nat

definition lf_disk :: "raftLogFile \<Rightarrow> bytes" where
  "lf_disk lf = (case lf_path lf of None \<Rightarrow> f_data (lf_f lf) | Some d \<Rightarrow> d)"

datatype raft_log_error = ErrBadRaftLog | RlClosed | RlAppendHeader | RlAppendData | RlSync
  | RlTruncate | RlTruncateSync | RlSeek | RlCompact | RlCompactDirSync | RlCompactReopen | RlCompactSeek

definition raftLogMagic :: u64 where "raftLogMagic = 0x524146544C4F4722"
definition raftLogHeaderSize :: nat where "raftLogHeaderSize = 24"
definition raftEntryHeaderSize :: nat where "raftEntryHeaderSize = 13"

definition raft_header :: "u64 \<Rightarrow> u64 \<Rightarrow> bytes" where
  "raft_header baseIndex baseTerm =
     le_PutUint64 raftLogMagic @ le_PutUint64 baseIndex @ le_PutUint64 baseTerm"

definition frame_header :: "persistedEntry \<Rightarrow> bytes" where
  "frame_header e =
     le_PutUint64 (le_term e) @ [le_kind e] @ le_PutUint32 (of_nat (length (le_bytes e)))"

definition frame :: "persistedEntry \<Rightarrow> bytes" where
  "frame e = frame_header e @ le_bytes e"

subsection \<open>Operations\<close>

definition lf_writeFreshHeader :: "u64 \<Rightarrow> u64 \<Rightarrow> raftLogFile \<Rightarrow> raftLogFile" where
  "lf_writeFreshHeader baseIndex baseTerm lf =
     lf\<lparr>lf_f := \<lparr>f_data = raft_header baseIndex baseTerm, f_pos = raftLogHeaderSize\<rparr>,
        lf_baseIndex := baseIndex, lf_baseTerm := baseTerm, lf_offsets := [], lf_size := raftLogHeaderSize\<rparr>"

text \<open>The loop of \<^verbatim>\<open>load\<close>: the complete frames with their offsets, and where they end.\<close>

function lf_frames :: "bytes \<Rightarrow> nat \<Rightarrow> (persistedEntry \<times> nat) list \<times> nat" where
  "lf_frames buf off =
     (if off < length buf then
        if off + raftEntryHeaderSize > length buf then ([], off)
        else let t = le_Uint64 (drop off buf); kind = buf ! (off + 8); n = le_Uint32 (drop (off + 9) buf);
                 end1 = off + raftEntryHeaderSize + unat n
             in if end1 > length buf then ([], off)
                else let (es, fin) = lf_frames buf end1
                     in ((\<lparr>le_term = t, le_kind = kind, le_bytes = bslice (off + raftEntryHeaderSize) end1 buf\<rparr>, off) # es, fin)
      else ([], off))"
  by pat_completeness auto
termination
  by (relation "measure (\<lambda>(buf, off). length buf - off)") (auto simp: raftEntryHeaderSize_def)

declare lf_frames.simps [simp del]

definition lf_load :: "raftLogFile \<Rightarrow> raft_log_error + raftLogFile \<times> persistedEntry list" where
  "lf_load lf =
     (let buf = f_data (lf_f lf); size = length buf in
      if size = 0 then Inr (lf_writeFreshHeader 0 0 lf, [])
      else if size < 8 then Inr (lf_writeFreshHeader 0 0 lf, [])
      else if le_Uint64 (bslice 0 8 buf) \<noteq> raftLogMagic then Inl ErrBadRaftLog
      else if size < raftLogHeaderSize then Inr (lf_writeFreshHeader 0 0 lf, [])
      else let (es, off) = lf_frames buf raftLogHeaderSize
           in Inr (lf\<lparr>lf_f := \<lparr>f_data = take off buf, f_pos = off\<rparr>,
                      lf_baseIndex := le_Uint64 (bslice 8 16 buf), lf_baseTerm := le_Uint64 (bslice 16 24 buf),
                      lf_offsets := map snd es, lf_size := off\<rparr>, map fst es))"

text \<open>\<open>None\<close> is a file that does not exist yet.\<close>

definition openRaftLogFile :: "bytes option \<Rightarrow> bool \<Rightarrow> raft_log_error + raftLogFile \<times> persistedEntry list" where
  "openRaftLogFile file sync =
     lf_load \<lparr>lf_f = \<lparr>f_data = (case file of None \<Rightarrow> [] | Some d \<Rightarrow> d), f_pos = 0\<rparr>, lf_open = True, lf_path = None,
              lf_sync = sync, lf_baseIndex = 0, lf_baseTerm = 0, lf_offsets = [], lf_size = 0\<rparr>"

text \<open>The outcome of the two writes and the fsync of one append; a failing write leaves a prefix.\<close>

datatype append_io = AppendOk | AppendHeaderFails nat | AppendDataFails nat | AppendSyncFails

definition lf_append :: "append_io \<Rightarrow> u64 \<Rightarrow> EntryKind \<Rightarrow> bytes \<Rightarrow> raftLogFile \<Rightarrow> raft_log_error option \<times> raftLogFile" where
  "lf_append io t kind data lf =
     (if \<not> lf_open lf then (Some RlClosed, lf)
      else let e = \<lparr>le_term = t, le_kind = kind, le_bytes = data\<rparr>; hdr = frame_header e; off = lf_size lf;
               lf1 = lf\<lparr>lf_f := file_write hdr (lf_f lf)\<rparr>; lf2 = lf1\<lparr>lf_f := file_write data (lf_f lf1)\<rparr>;
               done = lf2\<lparr>lf_offsets := lf_offsets lf @ [off], lf_size := lf_size lf + raftEntryHeaderSize + length data\<rparr>
           in case io of
                AppendHeaderFails n \<Rightarrow> (Some RlAppendHeader, lf\<lparr>lf_f := file_write (take n hdr) (lf_f lf)\<rparr>)
              | AppendDataFails n \<Rightarrow> (Some RlAppendData, lf1\<lparr>lf_f := file_write (take n data) (lf_f lf1)\<rparr>)
              | AppendSyncFails \<Rightarrow> if lf_sync lf then (Some RlSync, lf2) else (None, done)
              | AppendOk \<Rightarrow> (None, done))"

datatype truncate_io = TruncateOk | TruncateFails | TruncateSyncFails | TruncateSeekFails

definition lf_truncateFrom :: "truncate_io \<Rightarrow> u64 \<Rightarrow> raftLogFile \<Rightarrow> raft_log_error option \<times> raftLogFile" where
  "lf_truncateFrom io index lf =
     (if \<not> lf_open lf then (Some RlClosed, lf)
      else if index \<le> lf_baseIndex lf then (None, lf)
      else let pos = unat (index - lf_baseIndex lf - 1) in
           if pos \<ge> length (lf_offsets lf) then (None, lf)
           else let off = lf_offsets lf ! pos;
                    lf1 = lf\<lparr>lf_f := (lf_f lf)\<lparr>f_data := take off (f_data (lf_f lf)) @ replicate (off - length (f_data (lf_f lf))) 0\<rparr>\<rparr>;
                    lf2 = lf1\<lparr>lf_offsets := take pos (lf_offsets lf), lf_size := off\<rparr>
                in if io = TruncateFails then (Some RlTruncate, lf)
                   else if lf_sync lf \<and> io = TruncateSyncFails then (Some RlTruncateSync, lf1)
                   else if io = TruncateSeekFails then (Some RlSeek, lf2)
                   else (None, lf2\<lparr>lf_f := (lf_f lf1)\<lparr>f_pos := off\<rparr>\<rparr>))"

text \<open>The offsets and the end of the frames written after the header.\<close>

fun frame_offsets :: "persistedEntry list \<Rightarrow> nat \<Rightarrow> nat list \<times> nat" where
  "frame_offsets [] off = ([], off)"
| "frame_offsets (e # es) off =
     (let (os, fin) = frame_offsets es (off + raftEntryHeaderSize + length (le_bytes e)) in (off # os, fin))"

text \<open>
  Where a compaction fails: before the rename (the temporary file is removed and the live file kept),
  in the fsync of the directory, or in reopening the new file, the rename having been done.
\<close>

datatype compact_io = CompactOk | CompactBeforeRename | CompactDirSyncFails | CompactReopenFails | CompactSeekFails

definition lf_compact :: "compact_io \<Rightarrow> u64 \<Rightarrow> u64 \<Rightarrow> persistedEntry list \<Rightarrow> raftLogFile \<Rightarrow> raft_log_error option \<times> raftLogFile" where
  "lf_compact io newBaseIndex newBaseTerm survivors lf =
     (if \<not> lf_open lf then (Some RlClosed, lf)
      else let new = raft_header newBaseIndex newBaseTerm @ concat (map frame survivors);
               (newOffsets, off) = frame_offsets survivors raftLogHeaderSize;
               renamed = lf\<lparr>lf_path := Some new\<rparr>
           in if io = CompactBeforeRename then (Some RlCompact, lf)
              else if lf_sync lf \<and> io = CompactDirSyncFails then (Some RlCompactDirSync, renamed)
              else if io = CompactReopenFails then (Some RlCompactReopen, renamed)
              else if io = CompactSeekFails then (Some RlCompactSeek, renamed)
              else (None, lf\<lparr>lf_f := \<lparr>f_data = new, f_pos = off\<rparr>, lf_path := None, lf_baseIndex := newBaseIndex,
                             lf_baseTerm := newBaseTerm, lf_offsets := newOffsets, lf_size := off\<rparr>))"

definition lf_resetToBase :: "compact_io \<Rightarrow> u64 \<Rightarrow> u64 \<Rightarrow> raftLogFile \<Rightarrow> raft_log_error option \<times> raftLogFile" where
  "lf_resetToBase io newBaseIndex newBaseTerm lf = lf_compact io newBaseIndex newBaseTerm [] lf"

definition lf_close :: "raftLogFile \<Rightarrow> raftLogFile" where
  "lf_close lf = lf\<lparr>lf_open := False\<rparr>"

text \<open>The result is the error, if any, and the contents of the file afterwards.\<close>

definition resetRaftLogFileTo :: "compact_io \<Rightarrow> bytes option \<Rightarrow> u64 \<Rightarrow> u64 \<Rightarrow> bool \<Rightarrow> raft_log_error option \<times> bytes option" where
  "resetRaftLogFileTo io file idx t sync =
     (case openRaftLogFile file sync of
        Inl e \<Rightarrow> (Some e, file)
      | Inr (lf, _) \<Rightarrow> (case lf_compact io idx t [] lf of (err, lf') \<Rightarrow> (err, Some (lf_disk (lf_close lf')))))"

subsection \<open>Reading frames back\<close>

abbreviation storable_entry :: "persistedEntry \<Rightarrow> bool" where
  "storable_entry e \<equiv> length (le_bytes e) < 2 ^ 32"

lemma length_frame [simp]: "length (frame_header e) = 13" "length (frame e) = 13 + length (le_bytes e)"
  by (simp_all add: frame_header_def frame_def)

lemma length_raft_header [simp]: "length (raft_header b t) = 24"
  by (simp add: raft_header_def)

lemma frame_header_fields [simp]:
  "le_Uint64 (frame_header e @ r) = le_term e" "(frame_header e @ r) ! 8 = le_kind e"
  "le_Uint32 (drop 9 (frame_header e) @ r) = of_nat (length (le_bytes e))"
  by (simp_all add: frame_header_def nth_append)

lemma unat_frame_length: "storable_entry e \<Longrightarrow> unat (of_nat (length (le_bytes e)) :: u32) = length (le_bytes e)"
  by (simp add: unat_of_nat)

lemma lf_frames_frame:
  assumes "storable_entry e"
  shows "lf_frames (pre @ frame e @ rest) (length pre) =
           (let (es, fin) = lf_frames (pre @ frame e @ rest) (length pre + 13 + length (le_bytes e)) in ((e, length pre) # es, fin))"
proof -
  have b: "bslice (length pre + 13) (length pre + (13 + length (le_bytes e))) (pre @ frame_header e @ le_bytes e @ rest) = le_bytes e"
    using bslice_append_at [of _ "pre @ frame_header e" _ "le_bytes e" rest] by (simp add: add.assoc)
  have e: "\<lparr>le_term = le_term e, le_kind = le_kind e, le_bytes = le_bytes e\<rparr> = e" by simp
  show ?thesis
    unfolding frame_def append.assoc
    by (subst lf_frames.simps) (simp add: Let_def unat_frame_length [OF assms] b e raftEntryHeaderSize_def add.assoc)
qed

lemma lf_frames_torn:
  assumes "storable_entry e" "n < length (frame e)"
  shows "lf_frames (pre @ take n (frame e)) (length pre) = ([], length pre)"
proof (cases "n < 13")
  case True
  then show ?thesis using assms(2) by (subst lf_frames.simps) (simp add: raftEntryHeaderSize_def)
next
  case False
  then have "take n (frame e) = frame_header e @ take (n - 13) (le_bytes e)" by (simp add: frame_def)
  then show ?thesis
    using assms False by (simp only:) (subst lf_frames.simps, simp add: Let_def raftEntryHeaderSize_def unat_frame_length)
qed

lemma lf_frames_all:
  assumes "list_all storable_entry es" "lf_frames (pre @ concat (map frame es) @ tail) (length pre + length (concat (map frame es))) = ([], fin)"
  shows "lf_frames (pre @ concat (map frame es) @ tail) (length pre) = (zip es (fst (frame_offsets es (length pre))), fin)"
  using assms
proof (induction es arbitrary: pre)
  case (Cons e es)
  have "lf_frames ((pre @ frame e) @ concat (map frame es) @ tail) (length (pre @ frame e)) =
      (zip es (fst (frame_offsets es (length (pre @ frame e)))), fin)"
    using Cons.prems by (intro Cons.IH) (simp_all add: add.assoc)
  then show ?case
    using lf_frames_frame [of e pre "concat (map frame es) @ tail"] Cons.prems(1)
    by (simp add: Let_def split_beta raftEntryHeaderSize_def add.assoc)
qed simp

lemma frame_offsets_end: "snd (frame_offsets es off) = off + length (concat (map frame es))"
  by (induction es arbitrary: off) (simp_all add: Let_def split_beta raftEntryHeaderSize_def)

lemma length_frame_offsets [simp]: "length (fst (frame_offsets es off)) = length es"
  by (induction es arbitrary: off) (simp_all add: Let_def split_beta)

lemma frame_offsets_append:
  "fst (frame_offsets (es @ [e]) off) = fst (frame_offsets es off) @ [off + length (concat (map frame es))]"
  by (induction es arbitrary: off) (simp_all add: Let_def split_beta raftEntryHeaderSize_def)

lemma frame_offsets_take: "fst (frame_offsets (take n es) off) = take n (fst (frame_offsets es off))"
  by (induction es arbitrary: off n) (auto simp: Let_def split_beta take_Cons split: nat.splits)

lemma frame_offsets_nth:
  "n < length es \<Longrightarrow> fst (frame_offsets es off) ! n = off + length (concat (map frame (take n es)))"
proof (induction es arbitrary: off n)
  case (Cons e es)
  then show ?case by (cases n) (simp_all add: Let_def split_beta raftEntryHeaderSize_def)
qed simp

lemma concat_frames_take:
  "take (length (concat (map frame (take n es)))) (concat (map frame es)) = concat (map frame (take n es))"
  by (metis append_eq_conv_conj append_take_drop_id concat_append map_append)

subsection \<open>The contents of a log file\<close>

definition log_bytes :: "u64 \<Rightarrow> u64 \<Rightarrow> logEntry list \<Rightarrow> bytes" where
  "log_bytes b t es = raft_header b t @ concat (map frame es)"

definition lf_holds :: "raftLogFile \<Rightarrow> u64 \<Rightarrow> u64 \<Rightarrow> logEntry list \<Rightarrow> bool" where
  "lf_holds lf b t es \<longleftrightarrow>
     lf_open lf \<and> lf_path lf = None \<and> lf_f lf = \<lparr>f_data = log_bytes b t es, f_pos = length (log_bytes b t es)\<rparr> \<and>
     lf_baseIndex lf = b \<and> lf_baseTerm lf = t \<and> lf_offsets lf = fst (frame_offsets es raftLogHeaderSize) \<and>
     lf_size lf = length (log_bytes b t es) \<and> list_all storable_entry es \<and> unat b + length es < 2 ^ 64"

lemma lf_holds_disk: "lf_holds lf b t es \<Longrightarrow> lf_disk lf = log_bytes b t es"
  by (simp add: lf_holds_def lf_disk_def)

lemma openRaftLogFile_tail:
  assumes "list_all storable_entry es" "unat b + length es < 2 ^ 64"
    and tail: "lf_frames (log_bytes b t es @ tail) (length (log_bytes b t es)) = ([], length (log_bytes b t es))"
  shows "\<exists>lf. openRaftLogFile (Some (log_bytes b t es @ tail)) sync = Inr (lf, es) \<and> lf_holds lf b t es \<and> lf_sync lf = sync"
proof -
  let ?buf = "log_bytes b t es @ tail"
  have len: "24 \<le> length ?buf" by (simp add: log_bytes_def)
  have magic: "le_Uint64 (bslice 0 8 ?buf) = raftLogMagic" "le_Uint64 (bslice 8 16 ?buf) = b" "le_Uint64 (bslice 16 24 ?buf) = t"
    by (simp_all add: log_bytes_def raft_header_def bslice_def)
  have "lf_frames ?buf 24 = (zip es (fst (frame_offsets es 24)), length (log_bytes b t es))"
    using lf_frames_all [OF assms(1), of "raft_header b t" tail] tail by (simp add: log_bytes_def)
  then show ?thesis
    using len magic assms(1,2)
    by (auto simp: openRaftLogFile_def lf_load_def Let_def lf_holds_def raftLogHeaderSize_def)
qed

lemma lf_frames_end [simp]: "lf_frames buf (length buf) = ([], length buf)"
  by (subst lf_frames.simps) simp

lemma openRaftLogFile_holds:
  assumes "list_all storable_entry es" "unat b + length es < 2 ^ 64"
  shows "\<exists>lf. openRaftLogFile (Some (log_bytes b t es)) sync = Inr (lf, es) \<and> lf_holds lf b t es \<and> lf_sync lf = sync"
  using openRaftLogFile_tail [OF assms, of t "[]"] by simp

lemma openRaftLogFile_torn:
  assumes "list_all storable_entry es" "unat b + length es < 2 ^ 64" "storable_entry e" "n < length (frame e)"
  shows "\<exists>lf. openRaftLogFile (Some (log_bytes b t es @ take n (frame e))) sync = Inr (lf, es) \<and> lf_holds lf b t es \<and> lf_sync lf = sync"
  using openRaftLogFile_tail [OF assms(1,2), of t "take n (frame e)"] lf_frames_torn [OF assms(3,4)] by simp

lemma file_write_end:
  "file_write b \<lparr>f_data = d, f_pos = length d\<rparr> = \<lparr>f_data = d @ b, f_pos = length (d @ b)\<rparr>"
  by (simp add: file_write_def Let_def)

lemma lf_append_holds:
  assumes "lf_holds lf b t es" "unat b + length es + 1 < 2 ^ 64" "storable_entry e"
  shows "\<exists>lf'. lf_append AppendOk (le_term e) (le_kind e) (le_bytes e) lf = (None, lf') \<and> lf_holds lf' b t (es @ [e]) \<and> lf_sync lf' = lf_sync lf"
proof -
  have f: "lf_f lf = \<lparr>f_data = log_bytes b t es, f_pos = length (log_bytes b t es)\<rparr>" using assms(1) by (simp add: lf_holds_def)
  have e: "\<lparr>le_term = le_term e, le_kind = le_kind e, le_bytes = le_bytes e\<rparr> = e" by simp
  have "file_write (le_bytes e) (file_write (frame_header e) (lf_f lf)) = \<lparr>f_data = log_bytes b t (es @ [e]), f_pos = length (log_bytes b t (es @ [e]))\<rparr>"
    unfolding f file_write_end by (simp add: log_bytes_def frame_def)
  then show ?thesis
    using assms by (simp add: lf_append_def lf_holds_def Let_def e frame_offsets_append)
      (simp add: log_bytes_def raftEntryHeaderSize_def raftLogHeaderSize_def)
qed

lemma lf_truncateFrom_holds:
  assumes h: "lf_holds lf b t es" and i: "b < idx"
  shows "\<exists>lf'. lf_truncateFrom TruncateOk idx lf = (None, lf') \<and> lf_holds lf' b t (take (unat idx - unat b - 1) es) \<and> lf_sync lf' = lf_sync lf"
proof (cases "unat idx - unat b - 1 < length es")
  case True
  let ?n = "unat idx - unat b - 1"
  have off: "lf_offsets lf ! ?n = 24 + length (concat (map frame (take ?n es)))"
    using h True by (simp add: lf_holds_def frame_offsets_nth raftLogHeaderSize_def)
  have "take (24 + length (concat (map frame (take ?n es)))) (log_bytes b t es) = log_bytes b t (take ?n es)"
    using concat_frames_take [of ?n es] by (simp add: log_bytes_def)
  moreover have "length (concat (map frame (take ?n es))) \<le> length (concat (map frame es))"
    by (metis concat_frames_take length_take min.cobounded1)
  moreover have "list_all storable_entry (take ?n es)" using h by (auto simp: lf_holds_def list_all_iff dest: in_set_takeD)
  ultimately show ?thesis
    using h i True off by (auto simp: lf_truncateFrom_def lf_holds_def Let_def unat_sub_one_u64 frame_offsets_take log_bytes_def)
next
  case False
  then show ?thesis using h i by (auto simp: lf_truncateFrom_def lf_holds_def Let_def unat_sub_one_u64)
qed

lemma lf_compact_holds:
  assumes "lf_open lf" "list_all storable_entry es" "unat nb + length es < 2 ^ 64"
  shows "\<exists>lf'. lf_compact CompactOk nb nt es lf = (None, lf') \<and> lf_holds lf' nb nt es \<and> lf_sync lf' = lf_sync lf"
  using assms
  by (auto simp: lf_compact_def lf_holds_def Let_def split_beta log_bytes_def frame_offsets_end raftLogHeaderSize_def)

interpretation file_log: entry_log lf_holds
  "\<lambda>e lf. case lf_append AppendOk (le_term e) (le_kind e) (le_bytes e) lf of (None, lf') \<Rightarrow> Some lf' | (Some _, _) \<Rightarrow> None"
  "\<lambda>idx lf. case lf_truncateFrom TruncateOk idx lf of (None, lf') \<Rightarrow> Some lf' | (Some _, _) \<Rightarrow> None"
  "\<lambda>nb nt es lf. case lf_compact CompactOk nb nt es lf of (None, lf') \<Rightarrow> Some lf' | (Some _, _) \<Rightarrow> None"
proof
  fix l b t es and e :: logEntry
  assume "lf_holds l b t es" "unat b + length es + 1 < 2 ^ 64" "length (le_bytes e) < 2 ^ 32"
  from lf_append_holds [OF this] show "\<exists>l'. (case lf_append AppendOk (le_term e) (le_kind e) (le_bytes e) l of (None, lf') \<Rightarrow> Some lf' | (Some _, _) \<Rightarrow> None) = Some l' \<and>
      lf_holds l' b t (es @ [e])" by auto
next
  fix l b t es and idx :: u64
  assume "lf_holds l b t es" "b < idx"
  from lf_truncateFrom_holds [OF this] show "\<exists>l'. (case lf_truncateFrom TruncateOk idx l of (None, lf') \<Rightarrow> Some lf' | (Some _, _) \<Rightarrow> None) = Some l' \<and>
      lf_holds l' b t (take (unat idx - unat b - 1) es)" by auto
next
  fix l b t es nb nt
  assume h: "lf_holds l b t es" "b < nb" "unat nb \<le> unat b + length es" "list_all storable_entry es"
  have "lf_open l" "list_all storable_entry (drop (unat nb - unat b) es)" "unat nb + length (drop (unat nb - unat b) es) < 2 ^ 64"
    using h by (auto simp: lf_holds_def list_all_iff word_less_nat_alt dest: in_set_dropD)
  from lf_compact_holds [OF this, of nt]
  show "\<exists>l'. (case lf_compact CompactOk nb nt (drop (unat nb - unat b) es) l of (None, lf') \<Rightarrow> Some lf' | (Some _, _) \<Rightarrow> None) = Some l' \<and>
      lf_holds l' nb nt (drop (unat nb - unat b) es)" by auto
qed

subsection \<open>The two copies of the log\<close>

text \<open>Two implementations of the contract that start from the same log stay in step.\<close>

locale mirrored_logs = mem: entry_log mrepr mapp mtrunc mcompact + dur: entry_log frepr fapp ftrunc fcompact
  for mrepr :: "'m \<Rightarrow> u64 \<Rightarrow> u64 \<Rightarrow> logEntry list \<Rightarrow> bool" and mapp mtrunc mcompact
    and frepr :: "'f \<Rightarrow> u64 \<Rightarrow> u64 \<Rightarrow> logEntry list \<Rightarrow> bool" and fapp ftrunc fcompact
begin

lemma both_app:
  "mrepr m b t es \<Longrightarrow> frepr f b t es \<Longrightarrow> unat b + length es + 1 < 2 ^ 64 \<Longrightarrow> length (le_bytes e) < 2 ^ 32 \<Longrightarrow>
     \<exists>m' f'. mapp e m = Some m' \<and> fapp e f = Some f' \<and> mrepr m' b t (es @ [e]) \<and> frepr f' b t (es @ [e])"
  using mem.app [of m b t es e] dur.app [of f b t es e] by auto

lemma both_trunc:
  "mrepr m b t es \<Longrightarrow> frepr f b t es \<Longrightarrow> b < idx \<Longrightarrow>
     \<exists>m' f'. mtrunc idx m = Some m' \<and> ftrunc idx f = Some f' \<and> mrepr m' b t (take (unat idx - unat b - 1) es) \<and> frepr f' b t (take (unat idx - unat b - 1) es)"
  using mem.trunc [of m b t es idx] dur.trunc [of f b t es idx] by auto

lemma both_compact:
  "mrepr m b t es \<Longrightarrow> frepr f b t es \<Longrightarrow> b < nb \<Longrightarrow> unat nb \<le> unat b + length es \<Longrightarrow> list_all (\<lambda>e. length (le_bytes e) < 2 ^ 32) es \<Longrightarrow>
     \<exists>m' f'. mcompact nb nt (drop (unat nb - unat b) es) m = Some m' \<and> fcompact nb nt (drop (unat nb - unat b) es) f = Some f' \<and>
       mrepr m' nb nt (drop (unat nb - unat b) es) \<and> frepr f' nb nt (drop (unat nb - unat b) es)"
  using mem.compact [of m b t es nb nt] dur.compact [of f b t es nb nt] by auto

end

interpretation node_log: mirrored_logs rl_holds
  "\<lambda>e l. Some (snd (rl_append (le_term e) (le_kind e) (le_bytes e) l))"
  "\<lambda>idx l. Some (rl_truncateFrom idx l)" "\<lambda>nb nt es l. Some (rl_compactTo nb nt l)"
  lf_holds
  "\<lambda>e lf. case lf_append AppendOk (le_term e) (le_kind e) (le_bytes e) lf of (None, lf') \<Rightarrow> Some lf' | (Some _, _) \<Rightarrow> None"
  "\<lambda>idx lf. case lf_truncateFrom TruncateOk idx lf of (None, lf') \<Rightarrow> Some lf' | (Some _, _) \<Rightarrow> None"
  "\<lambda>nb nt es lf. case lf_compact CompactOk nb nt es lf of (None, lf') \<Rightarrow> Some lf' | (Some _, _) \<Rightarrow> None"
  by unfold_locales

text \<open>
  How the node pairs the two: \<^verbatim>\<open>handleAppendEntries\<close> and \<^verbatim>\<open>proposeAndAwait\<close> append to the file and then to
  memory, a conflict inside the log truncates both, and \<^verbatim>\<open>maybeCompactLocked\<close> rewrites the file with the
  entries after the new base and then compacts memory.
\<close>

primrec pair_op :: "log_op \<Rightarrow> RaftLog \<times> raftLogFile \<Rightarrow> (RaftLog \<times> raftLogFile) option" where
  "pair_op (LAppend t k d) s =
     (case lf_append AppendOk t k d (snd s) of
        (None, f') \<Rightarrow> Some (snd (rl_append t k d (fst s)), f') | (Some _, _) \<Rightarrow> None)"
| "pair_op (LTruncate idx) s =
     (if idx \<le> rl_baseIndex (fst s) then Some s
      else case lf_truncateFrom TruncateOk idx (snd s) of
             (None, f') \<Rightarrow> Some (rl_truncateFrom idx (fst s), f') | (Some _, _) \<Rightarrow> None)"
| "pair_op (LCompact idx) s =
     (if idx \<le> rl_baseIndex (fst s) then Some s
      else case (rl_term (fst s) idx, rl_entriesAfter idx (fst s)) of
             (Some t, Some es) \<Rightarrow>
               (case lf_compact CompactOk idx t es (snd s) of
                  (None, f') \<Rightarrow> Some (rl_compactTo idx t (fst s), f') | (Some _, _) \<Rightarrow> None)
           | _ \<Rightarrow> None)"

primrec op_storable :: "log_op \<Rightarrow> bool" where
  "op_storable (LAppend t k d) \<longleftrightarrow> length d < 2 ^ 32"
| "op_storable (LTruncate idx) \<longleftrightarrow> True"
| "op_storable (LCompact idx) \<longleftrightarrow> True"

definition paired :: "RaftLog \<times> raftLogFile \<Rightarrow> bool" where
  "paired s \<longleftrightarrow> rl_holds (fst s) (rl_baseIndex (fst s)) (rl_baseTerm (fst s)) (rl_entries (fst s)) \<and>
     lf_holds (snd s) (rl_baseIndex (fst s)) (rl_baseTerm (fst s)) (rl_entries (fst s))"

lemma pairedI: "rl_holds m b t es \<Longrightarrow> lf_holds f b t es \<Longrightarrow> paired (m, f)"
  by (auto simp: paired_def rl_holds_def)

definition rl_end :: "RaftLog \<Rightarrow> nat" where
  "rl_end l = unat (rl_baseIndex l) + length (rl_entries l)"

lemma rl_holds_end: "rl_holds l b t es \<Longrightarrow> rl_end l = unat b + length es"
  by (simp add: rl_holds_def rl_end_def)

lemma rl_holds_term:
  assumes "rl_holds l b t es" "b < idx"
  shows "rl_term l idx = (if unat idx \<le> unat b + length es then Some (le_term (es ! (unat idx - unat b - 1))) else None)"
proof -
  have "unat b < unat idx" using assms(2) by (simp add: word_less_nat_alt)
  then show ?thesis using assms by (auto simp: rl_holds_def rl_term_def rl_slot_def Let_def unat_sub_one_u64)
qed

lemma rl_holds_after:
  assumes "rl_holds l b t es" "b < idx" "unat idx \<le> unat b + length es"
  shows "rl_entriesAfter idx l = Some (drop (unat idx - unat b) es)"
  using assms by (auto simp: rl_holds_def rl_entriesAfter_def Let_def unat_sub)

lemma pair_op_paired:
  assumes p: "paired s" and st: "op_storable x" and bound: "rl_end (fst s) + 1 < 2 ^ 64"
  shows "case rl_op x (fst s) of None \<Rightarrow> pair_op x s = None
         | Some m' \<Rightarrow> \<exists>f'. pair_op x s = Some (m', f') \<and> paired (m', f') \<and> rl_end m' \<le> rl_end (fst s) + 1"
proof -
  let ?m = "fst s" and ?f = "snd s"
  let ?b = "rl_baseIndex ?m" and ?t = "rl_baseTerm ?m" and ?es = "rl_entries ?m"
  have m: "rl_holds ?m ?b ?t ?es" and f: "lf_holds ?f ?b ?t ?es" using p by (simp_all add: paired_def)
  show ?thesis
  proof (cases x)
    case (LAppend t k d)
    let ?e = "\<lparr>le_term = t, le_kind = k, le_bytes = d\<rparr>"
    from node_log.both_app [OF m f, of ?e] bound st LAppend
    show ?thesis by (auto simp: rl_end_def rl_append_def Let_def pairedI split: prod.splits option.splits)
  next
    case (LTruncate idx)
    show ?thesis
    proof (cases "idx \<le> ?b")
      case True
      then show ?thesis using LTruncate p by (cases s) (simp add: rl_truncateFrom_def)
    next
      case False
      then have "?b < idx" by simp
      from node_log.both_trunc [OF m f this] show ?thesis
        using LTruncate False rl_holds_end [OF m] by (auto simp: rl_holds_end pairedI split: prod.splits option.splits)
    qed
  next
    case (LCompact idx)
    show ?thesis
    proof (cases "idx \<le> ?b")
      case True
      then show ?thesis using LCompact p by (cases s) simp
    next
      case False
      then have lt: "?b < idx" by simp
      show ?thesis
      proof (cases "unat idx \<le> unat ?b + length ?es")
        case True
        have "list_all storable_entry ?es" using f by (simp add: lf_holds_def)
        from node_log.both_compact [OF m f lt True this, of "le_term (?es ! (unat idx - unat ?b - 1))"]
        obtain f' where c: "lf_compact CompactOk idx (le_term (?es ! (unat idx - unat ?b - 1))) (drop (unat idx - unat ?b) ?es) ?f = (None, f')"
          "rl_holds (rl_compactTo idx (le_term (?es ! (unat idx - unat ?b - 1))) ?m) idx (le_term (?es ! (unat idx - unat ?b - 1))) (drop (unat idx - unat ?b) ?es)"
          "lf_holds f' idx (le_term (?es ! (unat idx - unat ?b - 1))) (drop (unat idx - unat ?b) ?es)"
          by (auto split: prod.splits option.splits)
        moreover have "unat ?b < unat idx" using lt by (simp add: word_less_nat_alt)
        ultimately show ?thesis
          using LCompact True False rl_holds_end [OF c(2)] rl_holds_end [OF m] pairedI [OF c(2,3)]
          by (simp add: rl_holds_term [OF m lt] rl_holds_after [OF m lt True])
      qed (use lt False LCompact in \<open>simp add: rl_holds_term [OF m lt]\<close>)
    qed
  qed
qed

lemma pair_run_paired:
  assumes "paired (m, f)" "list_all op_storable ops" "rl_end m + length ops < 2 ^ 64"
  shows "case op_run rl_op ops m of None \<Rightarrow> op_run pair_op ops (m, f) = None
         | Some m' \<Rightarrow> \<exists>f'. op_run pair_op ops (m, f) = Some (m', f') \<and> paired (m', f') \<and> rl_end m' \<le> rl_end m + length ops"
  using assms
proof (induction ops arbitrary: m f)
  case (Cons x ops)
  have "op_storable x" "rl_end (fst (m, f)) + 1 < 2 ^ 64" using Cons.prems by simp_all
  from pair_op_paired [OF Cons.prems(1) this] show ?case
  proof (cases "rl_op x m")
    case (Some m')
    then obtain f' where s: "pair_op x (m, f) = Some (m', f')" "paired (m', f')" "rl_end m' \<le> rl_end m + 1"
      using pair_op_paired [OF Cons.prems(1) \<open>op_storable x\<close> \<open>rl_end (fst (m, f)) + 1 < 2 ^ 64\<close>] by auto
    have "op_run rl_op (x # ops) m = op_run rl_op ops m'" "op_run pair_op (x # ops) (m, f) = op_run pair_op ops (m', f')"
      using Some s(1) by simp_all
    then show ?thesis using Cons.IH [OF s(2)] Cons.prems(2,3) s(3) by (simp only:) (fastforce split: option.splits)
  qed simp
qed simp

lemma openRaftLogFile_fresh: "openRaftLogFile None sync = Inr (f, es) \<Longrightarrow> es = [] \<and> paired (NewRaftLog, f) \<and> lf_sync f = sync"
  by (auto simp: openRaftLogFile_def lf_load_def lf_writeFreshHeader_def paired_def rl_holds_def lf_holds_def NewRaftLog_def
      log_bytes_def raftLogHeaderSize_def)

text \<open>C23: Memory and file never diverge while the system calls succeed: after any history of appends,
  truncations and compactions from a fresh node, the file reopens to the base and the entries of the
  in-memory log; and when the node crashes in the middle of the next append, after any number of bytes
  of its frame, the reopened log has the entries before it, with the new one exactly when its frame is
  complete.\<close>

theorem raft_log_durable:
  assumes "openRaftLogFile None sync = Inr (f0, [])" "list_all op_storable ops" "length ops < 2 ^ 64 - 1"
    "op_run rl_op ops NewRaftLog = Some m"
  shows "\<exists>f. op_run pair_op ops (NewRaftLog, f0) = Some (m, f) \<and>
    (\<forall>e n. storable_entry e \<longrightarrow> (\<exists>lf. openRaftLogFile (Some (lf_disk f @ take n (frame e))) sync =
        Inr (lf, rl_entries m @ (if length (frame e) \<le> n then [e] else [])) \<and>
      lf_baseIndex lf = rl_baseIndex m \<and> lf_baseTerm lf = rl_baseTerm m))"
proof -
  have p0: "paired (NewRaftLog, f0)" using openRaftLogFile_fresh [OF assms(1)] by simp
  have end0: "rl_end NewRaftLog = 0" by (simp add: rl_end_def NewRaftLog_def)
  from pair_run_paired [OF p0 assms(2)] assms(3,4) end0
  obtain f where f: "op_run pair_op ops (NewRaftLog, f0) = Some (m, f)" "paired (m, f)" "rl_end m \<le> length ops" by auto
  let ?b = "rl_baseIndex m" and ?t = "rl_baseTerm m" and ?es = "rl_entries m"
  have h: "lf_holds f ?b ?t ?es" using f(2) by (simp add: paired_def)
  have ok: "list_all storable_entry ?es" "unat ?b + length ?es < 2 ^ 64" and d: "lf_disk f = log_bytes ?b ?t ?es"
    using h lf_holds_disk [OF h] by (simp_all add: lf_holds_def)
  have bound: "rl_end m < 2 ^ 64 - 1" using f(3) assms(3) by simp
  have "\<exists>lf. openRaftLogFile (Some (lf_disk f @ take n (frame e))) sync = Inr (lf, ?es @ (if length (frame e) \<le> n then [e] else [])) \<and>
      lf_baseIndex lf = ?b \<and> lf_baseTerm lf = ?t" if e: "storable_entry e" for e n
  proof (cases "length (frame e) \<le> n")
    case True
    have "lf_disk f @ take n (frame e) = log_bytes ?b ?t (?es @ [e])" using True d by (simp add: log_bytes_def)
    moreover have "list_all storable_entry (?es @ [e])" "unat ?b + length (?es @ [e]) < 2 ^ 64" using ok e bound by (simp_all add: rl_end_def)
    ultimately show ?thesis using openRaftLogFile_holds [of "?es @ [e]" ?b ?t sync] True by (auto simp: lf_holds_def)
  next
    case False
    then show ?thesis using openRaftLogFile_torn [OF ok e, of n ?t sync] d by (auto simp: lf_holds_def)
  qed
  then show ?thesis using f(1) by blast
qed

theorem raft_log_durable_witness:
  "\<exists>f0 m f lf. openRaftLogFile None True = Inr (f0, []) \<and>
     op_run pair_op [LAppend 1 0 [7], LAppend 1 0 [8], LCompact 1, LTruncate 2, LAppend 2 0 [9]] (NewRaftLog, f0) = Some (m, f) \<and>
     openRaftLogFile (Some (lf_disk f)) True = Inr (lf, rl_entries m) \<and>
     rl_entries m = [\<lparr>le_term = 2, le_kind = 0, le_bytes = [9]\<rparr>] \<and> lf_baseIndex lf = 1"
proof -
  let ?ops = "[LAppend 1 0 [7], LAppend 1 0 [8], LCompact 1, LTruncate 2, LAppend 2 0 [9]]"
  let ?e = "\<lparr>le_term = 2, le_kind = 0, le_bytes = [9]\<rparr> :: logEntry"
  let ?m = "\<lparr>rl_baseIndex = 1, rl_baseTerm = 1, rl_entries = [?e]\<rparr>"
  have run: "op_run rl_op ?ops NewRaftLog = Some ?m"
    by (simp add: NewRaftLog_def rl_append_def rl_term_def rl_slot_def rl_compactTo_def rl_truncateFrom_def rl_lastIndex_def Let_def word_le_nat_alt)
  obtain f0 where f0: "openRaftLogFile None True = Inr (f0, [])"
    by (auto simp: openRaftLogFile_def lf_load_def)
  have st: "list_all op_storable ?ops" by simp
  from raft_log_durable [OF f0 st _ run]
  obtain f where f: "op_run pair_op ?ops (NewRaftLog, f0) = Some (?m, f)"
    "\<And>e n. storable_entry e \<Longrightarrow> \<exists>lf. openRaftLogFile (Some (lf_disk f @ take n (frame e))) True =
        Inr (lf, rl_entries ?m @ (if length (frame e) \<le> n then [e] else [])) \<and>
      lf_baseIndex lf = rl_baseIndex ?m \<and> lf_baseTerm lf = rl_baseTerm ?m" by auto
  show ?thesis using f0 f(1) f(2) [of ?e 0] by auto
qed

text \<open>C25: An append whose fsync fails reports an error and leaves memory alone, but its frame stays in the
  file; when the leader's retry succeeds the file holds the entry twice, so the reopened log has one
  entry more than the in-memory log and every later index is shifted.\<close>

theorem raft_append_retry_duplicates:
  assumes "paired (m, f)" "lf_sync f" "storable_entry e" "rl_end m + 2 < 2 ^ 64"
  shows "\<exists>f1 f2 lf. lf_append AppendSyncFails (le_term e) (le_kind e) (le_bytes e) f = (Some RlSync, f1) \<and>
     lf_append AppendOk (le_term e) (le_kind e) (le_bytes e) f1 = (None, f2) \<and>
     openRaftLogFile (Some (lf_disk f2)) True = Inr (lf, rl_entries m @ [e, e])"
proof -
  let ?b = "rl_baseIndex m" and ?t = "rl_baseTerm m" and ?es = "rl_entries m"
  have h: "lf_holds f ?b ?t ?es" using assms(1) by (simp add: paired_def)
  have ff: "lf_f f = \<lparr>f_data = log_bytes ?b ?t ?es, f_pos = length (log_bytes ?b ?t ?es)\<rparr>" and op: "lf_open f" "lf_path f = None"
    using h by (simp_all add: lf_holds_def)
  have e: "\<lparr>le_term = le_term e, le_kind = le_kind e, le_bytes = le_bytes e\<rparr> = e" by simp
  have w: "file_write (le_bytes e) (file_write (frame_header e) \<lparr>f_data = d, f_pos = length d\<rparr>) = \<lparr>f_data = d @ frame e, f_pos = length (d @ frame e)\<rparr>" for d
    unfolding file_write_end by (simp add: frame_def)
  let ?f1 = "f\<lparr>lf_f := \<lparr>f_data = log_bytes ?b ?t ?es @ frame e, f_pos = length (log_bytes ?b ?t ?es @ frame e)\<rparr>\<rparr>"
  have f1: "lf_append AppendSyncFails (le_term e) (le_kind e) (le_bytes e) f = (Some RlSync, ?f1)"
    using assms(2) op by (simp add: lf_append_def Let_def e ff w)
  have f2: "\<exists>f2. lf_append AppendOk (le_term e) (le_kind e) (le_bytes e) ?f1 = (None, f2) \<and> lf_disk f2 = log_bytes ?b ?t (?es @ [e, e])"
    using op w [of "log_bytes ?b ?t ?es @ frame e"] by (simp add: lf_append_def Let_def e lf_disk_def) (simp add: log_bytes_def)
  have "list_all storable_entry (?es @ [e, e])" "unat ?b + length (?es @ [e, e]) < 2 ^ 64"
    using h assms(3,4) by (auto simp: lf_holds_def rl_end_def)
  then show ?thesis using f1 f2 openRaftLogFile_holds [of "?es @ [e, e]" ?b ?t True] by metis
qed

definition sample_entry :: logEntry where "sample_entry = \<lparr>le_term = 1, le_kind = 0, le_bytes = [7]\<rparr>"

lemma fresh_paired: "\<exists>f. openRaftLogFile None sync = Inr (f, []) \<and> paired (NewRaftLog, f) \<and> lf_sync f = sync"
  using openRaftLogFile_fresh [of sync] by (auto simp: openRaftLogFile_def lf_load_def)

theorem raft_append_retry_duplicates_witness:
  "\<exists>f f1 f2 lf. openRaftLogFile None True = Inr (f, []) \<and>
     lf_append AppendSyncFails 1 0 [7] f = (Some RlSync, f1) \<and> lf_append AppendOk 1 0 [7] f1 = (None, f2) \<and>
     openRaftLogFile (Some (lf_disk f2)) True = Inr (lf, [sample_entry, sample_entry])"
  using fresh_paired [of True] raft_append_retry_duplicates [of NewRaftLog _ sample_entry]
  by (auto simp: sample_entry_def rl_end_def NewRaftLog_def)

text \<open>C26: A compaction whose directory fsync or reopen fails after the rename keeps writing to the replaced
  file: an append that then succeeds is not in the file the next open reads.\<close>

theorem raft_compact_detaches:
  assumes "paired (m, f)" "rl_baseIndex m < idx" "unat idx \<le> rl_end m" "rl_term m idx = Some t" "rl_entriesAfter idx m = Some es"
    "storable_entry e" "io = CompactReopenFails \<or> io = CompactDirSyncFails \<and> lf_sync f"
  shows "\<exists>err f1 f2 lf. lf_compact io idx t es f = (Some err, f1) \<and>
     lf_append AppendOk (le_term e) (le_kind e) (le_bytes e) f1 = (None, f2) \<and>
     openRaftLogFile (Some (lf_disk f2)) True = Inr (lf, es) \<and> lf_baseIndex lf = idx"
proof -
  let ?b = "rl_baseIndex m"
  have m: "rl_holds m ?b (rl_baseTerm m) (rl_entries m)" and h: "lf_holds f ?b (rl_baseTerm m) (rl_entries m)"
    using assms(1) by (simp_all add: paired_def)
  have es: "es = drop (unat idx - unat ?b) (rl_entries m)"
    using rl_holds_after [OF m assms(2)] assms(3,5) by (simp add: rl_end_def)
  have ok: "list_all storable_entry es" "unat idx + length es < 2 ^ 64"
    using h assms(2,3) by (auto simp: es lf_holds_def list_all_iff rl_end_def word_less_nat_alt dest: in_set_dropD)
  let ?f1 = "f\<lparr>lf_path := Some (log_bytes idx t es)\<rparr>"
  have "\<exists>err. lf_compact io idx t es f = (Some err, ?f1)"
    using h assms(7) by (auto simp: lf_compact_def lf_holds_def Let_def split_beta log_bytes_def)
  moreover have "\<exists>f2. lf_append AppendOk (le_term e) (le_kind e) (le_bytes e) ?f1 = (None, f2) \<and> lf_disk f2 = log_bytes idx t es"
    using h by (simp add: lf_append_def lf_holds_def Let_def lf_disk_def)
  ultimately show ?thesis
    using openRaftLogFile_holds [OF ok, of t True] by (metis lf_holds_def)
qed

theorem raft_compact_detaches_witness:
  "\<exists>f m f' err f1 f2 lf. openRaftLogFile None True = Inr (f, []) \<and> op_run pair_op [LAppend 1 0 [7]] (NewRaftLog, f) = Some (m, f') \<and>
     lf_compact CompactDirSyncFails 1 1 [] f' = (Some err, f1) \<and> lf_append AppendOk 1 0 [7] f1 = (None, f2) \<and>
     openRaftLogFile (Some (lf_disk f2)) True = Inr (lf, []) \<and> lf_baseIndex lf = 1"
proof -
  let ?m = "\<lparr>rl_baseIndex = 0, rl_baseTerm = 0, rl_entries = [sample_entry]\<rparr>"
  obtain f where f: "openRaftLogFile None True = Inr (f, [])" "paired (NewRaftLog, f)" "lf_sync f"
    using fresh_paired [of True] by auto
  have "rl_op (LAppend 1 0 [7]) NewRaftLog = Some ?m" by (simp add: NewRaftLog_def rl_append_def Let_def sample_entry_def)
  then obtain f' where f': "pair_op (LAppend 1 0 [7]) (NewRaftLog, f) = Some (?m, f')" "paired (?m, f')"
    using pair_op_paired [OF f(2), of "LAppend 1 0 [7]"] by (auto simp: rl_end_def NewRaftLog_def)
  have "lf_sync f'" using f'(1) f(3) by (auto simp: lf_append_def Let_def split: if_splits)
  then show ?thesis
    using raft_compact_detaches [OF f'(2), of 1 1 "[]" sample_entry CompactDirSyncFails] f(1) f'(1)
    by (fastforce simp: rl_end_def rl_term_def rl_slot_def rl_entriesAfter_def Let_def sample_entry_def)
qed

end
