(* ===== verification/Raft_Config.thy ===== *)
theory Raft_Config
  imports Prelude
begin

section \<open>Membership configurations and hard state (\<open>internal/cluster/config.go\<close>, \<open>raftstate.go\<close>)\<close>

text \<open>
  A \<^verbatim>\<open>map[NodeID]bool\<close> of voters is only ever written with \<^verbatim>\<open>true\<close>, so it is the finite set of its keys.
  A node id is a Go \<^verbatim>\<open>int\<close>, stored as the 64-bit word of its two's complement.  Every small file of the
  cluster is replaced by the same system calls (create a temporary file, write, fsync, close, rename, fsync
  of the directory); they are steps on the two directory entries, and the call that fails is an argument.
  A process that stops between two calls leaves the entries of a run in which the next call fails.
\<close>

subsection \<open>Replacing a file\<close>

text \<open>The call that fails; a failing write has written the given number of bytes.\<close>

datatype atomic_io = AtomicOk | AtomicCreateFails | AtomicWriteFails nat | AtomicSyncFails | AtomicCloseFails
  | AtomicRenameFails | AtomicDirSyncFails

text \<open>The entries \<^verbatim>\<open>path.tmp\<close> and \<^verbatim>\<open>path\<close> of a directory.\<close>

record tmp_files =
  tf_tmp :: "bytes option"
  tf_path :: "bytes option"

definition tmp_create :: "tmp_files \<Rightarrow> tmp_files" where
  "tmp_create fs = fs\<lparr>tf_tmp := Some []\<rparr>"

definition tmp_write :: "bytes \<Rightarrow> tmp_files \<Rightarrow> tmp_files" where
  "tmp_write b fs = fs\<lparr>tf_tmp := map_option (\<lambda>c. c @ b) (tf_tmp fs)\<rparr>"

definition tmp_rename :: "tmp_files \<Rightarrow> tmp_files" where
  "tmp_rename fs = fs\<lparr>tf_tmp := None, tf_path := tf_tmp fs\<rparr>"

text \<open>Whether the replacement reports success, and the entries afterwards.\<close>

definition replace_file :: "atomic_io \<Rightarrow> bool \<Rightarrow> bytes \<Rightarrow> tmp_files \<Rightarrow> bool \<times> tmp_files" where
  "replace_file io sync new fs =
     (if io = AtomicCreateFails then (False, fs)
      else let fs1 = tmp_create fs in
        case io of
          AtomicWriteFails k \<Rightarrow> (False, tmp_write (take k new) fs1)
        | _ \<Rightarrow>
            let fs2 = tmp_write new fs1 in
            if sync \<and> io = AtomicSyncFails then (False, fs2)
            else if io = AtomicCloseFails then (False, fs2)
            else if io = AtomicRenameFails then (False, fs2)
            else let fs3 = tmp_rename fs2 in
              if sync \<and> io = AtomicDirSyncFails then (False, fs3) else (True, fs3))"

text \<open>What a replacement does to the path.  Creating truncates, so a temporary file that an earlier attempt left
  does not matter (\<open>replace_file_path\<close>); the nodes below keep the path only.\<close>

definition write_atomic :: "atomic_io \<Rightarrow> bool \<Rightarrow> bytes \<Rightarrow> bytes option \<Rightarrow> bool \<times> bytes option" where
  "write_atomic io sync new old =
     (case replace_file io sync new \<lparr>tf_tmp = None, tf_path = old\<rparr> of (ok, fs) \<Rightarrow> (ok, tf_path fs))"

lemmas replace_defs = replace_file_def tmp_create_def tmp_write_def tmp_rename_def Let_def

lemma replace_file_path:
  "replace_file io sync new fs = (ok, fs') \<Longrightarrow> write_atomic io sync new (tf_path fs) = (ok, tf_path fs')"
  by (cases io) (auto simp: write_atomic_def replace_defs split: if_splits)

lemma write_atomic_eq:
  "write_atomic io sync new old =
     (if io = AtomicOk \<or> \<not> sync \<and> (io = AtomicSyncFails \<or> io = AtomicDirSyncFails) then (True, Some new)
      else if io = AtomicDirSyncFails then (False, Some new) else (False, old))"
  by (cases io) (simp_all add: write_atomic_def replace_defs)

lemma write_atomic_cases:
  "write_atomic io sync new old = (ok, d) \<Longrightarrow> (ok \<longrightarrow> d = Some new) \<and> (d = Some new \<or> d = old)"
  by (auto simp: write_atomic_eq split: if_splits)

subsection \<open>Configurations\<close>

type_synonym NodeID = int

definition node_id :: "NodeID \<Rightarrow> bool" where
  "node_id i \<longleftrightarrow> - (2 ^ 63) \<le> i \<and> i < 2 ^ 63"

definition put_id :: "NodeID \<Rightarrow> bytes" where "put_id i = le_PutUint64 (word_of_int i)"
definition get_id :: "bytes \<Rightarrow> NodeID" where "get_id b = sint (le_Uint64 b)"

definition encodeConfig :: "NodeID set \<Rightarrow> bytes" where
  "encodeConfig members =
     (let ids = sorted_list_of_set members
      in le_PutUint32 (of_nat (length ids)) @ concat (map put_id ids))"

text \<open>The loop of \<^verbatim>\<open>decodeConfig\<close>: at most \<open>n\<close> ids, while the slice has eight more bytes.\<close>

primrec decode_ids :: "nat \<Rightarrow> nat \<Rightarrow> bytes \<Rightarrow> NodeID list" where
  "decode_ids 0 off data = []"
| "decode_ids (Suc n) off data =
     (if off + 8 \<le> length data then get_id (drop off data) # decode_ids n (off + 8) data else [])"

definition decodeConfig :: "bytes \<Rightarrow> NodeID set" where
  "decodeConfig data =
     (if length data < 4 then {} else set (decode_ids (unat (le_Uint32 data)) 4 data))"

text \<open>The argument may be a nil map, the result never is.\<close>

definition copyConfig :: "NodeID set option \<Rightarrow> NodeID set" where
  "copyConfig c = (case c of None \<Rightarrow> {} | Some m \<Rightarrow> m)"

definition configEqual :: "NodeID set \<Rightarrow> NodeID set \<Rightarrow> bool" where
  "configEqual a b \<longleftrightarrow> card a = card b \<and> (\<forall>k\<in>a. k \<in> b)"

definition readBaseConfigFile :: "bytes option \<Rightarrow> NodeID set option" where
  "readBaseConfigFile file = map_option decodeConfig file"

definition writeBaseConfigFile :: "atomic_io \<Rightarrow> NodeID set \<Rightarrow> bool \<Rightarrow> bytes option \<Rightarrow> bool \<times> bytes option" where
  "writeBaseConfigFile io members sync old = write_atomic io sync (encodeConfig members) old"

lemma get_put_id: "node_id i \<Longrightarrow> get_id (put_id i @ r) = i"
  by (simp add: get_id_def put_id_def node_id_def sint_sbintrunc' signed_take_bit_int_eq_self)

lemma length_put_id [simp]: "length (put_id i) = 8"
  by (simp add: put_id_def)

lemma decode_ids_append:
  assumes "\<forall>i\<in>set ids. node_id i"
  shows "decode_ids (length ids) (length pre) (pre @ concat (map put_id ids) @ r) = ids"
  using assms
proof (induction ids arbitrary: pre)
  case (Cons i ids)
  have "decode_ids (length ids) (length (pre @ put_id i)) ((pre @ put_id i) @ concat (map put_id ids) @ r) = ids"
    using Cons.prems by (intro Cons.IH) simp
  then show ?case using get_put_id [of i] Cons.prems by simp
qed simp

lemma length_concat_ids [simp]: "length (concat (map put_id ids)) = 8 * length ids"
  by (induction ids) auto

lemma decodeConfig_finite [simp]: "finite (decodeConfig data)"
  by (simp add: decodeConfig_def)

lemma configEqual_iff: "finite b \<Longrightarrow> configEqual a b \<longleftrightarrow> a = b"
  by (metis card_subset_eq configEqual_def subsetI)

lemma decode_encodeConfig:
  assumes "finite c" "\<forall>i\<in>c. node_id i" "card c < 2 ^ 32"
  shows "decodeConfig (encodeConfig c) = c"
proof -
  let ?ids = "sorted_list_of_set c"
  have ids: "set ?ids = c" "length ?ids = card c" using assms(1) by simp_all
  have "decode_ids (length ?ids) (length (le_PutUint32 (of_nat (length ?ids)))) (le_PutUint32 (of_nat (length ?ids)) @ concat (map put_id ?ids) @ []) = ?ids"
    using assms ids by (intro decode_ids_append) simp
  then show ?thesis using ids assms(3) by (simp add: decodeConfig_def encodeConfig_def Let_def unat_of_nat)
qed

text \<open>The base-configuration file is replaced atomically: whatever step of the write fails, reading the
  file gives the old or the new configuration, and the new one when the write reports success.\<close>

theorem base_config_atomic:
  assumes "finite c" "\<forall>i\<in>c. node_id i" "card c < 2 ^ 32" "writeBaseConfigFile io c sync old = (ok, d)"
  shows "(ok \<longrightarrow> readBaseConfigFile d = Some c) \<and> (readBaseConfigFile d = Some c \<or> readBaseConfigFile d = readBaseConfigFile old)"
  using write_atomic_cases [of io sync "encodeConfig c" old ok d] assms(4) decode_encodeConfig [OF assms(1-3)]
  by (auto simp: writeBaseConfigFile_def readBaseConfigFile_def)

theorem base_config_atomic_witness:
  "writeBaseConfigFile AtomicDirSyncFails {0, 1, 2} True (Some (encodeConfig {0, 1})) = (False, Some (encodeConfig {0, 1, 2})) \<and>
   readBaseConfigFile (Some (encodeConfig {0, 1, 2})) = Some {0, 1, 2}"
  using base_config_atomic [of "{0, 1, 2}" AtomicOk True None True "Some (encodeConfig {0, 1, 2})"]
  by (simp add: writeBaseConfigFile_def write_atomic_eq node_id_def)

subsection \<open>The hard state\<close>

definition noVote :: NodeID where "noVote = - 1"
definition raftStateFileSize :: nat where "raftStateFileSize = 16"

record hardState =
  hs_currentTerm :: u64
  hs_votedFor :: NodeID
  hs_present :: bool

text \<open>\<open>None\<close> is a missing file.\<close>

definition openRaftStateFile :: "bytes option \<Rightarrow> hardState" where
  "openRaftStateFile file =
     (case file of
        None \<Rightarrow> \<lparr>hs_currentTerm = 0, hs_votedFor = noVote, hs_present = False\<rparr>
      | Some buf \<Rightarrow>
          if length buf < raftStateFileSize then \<lparr>hs_currentTerm = 0, hs_votedFor = noVote, hs_present = False\<rparr>
          else \<lparr>hs_currentTerm = le_Uint64 (bslice 0 8 buf), hs_votedFor = get_id (bslice 8 16 buf), hs_present = True\<rparr>)"

definition sf_save_files :: "atomic_io \<Rightarrow> bool \<Rightarrow> u64 \<Rightarrow> NodeID \<Rightarrow> tmp_files \<Rightarrow> bool \<times> tmp_files" where
  "sf_save_files io sync currentTerm votedFor fs =
     replace_file io sync (le_PutUint64 currentTerm @ put_id votedFor) fs"

text \<open>The same on the path alone.\<close>

definition sf_save :: "atomic_io \<Rightarrow> bool \<Rightarrow> u64 \<Rightarrow> NodeID \<Rightarrow> bytes option \<Rightarrow> bool \<times> bytes option" where
  "sf_save io sync currentTerm votedFor old =
     write_atomic io sync (le_PutUint64 currentTerm @ put_id votedFor) old"

lemma openRaftStateFile_save:
  "node_id v \<Longrightarrow> openRaftStateFile (Some (le_PutUint64 t @ put_id v)) = \<lparr>hs_currentTerm = t, hs_votedFor = v, hs_present = True\<rparr>"
  using get_put_id [of v "[]"] by (simp add: openRaftStateFile_def raftStateFileSize_def bslice_def)

text \<open>A history of saves: the term and vote of each with the call that fails in it, and which of them reported
  success.\<close>

type_synonym save = "atomic_io \<times> u64 \<times> NodeID"

fun sf_saves :: "bool \<Rightarrow> save list \<Rightarrow> tmp_files \<Rightarrow> bool list \<times> tmp_files" where
  "sf_saves sync [] fs = ([], fs)"
| "sf_saves sync ((io, t, v) # ss) fs =
     (case sf_save_files io sync t v fs of (ok, fs1) \<Rightarrow> case sf_saves sync ss fs1 of (oks, fs2) \<Rightarrow> (ok # oks, fs2))"

definition saved :: "save \<Rightarrow> hardState" where
  "saved s = \<lparr>hs_currentTerm = fst (snd s), hs_votedFor = snd (snd s), hs_present = True\<rparr>"

lemma length_sf_saves: "sf_saves sync ss fs = (oks, fs') \<Longrightarrow> length oks = length ss"
  by (induction ss arbitrary: fs oks fs') (auto split: prod.splits)

lemma sf_save_files_path:
  assumes "node_id v" "sf_save_files io sync t v fs = (ok, fs')"
  shows "openRaftStateFile (tf_path fs') = saved (io, t, v) \<or> \<not> ok \<and> tf_path fs' = tf_path fs"
  using write_atomic_cases [OF replace_file_path [OF assms(2) [unfolded sf_save_files_def]]] openRaftStateFile_save [OF assms(1), of t]
  by (auto simp: saved_def)

text \<open>C27: The saved term and vote survive any history of saves.  Each save may fail at any of its system calls (with
  any number of bytes of the temporary file written) or be cut there by a crash of the process.  The
  reopened hard state is then that of one of the saves, or the initial one, and every save after that one
  reported an error: a term and vote whose save reported success are never lost to an older or a torn state.\<close>

theorem hard_state_atomic:
  assumes "\<forall>s\<in>set ss. node_id (snd (snd s))" "sf_saves sync ss fs = (oks, fs')"
  shows "\<exists>k\<le>length ss. (\<forall>j<length ss. k \<le> j \<longrightarrow> \<not> oks ! j) \<and>
    openRaftStateFile (tf_path fs') = (if k = 0 then openRaftStateFile (tf_path fs) else saved (ss ! (k - 1)))"
  using assms
proof (induction ss arbitrary: fs oks)
  case (Cons s ss)
  obtain io t v where s: "s = (io, t, v)" by (cases s)
  obtain ok fs1 oks1 where r: "sf_save_files io sync t v fs = (ok, fs1)" "sf_saves sync ss fs1 = (oks1, fs')" "oks = ok # oks1"
    using Cons.prems(2) s by (auto split: prod.splits)
  obtain k where k: "k \<le> length ss" "\<forall>j<length ss. k \<le> j \<longrightarrow> \<not> oks1 ! j"
    "openRaftStateFile (tf_path fs') = (if k = 0 then openRaftStateFile (tf_path fs1) else saved (ss ! (k - 1)))"
    using Cons.IH [OF _ r(2)] Cons.prems(1) by auto
  consider "k \<noteq> 0 \<or> openRaftStateFile (tf_path fs1) = saved s" | "k = 0" "\<not> ok" "tf_path fs1 = tf_path fs"
    using sf_save_files_path [OF _ r(1)] Cons.prems(1) s by auto
  then show ?case
  proof cases
    case 1
    have "\<forall>j<length (s # ss). Suc k \<le> j \<longrightarrow> \<not> oks ! j" using k(2) r(3) by (auto simp: nth_Cons split: nat.splits)
    moreover have "openRaftStateFile (tf_path fs') = saved ((s # ss) ! k)" using 1 k(3) by (cases k) auto
    ultimately show ?thesis using k(1) by (intro exI [of _ "Suc k"]) simp
  next
    case 2
    then have "\<forall>j<length (s # ss). \<not> oks ! j" using k(2) r(3) by (auto simp: nth_Cons split: nat.splits)
    then show ?thesis using 2 k(3) by (intro exI [of _ 0]) simp
  qed
qed simp

theorem hard_state_atomic_witness:
  "\<exists>oks fs'. sf_saves True [(AtomicOk, 5, 1), (AtomicWriteFails 9, 6, noVote), (AtomicRenameFails, 7, 2)] \<lparr>tf_tmp = None, tf_path = None\<rparr> = (oks, fs') \<and>
     oks = [True, False, False] \<and> openRaftStateFile (tf_path fs') = \<lparr>hs_currentTerm = 5, hs_votedFor = 1, hs_present = True\<rparr>"
proof -
  let ?ss = "[(AtomicOk, 5, 1), (AtomicWriteFails 9, 6, noVote), (AtomicRenameFails, 7, 2)]" and ?fs = "\<lparr>tf_tmp = None, tf_path = None\<rparr>"
  obtain oks fs' where r: "sf_saves True ?ss ?fs = (oks, fs')" by fastforce
  then have oks: "oks = [True, False, False]" by (auto simp: sf_save_files_def replace_defs)
  have "\<forall>s\<in>set ?ss. node_id (snd (snd s))" by (simp add: node_id_def noVote_def)
  from hard_state_atomic [OF this r] obtain k where k: "k \<le> 3" "\<forall>j<3. k \<le> j \<longrightarrow> \<not> oks ! j"
    "openRaftStateFile (tf_path fs') = (if k = 0 then openRaftStateFile None else saved (?ss ! (k - 1)))" by (auto simp: numeral_3_eq_3)
  have "tf_path fs' = Some (le_PutUint64 5 @ put_id 1)" using r by (auto simp: sf_save_files_def replace_defs)
  then show ?thesis using r oks k openRaftStateFile_save [of 1 5] by (simp add: node_id_def)
qed

end
