(* ===== verification/Raft_Node.thy ===== *)
theory Raft_Node
  imports Raft_Log_File Raft_Config "HOL-Library.Monad_Syntax"
begin

section \<open>A Raft node (\<open>internal/cluster\<close>: \<open>transport.go\<close>, \<open>election.go\<close>, \<open>replication.go\<close>, \<open>cluster.go\<close>)\<close>

text \<open>
  The state of a node and one definition per handler.  Every handler of the source runs its critical
  section under the node's mutex, so a definition is one atomic step; a method that releases the mutex
  and waits (\<^verbatim>\<open>sendLoop\<close>, \<^verbatim>\<open>proposeAndAwait\<close>, \<^verbatim>\<open>addServer\<close>, \<^verbatim>\<open>transferLeadership\<close>) is one definition per
  critical section.  A handler returns the new state and the messages it sends, or \<open>None\<close> where the
  source panics.  The clock and the outcomes of the file operations are arguments.  The signals that
  wake the other goroutines of the node are not part of the state: a goroutine may run at any time.
  \<open>'db\<close> is the type of the node's store, which the handlers of this theory do not touch.
\<close>

subsection \<open>Messages\<close>

datatype MsgType =
    MsgAppendEntries
  | MsgAppendResponse
  | MsgRequestVote
  | MsgRequestVoteResponse
  | MsgInstallSnapshot
  | MsgInstallSnapshotResponse
  | MsgTimeoutNow

record KVPair =
  kp_Key :: bytes
  kp_Value :: bytes

record SessionKV =
  sk_Session :: bytes
  sk_Seq :: u64

record Message =
  m_Type :: MsgType
  m_From :: NodeID
  m_Term :: u64
  m_PrevLogIndex :: u64
  m_PrevLogTerm :: u64
  m_Entries :: "Entry list"
  m_LeaderCommit :: u64
  m_Success :: bool
  m_MatchIndex :: u64
  m_ConflictHint :: u64
  m_CandidateID :: NodeID
  m_LastLogIndex :: u64
  m_LastLogTerm :: u64
  m_LeaderTransfer :: bool
  m_VoteGranted :: bool
  m_LastIncludedIndex :: u64
  m_LastIncludedTerm :: u64
  m_SnapshotTS :: u64
  m_Snapshot :: "KVPair list"
  m_Config :: bytes
  m_Sessions :: "SessionKV list"

text \<open>A struct literal that sets the type, the sender and the term; the other fields are zero.\<close>

definition msg :: "MsgType \<Rightarrow> NodeID \<Rightarrow> u64 \<Rightarrow> Message" where
  "msg ty from t =
     \<lparr>m_Type = ty, m_From = from, m_Term = t, m_PrevLogIndex = 0, m_PrevLogTerm = 0, m_Entries = [],
      m_LeaderCommit = 0, m_Success = False, m_MatchIndex = 0, m_ConflictHint = 0, m_CandidateID = 0,
      m_LastLogIndex = 0, m_LastLogTerm = 0, m_LeaderTransfer = False, m_VoteGranted = False,
      m_LastIncludedIndex = 0, m_LastIncludedTerm = 0, m_SnapshotTS = 0, m_Snapshot = [], m_Config = [],
      m_Sessions = []\<rparr>"

subsection \<open>State\<close>

datatype Role = Follower | Candidate | Leader

record ClusterConfig =
  cfg_ElectionMin :: int
  cfg_ElectionMax :: int
  cfg_Heartbeat :: int
  cfg_SnapshotThreshold :: int

definition DefaultConfig :: ClusterConfig where
  "DefaultConfig = \<lparr>cfg_ElectionMin = 250000000, cfg_ElectionMax = 500000000, cfg_Heartbeat = 50000000,
                    cfg_SnapshotThreshold = 1024\<rparr>"

text \<open>
  \<open>nd_config\<close> is \<open>None\<close> for a nil map, \<open>nd_logFile\<close> for a nil log file, \<open>nd_lastLeaderContact\<close> for the zero
  time.  \<open>nd_stateFile\<close> and \<open>nd_configPath\<close> say whether the node has these files, \<open>nd_stateDisk\<close> and
  \<open>nd_configDisk\<close> are their contents.  \<open>nd_replSignal\<close> is the key set of the maps \<^verbatim>\<open>replSignal\<close> and \<^verbatim>\<open>respCh\<close>.
\<close>

record 'db Node =
  nd_id :: NodeID
  nd_store :: 'db
  nd_peers :: "NodeID list"
  nd_cfg :: ClusterConfig
  nd_SyncOnWrite :: bool
  nd_installing :: bool
  nd_role :: Role
  nd_currentTerm :: u64
  nd_votedFor :: NodeID
  nd_config :: "NodeID set option"
  nd_baseConfig :: "NodeID set"
  nd_configPath :: bool
  nd_configDisk :: "bytes option"
  nd_transferring :: bool
  nd_log :: RaftLog
  nd_logFile :: "raftLogFile option"
  nd_stateFile :: bool
  nd_stateDisk :: "bytes option"
  nd_commitIndex :: u64
  nd_lastApplied :: u64
  nd_lastLeaderContact :: "int option"
  nd_votesReceived :: nat
  nd_nextIndex :: "NodeID \<rightharpoonup> u64"
  nd_matchIndex :: "NodeID \<rightharpoonup> u64"
  nd_replSignal :: "NodeID set"

type_synonym sends = "(NodeID \<times> Message) list"

text \<open>Reading a Go map gives the zero value for a missing key.\<close>

definition mapget :: "(NodeID \<rightharpoonup> u64) \<Rightarrow> NodeID \<Rightarrow> u64" where
  "mapget m p = (case m p of None \<Rightarrow> 0 | Some v \<Rightarrow> v)"

subsection \<open>Configuration of a node\<close>

definition adoptConfigLocked :: "bytes \<Rightarrow> 'db Node \<Rightarrow> 'db Node" where
  "adoptConfigLocked data n = n\<lparr>nd_config := Some (decodeConfig data)\<rparr>"

text \<open>
  The downward search of \<^verbatim>\<open>configAsOfLocked\<close>, \<^verbatim>\<open>deriveConfigLocked\<close> and \<^verbatim>\<open>latestConfigEntryCommittedLocked\<close>:
  the last configuration entry among the first \<open>k\<close> entries above the base, with its position.
\<close>

primrec last_config :: "logEntry list \<Rightarrow> nat \<Rightarrow> (nat \<times> logEntry) option" where
  "last_config es 0 = None"
| "last_config es (Suc k) = (if le_kind (es ! k) = EntryConfig then Some (k, es ! k) else last_config es k)"

text \<open>An index past the end of the log makes \<^verbatim>\<open>kindAt\<close> panic.\<close>

definition configAsOfLocked :: "u64 \<Rightarrow> 'db Node \<Rightarrow> NodeID set option" where
  "configAsOfLocked idx n =
     (let l = nd_log n in
      if idx \<le> rl_baseIndex l then Some (nd_baseConfig n)
      else if unat (idx - rl_baseIndex l) > length (rl_entries l) then None
      else case last_config (rl_entries l) (unat (idx - rl_baseIndex l)) of
             Some (_, e) \<Rightarrow> Some (decodeConfig (le_bytes e))
           | None \<Rightarrow> Some (nd_baseConfig n))"

definition deriveConfigLocked :: "'db Node \<Rightarrow> 'db Node" where
  "deriveConfigLocked n =
     (case last_config (rl_entries (nd_log n)) (length (rl_entries (nd_log n))) of
        Some (_, e) \<Rightarrow> n\<lparr>nd_config := Some (decodeConfig (le_bytes e))\<rparr>
      | None \<Rightarrow> n\<lparr>nd_config := Some (nd_baseConfig n)\<rparr>)"

definition latestConfigEntryCommittedLocked :: "'db Node \<Rightarrow> bool" where
  "latestConfigEntryCommittedLocked n =
     (case last_config (rl_entries (nd_log n)) (length (rl_entries (nd_log n))) of
        Some (k, _) \<Rightarrow> rl_baseIndex (nd_log n) + of_nat k + 1 \<le> nd_commitIndex n
      | None \<Rightarrow> True)"

definition inConfigLocked :: "'db Node \<Rightarrow> bool" where
  "inConfigLocked n = (case nd_config n of None \<Rightarrow> True | Some c \<Rightarrow> nd_id n \<in> c)"

definition majority :: "'db Node \<Rightarrow> nat" where
  "majority n = (case nd_config n of None \<Rightarrow> (length (nd_peers n) + 1) div 2 + 1 | Some c \<Rightarrow> card c div 2 + 1)"

definition votingPeers :: "'db Node \<Rightarrow> NodeID list" where
  "votingPeers n = (case nd_config n of None \<Rightarrow> nd_peers n | Some c \<Rightarrow> sorted_list_of_set (c - {nd_id n}))"

subsection \<open>Elections (\<open>election.go\<close>)\<close>

definition withinLeaderStickinessLocked :: "int \<Rightarrow> 'db Node \<Rightarrow> bool" where
  "withinLeaderStickinessLocked now n =
     (case nd_lastLeaderContact n of
        None \<Rightarrow> False
      | Some t \<Rightarrow> cfg_ElectionMin (nd_cfg n) > 0 \<and> now - t < cfg_ElectionMin (nd_cfg n))"

definition persistHardStateLocked :: "atomic_io \<Rightarrow> 'db Node \<Rightarrow> bool \<times> 'db Node" where
  "persistHardStateLocked io n =
     (if \<not> nd_stateFile n then (True, n)
      else let (ok, d) = sf_save io (nd_SyncOnWrite n) (nd_currentTerm n) (nd_votedFor n) (nd_stateDisk n)
           in (ok, n\<lparr>nd_stateDisk := d\<rparr>))"

definition stepDownLocked :: "atomic_io \<Rightarrow> u64 \<Rightarrow> 'db Node \<Rightarrow> 'db Node" where
  "stepDownLocked io t n =
     snd (persistHardStateLocked io
       (n\<lparr>nd_currentTerm := t, nd_role := Follower, nd_votedFor := noVote, nd_transferring := False\<rparr>))"

definition ensurePeerLocked :: "NodeID \<Rightarrow> 'db Node \<Rightarrow> 'db Node" where
  "ensurePeerLocked p n =
     (if p = nd_id n \<or> p \<in> nd_replSignal n then n
      else n\<lparr>nd_nextIndex := (nd_nextIndex n)(p \<mapsto> rl_lastIndex (nd_log n) + 1),
             nd_matchIndex := (nd_matchIndex n)(p \<mapsto> 0),
             nd_replSignal := insert p (nd_replSignal n), nd_peers := nd_peers n @ [p]\<rparr>)"

definition reconcilePeersLocked :: "'db Node \<Rightarrow> 'db Node" where
  "reconcilePeersLocked n =
     (case nd_config n of
        None \<Rightarrow> n
      | Some c \<Rightarrow> fold (\<lambda>p n. if p \<noteq> nd_id n then ensurePeerLocked p n else n) (sorted_list_of_set c) n)"

definition becomeLeaderLocked :: "'db Node \<Rightarrow> 'db Node" where
  "becomeLeaderLocked n =
     (let n1 = reconcilePeersLocked (n\<lparr>nd_role := Leader, nd_transferring := False\<rparr>);
          last = rl_lastIndex (nd_log n1)
      in fold (\<lambda>p n. n\<lparr>nd_nextIndex := (nd_nextIndex n)(p \<mapsto> last + 1), nd_matchIndex := (nd_matchIndex n)(p \<mapsto> 0)\<rparr>)
           (votingPeers n1) n1)"

definition maybeStartElection :: "atomic_io \<Rightarrow> bool \<Rightarrow> 'db Node \<Rightarrow> ('db Node \<times> sends) option" where
  "maybeStartElection io leaderTransfer n =
     (if nd_role n = Leader then Some (n, [])
      else if nd_installing n then Some (n, [])
      else if \<not> inConfigLocked n then Some (n, [])
      else let n1 = n\<lparr>nd_currentTerm := nd_currentTerm n + 1, nd_role := Candidate, nd_votedFor := nd_id n, nd_votesReceived := 1\<rparr>;
               (ok, n2) = persistHardStateLocked io n1
           in if \<not> ok
              then Some (n2\<lparr>nd_currentTerm := nd_currentTerm n, nd_role := nd_role n, nd_votedFor := nd_votedFor n,
                            nd_votesReceived := nd_votesReceived n\<rparr>, [])
              else do {
                lastTerm \<leftarrow> rl_lastTerm (nd_log n2);
                Some (n2, map (\<lambda>p. (p, (msg MsgRequestVote (nd_id n2) (nd_currentTerm n2))
                    \<lparr>m_CandidateID := nd_id n2, m_LastLogIndex := rl_lastIndex (nd_log n2), m_LastLogTerm := lastTerm,
                     m_LeaderTransfer := leaderTransfer\<rparr>)) (votingPeers n2))
              })"

text \<open>The source releases the mutex between the test for a stale term and the election; the two are one step here.\<close>

definition handleTimeoutNow :: "atomic_io \<Rightarrow> Message \<Rightarrow> 'db Node \<Rightarrow> ('db Node \<times> sends) option" where
  "handleTimeoutNow io m n =
     (if m_Term m < nd_currentTerm n then Some (n, []) else maybeStartElection io True n)"

definition candidateUpToDateLocked :: "u64 \<Rightarrow> u64 \<Rightarrow> 'db Node \<Rightarrow> bool option" where
  "candidateUpToDateLocked candIndex candTerm n =
     do { myTerm \<leftarrow> rl_lastTerm (nd_log n);
          Some (if candTerm \<noteq> myTerm then candTerm > myTerm else candIndex \<ge> rl_lastIndex (nd_log n)) }"

definition vote_response :: "'db Node \<Rightarrow> bool \<Rightarrow> Message" where
  "vote_response n grant = (msg MsgRequestVoteResponse (nd_id n) (nd_currentTerm n))\<lparr>m_VoteGranted := grant\<rparr>"

text \<open>The decision of the voter, once it is at least at the candidate's term.\<close>

definition rv_decide :: "atomic_io \<Rightarrow> Message \<Rightarrow> 'db Node \<Rightarrow> ('db Node \<times> sends) option" where
  "rv_decide io m n =
     (if m_Term m = nd_currentTerm n \<and> (nd_votedFor n = noVote \<or> nd_votedFor n = m_CandidateID m)
      then do {
        upToDate \<leftarrow> candidateUpToDateLocked (m_LastLogIndex m) (m_LastLogTerm m) n;
        if upToDate
        then let (ok, n1) = persistHardStateLocked io (n\<lparr>nd_votedFor := m_CandidateID m\<rparr>);
                 n2 = (if ok then n1 else n1\<lparr>nd_votedFor := nd_votedFor n\<rparr>)
             in Some (n2, [(m_From m, vote_response n2 ok)])
        else Some (n, [(m_From m, vote_response n False)])
      }
      else Some (n, [(m_From m, vote_response n False)]))"

text \<open>The two outcomes are those of the save in the step-down and of the save of the vote.\<close>

definition handleRequestVote :: "atomic_io \<Rightarrow> atomic_io \<Rightarrow> int \<Rightarrow> Message \<Rightarrow> 'db Node \<Rightarrow> ('db Node \<times> sends) option" where
  "handleRequestVote io1 io2 now m n =
     (if \<not> m_LeaderTransfer m \<and> withinLeaderStickinessLocked now n
      then Some (n, [(m_From m, vote_response n False)])
      else rv_decide io2 m (if m_Term m > nd_currentTerm n then stepDownLocked io1 (m_Term m) n else n))"

definition handleVoteResponse :: "atomic_io \<Rightarrow> Message \<Rightarrow> 'db Node \<Rightarrow> 'db Node" where
  "handleVoteResponse io m n =
     (if m_Term m > nd_currentTerm n then stepDownLocked io (m_Term m) n
      else if nd_role n \<noteq> Candidate \<or> m_Term m \<noteq> nd_currentTerm n then n
      else if m_VoteGranted m
           then let n1 = n\<lparr>nd_votesReceived := nd_votesReceived n + 1\<rparr>
                in if nd_votesReceived n1 \<ge> majority n1 then becomeLeaderLocked n1 else n1
           else n)"

subsection \<open>Leader: replication (\<open>replication.go\<close>)\<close>

text \<open>The files of one compaction: the base-configuration file and the log.\<close>

definition maybeCompactLocked :: "atomic_io \<Rightarrow> compact_io \<Rightarrow> 'db Node \<Rightarrow> 'db Node option" where
  "maybeCompactLocked cio lio n =
     (let thr = cfg_SnapshotThreshold (nd_cfg n); safe = nd_lastApplied n in
      if thr \<le> 0 \<or> int (length (rl_entries (nd_log n))) < thr then Some n
      else if safe \<le> rl_baseIndex (nd_log n) then Some n
      else do {
        newBaseTerm \<leftarrow> rl_term (nd_log n) safe;
        (ok, n1) \<leftarrow>
          (if nd_configPath n
           then do { newBaseConfig \<leftarrow> configAsOfLocked safe n;
                     if configEqual newBaseConfig (nd_baseConfig n) then Some (True, n)
                     else let (ok, d) = writeBaseConfigFile cio newBaseConfig (nd_SyncOnWrite n) (nd_configDisk n)
                          in Some (if ok then (True, n\<lparr>nd_configDisk := d, nd_baseConfig := newBaseConfig\<rparr>)
                                   else (False, n\<lparr>nd_configDisk := d\<rparr>)) }
           else Some (True, n));
        if \<not> ok then Some n1
        else case nd_logFile n1 of
               None \<Rightarrow> Some (n1\<lparr>nd_log := rl_compactTo safe newBaseTerm (nd_log n1)\<rparr>)
             | Some lf \<Rightarrow>
                 do { survivors \<leftarrow> rl_entriesAfter safe (nd_log n1);
                      case lf_compact lio safe newBaseTerm survivors lf of
                        (Some _, lf') \<Rightarrow> Some (n1\<lparr>nd_logFile := Some lf'\<rparr>)
                      | (None, lf') \<Rightarrow> Some (n1\<lparr>nd_logFile := Some lf', nd_log := rl_compactTo safe newBaseTerm (nd_log n1)\<rparr>) }
      })"

text \<open>The highest index a strict majority of the voters holds; \<open>None\<close> without voters.\<close>

definition majority_index :: "'db Node \<Rightarrow> u64 option" where
  "majority_index n =
     (let vals = (if inConfigLocked n then [rl_lastIndex (nd_log n)] else []) @ map (mapget (nd_matchIndex n)) (votingPeers n)
      in if vals = [] then None else Some (rev (sort vals) ! (length vals div 2)))"

definition maybeAdvanceCommitLocked :: "'db Node \<Rightarrow> 'db Node option" where
  "maybeAdvanceCommitLocked n =
     (case majority_index n of
        None \<Rightarrow> Some n
      | Some cand \<Rightarrow>
          if cand > nd_commitIndex n
          then do { t \<leftarrow> rl_term (nd_log n) cand;
                    Some (if t = nd_currentTerm n then n\<lparr>nd_commitIndex := cand\<rparr> else n) }
          else Some n)"

definition onAppendSuccessLocked :: "NodeID \<Rightarrow> u64 \<Rightarrow> 'db Node \<Rightarrow> 'db Node" where
  "onAppendSuccessLocked p matchIndex n =
     (let n1 = (if matchIndex > mapget (nd_matchIndex n) p then n\<lparr>nd_matchIndex := (nd_matchIndex n)(p \<mapsto> matchIndex)\<rparr> else n)
      in n1\<lparr>nd_nextIndex := (nd_nextIndex n1)(p \<mapsto> mapget (nd_matchIndex n1) p + 1)\<rparr>)"

definition onAppendRejectLocked :: "NodeID \<Rightarrow> u64 \<Rightarrow> 'db Node \<Rightarrow> 'db Node" where
  "onAppendRejectLocked p hint n =
     (let hint' = (if hint < 1 then 1 else hint) in n\<lparr>nd_nextIndex := (nd_nextIndex n)(p \<mapsto> hint')\<rparr>)"

text \<open>
  One round of \<^verbatim>\<open>sendLoop\<close>.  \<open>sl_begin\<close> is the critical section before the send: the loop ends, turns to a
  snapshot, or sends an AppendEntries.  \<open>sl_finish\<close> is the critical section after a response arrived,
  with the term, the previous index and the number of entries of the request this round sent; its
  flag says that the loop ends.
\<close>

datatype round = RoundIdle | RoundSnapshot u64 | RoundSend Message

text \<open>The entries from \<open>next\<close> to the last index, each read with its term, kind and payload.\<close>

definition entries_from :: "u64 \<Rightarrow> RaftLog \<Rightarrow> Entry list" where
  "entries_from next l = drop (unat (next - rl_baseIndex l - 1)) (rl_entries l)"

definition sl_begin :: "NodeID \<Rightarrow> 'db Node \<Rightarrow> round option" where
  "sl_begin p n =
     (if nd_role n \<noteq> Leader then Some RoundIdle
      else let next = mapget (nd_nextIndex n) p; l = nd_log n in
        if next - 1 < rl_baseIndex l then Some (RoundSnapshot (nd_currentTerm n))
        else do {
          prevLogTerm \<leftarrow> rl_term l (next - 1);
          Some (RoundSend ((msg MsgAppendEntries (nd_id n) (nd_currentTerm n))
            \<lparr>m_PrevLogIndex := next - 1, m_PrevLogTerm := prevLogTerm, m_Entries := entries_from next l,
             m_LeaderCommit := nd_commitIndex n\<rparr>)) })"

definition sl_finish ::
  "atomic_io \<Rightarrow> atomic_io \<Rightarrow> compact_io \<Rightarrow> NodeID \<Rightarrow> u64 \<Rightarrow> u64 \<Rightarrow> nat \<Rightarrow> Message \<Rightarrow> 'db Node \<Rightarrow> (bool \<times> 'db Node) option" where
  "sl_finish io cio lio p t prevLogIndex entries resp n =
     (if m_Term resp > nd_currentTerm n then Some (True, stepDownLocked io (m_Term resp) n)
      else if nd_role n \<noteq> Leader \<or> nd_currentTerm n \<noteq> t then Some (True, n)
      else if m_Success resp
           then do { n1 \<leftarrow> maybeAdvanceCommitLocked (onAppendSuccessLocked p (prevLogIndex + of_nat entries) n);
                     n2 \<leftarrow> maybeCompactLocked cio lio n1;
                     Some (mapget (nd_nextIndex n2) p > rl_lastIndex (nd_log n2), n2) }
           else Some (False, onAppendRejectLocked p (m_ConflictHint resp) n))"

subsection \<open>Follower: AppendEntries (\<open>cluster.go\<close>)\<close>

definition append_response :: "'db Node \<Rightarrow> bool \<Rightarrow> u64 \<Rightarrow> u64 \<Rightarrow> Message" where
  "append_response n success matchIndex hint =
     (msg MsgAppendResponse (nd_id n) (nd_currentTerm n))\<lparr>m_Success := success, m_MatchIndex := matchIndex, m_ConflictHint := hint\<rparr>"

text \<open>The truncation and the append of one entry on both logs, file first; the flag is success.\<close>

definition ae_truncate :: "truncate_io \<Rightarrow> u64 \<Rightarrow> 'db Node \<Rightarrow> bool \<times> 'db Node" where
  "ae_truncate io idx n =
     (case nd_logFile n of
        None \<Rightarrow> (True, n\<lparr>nd_log := rl_truncateFrom idx (nd_log n)\<rparr>)
      | Some lf \<Rightarrow>
          (case lf_truncateFrom io idx lf of
             (Some _, lf') \<Rightarrow> (False, n\<lparr>nd_logFile := Some lf'\<rparr>)
           | (None, lf') \<Rightarrow> (True, n\<lparr>nd_logFile := Some lf', nd_log := rl_truncateFrom idx (nd_log n)\<rparr>)))"

definition log_append :: "append_io \<Rightarrow> u64 \<Rightarrow> EntryKind \<Rightarrow> bytes \<Rightarrow> 'db Node \<Rightarrow> bool \<times> 'db Node" where
  "log_append io t k d n =
     (case nd_logFile n of
        None \<Rightarrow> (True, n\<lparr>nd_log := snd (rl_append t k d (nd_log n))\<rparr>)
      | Some lf \<Rightarrow>
          (case lf_append io t k d lf of
             (Some _, lf') \<Rightarrow> (False, n\<lparr>nd_logFile := Some lf'\<rparr>)
           | (None, lf') \<Rightarrow> (True, n\<lparr>nd_logFile := Some lf', nd_log := snd (rl_append t k d (nd_log n))\<rparr>)))"

text \<open>
  The loop over the entries from position \<open>i\<close>: whether every file operation succeeded, the node, and
  \<^verbatim>\<open>configTouched\<close>.
\<close>

fun ae_entries ::
  "(nat \<Rightarrow> truncate_io \<times> append_io) \<Rightarrow> u64 \<Rightarrow> Entry list \<Rightarrow> nat \<Rightarrow> 'db Node \<Rightarrow> bool \<Rightarrow> (bool \<times> 'db Node \<times> bool) option" where
  "ae_entries ios prev [] i n touched = Some (True, n, touched)"
| "ae_entries ios prev (e # es) i n touched =
     (let idx = prev + of_nat i + 1;
          put = (\<lambda>n touched. case log_append (snd (ios i)) (le_term e) (le_kind e) (le_bytes e) n of
                   (False, n') \<Rightarrow> Some (False, n', touched)
                 | (True, n') \<Rightarrow> ae_entries ios prev es (i + 1) n' (touched \<or> le_kind e = EntryConfig))
      in if idx \<le> rl_baseIndex (nd_log n) then ae_entries ios prev es (i + 1) n touched
         else if idx \<le> rl_lastIndex (nd_log n)
              then case rl_term (nd_log n) idx of
                     None \<Rightarrow> None
                   | Some t \<Rightarrow>
                       if t = le_term e then ae_entries ios prev es (i + 1) n touched
                       else (case ae_truncate (fst (ios i)) idx n of
                               (False, n') \<Rightarrow> Some (False, n', touched)
                             | (True, n') \<Rightarrow> put n' True)
              else put n touched)"

text \<open>After the loop: the configuration follows the log, the commit index the leader's.\<close>

definition ae_finish :: "Message \<Rightarrow> bool \<Rightarrow> 'db Node \<Rightarrow> 'db Node \<times> sends" where
  "ae_finish m touched n =
     (let n1 = (if touched then deriveConfigLocked n else n);
          ci = min (m_LeaderCommit m) (rl_lastIndex (nd_log n1));
          n2 = (if m_LeaderCommit m > nd_commitIndex n1 \<and> ci > nd_commitIndex n1 then n1\<lparr>nd_commitIndex := ci\<rparr> else n1)
      in (n2, [(m_From m, append_response n2 True (m_PrevLogIndex m + of_nat (length (m_Entries m))) 0)]))"

text \<open>The consistency check and the entries, once the node follows the sender.\<close>

definition ae_accept :: "(nat \<Rightarrow> truncate_io \<times> append_io) \<Rightarrow> Message \<Rightarrow> 'db Node \<Rightarrow> ('db Node \<times> sends) option" where
  "ae_accept ios m n =
     do { ok \<leftarrow> rl_matchesPrev (m_PrevLogIndex m) (m_PrevLogTerm m) (nd_log n);
          if \<not> ok then Some (n, [(m_From m, append_response n False 0 (rl_lastIndex (nd_log n) + 1))])
          else do {
            (done, n1, touched) \<leftarrow> ae_entries ios (m_PrevLogIndex m) (m_Entries m) 0 n False;
            if \<not> done then Some (n1, [(m_From m, append_response n1 False 0 (m_PrevLogIndex m + 1))])
            else Some (ae_finish m touched n1)
          } }"

definition handleAppendEntries ::
  "atomic_io \<Rightarrow> (nat \<Rightarrow> truncate_io \<times> append_io) \<Rightarrow> int \<Rightarrow> Message \<Rightarrow> 'db Node \<Rightarrow> ('db Node \<times> sends) option" where
  "handleAppendEntries io ios now m n =
     (if m_Term m < nd_currentTerm n then Some (n, [(m_From m, append_response n False 0 0)])
      else let n1 = (if m_Term m > nd_currentTerm n then stepDownLocked io (m_Term m) n else n)
           in ae_accept ios m (n1\<lparr>nd_role := Follower, nd_lastLeaderContact := Some now\<rparr>))"

subsection \<open>Leader: proposals and membership (\<open>cluster.go\<close>)\<close>

datatype cluster_error = ErrNotLeader | ErrConfigChangeInProgress | ErrCannotRemove | ErrCatchupTimeout
  | ErrTransferTarget | ErrTransferTimeout | ErrMaybeCommitted | ErrLeaderAppend

text \<open>\<^verbatim>\<open>proposeAndAwait\<close> up to the wait: an error, or the index of the appended entry.\<close>

definition pa_propose :: "append_io \<Rightarrow> u64 \<Rightarrow> EntryKind \<Rightarrow> bytes \<Rightarrow> 'db Node \<Rightarrow> ((cluster_error + u64) \<times> 'db Node) option" where
  "pa_propose io t kind entry n =
     (if nd_role n \<noteq> Leader \<or> nd_currentTerm n \<noteq> t \<or> nd_transferring n then Some (Inl ErrNotLeader, n)
      else case log_append io t kind entry n of
             (False, n') \<Rightarrow> Some (Inl ErrLeaderAppend, n')
           | (True, n') \<Rightarrow>
               let n2 = (if kind = EntryConfig then adoptConfigLocked entry n' else n')
               in do { n3 \<leftarrow> maybeAdvanceCommitLocked n2; Some (Inr (rl_lastIndex (nd_log n')), n3) })"

text \<open>The test of the wait loop: \<open>None\<close> waits on, \<open>Some None\<close> is success.\<close>

definition pa_await :: "u64 \<Rightarrow> 'db Node \<Rightarrow> cluster_error option option" where
  "pa_await idx n =
     (if nd_lastApplied n \<ge> idx then Some None
      else if nd_role n \<noteq> Leader then Some (Some ErrMaybeCommitted)
      else None)"

definition relinquishLeadershipLocked :: "'db Node \<Rightarrow> 'db Node" where
  "relinquishLeadershipLocked n = n\<lparr>nd_role := Follower\<rparr>"

text \<open>\<^verbatim>\<open>removeServer\<close> up to the proposal: an error, nothing to do, or the term and the new configuration.\<close>

definition rs_begin :: "NodeID \<Rightarrow> 'db Node \<Rightarrow> cluster_error + (u64 \<times> NodeID set) option" where
  "rs_begin p n =
     (if nd_role n \<noteq> Leader then Inl ErrNotLeader
      else if \<not> latestConfigEntryCommittedLocked n then Inl ErrConfigChangeInProgress
      else if (case nd_config n of None \<Rightarrow> False | Some c \<Rightarrow> p \<notin> c) then Inr None
      else let newCfg = copyConfig (nd_config n) - {p}
           in if newCfg = {} then Inl ErrCannotRemove else Inr (Some (nd_currentTerm n, newCfg)))"

text \<open>After the proposal committed: a leader that removed itself stops leading.\<close>

definition rs_finish :: "NodeID \<Rightarrow> 'db Node \<Rightarrow> 'db Node" where
  "rs_finish p n =
     (if p = nd_id n \<and> nd_role n = Leader \<and> \<not> inConfigLocked n then relinquishLeadershipLocked n else n)"

text \<open>The three critical sections of \<^verbatim>\<open>addServer\<close>: register the learner, test the catch-up, propose.\<close>

definition as_begin :: "NodeID \<Rightarrow> 'db Node \<Rightarrow> (cluster_error + (u64 \<times> u64) option) \<times> 'db Node" where
  "as_begin p n =
     (if nd_role n \<noteq> Leader then (Inl ErrNotLeader, n)
      else if (case nd_config n of None \<Rightarrow> False | Some c \<Rightarrow> p \<in> c) then (Inr None, n)
      else (Inr (Some (nd_currentTerm n, nd_commitIndex n)), ensurePeerLocked p n))"

definition as_caught :: "NodeID \<Rightarrow> u64 \<Rightarrow> u64 \<Rightarrow> 'db Node \<Rightarrow> cluster_error + bool" where
  "as_caught p t target n =
     (if nd_role n \<noteq> Leader \<or> nd_currentTerm n \<noteq> t then Inl ErrNotLeader
      else Inr (mapget (nd_matchIndex n) p \<ge> target))"

definition as_config :: "NodeID \<Rightarrow> u64 \<Rightarrow> 'db Node \<Rightarrow> cluster_error + NodeID set" where
  "as_config p t n =
     (if nd_role n \<noteq> Leader \<or> nd_currentTerm n \<noteq> t then Inl ErrNotLeader
      else if \<not> latestConfigEntryCommittedLocked n then Inl ErrConfigChangeInProgress
      else Inr (insert p (copyConfig (nd_config n))))"

text \<open>
  \<^verbatim>\<open>transferLeadership\<close>: the guards, the test of the first wait (whether the target has the log), the
  directive, and the abort that resumes normal operation.
\<close>

definition tl_begin :: "NodeID \<Rightarrow> 'db Node \<Rightarrow> (cluster_error + (u64 \<times> u64) option) \<times> 'db Node" where
  "tl_begin target n =
     (if nd_role n \<noteq> Leader then (Inl ErrNotLeader, n)
      else if target = nd_id n then (Inr None, n)
      else if nd_transferring n then (Inl ErrNotLeader, n)
      else if (case nd_config n of None \<Rightarrow> False | Some c \<Rightarrow> target \<notin> c) then (Inl ErrTransferTarget, n)
      else (Inr (Some (nd_currentTerm n, rl_lastIndex (nd_log n))), n\<lparr>nd_transferring := True\<rparr>))"

definition tl_caught :: "NodeID \<Rightarrow> u64 \<Rightarrow> u64 \<Rightarrow> 'db Node \<Rightarrow> cluster_error + bool" where
  "tl_caught target t lastIdx n =
     (if nd_role n \<noteq> Leader \<or> nd_currentTerm n \<noteq> t then Inl ErrNotLeader
      else Inr (mapget (nd_matchIndex n) target \<ge> lastIdx))"

definition tl_directive :: "u64 \<Rightarrow> 'db Node \<Rightarrow> Message" where
  "tl_directive t n = msg MsgTimeoutNow (nd_id n) t"

definition tl_abort :: "'db Node \<Rightarrow> 'db Node" where
  "tl_abort n = (if nd_role n = Leader then n\<lparr>nd_transferring := False\<rparr> else n)"

subsection \<open>Applying committed entries (\<open>cluster.go\<close>)\<close>

text \<open>
  The critical sections of one iteration of \<^verbatim>\<open>applyCommitted\<close> around the call of the store: the next entry
  to apply (\<open>Some None\<close> when there is none), and the bookkeeping after it was applied.
\<close>

definition ac_next :: "'db Node \<Rightarrow> (u64 \<times> EntryKind \<times> bytes) option option" where
  "ac_next n =
     (if nd_installing n \<or> nd_lastApplied n \<ge> nd_commitIndex n then Some None
      else let idx = nd_lastApplied n + 1
           in do { entry \<leftarrow> rl_entryAt (nd_log n) idx; kind \<leftarrow> rl_kindAt (nd_log n) idx; Some (Some (idx, kind, entry)) })"

definition ac_done :: "atomic_io \<Rightarrow> compact_io \<Rightarrow> u64 \<Rightarrow> 'db \<Rightarrow> 'db Node \<Rightarrow> 'db Node option" where
  "ac_done cio lio idx store n = maybeCompactLocked cio lio (n\<lparr>nd_store := store, nd_lastApplied := idx\<rparr>)"

subsection \<open>Building a node from its files (\<open>cluster.go\<close>)\<close>

definition bootstrapLeader :: NodeID where "bootstrapLeader = 0"

definition fullConfig :: "nat \<Rightarrow> NodeID set" where
  "fullConfig n = int ` {0..<n}"

definition peersExcept :: "NodeID list \<Rightarrow> NodeID \<Rightarrow> NodeID list" where
  "peersExcept ids self = sort (filter (\<lambda>p. p \<noteq> self) ids)"

text \<open>The files of the \<^verbatim>\<open>raft\<close> directory.\<close>

record raft_disk =
  rd_log :: "bytes option"
  rd_state :: "bytes option"
  rd_config :: "bytes option"

definition node_disk :: "'db Node \<Rightarrow> raft_disk" where
  "node_disk n = \<lparr>rd_log = map_option lf_disk (nd_logFile n), rd_state = nd_stateDisk n, rd_config = nd_configDisk n\<rparr>"

datatype build_error = BuildRaftLog raft_log_error | BuildRecoveredBelowBase | BuildPersistState

definition load_entries :: "persistedEntry list \<Rightarrow> RaftLog \<Rightarrow> RaftLog" where
  "load_entries es l = fold (\<lambda>e l. snd (rl_append (le_term e) (le_kind e) (le_bytes e) l)) es l"

text \<open>Role, term and vote of a node that starts.\<close>

definition startup_role :: "bool \<Rightarrow> NodeID \<Rightarrow> hardState \<Rightarrow> u64 \<Rightarrow> Role \<times> u64 \<times> NodeID" where
  "startup_role fresh self hard logTerm =
     (if fresh \<and> self = bootstrapLeader then (Leader, 1, bootstrapLeader)
      else if fresh then (Follower, 1, noVote)
      else if logTerm > hs_currentTerm hard then (Follower, logTerm, noVote)
      else (Follower, hs_currentTerm hard, hs_votedFor hard))"

text \<open>
  The Raft part of \<^verbatim>\<open>buildNode\<close>, with the store it opened and the applied index the store recovered: the
  node or an error, and the files afterwards.
\<close>

definition build_raft ::
  "atomic_io \<Rightarrow> NodeID \<Rightarrow> NodeID list \<Rightarrow> NodeID set \<Rightarrow> ClusterConfig \<Rightarrow> bool \<Rightarrow> 'db \<Rightarrow> u64 \<Rightarrow> raft_disk \<Rightarrow>
     ((build_error + 'db Node) \<times> raft_disk) option" where
  "build_raft io self members bootstrapConfig cfg sync store recovered d =
     (let fresh = (rd_log d = None \<and> rd_state d = None) in
      case openRaftLogFile (rd_log d) sync of
        Inl e \<Rightarrow> Some (Inl (BuildRaftLog e), d)
      | Inr (lf, persisted) \<Rightarrow>
          let d1 = d\<lparr>rd_log := Some (lf_disk lf)\<rparr>; hard = openRaftStateFile (rd_state d);
              rlog = load_entries persisted (NewRaftLogWithBase (lf_baseIndex lf) (lf_baseTerm lf))
          in if recovered < lf_baseIndex lf then Some (Inl BuildRecoveredBelowBase, d1)
             else case rl_lastTerm rlog of None \<Rightarrow> None | Some logTerm \<Rightarrow>
                  let peers = peersExcept members self;
                      baseConfig = (case readBaseConfigFile (rd_config d) of None \<Rightarrow> copyConfig (Some bootstrapConfig) | Some c \<Rightarrow> c);
                      config = (case last_config (rl_entries rlog) (length (rl_entries rlog)) of
                                  Some (_, e) \<Rightarrow> decodeConfig (le_bytes e) | None \<Rightarrow> copyConfig (Some baseConfig));
                      (role, t, vote) = startup_role fresh self hard logTerm;
                      (ok, sd) = sf_save io sync t vote (rd_state d);
                      nd = \<lparr>nd_id = self, nd_store = store, nd_peers = peers, nd_cfg = cfg, nd_SyncOnWrite = sync,
                            nd_installing = False, nd_role = role, nd_currentTerm = t, nd_votedFor = vote,
                            nd_config = Some config, nd_baseConfig = baseConfig, nd_configPath = True,
                            nd_configDisk = rd_config d, nd_transferring = False, nd_log = rlog, nd_logFile = Some lf,
                            nd_stateFile = True, nd_stateDisk = sd, nd_commitIndex = recovered, nd_lastApplied = recovered,
                            nd_lastLeaderContact = None, nd_votesReceived = 0,
                            nd_nextIndex = (\<lambda>p. if p \<in> set peers then Some 1 else None),
                            nd_matchIndex = (\<lambda>p. if p \<in> set peers then Some 0 else None), nd_replSignal = set peers\<rparr>
                  in Some (if ok then Inr nd else Inl BuildPersistState, d1\<lparr>rd_state := sd\<rparr>))"

text \<open>\<^verbatim>\<open>start\<close>: the bootstrap leader asserts its leadership.\<close>

definition node_start :: "'db Node \<Rightarrow> 'db Node" where
  "node_start n = (if nd_role n = Leader then becomeLeaderLocked n else n)"

end
