(* ===== verification/Raft_Cluster.thy ===== *)
theory Raft_Cluster
  imports Raft_Node
begin

section \<open>A cluster of Raft nodes\<close>

text \<open>
  The nodes, the messages in flight and the replication rounds that wait for an answer.  An event runs
  one critical section of one goroutine, delivers or loses a message, or crashes or restarts a node.
  Messages may be lost and overtake each other but are not duplicated, as in the channel transport.
  The saves of the hard state may fail at any step; the operations on the log file succeed.  Snapshot
  installation is not part of this system: a replicator that needs one waits.
\<close>

subsection \<open>State and events\<close>

text \<open>A stopped node: its files, its store, and how far the store had applied the log.\<close>

record 'db stopped =
  st_disk :: raft_disk
  st_store :: 'db
  st_applied :: u64

text \<open>A round of \<^verbatim>\<open>sendLoop\<close> that waits: the term, the previous index and the number of entries it sent.\<close>

type_synonym waiting = "u64 \<times> u64 \<times> nat"

record 'db net =
  nt_up :: "NodeID \<rightharpoonup> 'db Node"
  nt_down :: "NodeID \<rightharpoonup> 'db stopped"
  nt_msgs :: "(NodeID \<times> Message) list"
  nt_rounds :: "NodeID \<times> NodeID \<rightharpoonup> waiting"

text \<open>
  The events: an election timeout; the receipt of the \<open>k\<close>-th message; its loss; the start of a
  replication round, its end by a response or by the response timeout; a client's proposal; a
  membership change; the application of a committed entry; the steps of a leadership transfer; a
  crash and a restart, in which the store recovers an applied index.
\<close>

datatype event =
    EvTimeout NodeID atomic_io
  | EvDeliver nat atomic_io atomic_io int
  | EvDrop nat
  | EvSend NodeID NodeID
  | EvRespond NodeID NodeID nat atomic_io
  | EvGiveUp NodeID NodeID
  | EvPropose NodeID bytes
  | EvRemove NodeID NodeID
  | EvLearner NodeID NodeID
  | EvAdd NodeID NodeID
  | EvRelinquish NodeID
  | EvApply NodeID
  | EvTransfer NodeID NodeID
  | EvDirect NodeID NodeID
  | EvAbort NodeID
  | EvCrash NodeID
  | EvRestart NodeID atomic_io u64

subsection \<open>Execution\<close>

text \<open>The dispatch of \<^verbatim>\<open>run\<close>; a response goes to the replicator and is consumed by \<open>EvRespond\<close>.  No node of
  this system sends an \<^verbatim>\<open>InstallSnapshot\<close>, so the branches of \<^verbatim>\<open>run\<close> for it and its response are left out; the
  handler is in the theory \<open>Install\<close>.\<close>

definition node_deliver :: "atomic_io \<Rightarrow> atomic_io \<Rightarrow> int \<Rightarrow> Message \<Rightarrow> 'db Node \<Rightarrow> ('db Node \<times> sends) option" where
  "node_deliver io1 io2 now m n =
     (case m_Type m of
        MsgAppendEntries \<Rightarrow> handleAppendEntries io1 (\<lambda>_. (TruncateOk, AppendOk)) now m n
      | MsgRequestVote \<Rightarrow> handleRequestVote io1 io2 now m n
      | MsgRequestVoteResponse \<Rightarrow> Some (handleVoteResponse io1 m n, [])
      | MsgTimeoutNow \<Rightarrow> handleTimeoutNow io1 m n
      | MsgInstallSnapshot \<Rightarrow> None
      | MsgAppendResponse \<Rightarrow> None
      | MsgInstallSnapshotResponse \<Rightarrow> None)"

definition drop_nth :: "nat \<Rightarrow> 'a list \<Rightarrow> 'a list" where
  "drop_nth k xs = take k xs @ drop (Suc k) xs"

definition put_node :: "NodeID \<Rightarrow> 'db Node \<Rightarrow> sends \<Rightarrow> 'db net \<Rightarrow> 'db net" where
  "put_node i n out s = s\<lparr>nt_up := (nt_up s)(i \<mapsto> n), nt_msgs := nt_msgs s @ out\<rparr>"

definition propose :: "NodeID \<Rightarrow> EntryKind \<Rightarrow> bytes \<Rightarrow> 'db Node \<Rightarrow> 'db net \<Rightarrow> 'db net option" where
  "propose i kind data n s =
     do { (res, n') \<leftarrow> pa_propose AppendOk (nd_currentTerm n) kind data n; Some (put_node i n' [] s) }"

text \<open>
  One event.  \<open>members\<close>, \<open>cfg\<close> and \<open>sync\<close> are the arguments a node is rebuilt with and \<open>ap\<close> is the store's
  application of an entry.  \<open>None\<close>: the event cannot happen, or the handler panics.
\<close>

definition exec_event ::
  "NodeID list \<Rightarrow> ClusterConfig \<Rightarrow> bool \<Rightarrow> (u64 \<Rightarrow> EntryKind \<Rightarrow> bytes \<Rightarrow> 'db \<Rightarrow> 'db option) \<Rightarrow> event \<Rightarrow> 'db net \<Rightarrow> 'db net option" where
  "exec_event members cfg sync ap ev s =
     (case ev of
        EvTimeout i io \<Rightarrow>
          do { n \<leftarrow> nt_up s i; (n', out) \<leftarrow> maybeStartElection io False n; Some (put_node i n' out s) }
      | EvDeliver k io1 io2 now \<Rightarrow>
          if k < length (nt_msgs s)
          then let (i, m) = nt_msgs s ! k
               in do { n \<leftarrow> nt_up s i; (n', out) \<leftarrow> node_deliver io1 io2 now m n;
                       Some (put_node i n' out (s\<lparr>nt_msgs := drop_nth k (nt_msgs s)\<rparr>)) }
          else None
      | EvDrop k \<Rightarrow> if k < length (nt_msgs s) then Some (s\<lparr>nt_msgs := drop_nth k (nt_msgs s)\<rparr>) else None
      | EvSend i p \<Rightarrow>
          do { n \<leftarrow> nt_up s i;
               if p \<in> nd_replSignal n \<and> nt_rounds s (i, p) = None
               then do { r \<leftarrow> sl_begin p n;
                         (case r of
                            RoundSend m \<Rightarrow>
                              Some (s\<lparr>nt_msgs := nt_msgs s @ [(p, m)],
                                      nt_rounds := (nt_rounds s)((i, p) \<mapsto> (m_Term m, m_PrevLogIndex m, length (m_Entries m)))\<rparr>)
                          | RoundIdle \<Rightarrow> Some s
                          | RoundSnapshot t \<Rightarrow> Some s) }
               else None }
      | EvRespond i p k io \<Rightarrow>
          if k < length (nt_msgs s)
          then let (d, m) = nt_msgs s ! k
               in do { n \<leftarrow> nt_up s i; (t, prev, len) \<leftarrow> nt_rounds s (i, p);
                       if d = i \<and> m_From m = p \<and> m_Type m = MsgAppendResponse
                       then do { (fin, n') \<leftarrow> sl_finish io AtomicOk CompactOk p t prev len m n;
                                 Some (put_node i n' [] (s\<lparr>nt_msgs := drop_nth k (nt_msgs s), nt_rounds := (nt_rounds s)((i, p) := None)\<rparr>)) }
                       else None }
          else None
      | EvGiveUp i p \<Rightarrow>
          if nt_rounds s (i, p) = None then None else Some (s\<lparr>nt_rounds := (nt_rounds s)((i, p) := None)\<rparr>)
      | EvPropose i data \<Rightarrow> do { n \<leftarrow> nt_up s i; propose i EntryData data n s }
      | EvRemove i p \<Rightarrow>
          do { n \<leftarrow> nt_up s i;
               (case rs_begin p n of Inr (Some (t, c)) \<Rightarrow> propose i EntryConfig (encodeConfig c) n s | _ \<Rightarrow> None) }
      | EvLearner i p \<Rightarrow> do { n \<leftarrow> nt_up s i; Some (put_node i (snd (as_begin p n)) [] s) }
      | EvAdd i p \<Rightarrow>
          do { n \<leftarrow> nt_up s i;
               (case as_config p (nd_currentTerm n) n of Inr c \<Rightarrow> propose i EntryConfig (encodeConfig c) n s | Inl _ \<Rightarrow> None) }
      | EvRelinquish i \<Rightarrow> do { n \<leftarrow> nt_up s i; Some (put_node i (rs_finish i n) [] s) }
      | EvApply i \<Rightarrow>
          do { n \<leftarrow> nt_up s i; nxt \<leftarrow> ac_next n;
               (case nxt of
                  None \<Rightarrow> Some s
                | Some (idx, kind, entry) \<Rightarrow>
                    do { store \<leftarrow> ap idx kind entry (nd_store n); n' \<leftarrow> ac_done AtomicOk CompactOk idx store n;
                         Some (put_node i n' [] s) }) }
      | EvTransfer i p \<Rightarrow> do { n \<leftarrow> nt_up s i; Some (put_node i (snd (tl_begin p n)) [] s) }
      | EvDirect i p \<Rightarrow>
          do { n \<leftarrow> nt_up s i;
               (if nd_transferring n \<and> nd_role n = Leader then Some (put_node i n [(p, tl_directive (nd_currentTerm n) n)] s) else None) }
      | EvAbort i \<Rightarrow> do { n \<leftarrow> nt_up s i; Some (put_node i (tl_abort n) [] s) }
      | EvCrash i \<Rightarrow>
          do { n \<leftarrow> nt_up s i;
               Some (s\<lparr>nt_up := (nt_up s)(i := None),
                       nt_down := (nt_down s)(i \<mapsto> \<lparr>st_disk = node_disk n, st_store = nd_store n, st_applied = nd_lastApplied n\<rparr>),
                       nt_rounds := (\<lambda>(j, p). if j = i then None else nt_rounds s (j, p))\<rparr>) }
      | EvRestart i io recovered \<Rightarrow>
          do { d \<leftarrow> nt_down s i;
               if recovered \<le> st_applied d
               then do { (res, disk) \<leftarrow> build_raft io i members (set members) cfg sync (st_store d) recovered (st_disk d);
                         (case res of
                            Inl _ \<Rightarrow> Some (s\<lparr>nt_down := (nt_down s)(i \<mapsto> d\<lparr>st_disk := disk\<rparr>)\<rparr>)
                          | Inr n \<Rightarrow> Some (put_node i (node_start n) [] (s\<lparr>nt_down := (nt_down s)(i := None)\<rparr>))) }
               else None })"

text \<open>\<^verbatim>\<open>NewWithTransportConfig\<close>: the nodes \<open>0, ..., n - 1\<close>, each built over an empty directory and started.\<close>

definition dense_ids :: "nat \<Rightarrow> NodeID list" where
  "dense_ids n = map int [0..<n]"

definition new_cluster :: "nat \<Rightarrow> ClusterConfig \<Rightarrow> bool \<Rightarrow> 'db \<Rightarrow> 'db net option" where
  "new_cluster n cfg sync store =
     (let members = dense_ids n;
          build = (\<lambda>i. case build_raft AtomicOk i members (fullConfig n) cfg sync store 0 \<lparr>rd_log = None, rd_state = None, rd_config = None\<rparr> of
                         Some (Inr nd, _) \<Rightarrow> Some (node_start nd) | _ \<Rightarrow> None)
      in if n < 1 \<or> \<not> list_all (\<lambda>i. build i \<noteq> None) members then None
         else Some \<lparr>nt_up = (\<lambda>i. if i \<in> set members then build i else None), nt_down = Map.empty, nt_msgs = [], nt_rounds = Map.empty\<rparr>)"

end
