(* ===== verification/Raft_Election.thy ===== *)
theory Raft_Election
  imports Raft_Cluster
begin

section \<open>Election safety\<close>

text \<open>
  At most one leader per term, in a cluster whose membership does not change.  The invariant is stated
  with two histories that the steps of the system extend: \<open>H v t\<close>, the candidate for which \<open>v\<close> durably
  voted in term \<open>t\<close>, and \<open>S c t\<close>, the voters whose grants candidate \<open>c\<close> has counted in term \<open>t\<close>.
\<close>

subsection \<open>What a step leaves alone\<close>

definition data_only :: "logEntry list \<Rightarrow> bool" where
  "data_only es \<longleftrightarrow> list_all (\<lambda>e. le_kind e \<noteq> EntryConfig \<and> storable_entry e) es"

text \<open>The log of a node: no configuration entries, and the file mirrors the memory.\<close>

definition log_ok :: "'db Node \<Rightarrow> bool" where
  "log_ok n \<longleftrightarrow> data_only (rl_entries (nd_log n)) \<and> (\<exists>lf. nd_logFile n = Some lf \<and> paired (nd_log n, lf))"

text \<open>The fields that decide elections.\<close>

definition vote_part :: "'db Node \<Rightarrow> NodeID \<times> u64 \<times> NodeID \<times> nat \<times> bool \<times> bytes option" where
  "vote_part n = (nd_id n, nd_currentTerm n, nd_votedFor n, nd_votesReceived n, nd_stateFile n, nd_stateDisk n)"

definition config_part :: "'db Node \<Rightarrow> NodeID set option \<times> NodeID set \<times> bytes option" where
  "config_part n = (nd_config n, nd_baseConfig n, nd_configDisk n)"

definition quiet :: "'db Node \<Rightarrow> 'db Node \<Rightarrow> bool" where
  "quiet n n' \<longleftrightarrow> vote_part n' = vote_part n \<and> config_part n' = config_part n \<and> (nd_role n' = nd_role n \<or> nd_role n' = Follower) \<and> log_ok n'"

lemma quiet_trans: "quiet n n1 \<Longrightarrow> quiet n1 n2 \<Longrightarrow> quiet n n2"
  by (auto simp: quiet_def)

lemma quiet_refl: "log_ok n \<Longrightarrow> quiet n n"
  by (simp add: quiet_def)

lemma data_only_simps [simp]:
  "data_only []" "data_only (e # es) \<longleftrightarrow> le_kind e \<noteq> EntryConfig \<and> storable_entry e \<and> data_only es"
  "data_only (es @ fs) \<longleftrightarrow> data_only es \<and> data_only fs"
  by (simp_all add: data_only_def)

lemma data_only_take: "data_only es \<Longrightarrow> data_only (take k es)"
  by (auto simp: data_only_def list_all_iff dest: in_set_takeD)

lemma data_only_drop: "data_only es \<Longrightarrow> data_only (drop k es)"
  by (auto simp: data_only_def list_all_iff dest: in_set_dropD)

lemma last_config_data: "data_only es \<Longrightarrow> k \<le> length es \<Longrightarrow> last_config es k = None"
  by (induction k) (auto simp: data_only_def list_all_length)

lemma paired_holds:
  "paired (l, lf) \<Longrightarrow> rl_holds l (rl_baseIndex l) (rl_baseTerm l) (rl_entries l)"
  "paired (l, lf) \<Longrightarrow> lf_holds lf (rl_baseIndex l) (rl_baseTerm l) (rl_entries l)"
  by (simp_all add: paired_def)

lemma log_append_quiet:
  assumes "log_ok n" "k \<noteq> EntryConfig" "length d < 2 ^ 32" "rl_end (nd_log n) + 1 < 2 ^ 64"
  shows "\<exists>n'. log_append AppendOk t k d n = (True, n') \<and> quiet n n'"
proof -
  let ?e = "\<lparr>le_term = t, le_kind = k, le_bytes = d\<rparr>"
  obtain lf where lf: "nd_logFile n = Some lf" "paired (nd_log n, lf)" using assms(1) by (auto simp: log_ok_def)
  from node_log.both_app [OF paired_holds [OF lf(2)], of ?e] assms(3,4)
  obtain lf' where "lf_append AppendOk t k d lf = (None, lf')" and "paired (snd (rl_append t k d (nd_log n)), lf')"
    by (auto simp: rl_end_def pairedI split: prod.splits option.splits)
  moreover have "rl_entries (snd (rl_append t k d (nd_log n))) = rl_entries (nd_log n) @ [?e]"
    by (simp add: rl_append_def Let_def)
  ultimately show ?thesis
    using assms lf by (auto simp: log_append_def quiet_def vote_part_def config_part_def log_ok_def)
qed

lemma ae_truncate_quiet:
  assumes "log_ok n" "rl_baseIndex (nd_log n) < idx"
  shows "\<exists>n'. ae_truncate TruncateOk idx n = (True, n') \<and> quiet n n' \<and> rl_end (nd_log n') \<le> rl_end (nd_log n)"
proof -
  obtain lf where lf: "nd_logFile n = Some lf" "paired (nd_log n, lf)" using assms(1) by (auto simp: log_ok_def)
  from node_log.both_trunc [OF paired_holds [OF lf(2)] assms(2)]
  obtain lf' where "lf_truncateFrom TruncateOk idx lf = (None, lf')" and "paired (rl_truncateFrom idx (nd_log n), lf')"
    by (auto simp: pairedI split: prod.splits option.splits)
  moreover have "data_only (rl_entries (rl_truncateFrom idx (nd_log n)))"
    using assms(1) by (auto simp: rl_truncateFrom_def log_ok_def intro: data_only_take)
  moreover have "rl_end (rl_truncateFrom idx (nd_log n)) \<le> rl_end (nd_log n)" by (simp add: rl_end_def rl_truncateFrom_def)
  ultimately show ?thesis
    using lf by (auto simp: ae_truncate_def quiet_def vote_part_def config_part_def log_ok_def)
qed

lemma rl_end_append: "log_append AppendOk t k d n = (True, n') \<Longrightarrow> rl_end (nd_log n') = rl_end (nd_log n) + 1"
  by (auto simp: log_append_def rl_append_def rl_end_def Let_def split: option.splits prod.splits)

lemma ae_entries_quiet:
  assumes "ae_entries (\<lambda>_. (TruncateOk, AppendOk)) prev es i n touched = Some (ok, n', touched')"
    "log_ok n" "data_only es" "rl_end (nd_log n) + length es + 1 < 2 ^ 64"
  shows "ok \<and> quiet n n'"
  using assms
proof (induction es arbitrary: i n touched)
  case Nil
  then show ?case by (simp add: quiet_refl)
next
  case (Cons e es)
  let ?idx = "prev + of_nat i + 1"
  have put: "ok \<and> quiet n0 n'" if lo: "log_ok n0" and le: "rl_end (nd_log n0) \<le> rl_end (nd_log n)"
    and run: "(case log_append AppendOk (le_term e) (le_kind e) (le_bytes e) n0 of (False, n1) \<Rightarrow> Some (False, n1, tt)
       | (True, n1) \<Rightarrow> ae_entries (\<lambda>_. (TruncateOk, AppendOk)) prev es (i + 1) n1 (tt \<or> le_kind e = EntryConfig)) = Some (ok, n', touched')" for n0 tt
  proof -
    obtain n1 where n1: "log_append AppendOk (le_term e) (le_kind e) (le_bytes e) n0 = (True, n1)" "quiet n0 n1"
      using log_append_quiet [OF lo, of "le_kind e" "le_bytes e" "le_term e"] Cons.prems(3,4) le by auto
    have "ok \<and> quiet n1 n'"
    proof (rule Cons.IH)
      show "ae_entries (\<lambda>_. (TruncateOk, AppendOk)) prev es (i + 1) n1 (tt \<or> le_kind e = EntryConfig) = Some (ok, n', touched')"
        using run n1(1) by simp
      show "log_ok n1" using n1(2) by (simp add: quiet_def)
    qed (use Cons.prems(3,4) rl_end_append [OF n1(1)] le in auto)
    then show ?thesis using quiet_trans [OF n1(2)] by blast
  qed
  show ?case
  proof (cases "?idx \<le> rl_baseIndex (nd_log n)")
    case True
    then show ?thesis using Cons.prems Cons.IH [of "i + 1" n touched] by (simp add: Let_def)
  next
    case above: False
    show ?thesis
    proof (cases "?idx \<le> rl_lastIndex (nd_log n)")
      case True
      then obtain t where t: "rl_term (nd_log n) ?idx = Some t" using Cons.prems(1) above by (auto simp: Let_def split: option.splits)
      show ?thesis
      proof (cases "t = le_term e")
        case True
        then show ?thesis using Cons.prems Cons.IH [of "i + 1" n touched] \<open>?idx \<le> rl_lastIndex (nd_log n)\<close> above t by (simp add: Let_def)
      next
        case False
        obtain n0 where n0: "ae_truncate TruncateOk ?idx n = (True, n0)" "quiet n n0" "rl_end (nd_log n0) \<le> rl_end (nd_log n)"
          using ae_truncate_quiet [OF Cons.prems(2) above [unfolded not_le]] by auto
        have "ok \<and> quiet n0 n'"
          using Cons.prems(1) \<open>?idx \<le> rl_lastIndex (nd_log n)\<close> above t False n0
          by (intro put [of _ True]) (simp_all add: Let_def quiet_def)
        then show ?thesis using quiet_trans [OF n0(2)] by blast
      qed
    next
      case False
      then show ?thesis using Cons.prems(1,2) above by (intro put [of _ touched]) (simp_all add: Let_def)
    qed
  qed
qed

lemma quietI:
  "vote_part n' = vote_part n \<Longrightarrow> config_part n' = config_part n \<Longrightarrow> nd_role n' = nd_role n \<or> nd_role n' = Follower \<Longrightarrow>
     nd_log n' = nd_log n \<Longrightarrow> nd_logFile n' = nd_logFile n \<Longrightarrow> log_ok n \<Longrightarrow> quiet n n'"
  by (auto simp: quiet_def log_ok_def)

lemma maybeAdvanceCommit_shape: "maybeAdvanceCommitLocked n = Some n' \<Longrightarrow> n' = n \<or> (\<exists>c. n' = n\<lparr>nd_commitIndex := c\<rparr>)"
  by (auto simp: maybeAdvanceCommitLocked_def bind_eq_Some_conv split: option.splits if_splits)

lemma maybeAdvanceCommit_quiet:
  assumes "log_ok n" "maybeAdvanceCommitLocked n = Some n'"
  shows "quiet n n'"
  using maybeAdvanceCommit_shape [OF assms(2)] assms(1) by (auto simp: quiet_def vote_part_def config_part_def log_ok_def)

lemma configAsOf_data:
  assumes "data_only (rl_entries (nd_log n))" "configAsOfLocked idx n = Some c"
  shows "c = nd_baseConfig n"
  using assms by (auto simp: configAsOfLocked_def Let_def last_config_data split: if_splits)

lemma configEqual_refl [simp]: "configEqual c c"
  by (simp add: configEqual_def)

lemma maybeCompact_shape:
  assumes data: "data_only (rl_entries (nd_log n))" and lf: "nd_logFile n = Some lf" "lf_open lf"
    and c: "maybeCompactLocked AtomicOk CompactOk n = Some n'"
  shows "n' = n \<or> (\<exists>t es lf'. rl_baseIndex (nd_log n) < nd_lastApplied n \<and> rl_term (nd_log n) (nd_lastApplied n) = Some t \<and>
      rl_entriesAfter (nd_lastApplied n) (nd_log n) = Some es \<and> lf_compact CompactOk (nd_lastApplied n) t es lf = (None, lf') \<and>
      n' = n\<lparr>nd_logFile := Some lf', nd_log := rl_compactTo (nd_lastApplied n) t (nd_log n)\<rparr>)"
proof (cases "cfg_SnapshotThreshold (nd_cfg n) \<le> 0 \<or> int (length (rl_entries (nd_log n))) < cfg_SnapshotThreshold (nd_cfg n) \<or>
    nd_lastApplied n \<le> rl_baseIndex (nd_log n)")
  case True
  then have "maybeCompactLocked AtomicOk CompactOk n = Some n" by (auto simp: maybeCompactLocked_def Let_def)
  then show ?thesis using c by simp
next
  case False
  then obtain t ok n1 where t: "rl_term (nd_log n) (nd_lastApplied n) = Some t"
    and n1: "(if nd_configPath n
           then do { newBaseConfig \<leftarrow> configAsOfLocked (nd_lastApplied n) n;
                     if configEqual newBaseConfig (nd_baseConfig n) then Some (True, n)
                     else let (ok, d) = writeBaseConfigFile AtomicOk newBaseConfig (nd_SyncOnWrite n) (nd_configDisk n)
                          in Some (if ok then (True, n\<lparr>nd_configDisk := d, nd_baseConfig := newBaseConfig\<rparr>)
                                   else (False, n\<lparr>nd_configDisk := d\<rparr>)) }
           else Some (True, n)) = Some (ok, n1)"
    and rest: "(if \<not> ok then Some n1
        else case nd_logFile n1 of
               None \<Rightarrow> Some (n1\<lparr>nd_log := rl_compactTo (nd_lastApplied n) t (nd_log n1)\<rparr>)
             | Some lf \<Rightarrow>
                 do { survivors \<leftarrow> rl_entriesAfter (nd_lastApplied n) (nd_log n1);
                      case lf_compact CompactOk (nd_lastApplied n) t survivors lf of
                        (Some _, lf') \<Rightarrow> Some (n1\<lparr>nd_logFile := Some lf'\<rparr>)
                      | (None, lf') \<Rightarrow> Some (n1\<lparr>nd_logFile := Some lf', nd_log := rl_compactTo (nd_lastApplied n) t (nd_log n1)\<rparr>) }) = Some n'"
    using c by (auto simp: maybeCompactLocked_def Let_def bind_eq_Some_conv split del: if_split)
  have "ok \<and> n1 = n" using n1 by (auto simp: bind_eq_Some_conv dest: configAsOf_data [OF data] split: if_splits)
  then show ?thesis
    using rest lf t False by (auto simp: bind_eq_Some_conv lf_compact_def Let_def split_beta not_le)
qed

lemma maybeCompact_quiet:
  assumes "log_ok n" "maybeCompactLocked AtomicOk CompactOk n = Some n'" "rl_end (nd_log n) + 1 < 2 ^ 64"
  shows "quiet n n'"
proof -
  obtain lf where lf: "nd_logFile n = Some lf" "paired (nd_log n, lf)" using assms(1) by (auto simp: log_ok_def)
  have data: "data_only (rl_entries (nd_log n))" using assms(1) by (simp add: log_ok_def)
  have open1: "lf_open lf" using paired_holds(2) [OF lf(2)] by (simp add: lf_holds_def)
  show ?thesis
  proof (cases "n' = n")
    case True
    then show ?thesis using assms(1) by (simp add: quiet_refl)
  next
    case False
    let ?i = "nd_lastApplied n"
    obtain t es lf' where c: "rl_baseIndex (nd_log n) < ?i" "rl_term (nd_log n) ?i = Some t" "rl_entriesAfter ?i (nd_log n) = Some es"
      "lf_compact CompactOk ?i t es lf = (None, lf')" "n' = n\<lparr>nd_logFile := Some lf', nd_log := rl_compactTo ?i t (nd_log n)\<rparr>"
      using maybeCompact_shape [OF data lf(1) open1 assms(2)] False by blast
    have "pair_op (LCompact ?i) (nd_log n, lf) = Some (rl_compactTo ?i t (nd_log n), lf')"
      using c by (simp add: not_le)
    then have "paired (rl_compactTo ?i t (nd_log n), lf')"
      using pair_op_paired [OF lf(2), of "LCompact ?i"] assms(3) by (auto split: option.splits)
    moreover have "data_only (rl_entries (rl_compactTo ?i t (nd_log n)))"
      using data by (auto simp: rl_compactTo_def intro: data_only_drop)
    ultimately show ?thesis using c(5) by (auto simp: quiet_def vote_part_def config_part_def log_ok_def)
  qed
qed

text \<open>The bookkeeping of the leader's peers.\<close>

definition peers_only :: "'db Node \<Rightarrow> 'db Node \<Rightarrow> bool" where
  "peers_only n n' \<longleftrightarrow> vote_part n' = vote_part n \<and> config_part n' = config_part n \<and> nd_role n' = nd_role n \<and>
     nd_log n' = nd_log n \<and> nd_logFile n' = nd_logFile n \<and> nd_commitIndex n' = nd_commitIndex n \<and> nd_lastApplied n' = nd_lastApplied n \<and>
     nd_cfg n' = nd_cfg n \<and> nd_installing n' = nd_installing n"

lemma peers_only_trans: "peers_only n n1 \<Longrightarrow> peers_only n1 n2 \<Longrightarrow> peers_only n n2"
  by (simp add: peers_only_def)

lemma peers_only_refl [simp]: "peers_only n n"
  by (simp add: peers_only_def)

lemma peers_only_fold:
  assumes "\<And>p n. peers_only n (f p n)"
  shows "peers_only n (fold f ps n)"
proof (induction ps arbitrary: n)
  case (Cons p ps)
  then show ?case using peers_only_trans [OF assms Cons.IH] by simp
qed (simp add: peers_only_def)

lemma ensurePeer_peers: "peers_only n (ensurePeerLocked p n)"
  by (simp add: ensurePeerLocked_def peers_only_def vote_part_def config_part_def)

lemma becomeLeader_peers: "peers_only (n\<lparr>nd_role := Leader, nd_transferring := False\<rparr>) (becomeLeaderLocked n)"
proof -
  have "peers_only m (reconcilePeersLocked m)" for m :: "'a Node"
    unfolding reconcilePeersLocked_def
    by (cases "nd_config m") (auto intro!: peers_only_fold ensurePeer_peers)
  moreover have "peers_only m (fold (\<lambda>p n. n\<lparr>nd_nextIndex := (nd_nextIndex n)(p \<mapsto> x), nd_matchIndex := (nd_matchIndex n)(p \<mapsto> 0)\<rparr>) ps m)" for x ps and m :: "'a Node"
    by (rule peers_only_fold) (simp add: peers_only_def vote_part_def config_part_def)
  ultimately show ?thesis unfolding becomeLeaderLocked_def Let_def by (blast intro: peers_only_trans)
qed

lemma peers_only_quiet: "peers_only n n' \<Longrightarrow> log_ok n \<Longrightarrow> quiet n n'"
  by (auto simp: peers_only_def quiet_def log_ok_def)

subsection \<open>The invariant\<close>

type_synonym votes = "NodeID \<Rightarrow> u64 \<Rightarrow> NodeID option"
type_synonym tallies = "NodeID \<Rightarrow> u64 \<Rightarrow> NodeID set"

definition votes_ok :: "votes \<Rightarrow> NodeID \<Rightarrow> u64 \<Rightarrow> NodeID \<Rightarrow> bool" where
  "votes_ok H i t v \<longleftrightarrow> (\<forall>t' c. H i t' = Some c \<longrightarrow> t' \<le> t \<and> (t' = t \<longrightarrow> v = c))"

definition hard_ok :: "NodeID set \<Rightarrow> votes \<Rightarrow> NodeID \<Rightarrow> bytes option \<Rightarrow> bool" where
  "hard_ok M H i d \<longleftrightarrow>
     (let hs = openRaftStateFile d
      in d \<noteq> None \<and> 1 \<le> hs_currentTerm hs \<and> votes_ok H i (hs_currentTerm hs) (hs_votedFor hs) \<and> (hs_votedFor hs = noVote \<or> hs_votedFor hs \<in> M))"

definition leader_ok :: "NodeID set \<Rightarrow> votes \<Rightarrow> NodeID \<Rightarrow> u64 \<Rightarrow> bool" where
  "leader_ok M H i t \<longleftrightarrow>
     t = 1 \<and> i = bootstrapLeader \<or> 2 \<le> t \<and> (\<exists>Q\<subseteq>M. card M div 2 + 1 \<le> card Q \<and> (\<forall>v\<in>Q. H v t = Some i))"

definition node_inv :: "NodeID set \<Rightarrow> votes \<Rightarrow> tallies \<Rightarrow> NodeID \<Rightarrow> 'db Node \<Rightarrow> bool" where
  "node_inv M H S i n \<longleftrightarrow>
     nd_id n = i \<and> i \<in> M \<and> config_part n = (Some M, M, None) \<and> nd_stateFile n \<and> log_ok n \<and> 1 \<le> nd_currentTerm n \<and>
     votes_ok H i (nd_currentTerm n) (nd_votedFor n) \<and> hard_ok M H i (nd_stateDisk n) \<and> (nd_votedFor n = noVote \<or> nd_votedFor n \<in> M) \<and>
     (nd_role n = Candidate \<longrightarrow> 2 \<le> nd_currentTerm n \<and> H i (nd_currentTerm n) = Some i \<and> nd_votesReceived n = card (S i (nd_currentTerm n)) + 1) \<and>
     (nd_role n = Leader \<longrightarrow> leader_ok M H i (nd_currentTerm n))"

definition disk_inv :: "NodeID set \<Rightarrow> votes \<Rightarrow> NodeID \<Rightarrow> raft_disk \<Rightarrow> bool" where
  "disk_inv M H i d \<longleftrightarrow>
     i \<in> M \<and> hard_ok M H i (rd_state d) \<and> rd_config d = None \<and>
     (\<exists>b t es. rd_log d = Some (log_bytes b t es) \<and> data_only es \<and> unat b + length es < 2 ^ 64)"

text \<open>A request of \<open>c\<close> to \<open>v\<close>, or a grant of \<open>v\<close> to \<open>c\<close>, in term \<open>t\<close>.\<close>

definition vote_msg :: "NodeID \<Rightarrow> u64 \<Rightarrow> NodeID \<Rightarrow> NodeID \<times> Message \<Rightarrow> bool" where
  "vote_msg c t v x \<longleftrightarrow>
     m_Term (snd x) = t \<and>
     (m_Type (snd x) = MsgRequestVote \<and> fst x = v \<and> m_From (snd x) = c \<or>
      m_Type (snd x) = MsgRequestVoteResponse \<and> m_VoteGranted (snd x) \<and> fst x = c \<and> m_From (snd x) = v)"

definition msg_inv :: "NodeID set \<Rightarrow> votes \<Rightarrow> NodeID \<times> Message \<Rightarrow> bool" where
  "msg_inv M H x \<longleftrightarrow>
     (m_Type (snd x) = MsgRequestVote \<longrightarrow>
        m_CandidateID (snd x) = m_From (snd x) \<and> m_From (snd x) \<in> M \<and> fst x \<noteq> m_From (snd x) \<and> 2 \<le> m_Term (snd x) \<and>
        H (m_From (snd x)) (m_Term (snd x)) = Some (m_From (snd x))) \<and>
     (m_Type (snd x) = MsgRequestVoteResponse \<longrightarrow> m_VoteGranted (snd x) \<longrightarrow>
        fst x \<noteq> m_From (snd x) \<and> H (m_From (snd x)) (m_Term (snd x)) = Some (fst x) \<and> H (fst x) (m_Term (snd x)) = Some (fst x)) \<and>
     (m_Type (snd x) = MsgAppendEntries \<longrightarrow> data_only (m_Entries (snd x)))"

definition count_votes :: "NodeID \<Rightarrow> u64 \<Rightarrow> NodeID \<Rightarrow> (NodeID \<times> Message) list \<Rightarrow> nat" where
  "count_votes c t v ms = length (filter (vote_msg c t v) ms)"

definition ghosts_ok :: "NodeID set \<Rightarrow> votes \<Rightarrow> tallies \<Rightarrow> bool" where
  "ghosts_ok M H S \<longleftrightarrow>
     (\<forall>v t c. H v t = Some c \<longrightarrow> v \<in> M \<and> c \<in> M \<and> (2 \<le> t \<or> t = 1 \<and> v = bootstrapLeader \<and> c = bootstrapLeader)) \<and>
     (\<forall>c t v. v \<in> S c t \<longrightarrow> v \<in> M \<and> v \<noteq> c \<and> H v t = Some c \<and> H c t = Some c)"

definition net_inv :: "NodeID set \<Rightarrow> votes \<Rightarrow> tallies \<Rightarrow> 'db net \<Rightarrow> bool" where
  "net_inv M H S s \<longleftrightarrow>
     ghosts_ok M H S \<and>
     (\<forall>i n. nt_up s i = Some n \<longrightarrow> node_inv M H S i n) \<and>
     (\<forall>i d. nt_down s i = Some d \<longrightarrow> nt_up s i = None \<and> disk_inv M H i (st_disk d)) \<and>
     (\<forall>x\<in>set (nt_msgs s). msg_inv M H x) \<and>
     (\<forall>c t v. count_votes c t v (nt_msgs s) + (if v \<in> S c t then 1 else 0) \<le> 1)"

text \<open>The counters stay away from their end: terms below the last word, logs and messages below \<open>2 ^ 63\<close> entries.\<close>

definition no_wrap :: "'db net \<Rightarrow> bool" where
  "no_wrap s \<longleftrightarrow>
     (\<forall>i n. nt_up s i = Some n \<longrightarrow> nd_currentTerm n < - 1 \<and> rl_end (nd_log n) < 2 ^ 63) \<and>
     (\<forall>x\<in>set (nt_msgs s). length (m_Entries (snd x)) < 2 ^ 63)"

subsection \<open>Preservation for one node\<close>

lemma node_inv_quiet: "node_inv M H S i n \<Longrightarrow> quiet n n' \<Longrightarrow> node_inv M H S i n'"
  by (auto simp: node_inv_def quiet_def vote_part_def)

lemma less_inc:
  assumes "(t :: u64) < - 1"
  shows "t < t + 1"
proof -
  have "unat (- 1 :: u64) = 2 ^ 64 - 1" by (simp add: unsigned_minus_1_eq_mask mask_eq_exp_minus_1)
  then have "unat t < 2 ^ 64 - 1" using assms by (simp add: word_less_nat_alt)
  then have "unat (t + 1) = unat t + 1" using unat_add_u64 [of t 1] by simp
  then show ?thesis by (simp add: word_less_nat_alt)
qed

lemma votes_ok_later: "votes_ok H i t v \<Longrightarrow> t < t' \<Longrightarrow> votes_ok H i t' v'"
  by (fastforce simp: votes_ok_def)

lemma node_id_members: "M = fullConfig N \<Longrightarrow> N < 2 ^ 63 \<Longrightarrow> i \<in> M \<Longrightarrow> node_id i \<and> i \<noteq> noVote"
  by (auto simp: fullConfig_def node_id_def noVote_def)

lemma persist_shape: "persistHardStateLocked io n = (ok, n') \<Longrightarrow> \<exists>d. n' = n\<lparr>nd_stateDisk := d\<rparr>"
  by (cases "nd_stateFile n") (auto simp: persistHardStateLocked_def split: prod.splits intro: exI [of _ "nd_stateDisk n"])

lemma persist_disk:
  assumes "persistHardStateLocked io n = (ok, n')" "nd_stateFile n" "node_id (nd_votedFor n)"
  shows "nd_stateDisk n' \<noteq> None \<and> openRaftStateFile (nd_stateDisk n') = \<lparr>hs_currentTerm = nd_currentTerm n, hs_votedFor = nd_votedFor n, hs_present = True\<rparr> \<or>
         \<not> ok \<and> nd_stateDisk n' = nd_stateDisk n"
  using assms write_atomic_cases [of io "nd_SyncOnWrite n" "le_PutUint64 (nd_currentTerm n) @ put_id (nd_votedFor n)" "nd_stateDisk n"]
  by (auto simp: persistHardStateLocked_def sf_save_def openRaftStateFile_save split: prod.splits)

lemma hard_ok_persist:
  assumes "persistHardStateLocked io n = (ok, n')" "nd_stateFile n" "node_id (nd_votedFor n)"
    and "ok \<or> hard_ok M H i (nd_stateDisk n)"
    and "1 \<le> nd_currentTerm n" "votes_ok H i (nd_currentTerm n) (nd_votedFor n)" "nd_votedFor n = noVote \<or> nd_votedFor n \<in> M"
  shows "hard_ok M H i (nd_stateDisk n')"
  using persist_disk [OF assms(1-3)] assms(4-) by (auto simp: hard_ok_def)

lemma noVote_id [simp]: "node_id noVote"
  by (simp add: node_id_def noVote_def)

lemma stepDown_shape: "\<exists>d. stepDownLocked io t n = n\<lparr>nd_currentTerm := t, nd_role := Follower, nd_votedFor := noVote, nd_transferring := False, nd_stateDisk := d\<rparr>"
  unfolding stepDownLocked_def using persist_shape by (metis prod.collapse)

lemma node_inv_stepDown:
  assumes "node_inv M H S i n" "nd_currentTerm n < t"
  shows "node_inv M H S i (stepDownLocked io t n)"
proof -
  let ?n1 = "n\<lparr>nd_currentTerm := t, nd_role := Follower, nd_votedFor := noVote, nd_transferring := False\<rparr>"
  obtain ok n' where p: "persistHardStateLocked io ?n1 = (ok, n')" by fastforce
  have v: "votes_ok H i t noVote" and t: "1 \<le> t"
    using assms votes_ok_later [of H i "nd_currentTerm n" "nd_votedFor n" t noVote] by (auto simp: node_inv_def)
  have "hard_ok M H i (nd_stateDisk n')"
    using assms(1) v t by (intro hard_ok_persist [OF p]) (simp_all add: node_inv_def)
  moreover obtain d where d: "n' = ?n1\<lparr>nd_stateDisk := d\<rparr>" using persist_shape [OF p] by blast
  ultimately have h: "hard_ok M H i d" by simp
  have "stepDownLocked io t n = ?n1\<lparr>nd_stateDisk := d\<rparr>" using d by (simp add: stepDownLocked_def p)
  then show ?thesis using assms(1) v t h by (simp add: node_inv_def config_part_def log_ok_def)
qed

subsection \<open>One step of one node\<close>

text \<open>
  Node \<open>i\<close> goes from a state of the invariant to \<open>n'\<close> and sends \<open>out\<close>, while \<open>ms\<close> are the messages that stay
  in flight; the histories grow at \<open>i\<close> only.
\<close>

definition step_ok ::
  "NodeID set \<Rightarrow> votes \<Rightarrow> tallies \<Rightarrow> NodeID \<Rightarrow> (NodeID \<times> Message) list \<Rightarrow> 'db Node \<Rightarrow> sends \<Rightarrow> votes \<Rightarrow> tallies \<Rightarrow> bool" where
  "step_ok M H S i ms n' out H' S' \<longleftrightarrow>
     (\<forall>v. v \<noteq> i \<longrightarrow> H' v = H v) \<and> (\<forall>v t c. H v t = Some c \<longrightarrow> H' v t = Some c) \<and> (\<forall>c. c \<noteq> i \<longrightarrow> S' c = S c) \<and>
     ghosts_ok M H' S' \<and> node_inv M H' S' i n' \<and> (\<forall>x\<in>set out. msg_inv M H' x) \<and>
     (\<forall>c t v. count_votes c t v (ms @ out) + (if v \<in> S' c t then 1 else 0) \<le> 1)"

lemma leader_ok_mono: "leader_ok M H i t \<Longrightarrow> (\<And>v t c. H v t = Some c \<Longrightarrow> H' v t = Some c) \<Longrightarrow> leader_ok M H' i t"
  by (auto simp: leader_ok_def)

lemma msg_inv_mono: "msg_inv M H x \<Longrightarrow> (\<And>v t c. H v t = Some c \<Longrightarrow> H' v t = Some c) \<Longrightarrow> msg_inv M H' x"
  by (auto simp: msg_inv_def)

lemma node_inv_other:
  assumes "node_inv M H S j n" "H' j = H j" "S' j = S j" "\<And>v t c. H v t = Some c \<Longrightarrow> H' v t = Some c"
  shows "node_inv M H' S' j n"
  using assms(1) leader_ok_mono [OF _ assms(4)] by (auto simp: node_inv_def votes_ok_def hard_ok_def assms(2,3))

lemma net_inv_step:
  assumes inv: "net_inv M H S s" and up: "nt_up s i = Some n" and ms: "set ms \<subseteq> set (nt_msgs s)"
    and st: "step_ok M H S i ms n' out H' S'"
  shows "net_inv M H' S' (put_node i n' out (s\<lparr>nt_msgs := ms, nt_rounds := r\<rparr>))"
proof -
  have grow: "\<And>v t c. H v t = Some c \<Longrightarrow> H' v t = Some c" and H': "\<And>v. v \<noteq> i \<Longrightarrow> H' v = H v" and S': "\<And>c. c \<noteq> i \<Longrightarrow> S' c = S c"
    using st by (auto simp: step_ok_def)
  have nodes: "node_inv M H' S' j m" if "((nt_up s)(i \<mapsto> n')) j = Some m" for j m
    using that inv st node_inv_other [of M H S j m H' S', OF _ H' S' grow] by (cases "j = i") (auto simp: net_inv_def step_ok_def)
  have down: "((nt_up s)(i \<mapsto> n')) j = None \<and> disk_inv M H' j (st_disk d)" if "nt_down s j = Some d" for j d
  proof -
    have "j \<noteq> i" using that inv up by (auto simp: net_inv_def)
    then show ?thesis using that inv H' by (auto simp: net_inv_def disk_inv_def hard_ok_def votes_ok_def)
  qed
  have "msg_inv M H' x" if "x \<in> set (ms @ out)" for x
  proof -
    have "msg_inv M H x" if "x \<in> set ms" using that inv ms by (auto simp: net_inv_def)
    then show ?thesis using that st msg_inv_mono [of M H x H', OF _ grow] by (auto simp: step_ok_def)
  qed
  then show ?thesis using nodes down st by (auto simp: net_inv_def step_ok_def put_node_def)
qed

lemma net_inv_count: "net_inv M H S s \<Longrightarrow> count_votes c t v (nt_msgs s) + (if v \<in> S c t then 1 else 0) \<le> 1"
  unfolding net_inv_def by blast

lemma count_votes_simps [simp]:
  "count_votes c t v [] = 0" "count_votes c t v (x # xs) = (if vote_msg c t v x then 1 else 0) + count_votes c t v xs"
  "count_votes c t v (xs @ ys) = count_votes c t v xs + count_votes c t v ys"
  by (simp_all add: count_votes_def)

lemma count_votes_drop_nth:
  assumes "k < length ms"
  shows "count_votes c t v ms = (if vote_msg c t v (ms ! k) then 1 else 0) + count_votes c t v (drop_nth k ms)"
proof -
  have "ms = take k ms @ ms ! k # drop (Suc k) ms" using assms by (rule id_take_nth_drop)
  then have "count_votes c t v ms = count_votes c t v (take k ms @ ms ! k # drop (Suc k) ms)" by simp
  then show ?thesis by (simp add: drop_nth_def)
qed

lemma count_votes_none: "(\<And>x. x \<in> set ms \<Longrightarrow> \<not> vote_msg c t v x) \<Longrightarrow> count_votes c t v ms = 0"
  by (simp add: count_votes_def filter_empty_conv)

text \<open>A step that casts, asks for and counts no vote.\<close>

definition plain :: "sends \<Rightarrow> bool" where
  "plain out \<longleftrightarrow> (\<forall>x\<in>set out. m_Type (snd x) \<noteq> MsgRequestVote \<and> (m_Type (snd x) = MsgRequestVoteResponse \<longrightarrow> \<not> m_VoteGranted (snd x)) \<and>
     (m_Type (snd x) = MsgAppendEntries \<longrightarrow> data_only (m_Entries (snd x))))"

lemma step_ok_plain:
  assumes "net_inv M H S s" "node_inv M H S i n'" "plain out"
    and "\<And>c t v. count_votes c t v ms \<le> count_votes c t v (nt_msgs s)"
  shows "step_ok M H S i ms n' out H S"
proof -
  have "count_votes c t v out = 0" for c t v
    using assms(3) by (intro count_votes_none) (auto simp: plain_def vote_msg_def)
  moreover have "msg_inv M H x" if "x \<in> set out" for x using that assms(3) by (auto simp: plain_def msg_inv_def)
  moreover have "count_votes c t v ms + (if v \<in> S c t then 1 else 0) \<le> 1" for c t v
    using assms(1) assms(4) [of c t v] unfolding net_inv_def by (meson add_le_mono1 order_trans)
  ultimately show ?thesis using assms(1,2) by (auto simp: step_ok_def net_inv_def)
qed

lemma node_inv_fields:
  assumes "node_inv M H S i n"
  shows "nd_id n = i" "i \<in> M" "nd_config n = Some M" "nd_baseConfig n = M" "nd_configDisk n = None" "nd_stateFile n" "log_ok n"
    "1 \<le> nd_currentTerm n" "votes_ok H i (nd_currentTerm n) (nd_votedFor n)" "hard_ok M H i (nd_stateDisk n)"
    "nd_votedFor n = noVote \<or> nd_votedFor n \<in> M"
  using assms by (auto simp: node_inv_def config_part_def)

text \<open>Casting a vote in the current term, for a candidate the node has not voted against.\<close>

definition cast_vote :: "votes \<Rightarrow> NodeID \<Rightarrow> u64 \<Rightarrow> NodeID \<Rightarrow> votes" where
  "cast_vote H i t c = H(i := (H i)(t \<mapsto> c))"

lemma votes_ok_cast: "votes_ok H i t v \<Longrightarrow> (\<And>c'. H i t = Some c' \<Longrightarrow> c' = c) \<Longrightarrow> votes_ok (cast_vote H i t c) i t c"
  by (auto simp: votes_ok_def cast_vote_def split: if_splits)

lemma cast_vote_grows: "(\<And>c'. H i t = Some c' \<Longrightarrow> c' = c) \<Longrightarrow> H v t' = Some c'' \<Longrightarrow> cast_vote H i t c v t' = Some c''"
  by (auto simp: cast_vote_def)

lemma ghosts_ok_cast:
  assumes "ghosts_ok M H S" "i \<in> M" "c \<in> M" "2 \<le> t" "\<And>c'. H i t = Some c' \<Longrightarrow> c' = c"
  shows "ghosts_ok M (cast_vote H i t c) S"
  using assms by (auto simp: ghosts_ok_def cast_vote_def)

lemma startElection_fails:
  assumes "node_inv M H S i n" "\<And>j. j \<in> M \<Longrightarrow> node_id j" "nd_currentTerm n < - 1"
    and p: "persistHardStateLocked io (n\<lparr>nd_currentTerm := nd_currentTerm n + 1, nd_role := Candidate, nd_votedFor := nd_id n, nd_votesReceived := 1\<rparr>) = (ok, n2)"
  shows "node_inv M H S i (n2\<lparr>nd_currentTerm := nd_currentTerm n, nd_role := nd_role n, nd_votedFor := nd_votedFor n, nd_votesReceived := nd_votesReceived n\<rparr>)"
proof -
  note f = node_inv_fields [OF assms(1)]
  let ?n1 = "n\<lparr>nd_currentTerm := nd_currentTerm n + 1, nd_role := Candidate, nd_votedFor := nd_id n, nd_votesReceived := 1\<rparr>"
  have t: "nd_currentTerm n < nd_currentTerm n + 1" using assms(3) by (rule less_inc)
  obtain d where d: "n2 = ?n1\<lparr>nd_stateDisk := d\<rparr>" using persist_shape [OF p] by blast
  have "hard_ok M H i (nd_stateDisk n2)"
    using f t assms(2) votes_ok_later [OF f(9) t] by (intro hard_ok_persist [OF p]) auto
  then have "hard_ok M H i d" using d by simp
  then show ?thesis using assms(1) d by (simp add: node_inv_def config_part_def log_ok_def)
qed

lemma no_votes_ahead:
  assumes inv: "net_inv M H S s" and H: "H i t = None"
  shows "count_votes i t v (nt_msgs s) = 0" "S i t = {}"
proof -
  have "\<not> vote_msg i t v x" if "x \<in> set (nt_msgs s)" for x
  proof
    assume "vote_msg i t v x"
    moreover have "msg_inv M H x" using that inv by (auto simp: net_inv_def)
    ultimately have "H i t = Some i" by (auto simp: vote_msg_def msg_inv_def)
    then show False using H by simp
  qed
  then show "count_votes i t v (nt_msgs s) = 0" by (rule count_votes_none)
  show "S i t = {}" using inv H by (fastforce simp: net_inv_def ghosts_ok_def)
qed

lemma request_votes_count:
  "distinct ps \<Longrightarrow> count_votes c t v (map (\<lambda>p. (p, f p)) ps) \<le> 1" if "\<And>p. m_Type (f p) = MsgRequestVote"
proof (induction ps)
  case (Cons p ps)
  have "count_votes c t v (map (\<lambda>p. (p, f p)) ps) = 0" if "vote_msg c t v (p, f p)"
    using that Cons.prems \<open>\<And>p. m_Type (f p) = MsgRequestVote\<close> by (intro count_votes_none) (auto simp: vote_msg_def)
  then show ?case using Cons by simp
qed simp

lemma in_sorted_list_of_set: "x \<in> set (sorted_list_of_set A) \<Longrightarrow> x \<in> A"
  by (cases "finite A") auto

lemma startElection_cast:
  assumes inv: "net_inv M H S s" and ni: "node_inv M H S i n" and ids: "\<And>j. j \<in> M \<Longrightarrow> node_id j" and wrap: "nd_currentTerm n < - 1"
    and p: "persistHardStateLocked io (n\<lparr>nd_currentTerm := nd_currentTerm n + 1, nd_role := Candidate, nd_votedFor := nd_id n, nd_votesReceived := 1\<rparr>) = (True, n')"
    and ty: "\<And>p. m_Type (f p) = MsgRequestVote" "\<And>p. m_From (f p) = i" "\<And>p. m_CandidateID (f p) = i" "\<And>p. m_Term (f p) = nd_currentTerm n + 1"
    and ms: "\<And>c t v. count_votes c t v ms \<le> count_votes c t v (nt_msgs s)"
  shows "step_ok M H S i ms n' (map (\<lambda>p. (p, f p)) (votingPeers n')) (cast_vote H i (nd_currentTerm n + 1) i) S"
proof -
  note fs = node_inv_fields [OF ni]
  let ?t = "nd_currentTerm n + 1" and ?out = "map (\<lambda>p. (p, f p)) (votingPeers n')"
  let ?n1 = "n\<lparr>nd_currentTerm := ?t, nd_role := Candidate, nd_votedFor := nd_id n, nd_votesReceived := 1\<rparr>"
  let ?H = "cast_vote H i ?t i"
  have t: "nd_currentTerm n < ?t" using wrap by (rule less_inc)
  then have t2: "2 \<le> ?t" using fs(8) by (metis inc_le one_add_one order_le_less_trans)
  have H: "H i ?t = None"
  proof (rule ccontr)
    assume "H i ?t \<noteq> None"
    then have "?t \<le> nd_currentTerm n" using fs(9) by (auto simp: votes_ok_def)
    then show False using t by simp
  qed
  obtain d where d: "n' = ?n1\<lparr>nd_stateDisk := d\<rparr>" using persist_shape [OF p] by blast
  have peers: "votingPeers n' = sorted_list_of_set (M - {i})" using d fs(1,3) by (simp add: votingPeers_def)
  have vo: "votes_ok ?H i ?t i" using votes_ok_cast [OF votes_ok_later [OF fs(9) t, of i], of i] H by simp
  have "hard_ok M ?H i (nd_stateDisk n')" using fs t t2 ids vo by (intro hard_ok_persist [OF p]) auto
  moreover have "1 \<le> ?t" using fs(8) t by simp
  ultimately have "node_inv M ?H S i n'"
    using d ni vo t2 fs no_votes_ahead(2) [OF inv H] by (simp add: node_inv_def config_part_def log_ok_def cast_vote_def)
  moreover have "ghosts_ok M ?H S" using inv fs(2) t2 H by (intro ghosts_ok_cast) (auto simp: net_inv_def)
  moreover have "p \<noteq> i" if "p \<in> set (votingPeers n')" for p
    using in_sorted_list_of_set [OF that [unfolded peers]] by simp
  then have "\<forall>x\<in>set ?out. msg_inv M ?H x"
    using ty t2 fs(2) by (simp add: msg_inv_def cast_vote_def)
  moreover have "count_votes c u v (ms @ ?out) + (if v \<in> S c u then 1 else 0) \<le> 1" for c u v
  proof (cases "c = i \<and> u = ?t")
    case True
    then show ?thesis
      using request_votes_count [of f "votingPeers n'" c u v] ty(1) ms [of i ?t v] no_votes_ahead [OF inv H] by (simp add: peers)
  next
    case False
    then have "count_votes c u v ?out = 0" using ty by (intro count_votes_none) (auto simp: vote_msg_def)
    moreover have "count_votes c u v (nt_msgs s) + (if v \<in> S c u then 1 else 0) \<le> 1" using inv by (simp add: net_inv_def)
    ultimately show ?thesis using ms [of c u v] by simp
  qed
  ultimately show ?thesis using H by (auto simp: step_ok_def cast_vote_def)
qed

lemma startElection_step:
  assumes inv: "net_inv M H S s" and ni: "node_inv M H S i n" and ids: "\<And>j. j \<in> M \<Longrightarrow> node_id j" and wrap: "nd_currentTerm n < - 1"
    and run: "maybeStartElection io lt n = Some (n', out)" and ms: "\<And>c t v. count_votes c t v ms \<le> count_votes c t v (nt_msgs s)"
  shows "\<exists>H' S'. step_ok M H S i ms n' out H' S'"
proof (cases "nd_role n = Leader \<or> nd_installing n \<or> \<not> inConfigLocked n")
  case True
  then have "maybeStartElection io lt n = Some (n, [])" by (auto simp: maybeStartElection_def)
  then show ?thesis using run step_ok_plain [OF inv ni, of "[]"] ms by (auto simp: plain_def)
next
  case False
  let ?n1 = "n\<lparr>nd_currentTerm := nd_currentTerm n + 1, nd_role := Candidate, nd_votedFor := nd_id n, nd_votesReceived := 1\<rparr>"
  obtain ok n2 where p: "persistHardStateLocked io ?n1 = (ok, n2)" by fastforce
  show ?thesis
  proof (cases ok)
    case no: False
    have "maybeStartElection io lt n =
      Some (n2\<lparr>nd_currentTerm := nd_currentTerm n, nd_role := nd_role n, nd_votedFor := nd_votedFor n, nd_votesReceived := nd_votesReceived n\<rparr>, [])"
      using False p no by (simp add: maybeStartElection_def Let_def)
    then show ?thesis using run step_ok_plain [OF inv startElection_fails [OF ni ids wrap p], of "[]"] ms by (auto simp: plain_def)
  next
    case True
    obtain d where d: "n2 = ?n1\<lparr>nd_stateDisk := d\<rparr>" using persist_shape [OF p] by blast
    have "maybeStartElection io lt n = do { lastTerm \<leftarrow> rl_lastTerm (nd_log n2);
                Some (n2, map (\<lambda>p. (p, (msg MsgRequestVote (nd_id n2) (nd_currentTerm n2))
                    \<lparr>m_CandidateID := nd_id n2, m_LastLogIndex := rl_lastIndex (nd_log n2), m_LastLogTerm := lastTerm,
                     m_LeaderTransfer := lt\<rparr>)) (votingPeers n2)) }"
      using False p True by (simp add: maybeStartElection_def Let_def)
    with run obtain lterm where "n' = n2" "out = map (\<lambda>p. (p, (msg MsgRequestVote (nd_id n2) (nd_currentTerm n2))
        \<lparr>m_CandidateID := nd_id n2, m_LastLogIndex := rl_lastIndex (nd_log n2), m_LastLogTerm := lterm, m_LeaderTransfer := lt\<rparr>)) (votingPeers n2)"
      by (auto simp: bind_eq_Some_conv)
    moreover have "nd_id n2 = i" "nd_currentTerm n2 = nd_currentTerm n + 1" using d node_inv_fields(1) [OF ni] by simp_all
    ultimately show ?thesis
      using startElection_cast [OF inv ni ids wrap p [unfolded True [THEN eqTrueI]] _ _ _ _ ms, of "\<lambda>p. (msg MsgRequestVote (nd_id n2) (nd_currentTerm n2))
        \<lparr>m_CandidateID := nd_id n2, m_LastLogIndex := rl_lastIndex (nd_log n2), m_LastLogTerm := lterm, m_LeaderTransfer := lt\<rparr>"]
      by (auto simp: msg_def)
  qed
qed

text \<open>The voter.\<close>

lemma vote_step:
  assumes inv: "net_inv M H S s" and ni: "node_inv M H S i n" and ids: "\<And>j. j \<in> M \<Longrightarrow> node_id j \<and> j \<noteq> noVote"
    and k: "k < length (nt_msgs s)" "nt_msgs s ! k = (i, m)" "m_Type m = MsgRequestVote" "m_Term m = nd_currentTerm n"
    and vote: "nd_votedFor n = noVote \<or> nd_votedFor n = m_CandidateID m" and out: "out = (m_From m, vote_response n' ok)"
    and p: "persistHardStateLocked io (n\<lparr>nd_votedFor := m_CandidateID m\<rparr>) = (ok, n1)" and n': "n' = (if ok then n1 else n1\<lparr>nd_votedFor := nd_votedFor n\<rparr>)"
  shows "\<exists>H' S'. step_ok M H S i (drop_nth k (nt_msgs s)) n' [out] H' S'"
proof -
  let ?c = "m_From m" and ?t = "nd_currentTerm n"
  note f = node_inv_fields [OF ni]
  have "msg_inv M H (i, m)" using inv k(1,2) by (metis net_inv_def nth_mem)
  then have c: "m_CandidateID m = ?c" "?c \<in> M" "?c \<noteq> i" "2 \<le> ?t" "H ?c ?t = Some ?c" using k by (auto simp: msg_inv_def)
  have same: "c' = ?c" if "H i ?t = Some c'" for c'
  proof -
    have "c' \<in> M" "nd_votedFor n = c'" using that inv f(9) by (auto simp: net_inv_def ghosts_ok_def votes_ok_def)
    then show ?thesis using vote ids c(1) by auto
  qed
  have vo: "votes_ok H i ?t ?c" using f(9) same by (auto simp: votes_ok_def)
  obtain d where d: "n1 = n\<lparr>nd_votedFor := ?c, nd_stateDisk := d\<rparr>" using persist_shape [OF p] c(1) by auto
  have id': "nd_id n' = i" "nd_currentTerm n' = ?t" using n' d f(1) by auto
  show ?thesis
  proof (cases ok)
    case True
    let ?H = "cast_vote H i ?t ?c"
    have "votes_ok ?H i ?t ?c" using votes_ok_cast [OF f(9) same] .
    moreover have "hard_ok M ?H i d"
      using hard_ok_persist [OF p, of M ?H i] True f ids c calculation d by auto
    moreover have role: "nd_role n = Candidate \<Longrightarrow> ?c = i" using ni same by (auto simp: node_inv_def)
    ultimately have "node_inv M ?H S i n'"
      using n' True d ni c f leader_ok_mono [of M H i ?t ?H] cast_vote_grows [of H i ?t ?c] same
      by (auto simp: node_inv_def config_part_def log_ok_def)
    moreover have "ghosts_ok M ?H S" using inv f(2) c same by (intro ghosts_ok_cast) (auto simp: net_inv_def)
    moreover have "msg_inv M ?H out"
      using out id' True c by (auto simp: msg_inv_def vote_response_def msg_def cast_vote_def)
    moreover have "vote_msg c t v out \<longleftrightarrow> vote_msg c t v (nt_msgs s ! k)" for c t v
      using out id' True k by (auto simp: vote_msg_def vote_response_def msg_def)
    then have "count_votes c t v (drop_nth k (nt_msgs s) @ [out]) + (if v \<in> S c t then 1 else 0) \<le> 1" for c t v
      using net_inv_count [OF inv, of c t v] count_votes_drop_nth [OF k(1), of c t v] by simp
    ultimately have "step_ok M H S i (drop_nth k (nt_msgs s)) n' [out] ?H S"
      using cast_vote_grows [of H i ?t ?c, OF same] by (auto simp: step_ok_def cast_vote_def)
    then show ?thesis by blast
  next
    case False
    have "hard_ok M H i d" using hard_ok_persist [OF p, of M H i] f ids c vo d by auto
    then have "node_inv M H S i n'" using n' False d ni by (simp add: node_inv_def config_part_def log_ok_def)
    moreover have "plain [out]" using out False by (simp add: plain_def vote_response_def msg_def)
    ultimately have "step_ok M H S i (drop_nth k (nt_msgs s)) n' [out] H S"
      using count_votes_drop_nth [OF k(1)] by (intro step_ok_plain [OF inv]) simp_all
    then show ?thesis by blast
  qed
qed

lemma rv_decide_cases:
  assumes "rv_decide io m n = Some (n', out)"
  obtains "n' = n" "out = [(m_From m, vote_response n False)]"
  | ok n1 where "m_Term m = nd_currentTerm n" "nd_votedFor n = noVote \<or> nd_votedFor n = m_CandidateID m"
      "candidateUpToDateLocked (m_LastLogIndex m) (m_LastLogTerm m) n = Some True"
      "persistHardStateLocked io (n\<lparr>nd_votedFor := m_CandidateID m\<rparr>) = (ok, n1)"
      "n' = (if ok then n1 else n1\<lparr>nd_votedFor := nd_votedFor n\<rparr>)" "out = [(m_From m, vote_response n' ok)]"
proof (cases "m_Term m = nd_currentTerm n \<and> (nd_votedFor n = noVote \<or> nd_votedFor n = m_CandidateID m)")
  case True
  then obtain up where up: "candidateUpToDateLocked (m_LastLogIndex m) (m_LastLogTerm m) n = Some up"
    using assms by (auto simp: rv_decide_def bind_eq_Some_conv)
  obtain ok n1 where p: "persistHardStateLocked io (n\<lparr>nd_votedFor := m_CandidateID m\<rparr>) = (ok, n1)" by fastforce
  show ?thesis
  proof (cases up)
    case True
    then have "n' = (if ok then n1 else n1\<lparr>nd_votedFor := nd_votedFor n\<rparr>)" "out = [(m_From m, vote_response n' ok)]"
      using assms \<open>m_Term m = nd_currentTerm n \<and> _\<close> up p by (auto simp: rv_decide_def Let_def)
    then show ?thesis using \<open>m_Term m = nd_currentTerm n \<and> _\<close> up True by (intro that(2) [OF _ _ _ p]) auto
  next
    case False
    then show ?thesis using assms \<open>m_Term m = nd_currentTerm n \<and> _\<close> up by (intro that(1)) (auto simp: rv_decide_def)
  qed
next
  case False
  then have "rv_decide io m n = Some (n, [(m_From m, vote_response n False)])" unfolding rv_decide_def by (rule if_not_P)
  then show ?thesis using assms that(1) by simp
qed

lemma requestVote_step:
  assumes inv: "net_inv M H S s" and ni: "node_inv M H S i n" and ids: "\<And>j. j \<in> M \<Longrightarrow> node_id j \<and> j \<noteq> noVote"
    and k: "k < length (nt_msgs s)" "nt_msgs s ! k = (i, m)" "m_Type m = MsgRequestVote"
    and run: "handleRequestVote io1 io2 now m n = Some (n', out)"
  shows "\<exists>H' S'. step_ok M H S i (drop_nth k (nt_msgs s)) n' out H' S'"
proof -
  have no: "\<exists>H' S'. step_ok M H S i (drop_nth k (nt_msgs s)) n1 [(m_From m, vote_response n1 False)] H' S'" if "node_inv M H S i n1" for n1
    using step_ok_plain [OF inv that, of "[(m_From m, vote_response n1 False)]" "drop_nth k (nt_msgs s)"] count_votes_drop_nth [OF k(1)]
    by (auto simp: plain_def vote_response_def msg_def)
  show ?thesis
  proof (cases "\<not> m_LeaderTransfer m \<and> withinLeaderStickinessLocked now n")
    case True
    then show ?thesis using run no [OF ni] by (auto simp: handleRequestVote_def)
  next
    case False
    then obtain n1 where n1: "node_inv M H S i n1" "rv_decide io2 m n1 = Some (n', out)"
      using run ni node_inv_stepDown [OF ni, of "m_Term m" io1] by (cases "m_Term m > nd_currentTerm n") (auto simp: handleRequestVote_def)
    from n1(2) show ?thesis
    proof (cases rule: rv_decide_cases)
      case (2 ok n2)
      then show ?thesis using vote_step [OF inv n1(1) ids k 2(1,2) _ 2(4,5)] by simp
    qed (use no n1(1) in auto)
  qed
qed

text \<open>The candidate.\<close>

lemma tally_step:
  assumes inv: "net_inv M H S s" and ni: "node_inv M H S i n" and fin: "finite M"
    and k: "k < length (nt_msgs s)" "nt_msgs s ! k = (i, m)" "m_Type m = MsgRequestVoteResponse" "m_Term m = nd_currentTerm n" "m_VoteGranted m"
    and cand: "nd_role n = Candidate"
    and n1: "n1 = n\<lparr>nd_votesReceived := nd_votesReceived n + 1\<rparr>" and n': "n' = (if nd_votesReceived n1 \<ge> majority n1 then becomeLeaderLocked n1 else n1)"
  shows "\<exists>H' S'. step_ok M H S i (drop_nth k (nt_msgs s)) n' [] H' S'"
proof -
  let ?v = "m_From m" and ?t = "nd_currentTerm n" and ?ms = "drop_nth k (nt_msgs s)"
  note f = node_inv_fields [OF ni]
  have "msg_inv M H (i, m)" using inv k(1,2) by (metis net_inv_def nth_mem)
  then have v: "?v \<noteq> i" "H ?v ?t = Some i" using k by (auto simp: msg_inv_def)
  have gh: "ghosts_ok M H S" using inv by (simp add: net_inv_def)
  then have vM: "?v \<in> M" using v by (auto simp: ghosts_ok_def)
  have vm: "vote_msg i ?t ?v (nt_msgs s ! k)" using k by (simp add: vote_msg_def)
  then have new: "?v \<notin> S i ?t" "count_votes i ?t ?v ?ms = 0"
    using net_inv_count [OF inv, of i ?t ?v] count_votes_drop_nth [OF k(1), of i ?t ?v] by (auto split: if_splits)
  have old: "u \<in> M \<and> u \<noteq> i \<and> H u ?t = Some i" if "u \<in> S i ?t" for u using that gh unfolding ghosts_ok_def by blast
  have t2: "2 \<le> ?t" "H i ?t = Some i" "nd_votesReceived n = card (S i ?t) + 1" using ni cand unfolding node_inv_def by blast+
  define S' where "S' = S(i := (S i)(?t := insert ?v (S i ?t)))"
  have sub: "insert i (S' i ?t) \<subseteq> M" and votes: "\<forall>u\<in>insert i (S' i ?t). H u ?t = Some i" and i: "i \<notin> S' i ?t"
    using old f(2) v vM t2(2) by (auto simp: S'_def)
  have "finite (S i ?t)" using old by (intro finite_subset [OF _ fin]) blast
  then have card: "nd_votesReceived n1 = card (S' i ?t) + 1" using new t2(3) by (simp add: S'_def n1)
  have inv1: "node_inv M H S' i n1" using ni cand card by (simp add: node_inv_def n1 config_part_def log_ok_def)
  have "node_inv M H S' i n'"
  proof (cases "nd_votesReceived n1 \<ge> majority n1")
    case True
    have "card (insert i (S' i ?t)) = nd_votesReceived n1" using card i finite_subset [OF sub fin] by simp
    then have "card M div 2 + 1 \<le> card (insert i (S' i ?t))" using True f(3) by (simp add: majority_def n1)
    then have "leader_ok M H i ?t" using t2(1) sub votes unfolding leader_ok_def by blast
    then have "node_inv M H S' i (n1\<lparr>nd_role := Leader, nd_transferring := False\<rparr>)"
      using inv1 by (simp add: node_inv_def n1 config_part_def log_ok_def)
    moreover have "log_ok (n1\<lparr>nd_role := Leader, nd_transferring := False\<rparr>)" using f(7) by (simp add: n1 log_ok_def)
    ultimately show ?thesis using n' True node_inv_quiet peers_only_quiet [OF becomeLeader_peers] by fastforce
  qed (use n' inv1 in simp)
  moreover have "ghosts_ok M H S'" using gh v vM t2 by (auto simp: ghosts_ok_def S'_def)
  moreover have "count_votes c t u ?ms + (if u \<in> S' c t then 1 else 0) \<le> 1" for c t u
  proof (cases "c = i \<and> t = ?t \<and> u = ?v")
    case False
    then have "u \<in> S' c t \<longleftrightarrow> u \<in> S c t" by (auto simp: S'_def)
    then show ?thesis using net_inv_count [OF inv, of c t u] count_votes_drop_nth [OF k(1), of c t u] by simp
  qed (use new in simp)
  ultimately have "step_ok M H S i ?ms n' [] H S'" by (simp add: step_ok_def S'_def)
  then show ?thesis by blast
qed

lemma voteResponse_step:
  assumes inv: "net_inv M H S s" and ni: "node_inv M H S i n" and fin: "finite M"
    and k: "k < length (nt_msgs s)" "nt_msgs s ! k = (i, m)" "m_Type m = MsgRequestVoteResponse"
  shows "\<exists>H' S'. step_ok M H S i (drop_nth k (nt_msgs s)) (handleVoteResponse io m n) [] H' S'"
proof -
  have no: "\<exists>H' S'. step_ok M H S i (drop_nth k (nt_msgs s)) n1 [] H' S'" if "node_inv M H S i n1" for n1
    using step_ok_plain [OF inv that, of "[]" "drop_nth k (nt_msgs s)"] count_votes_drop_nth [OF k(1)] by (auto simp: plain_def)
  show ?thesis
  proof (cases "m_Term m = nd_currentTerm n \<and> nd_role n = Candidate \<and> m_VoteGranted m")
    case True
    let ?n1 = "n\<lparr>nd_votesReceived := nd_votesReceived n + 1\<rparr>"
    have "handleVoteResponse io m n = (if nd_votesReceived ?n1 \<ge> majority ?n1 then becomeLeaderLocked ?n1 else ?n1)"
      using True by (simp add: handleVoteResponse_def Let_def)
    then show ?thesis using tally_step [OF inv ni fin k _ _ _ refl] True by blast
  next
    case False
    then have "handleVoteResponse io m n = (if m_Term m > nd_currentTerm n then stepDownLocked io (m_Term m) n else n)"
      by (auto simp: handleVoteResponse_def)
    then show ?thesis using no [OF ni] no [OF node_inv_stepDown [OF ni]] by (cases "m_Term m > nd_currentTerm n") auto
  qed
qed

subsection \<open>The steps that touch no vote\<close>

lemma deriveConfig_quiet:
  assumes "log_ok n" "nd_config n = Some (nd_baseConfig n)"
  shows "quiet n (deriveConfigLocked n)"
  using assms by (simp add: deriveConfigLocked_def last_config_data log_ok_def quiet_def vote_part_def config_part_def)

lemma plain_append_response: "plain [(p, append_response n b x y)]"
  by (simp add: plain_def append_response_def msg_def)

lemma ae_finish_quiet:
  assumes "log_ok n" "nd_config n = Some (nd_baseConfig n)" "ae_finish m touched n = (n', out)"
  shows "quiet n n' \<and> plain out"
proof -
  define n1 where "n1 = (if touched then deriveConfigLocked n else n)"
  have n1: "quiet n n1" using deriveConfig_quiet [OF assms(1,2)] quiet_refl [OF assms(1)] by (simp add: n1_def)
  then have "quiet n1 (n1\<lparr>nd_commitIndex := c\<rparr>)" "quiet n1 n1" for c by (auto simp: quiet_def vote_part_def config_part_def log_ok_def)
  then have "quiet n1 n'" using assms(3) by (auto simp: ae_finish_def Let_def n1_def [symmetric])
  moreover have "plain out" using assms(3) by (auto simp: ae_finish_def Let_def plain_append_response)
  ultimately show ?thesis using quiet_trans [OF n1] by blast
qed

lemma ae_accept_quiet:
  assumes run: "ae_accept (\<lambda>_. (TruncateOk, AppendOk)) m n = Some (n', out)"
    and ok: "log_ok n" "nd_config n = Some (nd_baseConfig n)" "data_only (m_Entries m)" "rl_end (nd_log n) + length (m_Entries m) + 1 < 2 ^ 64"
  shows "quiet n n' \<and> plain out"
proof -
  obtain b where b: "rl_matchesPrev (m_PrevLogIndex m) (m_PrevLogTerm m) (nd_log n) = Some b"
    using run by (auto simp: ae_accept_def bind_eq_Some_conv)
  show ?thesis
  proof (cases b)
    case False
    then have "n' = n" "out = [(m_From m, append_response n False 0 (rl_lastIndex (nd_log n) + 1))]"
      using run b by (auto simp: ae_accept_def)
    then show ?thesis using quiet_refl [OF ok(1)] plain_append_response by simp
  next
    case True
    then obtain done1 n1 touched where e: "ae_entries (\<lambda>_. (TruncateOk, AppendOk)) (m_PrevLogIndex m) (m_Entries m) 0 n False = Some (done1, n1, touched)"
      using run b by (auto simp: ae_accept_def bind_eq_Some_conv)
    from ae_entries_quiet [OF this ok(1,3)] ok(4) have q: "done1" "quiet n n1" by simp_all
    then have "ae_finish m touched n1 = (n', out)" using run b True e by (simp add: ae_accept_def)
    moreover have "log_ok n1" "nd_config n1 = Some (nd_baseConfig n1)" using q(2) ok(2) by (simp_all add: quiet_def config_part_def)
    ultimately show ?thesis using ae_finish_quiet [of n1] quiet_trans [OF q(2)] by blast
  qed
qed

lemma appendEntries_inv:
  assumes ni: "node_inv M H S i n" and run: "handleAppendEntries io (\<lambda>_. (TruncateOk, AppendOk)) now m n = Some (n', out)"
    and ok: "data_only (m_Entries m)" "rl_end (nd_log n) + length (m_Entries m) + 1 < 2 ^ 64"
  shows "node_inv M H S i n' \<and> plain out"
proof (cases "m_Term m < nd_currentTerm n")
  case True
  then show ?thesis using run ni plain_append_response by (auto simp: handleAppendEntries_def)
next
  case False
  define n1 where "n1 = (if m_Term m > nd_currentTerm n then stepDownLocked io (m_Term m) n else n)"
  let ?n2 = "n1\<lparr>nd_role := Follower, nd_lastLeaderContact := Some now\<rparr>"
  have "node_inv M H S i n1" using ni node_inv_stepDown [OF ni] by (simp add: n1_def)
  then have n2: "node_inv M H S i ?n2" by (simp add: node_inv_def config_part_def log_ok_def)
  have "nd_log n1 = nd_log n" using stepDown_shape [of io "m_Term m" n] by (auto simp: n1_def)
  moreover have "ae_accept (\<lambda>_. (TruncateOk, AppendOk)) m ?n2 = Some (n', out)"
    using run False unfolding handleAppendEntries_def Let_def n1_def [symmetric] by simp
  ultimately have "quiet ?n2 n' \<and> plain out"
    using node_inv_fields [OF n2] ok by (intro ae_accept_quiet) auto
  then show ?thesis using node_inv_quiet [OF n2] by blast
qed

lemma plain_Nil [simp]: "plain []"
  by (simp add: plain_def)

lemma slFinish_inv:
  assumes ni: "node_inv M H S i n" and run: "sl_finish io AtomicOk CompactOk p t prev len resp n = Some (fin, n')" and ok: "rl_end (nd_log n) + 1 < 2 ^ 64"
  shows "node_inv M H S i n'"
proof -
  have q: "quiet n (onAppendSuccessLocked p x n)" "quiet n (onAppendRejectLocked p x n)" for x
    using node_inv_fields(7) [OF ni]
    by (auto simp: onAppendSuccessLocked_def onAppendRejectLocked_def Let_def quiet_def vote_part_def config_part_def log_ok_def)
  show ?thesis
  proof (cases "m_Term resp > nd_currentTerm n \<or> nd_role n \<noteq> Leader \<or> nd_currentTerm n \<noteq> t \<or> \<not> m_Success resp")
    case True
    then have "n' = stepDownLocked io (m_Term resp) n \<and> m_Term resp > nd_currentTerm n \<or> n' = n \<or> n' = onAppendRejectLocked p (m_ConflictHint resp) n"
      using run by (auto simp: sl_finish_def split: if_splits)
    then show ?thesis using ni node_inv_stepDown [OF ni] node_inv_quiet [OF ni q(2)] by blast
  next
    case False
    then obtain n1 where n1: "maybeAdvanceCommitLocked (onAppendSuccessLocked p (prev + of_nat len) n) = Some n1" "maybeCompactLocked AtomicOk CompactOk n1 = Some n'"
      using run by (auto simp: sl_finish_def bind_eq_Some_conv)
    have "quiet n n1" using maybeAdvanceCommit_quiet [OF _ n1(1)] q(1) quiet_trans by (metis quiet_def)
    moreover have "nd_log n1 = nd_log n" using maybeAdvanceCommit_shape [OF n1(1)] by (auto simp: onAppendSuccessLocked_def Let_def)
    ultimately have "quiet n1 n'" using maybeCompact_quiet [OF _ n1(2)] ok by (simp add: quiet_def)
    then show ?thesis using node_inv_quiet [OF node_inv_quiet [OF ni \<open>quiet n n1\<close>]] by blast
  qed
qed

lemma propose_quiet:
  assumes "log_ok n" "pa_propose AppendOk t k d n = Some (res, n')" "k \<noteq> EntryConfig" "length d < 2 ^ 32" "rl_end (nd_log n) + 1 < 2 ^ 64"
  shows "quiet n n'"
proof (cases "nd_role n \<noteq> Leader \<or> nd_currentTerm n \<noteq> t \<or> nd_transferring n")
  case True
  then have "pa_propose AppendOk t k d n = Some (Inl ErrNotLeader, n)" by (simp add: pa_propose_def)
  then show ?thesis using assms(1,2) quiet_refl by simp
next
  case False
  obtain n1 where n1: "log_append AppendOk t k d n = (True, n1)" "quiet n n1" using log_append_quiet [OF assms(1,3-5)] by blast
  then have "maybeAdvanceCommitLocked n1 = Some n'"
    using assms(2,3) False by (auto simp: pa_propose_def bind_eq_Some_conv)
  then show ?thesis using maybeAdvanceCommit_quiet n1(2) quiet_trans by (metis quiet_def)
qed

lemma apply_inv:
  assumes ni: "node_inv M H S i n" and run: "ac_done AtomicOk CompactOk idx store n = Some n'" and ok: "rl_end (nd_log n) + 1 < 2 ^ 64"
  shows "node_inv M H S i n'"
proof -
  let ?n1 = "n\<lparr>nd_store := store, nd_lastApplied := idx\<rparr>"
  have "node_inv M H S i ?n1" using ni by (simp add: node_inv_def config_part_def log_ok_def)
  moreover from this have "quiet ?n1 n'" using run ok maybeCompact_quiet [of ?n1 n'] by (simp add: ac_done_def node_inv_def)
  ultimately show ?thesis by (rule node_inv_quiet)
qed

lemma small_steps_quiet:
  assumes "log_ok n"
  shows "quiet n (snd (as_begin p n))" "quiet n (rs_finish p n)" "quiet n (snd (tl_begin p n))" "quiet n (tl_abort n)"
proof -
  show "quiet n (snd (as_begin p n))"
    using peers_only_quiet [OF ensurePeer_peers assms, of p] quiet_refl [OF assms] by (auto simp: as_begin_def)
qed (use assms in \<open>auto simp: rs_finish_def relinquishLeadershipLocked_def tl_begin_def tl_abort_def quiet_def vote_part_def config_part_def log_ok_def\<close>)

subsection \<open>Crashes and restarts\<close>

lemma crash_disk: "node_inv M H S i n \<Longrightarrow> disk_inv M H i (node_disk n)"
proof -
  assume ni: "node_inv M H S i n"
  obtain lf where lf: "nd_logFile n = Some lf" "paired (nd_log n, lf)" using node_inv_fields(7) [OF ni] by (auto simp: log_ok_def)
  have "lf_disk lf = log_bytes (rl_baseIndex (nd_log n)) (rl_baseTerm (nd_log n)) (rl_entries (nd_log n))"
    using lf_holds_disk [OF paired_holds(2) [OF lf(2)]] .
  moreover have "unat (rl_baseIndex (nd_log n)) + length (rl_entries (nd_log n)) < 2 ^ 64" "data_only (rl_entries (nd_log n))"
    using paired_holds(2) [OF lf(2)] node_inv_fields(7) [OF ni] by (simp_all add: lf_holds_def log_ok_def)
  ultimately show ?thesis using node_inv_fields [OF ni] lf(1) by (auto simp: disk_inv_def node_disk_def)
qed

lemma load_entries_all: "rl_entries (load_entries es l) = rl_entries l @ es"
    "rl_baseIndex (load_entries es l) = rl_baseIndex l" "rl_baseTerm (load_entries es l) = rl_baseTerm l"
  by (induction es arbitrary: l) (simp_all add: load_entries_def rl_append_def Let_def)

lemma load_entries_eq: "load_entries es (NewRaftLogWithBase b t) = \<lparr>rl_baseIndex = b, rl_baseTerm = t, rl_entries = es\<rparr>"
  using load_entries_all [of es "NewRaftLogWithBase b t"] by (cases "load_entries es (NewRaftLogWithBase b t)") (simp add: NewRaftLogWithBase_def)

lemma build_raft_shape:
  assumes op: "openRaftLogFile (rd_log d) sync = Inr (lf, es)" and h: "lf_holds lf b t es" "data_only es" "\<not> recovered < b"
    and lt: "rl_lastTerm \<lparr>rl_baseIndex = b, rl_baseTerm = t, rl_entries = es\<rparr> = Some lterm"
    and st: "startup_role (rd_log d = None \<and> rd_state d = None) i (openRaftStateFile (rd_state d)) lterm = (role, u, vote)"
    and sv: "sf_save io sync u vote (rd_state d) = (ok, sd)" and cf: "rd_config d = None"
  shows "\<not> ok \<Longrightarrow> build_raft io i members boot cfg sync store recovered d =
      Some (Inl BuildPersistState, d\<lparr>rd_log := Some (lf_disk lf), rd_state := sd\<rparr>)"
    and "ok \<Longrightarrow> \<exists>nd. build_raft io i members boot cfg sync store recovered d = Some (Inr nd, d\<lparr>rd_log := Some (lf_disk lf), rd_state := sd\<rparr>) \<and>
    nd_id nd = i \<and> config_part nd = (Some boot, boot, None) \<and> nd_stateFile nd \<and> nd_stateDisk nd = sd \<and> log_ok nd \<and>
    nd_role nd = role \<and> nd_currentTerm nd = u \<and> nd_votedFor nd = vote"
proof -
  have b: "lf_baseIndex lf = b" "lf_baseTerm lf = t" using h(1) by (simp_all add: lf_holds_def)
  have p: "paired (\<lparr>rl_baseIndex = b, rl_baseTerm = t, rl_entries = es\<rparr>, lf)"
    using h(1) by (intro pairedI [of _ b t es]) (auto simp: rl_holds_def lf_holds_def)
  note build = op h(2,3) lt st sv cf p build_raft_def Let_def b load_entries_eq last_config_data config_part_def log_ok_def readBaseConfigFile_def copyConfig_def
  show "build_raft io i members boot cfg sync store recovered d = Some (Inl BuildPersistState, d\<lparr>rd_log := Some (lf_disk lf), rd_state := sd\<rparr>)" if "\<not> ok"
    using that by (simp add: build)
  show "\<exists>nd. build_raft io i members boot cfg sync store recovered d = Some (Inr nd, d\<lparr>rd_log := Some (lf_disk lf), rd_state := sd\<rparr>) \<and>
    nd_id nd = i \<and> config_part nd = (Some boot, boot, None) \<and> nd_stateFile nd \<and> nd_stateDisk nd = sd \<and> log_ok nd \<and>
    nd_role nd = role \<and> nd_currentTerm nd = u \<and> nd_votedFor nd = vote" if "ok"
    using that by (simp add: build)
qed

end
