(* ===== verification/Raft_Safety.thy ===== *)
theory Raft_Safety
  imports Raft_Election
begin

section \<open>At most one leader per term\<close>

text \<open>
  Restarts and the initial state satisfy the invariant of \<open>Raft_Election\<close>, every event with a fixed
  membership preserves it, and the majorities of two leaders of one term intersect.
\<close>

subsection \<open>Restart and bootstrap\<close>

lemma open_data_log:
  assumes "data_only es" "unat b + length es < 2 ^ 64"
  obtains lf lterm where "openRaftLogFile (Some (log_bytes b t es)) sync = Inr (lf, es)" "lf_holds lf b t es"
    "lf_disk lf = log_bytes b t es" "rl_lastTerm \<lparr>rl_baseIndex = b, rl_baseTerm = t, rl_entries = es\<rparr> = Some lterm"
proof -
  have "list_all storable_entry es" using assms(1) by (auto simp: data_only_def list_all_iff)
  from openRaftLogFile_holds [OF this assms(2), of t sync]
  obtain lf where lf: "openRaftLogFile (Some (log_bytes b t es)) sync = Inr (lf, es)" "lf_holds lf b t es" by blast
  let ?l = "\<lparr>rl_baseIndex = b, rl_baseTerm = t, rl_entries = es\<rparr>"
  have "\<exists>lterm. rl_lastTerm ?l = Some lterm"
  proof (cases "es = []")
    case True
    then show ?thesis by (simp add: rl_lastTerm_def rl_term_def rl_lastIndex_def)
  next
    case False
    have "unat (b + of_nat (length es)) = unat b + length es" using assms(2) by (rule unat_add_u64)
    then have "b < b + of_nat (length es)" using False by (simp add: word_less_nat_alt)
    then show ?thesis
      using rl_holds_term [of ?l b t es "b + of_nat (length es)"] assms(2) \<open>unat (b + of_nat (length es)) = unat b + length es\<close>
      by (simp add: rl_holds_def rl_lastTerm_def rl_lastIndex_def)
  qed
  then show ?thesis using that lf lf_holds_disk [OF lf(2)] by blast
qed

lemma restart_inv:
  assumes d: "disk_inv M H i d" and ids: "\<And>j. j \<in> M \<Longrightarrow> node_id j"
    and run: "build_raft io i members M cfg sync store recovered d = Some (res, d')"
  shows "case res of Inl _ \<Rightarrow> disk_inv M H i d' | Inr n \<Rightarrow> node_inv M H S i n \<and> nd_role n = Follower"
proof -
  obtain b t es where log: "rd_log d = Some (log_bytes b t es)" "data_only es" "unat b + length es < 2 ^ 64"
    and hd: "hard_ok M H i (rd_state d)" and cf: "rd_config d = None" and i: "i \<in> M" using d by (auto simp: disk_inv_def)
  obtain lf lterm where lf: "openRaftLogFile (rd_log d) sync = Inr (lf, es)" "lf_holds lf b t es"
    "lf_disk lf = log_bytes b t es" "rl_lastTerm \<lparr>rl_baseIndex = b, rl_baseTerm = t, rl_entries = es\<rparr> = Some lterm"
    using open_data_log [OF log(2,3), of t sync] log(1) by metis
  have b: "lf_baseIndex lf = b" using lf(2) by (simp add: lf_holds_def)
  show ?thesis
  proof (cases "recovered < b")
    case True
    then have "res = Inl BuildRecoveredBelowBase" "d' = d\<lparr>rd_log := Some (log_bytes b t es)\<rparr>"
      using run lf by (simp_all add: build_raft_def Let_def b)
    then show ?thesis using d log by (auto simp: disk_inv_def)
  next
    case False
    let ?hs = "openRaftStateFile (rd_state d)"
    obtain u vote where st: "startup_role (rd_log d = None \<and> rd_state d = None) i ?hs lterm = (Follower, u, vote)"
      and uv: "1 \<le> u" "votes_ok H i u vote" "vote = noVote \<or> vote \<in> M"
      using hd log(1) votes_ok_later [of H i "hs_currentTerm ?hs" "hs_votedFor ?hs" lterm noVote]
      by (cases "lterm > hs_currentTerm ?hs") (auto simp: startup_role_def hard_ok_def Let_def)
    obtain ok sd where sv: "sf_save io sync u vote (rd_state d) = (ok, sd)" by fastforce
    have "node_id vote" using uv(3) ids by auto
    have "sd = Some (le_PutUint64 u @ put_id vote) \<or> sd = rd_state d"
      using write_atomic_cases [of io sync "le_PutUint64 u @ put_id vote" "rd_state d" ok sd] sv by (simp add: sf_save_def)
    then have hd': "hard_ok M H i sd"
      using hd uv openRaftStateFile_save [OF \<open>node_id vote\<close>, of u] by (auto simp: hard_ok_def)
    note shape = build_raft_shape [OF lf(1,2) log(2) False lf(4) st sv cf]
    show ?thesis
    proof (cases ok)
      case True
      from shape(2) [OF True, of members M cfg store] run obtain n where "res = Inr n" "nd_id n = i" "config_part n = (Some M, M, None)" "nd_stateFile n"
        "nd_stateDisk n = sd" "log_ok n" "nd_role n = Follower" "nd_currentTerm n = u" "nd_votedFor n = vote" by auto
      then show ?thesis using uv hd' i by (simp add: node_inv_def)
    next
      case False
      then have "res = Inl BuildPersistState" "d' = d\<lparr>rd_log := Some (lf_disk lf), rd_state := sd\<rparr>"
        using shape(1) [OF False, of members M cfg store] run by auto
      then show ?thesis using hd' log lf(3) i cf by (auto simp: disk_inv_def)
    qed
  qed
qed

definition boot_votes :: votes where
  "boot_votes v t = (if v = bootstrapLeader \<and> t = 1 then Some bootstrapLeader else None)"

definition no_tallies :: tallies where "no_tallies c t = {}"

lemma set_dense_ids: "set (dense_ids n) = fullConfig n"
  by (simp add: dense_ids_def fullConfig_def)

lemma ids_fullConfig: "N < 2 ^ 63 \<Longrightarrow> j \<in> fullConfig N \<Longrightarrow> node_id j \<and> j \<noteq> noVote"
  using node_id_members by blast

lemma bootstrap_node:
  assumes i: "i \<in> fullConfig N" and N: "N < 2 ^ 63"
  shows "\<exists>n d. build_raft AtomicOk i (dense_ids N) (fullConfig N) cfg sync store 0 \<lparr>rd_log = None, rd_state = None, rd_config = None\<rparr> = Some (Inr n, d) \<and>
     node_inv (fullConfig N) boot_votes no_tallies i (node_start n)"
proof -
  let ?d = "\<lparr>rd_log = None, rd_state = None, rd_config = None\<rparr>"
  obtain lf where op: "openRaftLogFile (rd_log ?d) sync = Inr (lf, [])" and p: "paired (NewRaftLog, lf)" using fresh_paired [of sync] by auto
  have h: "lf_holds lf 0 0 []" using paired_holds(2) [OF p] by (simp add: NewRaftLog_def)
  have lt: "rl_lastTerm \<lparr>rl_baseIndex = 0, rl_baseTerm = 0, rl_entries = []\<rparr> = Some 0" by (simp add: rl_lastTerm_def rl_term_def rl_lastIndex_def)
  define role vote where "role = (if i = bootstrapLeader then Leader else Follower)" and "vote = (if i = bootstrapLeader then bootstrapLeader else noVote)"
  have st: "startup_role (rd_log ?d = None \<and> rd_state ?d = None) i (openRaftStateFile (rd_state ?d)) 0 = (role, 1, vote)"
    by (simp add: startup_role_def role_def vote_def)
  have id: "node_id vote" using ids_fullConfig [OF N i] by (auto simp: vote_def)
  have sv: "sf_save AtomicOk sync 1 vote (rd_state ?d) = (True, Some (le_PutUint64 1 @ put_id vote))" by (simp add: sf_save_def write_atomic_eq)
  have vo: "votes_ok boot_votes i 1 vote" by (auto simp: votes_ok_def boot_votes_def vote_def)
  have vm: "vote = noVote \<or> vote \<in> fullConfig N" using i by (auto simp: vote_def)
  have hd: "hard_ok (fullConfig N) boot_votes i (Some (le_PutUint64 1 @ put_id vote))"
    using vo vm openRaftStateFile_save [OF id, of 1] by (simp add: hard_ok_def)
  from build_raft_shape(2) [OF op h _ _ lt st sv, of 0 "dense_ids N" "fullConfig N" cfg store]
  obtain n where n: "build_raft AtomicOk i (dense_ids N) (fullConfig N) cfg sync store 0 ?d = Some (Inr n, ?d\<lparr>rd_log := Some (lf_disk lf), rd_state := Some (le_PutUint64 1 @ put_id vote)\<rparr>)"
    "nd_id n = i" "config_part n = (Some (fullConfig N), fullConfig N, None)" "nd_stateFile n" "nd_stateDisk n = Some (le_PutUint64 1 @ put_id vote)"
    "log_ok n" "nd_role n = role" "nd_currentTerm n = 1" "nd_votedFor n = vote" by auto
  have "role \<noteq> Candidate" "role = Leader \<Longrightarrow> i = bootstrapLeader" by (simp_all add: role_def split: if_splits)
  then have inv: "node_inv (fullConfig N) boot_votes no_tallies i n"
    using n vo vm hd i by (simp add: node_inv_def leader_ok_def)
  have "node_inv (fullConfig N) boot_votes no_tallies i (node_start n)"
  proof (cases "nd_role n = Leader")
    case True
    have "node_inv (fullConfig N) boot_votes no_tallies i (n\<lparr>nd_role := Leader, nd_transferring := False\<rparr>)"
      using inv True by (simp add: node_inv_def config_part_def log_ok_def)
    then show ?thesis
      using True node_inv_quiet [OF _ peers_only_quiet [OF becomeLeader_peers]] by (fastforce simp: node_start_def node_inv_def)
  qed (use inv in \<open>simp add: node_start_def\<close>)
  then show ?thesis using n(1) by blast
qed

lemma new_cluster_inv:
  assumes "new_cluster N cfg sync store = Some s" "N < 2 ^ 63"
  shows "net_inv (fullConfig N) boot_votes no_tallies s"
proof -
  let ?b = "\<lambda>i. build_raft AtomicOk i (dense_ids N) (fullConfig N) cfg sync store 0 \<lparr>rd_log = None, rd_state = None, rd_config = None\<rparr>"
  have s: "nt_msgs s = []" "nt_down s = Map.empty" "1 \<le> N"
    "\<And>i. nt_up s i = (if i \<in> fullConfig N then (case ?b i of Some (Inr nd, _) \<Rightarrow> Some (node_start nd) | _ \<Rightarrow> None) else None)"
    using assms(1) by (auto simp: new_cluster_def Let_def set_dense_ids split: if_splits)
  have "node_inv (fullConfig N) boot_votes no_tallies i n" if "nt_up s i = Some n" for i n
    using that s(4) [of i] bootstrap_node [OF _ assms(2), of i cfg sync store] by (auto split: if_splits)
  moreover have "bootstrapLeader \<in> fullConfig N" using s(3) by (force simp: bootstrapLeader_def fullConfig_def)
  ultimately show ?thesis using s(1,2) by (auto simp: net_inv_def ghosts_ok_def boot_votes_def no_tallies_def split: if_splits)
qed

subsection \<open>Every event preserves the invariant\<close>

text \<open>The events of a cluster with a fixed membership whose clients send entries below 4 GiB.\<close>

primrec fixed_event :: "event \<Rightarrow> bool" where
  "fixed_event (EvTimeout i io) = True"
| "fixed_event (EvDeliver k io1 io2 now) = True"
| "fixed_event (EvDrop k) = True"
| "fixed_event (EvSend i p) = True"
| "fixed_event (EvRespond i p k io) = True"
| "fixed_event (EvGiveUp i p) = True"
| "fixed_event (EvPropose i d) = (length d < 2 ^ 32)"
| "fixed_event (EvRemove i p) = False"
| "fixed_event (EvLearner i p) = True"
| "fixed_event (EvAdd i p) = False"
| "fixed_event (EvRelinquish i) = True"
| "fixed_event (EvApply i) = True"
| "fixed_event (EvTransfer i p) = True"
| "fixed_event (EvDirect i p) = True"
| "fixed_event (EvAbort i) = True"
| "fixed_event (EvCrash i) = True"
| "fixed_event (EvRestart i io r) = True"

lemma net_inv_quiet_step:
  assumes "net_inv M H S s" "nt_up s i = Some n" "node_inv M H S i n'" "plain out"
  shows "net_inv M H S (put_node i n' out s)"
proof -
  have "step_ok M H S i (nt_msgs s) n' out H S" by (rule step_ok_plain [OF assms(1,3,4) order_refl])
  from net_inv_step [OF assms(1,2) subset_refl this, of "nt_rounds s"] show ?thesis by simp
qed

lemma set_drop_nth: "set (drop_nth k xs) \<subseteq> set xs"
  by (auto simp: drop_nth_def dest: in_set_takeD in_set_dropD)

lemma net_inv_drop:
  assumes inv: "net_inv M H S s" and k: "k < length (nt_msgs s)"
  shows "net_inv M H S (s\<lparr>nt_msgs := drop_nth k (nt_msgs s), nt_rounds := r\<rparr>)"
proof -
  have "count_votes c t v (drop_nth k (nt_msgs s)) + (if v \<in> S c t then 1 else 0) \<le> 1" for c t v
    using net_inv_count [OF inv, of c t v] count_votes_drop_nth [OF k, of c t v] by simp
  moreover have "msg_inv M H x" if "x \<in> set (drop_nth k (nt_msgs s))" for x
    using that inv set_drop_nth [of k "nt_msgs s"] by (auto simp: net_inv_def)
  ultimately show ?thesis using inv by (simp add: net_inv_def)
qed

lemma net_inv_rounds: "net_inv M H S (s\<lparr>nt_rounds := r\<rparr>) = net_inv M H S s"
  by (simp add: net_inv_def)

lemma deliver_inv:
  assumes inv: "net_inv M H S s" and wrap: "no_wrap s" and M: "finite M" "\<And>j. j \<in> M \<Longrightarrow> node_id j \<and> j \<noteq> noVote"
    and k: "k < length (nt_msgs s)" "nt_msgs s ! k = (i, m)" and up: "nt_up s i = Some n" and run: "node_deliver io1 io2 now m n = Some (n', out)"
  shows "\<exists>H' S'. net_inv M H' S' (put_node i n' out (s\<lparr>nt_msgs := drop_nth k (nt_msgs s)\<rparr>))"
proof -
  let ?ms = "drop_nth k (nt_msgs s)"
  have ni: "node_inv M H S i n" using inv up by (auto simp: net_inv_def)
  have mi: "(i, m) \<in> set (nt_msgs s)" using k by (metis nth_mem)
  have less: "count_votes c t v ?ms \<le> count_votes c t v (nt_msgs s)" for c t v using count_votes_drop_nth [OF k(1)] by simp
  have "\<exists>H' S'. step_ok M H S i ?ms n' out H' S'"
  proof (cases "m_Type m")
    case MsgAppendEntries
    have "data_only (m_Entries m)" using inv mi MsgAppendEntries by (auto simp: net_inv_def msg_inv_def)
    moreover have "rl_end (nd_log n) < 2 ^ 63" "length (m_Entries (snd (i, m))) < 2 ^ 63" using wrap up mi unfolding no_wrap_def by blast+
    then have "rl_end (nd_log n) + length (m_Entries m) + 1 < 2 ^ 64" by simp
    ultimately have "node_inv M H S i n' \<and> plain out"
      using appendEntries_inv [OF ni] run MsgAppendEntries by (simp add: node_deliver_def)
    then show ?thesis using step_ok_plain [OF inv _ _ less] by blast
  next
    case MsgRequestVote
    then show ?thesis using requestVote_step [OF inv ni M(2) k] run by (simp add: node_deliver_def)
  next
    case MsgRequestVoteResponse
    then show ?thesis using voteResponse_step [OF inv ni M(1) k] run by (auto simp: node_deliver_def)
  next
    case MsgTimeoutNow
    then have "handleTimeoutNow io1 m n = Some (n', out)" using run by (simp add: node_deliver_def)
    then consider "n' = n" "out = []" | "maybeStartElection io1 True n = Some (n', out)"
      by (cases "m_Term m < nd_currentTerm n") (auto simp: handleTimeoutNow_def)
    then show ?thesis
    proof cases
      case 1
      then show ?thesis using step_ok_plain [OF inv ni plain_Nil less] by blast
    next
      case 2
      have "nd_currentTerm n < - 1" using wrap up by (simp add: no_wrap_def)
      from startElection_step [OF inv ni _ this 2 less] M(2) show ?thesis by blast
    qed
  qed (use run in \<open>simp_all add: node_deliver_def\<close>)
  then obtain H' S' where "step_ok M H S i ?ms n' out H' S'" by blast
  from net_inv_step [OF inv up set_drop_nth this, of "nt_rounds s"] show ?thesis by auto
qed

lemma send_inv:
  assumes inv: "net_inv M H S s" and up: "nt_up s i = Some n" and run: "sl_begin p n = Some (RoundSend m)"
  shows "net_inv M H S (s\<lparr>nt_msgs := nt_msgs s @ [(p, m)], nt_rounds := r\<rparr>)"
proof -
  have ni: "node_inv M H S i n" using inv up by (auto simp: net_inv_def)
  have "data_only (m_Entries m)" "m_Type m = MsgAppendEntries"
    using run node_inv_fields(7) [OF ni] by (auto simp: sl_begin_def Let_def bind_eq_Some_conv entries_from_def msg_def log_ok_def intro: data_only_drop split: if_splits)
  then have "plain [(p, m)]" by (simp add: plain_def)
  from step_ok_plain [OF inv ni this, of "nt_msgs s"] have "step_ok M H S i (nt_msgs s) n [(p, m)] H S" by simp
  from net_inv_step [OF inv up subset_refl this, of r] show ?thesis using up by (simp add: put_node_def map_upd_triv net_inv_def)
qed

lemma crash_inv:
  assumes inv: "net_inv M H S s" and up: "nt_up s i = Some n"
  shows "net_inv M H S (s\<lparr>nt_up := (nt_up s)(i := None), nt_down := (nt_down s)(i \<mapsto> \<lparr>st_disk = node_disk n, st_store = x, st_applied = y\<rparr>), nt_rounds := r\<rparr>)"
proof -
  have "disk_inv M H i (node_disk n)" using inv up crash_disk [of M H S i n] by (simp add: net_inv_def)
  then show ?thesis using inv by (simp add: net_inv_def)
qed

lemma rebuild_inv:
  assumes inv: "net_inv M H S s" and d: "nt_down s i = Some d" and ids: "\<And>j. j \<in> M \<Longrightarrow> node_id j"
    and run: "build_raft io i members M cfg sync store recovered (st_disk d) = Some (res, disk)"
  shows "case res of Inl _ \<Rightarrow> net_inv M H S (s\<lparr>nt_down := (nt_down s)(i \<mapsto> d\<lparr>st_disk := disk\<rparr>)\<rparr>)
    | Inr n \<Rightarrow> net_inv M H S (put_node i (node_start n) [] (s\<lparr>nt_down := (nt_down s)(i := None)\<rparr>))"
proof -
  have up: "nt_up s i = None" and di: "disk_inv M H i (st_disk d)" using inv d by (auto simp: net_inv_def)
  note r = restart_inv [OF di ids run, of S]
  show ?thesis
  proof (cases res)
    case (Inl e)
    then show ?thesis using r inv up by (auto simp: net_inv_def)
  next
    case (Inr n)
    then have "node_inv M H S i (node_start n)" using r by (simp add: node_start_def)
    then show ?thesis using Inr inv up by (auto simp: net_inv_def put_node_def)
  qed
qed

lemma respond_inv:
  assumes inv: "net_inv M H S s" and k: "k < length (nt_msgs s)" and up: "nt_up s i = Some n" and wrap: "no_wrap s"
    and run: "sl_finish io AtomicOk CompactOk p t prev len m n = Some (fin, n')"
  shows "net_inv M H S (put_node i n' [] (s\<lparr>nt_msgs := drop_nth k (nt_msgs s), nt_rounds := r\<rparr>))"
proof -
  have ni: "node_inv M H S i n" using inv up by (simp add: net_inv_def)
  have "rl_end (nd_log n) < 2 ^ 63" using wrap up unfolding no_wrap_def by blast
  then have "node_inv M H S i n'" using slFinish_inv [OF ni run] by simp
  moreover have "net_inv M H S (s\<lparr>nt_msgs := drop_nth k (nt_msgs s), nt_rounds := r\<rparr>)" by (rule net_inv_drop [OF inv k])
  ultimately show ?thesis using up by (intro net_inv_quiet_step [where n = n]) simp_all
qed

lemma exec_event_inv:
  assumes run: "exec_event members cfg sync ap ev s = Some s'" and ev: "fixed_event ev" and inv: "net_inv (set members) H S s" and wrap: "no_wrap s"
    and ids: "\<And>j. j \<in> set members \<Longrightarrow> node_id j \<and> j \<noteq> noVote"
  shows "\<exists>H' S'. net_inv (set members) H' S' s'"
proof -
  let ?M = "set members"
  have ni: "node_inv ?M H S i n" if "nt_up s i = Some n" for i n using inv that by (simp add: net_inv_def)
  have small: "rl_end (nd_log n) + 1 < 2 ^ 64" "nd_currentTerm n < - 1" if "nt_up s i = Some n" for i n
  proof -
    have "rl_end (nd_log n) < 2 ^ 63" "nd_currentTerm n < - 1" using wrap that unfolding no_wrap_def by blast+
    then show "rl_end (nd_log n) + 1 < 2 ^ 64" "nd_currentTerm n < - 1" by simp_all
  qed
  have quiet: "\<exists>H' S'. net_inv ?M H' S' (put_node i n' out s)" if "nt_up s i = Some n" "quiet n n'" "plain out" for i n n' out
    using net_inv_quiet_step [OF inv that(1) node_inv_quiet [OF ni [OF that(1)] that(2)] that(3)] by blast
  have lo: "log_ok n" if "nt_up s i = Some n" for i n using node_inv_fields(7) [OF ni [OF that]] .
  show ?thesis
  proof (cases ev)
    case (EvTimeout i io)
    then obtain n n' out where n: "nt_up s i = Some n" "maybeStartElection io False n = Some (n', out)" "s' = put_node i n' out s"
      using run by (auto simp: exec_event_def bind_eq_Some_conv)
    from startElection_step [OF inv ni [OF n(1)] _ small(2) [OF n(1)] n(2) order_refl] ids
    obtain H' S' where "step_ok ?M H S i (nt_msgs s) n' out H' S'" by blast
    from net_inv_step [OF inv n(1) subset_refl this, of "nt_rounds s"] show ?thesis using n(3) by auto
  next
    case (EvDeliver k io1 io2 now)
    then obtain i m n n' out where k: "k < length (nt_msgs s)" "nt_msgs s ! k = (i, m)" "nt_up s i = Some n" "node_deliver io1 io2 now m n = Some (n', out)"
      "s' = put_node i n' out (s\<lparr>nt_msgs := drop_nth k (nt_msgs s)\<rparr>)"
      using run by (auto simp: exec_event_def bind_eq_Some_conv split: if_splits prod.splits)
    then show ?thesis using deliver_inv [OF inv wrap _ ids k(1-4)] by simp
  next
    case (EvDrop k)
    then show ?thesis using run net_inv_drop [OF inv, of k "nt_rounds s"] by (auto simp: exec_event_def split: if_splits)
  next
    case (EvSend i p)
    then obtain n r where n: "nt_up s i = Some n" "sl_begin p n = Some r"
      and s': "(case r of RoundSend m \<Rightarrow> Some (s\<lparr>nt_msgs := nt_msgs s @ [(p, m)],
          nt_rounds := (nt_rounds s)((i, p) \<mapsto> (m_Term m, m_PrevLogIndex m, length (m_Entries m)))\<rparr>) | RoundIdle \<Rightarrow> Some s | RoundSnapshot t \<Rightarrow> Some s) = Some s'"
      using run by (auto simp: exec_event_def bind_eq_Some_conv split: if_splits)
    show ?thesis
    proof (cases r)
      case (RoundSend m)
      then show ?thesis using s' n send_inv [OF inv n(1)] by fastforce
    qed (use s' inv in auto)
  next
    case (EvRespond i p k io)
    then obtain m n t prev len fin n' r where k: "k < length (nt_msgs s)" "nt_up s i = Some n" "sl_finish io AtomicOk CompactOk p t prev len m n = Some (fin, n')"
      "s' = put_node i n' [] (s\<lparr>nt_msgs := drop_nth k (nt_msgs s), nt_rounds := r\<rparr>)"
      using run by (auto simp: exec_event_def bind_eq_Some_conv split: if_splits prod.splits)
    then show ?thesis using respond_inv [OF inv k(1,2) wrap k(3)] by blast
  next
    case (EvGiveUp i p)
    then have "net_inv ?M H S s'" using run inv by (auto simp: exec_event_def net_inv_rounds split: if_splits)
    then show ?thesis by blast
  next
    case (EvPropose i d)
    then obtain n res n' where n: "nt_up s i = Some n" "pa_propose AppendOk (nd_currentTerm n) EntryData d n = Some (res, n')" "s' = put_node i n' [] s"
      using run by (auto simp: exec_event_def propose_def bind_eq_Some_conv)
    have "quiet n n'" using propose_quiet [OF lo [OF n(1)] n(2)] EvPropose ev small(1) [OF n(1)] by (simp add: EntryData_def EntryConfig_def)
    then show ?thesis using quiet [OF n(1)] n(3) by simp
  next
    case (EvLearner i p)
    then show ?thesis using run quiet small_steps_quiet(1) [OF lo] by (auto simp: exec_event_def bind_eq_Some_conv)
  next
    case (EvRelinquish i)
    then show ?thesis using run quiet small_steps_quiet(2) [OF lo] by (auto simp: exec_event_def bind_eq_Some_conv)
  next
    case (EvApply i)
    then obtain n nxt where n: "nt_up s i = Some n" "ac_next n = Some nxt"
      and s': "(case nxt of None \<Rightarrow> Some s | Some (idx, kind, entry) \<Rightarrow>
          do { store \<leftarrow> ap idx kind entry (nd_store n); n' \<leftarrow> ac_done AtomicOk CompactOk idx store n; Some (put_node i n' [] s) }) = Some s'"
      using run by (auto simp: exec_event_def bind_eq_Some_conv)
    have "s' = s \<or> (\<exists>idx store n'. ac_done AtomicOk CompactOk idx store n = Some n' \<and> s' = put_node i n' [] s)"
      using s' by (cases nxt) (simp, fastforce simp: bind_eq_Some_conv)
    then show ?thesis using inv apply_inv [OF ni [OF n(1)] _ small(1) [OF n(1)]] net_inv_quiet_step [OF inv n(1)] plain_Nil by blast
  next
    case (EvTransfer i p)
    then show ?thesis using run quiet small_steps_quiet(3) [OF lo] by (auto simp: exec_event_def bind_eq_Some_conv)
  next
    case (EvDirect i p)
    then obtain n where n: "nt_up s i = Some n" "s' = put_node i n [(p, tl_directive (nd_currentTerm n) n)] s"
      using run by (auto simp: exec_event_def bind_eq_Some_conv split: if_splits)
    then show ?thesis using quiet [OF n(1) quiet_refl [OF lo [OF n(1)]]] by (simp add: plain_def tl_directive_def msg_def)
  next
    case (EvAbort i)
    then show ?thesis using run quiet small_steps_quiet(4) [OF lo] by (auto simp: exec_event_def bind_eq_Some_conv)
  next
    case (EvCrash i)
    then obtain n where "nt_up s i = Some n" "s' = s\<lparr>nt_up := (nt_up s)(i := None),
        nt_down := (nt_down s)(i \<mapsto> \<lparr>st_disk = node_disk n, st_store = nd_store n, st_applied = nd_lastApplied n\<rparr>),
        nt_rounds := (\<lambda>(j, p). if j = i then None else nt_rounds s (j, p))\<rparr>"
      using run by (auto simp: exec_event_def bind_eq_Some_conv)
    then show ?thesis using crash_inv [OF inv] by blast
  next
    case (EvRestart i io recovered)
    then obtain d res disk where d: "nt_down s i = Some d" "build_raft io i members ?M cfg sync (st_store d) recovered (st_disk d) = Some (res, disk)"
      and s': "(case res of Inl _ \<Rightarrow> Some (s\<lparr>nt_down := (nt_down s)(i \<mapsto> d\<lparr>st_disk := disk\<rparr>)\<rparr>)
        | Inr n \<Rightarrow> Some (put_node i (node_start n) [] (s\<lparr>nt_down := (nt_down s)(i := None)\<rparr>))) = Some s'"
      using run by (auto simp: exec_event_def bind_eq_Some_conv split: if_splits)
    from rebuild_inv [OF inv d(1) _ d(2)] ids have "net_inv ?M H S s'" using s' by (cases res) auto
    then show ?thesis by blast
  qed (use ev in simp_all)
qed

subsection \<open>Runs\<close>

text \<open>
  The runs of an \<open>N\<close>-node cluster with a fixed membership, as long as no counter reaches its end.  \<open>ap\<close> is
  the application of an entry to the store.
\<close>

inductive cluster_run ::
  "nat \<Rightarrow> ClusterConfig \<Rightarrow> bool \<Rightarrow> (u64 \<Rightarrow> EntryKind \<Rightarrow> bytes \<Rightarrow> 'db \<Rightarrow> 'db option) \<Rightarrow> 'db net \<Rightarrow> bool"
  for N cfg sync ap where
  start: "new_cluster N cfg sync store = Some s \<Longrightarrow> no_wrap s \<Longrightarrow> cluster_run N cfg sync ap s"
| step: "cluster_run N cfg sync ap s \<Longrightarrow> fixed_event ev \<Longrightarrow> exec_event (dense_ids N) cfg sync ap ev s = Some s' \<Longrightarrow> no_wrap s' \<Longrightarrow>
    cluster_run N cfg sync ap s'"

lemma cluster_run_inv:
  assumes "cluster_run N cfg sync ap s" "N < 2 ^ 63"
  shows "no_wrap s \<and> (\<exists>H S. net_inv (fullConfig N) H S s)"
  using assms(1)
proof induction
  case (start store s)
  then show ?case using new_cluster_inv [OF start(1) assms(2)] by blast
next
  case (step s ev s')
  then obtain H S where "net_inv (set (dense_ids N)) H S s" by (auto simp: set_dense_ids)
  from exec_event_inv [OF step(3,2) this] show ?case
    using step ids_fullConfig [OF assms(2)] by (auto simp: set_dense_ids)
qed

lemma majorities_meet:
  assumes "finite M" "A \<subseteq> M" "B \<subseteq> M" "card M div 2 + 1 \<le> card A" "card M div 2 + 1 \<le> card B"
  shows "\<exists>x. x \<in> A \<and> x \<in> B"
proof (rule ccontr)
  assume "\<not> ?thesis"
  then have "A \<inter> B = {}" by blast
  then have "card A + card B = card (A \<union> B)"
    using assms finite_subset card_Un_disjoint [of A B] by (metis)
  also have "\<dots> \<le> card M" using assms by (intro card_mono) auto
  finally show False using assms(4,5) by linarith
qed

lemma leader_inv: "net_inv M H S s \<Longrightarrow> nt_up s i = Some n \<Longrightarrow> nd_role n = Leader \<Longrightarrow> leader_ok M H i (nd_currentTerm n)"
  by (simp add: net_inv_def node_inv_def)

text \<open>C21: At most one leader per term.  In every run of a cluster with a fixed membership (elections,
  leadership transfers, lost and reordered messages, crashes, restarts, failing saves of the hard state at
  any step) two leaders of the same term are the same node.\<close>

theorem election_safety:
  assumes "cluster_run N cfg sync ap s" "N < 2 ^ 63"
    and "nt_up s i = Some a" "nt_up s j = Some b" "nd_role a = Leader" "nd_role b = Leader" "nd_currentTerm a = nd_currentTerm b"
  shows "i = j"
proof -
  obtain H S where inv: "net_inv (fullConfig N) H S s" using cluster_run_inv [OF assms(1,2)] by blast
  let ?M = "fullConfig N"
  have "leader_ok ?M H i (nd_currentTerm a)" "leader_ok ?M H j (nd_currentTerm a)"
    using leader_inv [OF inv assms(3,5)] leader_inv [OF inv assms(4,6)] assms(7) by simp_all
  moreover have "\<not> (2 :: u64) \<le> 1" by (simp add: word_le_nat_alt)
  ultimately consider "i = bootstrapLeader" "j = bootstrapLeader"
    | A B where "A \<subseteq> ?M" "B \<subseteq> ?M" "card ?M div 2 + 1 \<le> card A" "card ?M div 2 + 1 \<le> card B"
      "\<forall>v\<in>A. H v (nd_currentTerm a) = Some i" "\<forall>v\<in>B. H v (nd_currentTerm a) = Some j"
    unfolding leader_ok_def by metis
  then show ?thesis
  proof cases
    case 2
    then obtain v where "v \<in> A" "v \<in> B" using majorities_meet [of ?M A B] by (auto simp: fullConfig_def)
    then show ?thesis using 2(5,6) by (metis option.inject)
  qed simp
qed

subsection \<open>A committed entry that is lost\<close>

text \<open>Executable runs: every event must be admissible and keep the counters small on the members.\<close>

definition small_net :: "NodeID list \<Rightarrow> 'db net \<Rightarrow> bool" where
  "small_net members s \<longleftrightarrow>
     list_all (\<lambda>i. case nt_up s i of None \<Rightarrow> True | Some n \<Rightarrow> nd_currentTerm n < - 1 \<and> rl_end (nd_log n) < 2 ^ 63) members \<and>
     list_all (\<lambda>x. length (m_Entries (snd x)) < 2 ^ 63) (nt_msgs s)"

primrec exec_events ::
  "nat \<Rightarrow> ClusterConfig \<Rightarrow> bool \<Rightarrow> (u64 \<Rightarrow> EntryKind \<Rightarrow> bytes \<Rightarrow> 'db \<Rightarrow> 'db option) \<Rightarrow> event list \<Rightarrow> 'db net \<Rightarrow> 'db net option" where
  "exec_events N cfg sync ap [] s = Some s"
| "exec_events N cfg sync ap (ev # evs) s =
     (case exec_event (dense_ids N) cfg sync ap ev s of
        None \<Rightarrow> None
      | Some s' \<Rightarrow> if fixed_event ev \<and> small_net (dense_ids N) s' then exec_events N cfg sync ap evs s' else None)"

lemma small_net_no_wrap:
  assumes "net_inv (fullConfig N) H S s" "small_net (dense_ids N) s"
  shows "no_wrap s"
proof -
  have "i \<in> set (dense_ids N)" if "nt_up s i = Some n" for i n
    using that assms(1) by (auto simp: net_inv_def node_inv_def set_dense_ids)
  then show ?thesis using assms(2) by (fastforce simp: small_net_def no_wrap_def list_all_iff split: option.splits)
qed

lemma exec_events_run:
  assumes "exec_events N cfg sync ap evs s = Some s'" "cluster_run N cfg sync ap s" "N < 2 ^ 63"
  shows "cluster_run N cfg sync ap s'"
  using assms(1,2)
proof (induction evs arbitrary: s)
  case (Cons ev evs)
  then obtain s1 where s1: "exec_event (dense_ids N) cfg sync ap ev s = Some s1" "fixed_event ev" "small_net (dense_ids N) s1" "exec_events N cfg sync ap evs s1 = Some s'"
    by (auto split: option.splits if_splits)
  obtain H S where "no_wrap s" "net_inv (set (dense_ids N)) H S s" using cluster_run_inv [OF Cons.prems(2) assms(3)] by (auto simp: set_dense_ids)
  from exec_event_inv [OF s1(1,2) this(2,1)] obtain H' S' where "net_inv (fullConfig N) H' S' s1"
    using ids_fullConfig [OF assms(3)] by (auto simp: set_dense_ids)
  then have "no_wrap s1" using s1(3) by (rule small_net_no_wrap)
  then show ?case using Cons.IH [OF s1(4)] cluster_run.step [OF Cons.prems(2) s1(2,1)] by blast
qed simp

lemma start_run:
  assumes "new_cluster N cfg sync store = Some s" "small_net (dense_ids N) s" "N < 2 ^ 63"
  shows "cluster_run N cfg sync ap s"
  using cluster_run.start [OF assms(1)] small_net_no_wrap [OF new_cluster_inv [OF assms(1,3)] assms(2)] by blast

text \<open>A store that records what is applied to it, and where.\<close>

definition record_entry :: "u64 \<Rightarrow> EntryKind \<Rightarrow> bytes \<Rightarrow> (u64 \<times> bytes) list \<Rightarrow> (u64 \<times> bytes) list option" where
  "record_entry idx kind entry applied = Some (applied @ [(idx, entry)])"

text \<open>
  The leader's heartbeat to node 1 is answered late: the round gives up, a client proposes, the next round
  sends the entry to node 1, loses the message and takes the late answer for its own.  The leader commits,
  applies and crashes; node 1 is elected by node 2 and commits another entry at the same index.
\<close>

definition late_ack :: "event list" where
  "late_ack =
     [EvSend 0 1, EvDeliver 0 AtomicOk AtomicOk 0, EvGiveUp 0 1, EvPropose 0 [7], EvSend 0 1, EvRespond 0 1 0 AtomicOk, EvDrop 0,
      EvApply 0, EvCrash 0, EvTimeout 1 AtomicOk, EvDeliver 1 AtomicOk AtomicOk 0, EvDeliver 1 AtomicOk AtomicOk 0,
      EvPropose 1 [9], EvSend 1 2, EvDeliver 1 AtomicOk AtomicOk 0, EvRespond 1 2 1 AtomicOk, EvApply 1]"

lemma late_ack_result:
  "case new_cluster 3 DefaultConfig True [] of
     None \<Rightarrow> False
   | Some s0 \<Rightarrow> small_net (dense_ids 3) s0 \<and>
       (case exec_events 3 DefaultConfig True record_entry late_ack s0 of
          None \<Rightarrow> False
        | Some s \<Rightarrow>
            (case nt_up s 1 of None \<Rightarrow> False
             | Some n \<Rightarrow> nd_role n = Leader \<and> nd_currentTerm n = 2 \<and> nd_commitIndex n = 1 \<and> nd_store n = [(1, [9])]) \<and>
            (case nt_down s 0 of None \<Rightarrow> False | Some d \<Rightarrow> st_applied d = 1 \<and> st_store d = [(1, [7])]))"
  by code_simp

lemma late_ack_run:
  obtains s n d where "cluster_run 3 DefaultConfig True record_entry s" "nt_up s 1 = Some n" "nd_role n = Leader" "nd_currentTerm n = 2"
    "nd_commitIndex n = 1" "nd_store n = [(1, [9])]" "nt_down s 0 = Some d" "st_applied d = 1" "st_store d = [(1, [7])]"
proof -
  obtain s0 s n d where s: "new_cluster 3 DefaultConfig True [] = Some s0" "small_net (dense_ids 3) s0"
    "exec_events 3 DefaultConfig True record_entry late_ack s0 = Some s"
    and n: "nt_up s 1 = Some n" "nd_role n = Leader" "nd_currentTerm n = 2" "nd_commitIndex n = 1" "nd_store n = [(1, [9])]"
      "nt_down s 0 = Some d" "st_applied d = 1" "st_store d = [(1, [7])]"
    using late_ack_result by (auto split: option.splits)
  have "cluster_run 3 DefaultConfig True record_entry s"
    by (rule exec_events_run [OF s(3) start_run [OF s(1,2)]]) simp_all
  then show ?thesis using n that by blast
qed

theorem election_safety_witness:
  "\<exists>s n. cluster_run 3 DefaultConfig True record_entry s \<and> nt_up s 1 = Some n \<and> nd_role n = Leader \<and> nd_currentTerm n = 2 \<and>
     (\<forall>j b. nt_up s j = Some b \<and> nd_role b = Leader \<and> nd_currentTerm b = 2 \<longrightarrow> j = 1)"
proof -
  obtain s n d where s: "cluster_run 3 DefaultConfig True record_entry s" "nt_up s 1 = Some n" "nd_role n = Leader" "nd_currentTerm n = 2"
    using late_ack_run by metis
  have "j = 1" if "nt_up s j = Some b" "nd_role b = Leader" "nd_currentTerm b = 2" for j b
    using election_safety [OF s(1) _ that(1) s(2) that(2) s(3)] that(3) s(4) by simp
  then show ?thesis using s by blast
qed

text \<open>C22: The commit rule can be fooled: a replication round accepts any successful answer as the answer to
  its own request.  There is a run of three nodes, with one lost message and one crash, in which the first
  leader commits and applies one entry at index 1 and its successor commits and applies another one there,
  so an acknowledged write disappears.\<close>

theorem late_ack_loses_commit:
  "\<exists>s n d. cluster_run 3 DefaultConfig True record_entry s \<and>
     nt_down s 0 = Some d \<and> st_applied d = 1 \<and> st_store d = [(1, [7])] \<and>
     nt_up s 1 = Some n \<and> nd_role n = Leader \<and> nd_commitIndex n = 1 \<and> nd_store n = [(1, [9])]"
  using late_ack_run by metis

end
