(* ===== verification/Install.thy ===== *)
theory Install
  imports Snapshot Raft_Node
begin

section \<open>Installing a snapshot (\<open>internal/cluster/install.go\<close>)\<close>

text \<open>
  A follower that is too far behind receives the live keys of the leader, builds a database from them in a
  staging directory, writes a marker, and swaps the staged files in.  A start finishes an install whose
  marker is on disk.  The files are explicit; each step of the operating system that can fail has its
  outcome as an argument, and stopping at a failure leaves the files a crash at that moment would leave.
\<close>

subsection \<open>The marker\<close>

definition installMarkerMagic :: u64 where "installMarkerMagic = 0x4C44425F494E5354"
definition installMarkerSize :: nat where "installMarkerSize = 32"

record installMarker =
  im_lastIncludedIndex :: u64
  im_lastIncludedTerm :: u64
  im_snapshotTS :: u64

definition marker_bytes :: "installMarker \<Rightarrow> bytes" where
  "marker_bytes m =
     le_PutUint64 installMarkerMagic @ le_PutUint64 (im_lastIncludedIndex m) @ le_PutUint64 (im_lastIncludedTerm m) @
     le_PutUint64 (im_snapshotTS m)"

text \<open>The files of \<^verbatim>\<open>raft\<close> that an install adds to \<open>raft_disk\<close>: the marker, the staged configuration and the staged
  database.\<close>

record install_files =
  if_marker :: "bytes option"
  if_config :: "bytes option"
  if_staged :: "Disk option"

definition writeInstallMarker :: "atomic_io \<Rightarrow> bool \<Rightarrow> installMarker \<Rightarrow> install_files \<Rightarrow> bool \<times> install_files" where
  "writeInstallMarker io sync m f =
     (case write_atomic io sync (marker_bytes m) (if_marker f) of (ok, b) \<Rightarrow> (ok, f\<lparr>if_marker := b\<rparr>))"

definition readInstallMarker :: "install_files \<Rightarrow> installMarker option" where
  "readInstallMarker f =
     (case if_marker f of
        None \<Rightarrow> None
      | Some buf \<Rightarrow>
          if length buf < installMarkerSize \<or> le_Uint64 buf \<noteq> installMarkerMagic then None
          else Some \<lparr>im_lastIncludedIndex = le_Uint64 (drop 8 buf), im_lastIncludedTerm = le_Uint64 (drop 16 buf),
                     im_snapshotTS = le_Uint64 (drop 24 buf)\<rparr>)"

text \<open>Removing a file and flushing its directory.\<close>

datatype remove_io = RemoveOk | RemoveFails | RemoveDirSyncFails

definition clearInstallMarker :: "remove_io \<Rightarrow> bool \<Rightarrow> install_files \<Rightarrow> bool \<times> install_files" where
  "clearInstallMarker io sync f =
     (if if_marker f \<noteq> None \<and> io = RemoveFails then (False, f)
      else (\<not> (sync \<and> io = RemoveDirSyncFails), f\<lparr>if_marker := None\<rparr>))"

definition writeInstallConfig :: "atomic_io \<Rightarrow> bool \<Rightarrow> bytes \<Rightarrow> install_files \<Rightarrow> bool \<times> install_files" where
  "writeInstallConfig io sync encoded f =
     (case write_atomic io sync encoded (if_config f) of (ok, b) \<Rightarrow> (ok, f\<lparr>if_config := b\<rparr>))"

definition clearInstallConfig :: "bool \<Rightarrow> install_files \<Rightarrow> install_files" where
  "clearInstallConfig removed f = (if removed then f\<lparr>if_config := None\<rparr> else f)"

text \<open>The staged configuration becomes the base configuration (the file \<^verbatim>\<open>raft/config\<close>).  \<open>None\<close>: nothing staged.\<close>

definition installStagedConfig ::
  "atomic_io \<Rightarrow> bool \<Rightarrow> install_files \<Rightarrow> bytes option \<Rightarrow> (unit + NodeID set option) \<times> bytes option" where
  "installStagedConfig io sync f configDisk =
     (case if_config f of
        None \<Rightarrow> (Inr None, configDisk)
      | Some encoded \<Rightarrow>
          (let cfg = decodeConfig encoded in
           case writeBaseConfigFile io cfg sync configDisk of
             (ok, cd) \<Rightarrow> (if ok then Inr (Some cfg) else Inl (), cd)))"

subsection \<open>Swapping the data files\<close>

text \<open>The files of a data directory, in the order of \<^verbatim>\<open>os.ReadDir\<close>.\<close>

datatype data_file = FileSst nat | FileBase | FileWal | FileSessions

definition data_files :: "Disk \<Rightarrow> data_file list" where
  "data_files d =
     map FileSst (sort (map fst (dk_ssts d))) @ (if dk_base d = None then [] else [FileBase]) @
     (if dk_wal d = None then [] else [FileWal]) @ (if dk_sessions d = None then [] else [FileSessions])"

primrec remove_data :: "data_file \<Rightarrow> Disk \<Rightarrow> Disk" where
  "remove_data (FileSst i) d = sst_remove_file i d"
| "remove_data FileBase d = d\<lparr>dk_base := None\<rparr>"
| "remove_data FileSessions d = d\<lparr>dk_sessions := None\<rparr>"
| "remove_data FileWal d = d\<lparr>dk_wal := None\<rparr>"

text \<open>\<^verbatim>\<open>copyFileSync\<close>, stopped after \<open>k\<close> bytes if \<open>k\<close> is given.\<close>

definition cut_at :: "nat option \<Rightarrow> bytes \<Rightarrow> bytes" where
  "cut_at k b = (case k of None \<Rightarrow> b | Some n \<Rightarrow> take n b)"

primrec copyFileSync :: "nat option \<Rightarrow> Disk \<Rightarrow> data_file \<Rightarrow> Disk \<Rightarrow> Disk" where
  "copyFileSync k src (FileSst i) d =
     (case map_of (dk_ssts src) i of None \<Rightarrow> d
      | Some b \<Rightarrow> d\<lparr>dk_ssts := filter (\<lambda>p. fst p \<noteq> i) (dk_ssts d) @ [(i, cut_at k b)]\<rparr>)"
| "copyFileSync k src FileBase d = d\<lparr>dk_base := map_option (cut_at k) (dk_base src)\<rparr>"
| "copyFileSync k src FileSessions d = d\<lparr>dk_sessions := map_option (cut_at k) (dk_sessions src)\<rparr>"
| "copyFileSync k src FileWal d = d\<lparr>dk_wal := map_option (cut_at k) (dk_wal src)\<rparr>"

text \<open>
  How a swap ends: it succeeds, or it stops after \<open>n\<close> removals, or after all removals and \<open>n\<close> copies with
  \<open>k\<close> bytes of the next one written, or in the last fsync.
\<close>

datatype swap_io = SwapOk | SwapRemoves nat | SwapCopies nat nat | SwapSyncFails

definition swapInStagedDB :: "swap_io \<Rightarrow> bool \<Rightarrow> Disk option \<Rightarrow> Disk \<Rightarrow> bool \<times> Disk" where
  "swapInStagedDB io sync stagedDir d =
     (let cleared = fold remove_data (data_files d) d in
      case io of
        SwapRemoves n \<Rightarrow> (False, fold remove_data (take n (data_files d)) d)
      | _ \<Rightarrow>
          (case stagedDir of
             None \<Rightarrow> (False, cleared)
           | Some staged \<Rightarrow>
               let swapped = fold (copyFileSync None staged) (data_files staged) cleared in
               (case io of
                  SwapCopies n k \<Rightarrow>
                    (False, let part = fold (copyFileSync None staged) (take n (data_files staged)) cleared in
                            case drop n (data_files staged) of [] \<Rightarrow> part | x # _ \<Rightarrow> copyFileSync (Some k) staged x part)
                | SwapSyncFails \<Rightarrow> (\<not> sync, swapped)
                | _ \<Rightarrow> (True, swapped))))"

subsection \<open>Finishing an install at a start\<close>

text \<open>Everything below a node's directory.\<close>

record node_files =
  nf_data :: Disk
  nf_raft :: raft_disk
  nf_install :: install_files

text \<open>The outcomes of the steps of a completion.  A failing \<^verbatim>\<open>RemoveAll\<close> leaves what is given.\<close>

record complete_io =
  ci_swap :: swap_io
  ci_reset :: compact_io
  ci_config :: atomic_io
  ci_clear :: remove_io
  ci_clearConfig :: bool
  ci_removeStaged :: "Disk option option"

definition remove_staged :: "Disk option option \<Rightarrow> install_files \<Rightarrow> bool \<times> install_files" where
  "remove_staged left f =
     (case left of None \<Rightarrow> (True, f\<lparr>if_staged := None\<rparr>) | Some x \<Rightarrow> (False, f\<lparr>if_staged := x\<rparr>))"

definition completeInstallIfPending :: "complete_io \<Rightarrow> bool \<Rightarrow> node_files \<Rightarrow> bool \<times> node_files" where
  "completeInstallIfPending io sync f =
     (case readInstallMarker (nf_install f) of
        None \<Rightarrow> (True, f)
      | Some m \<Rightarrow>
          (case if_staged (nf_install f) of
             None \<Rightarrow> (case clearInstallMarker (ci_clear io) sync (nf_install f) of (ok, i) \<Rightarrow> (ok, f\<lparr>nf_install := i\<rparr>))
           | Some staged \<Rightarrow>
               (case swapInStagedDB (ci_swap io) sync (Some staged) (nf_data f) of (ok1, d) \<Rightarrow>
                  let f1 = f\<lparr>nf_data := d\<rparr> in
                  if \<not> ok1 then (False, f1)
                  else case resetRaftLogFileTo (ci_reset io) (rd_log (nf_raft f1)) (im_lastIncludedIndex m) (im_lastIncludedTerm m) sync of (e, l) \<Rightarrow>
                    let f2 = f1\<lparr>nf_raft := (nf_raft f1)\<lparr>rd_log := l\<rparr>\<rparr> in
                    if e \<noteq> None then (False, f2)
                    else case installStagedConfig (ci_config io) sync (nf_install f2) (rd_config (nf_raft f2)) of (r, cd) \<Rightarrow>
                      let f3 = f2\<lparr>nf_raft := (nf_raft f2)\<lparr>rd_config := cd\<rparr>\<rparr> in
                      (case r of Inl _ \<Rightarrow> (False, f3)
                       | Inr _ \<Rightarrow>
                           (case clearInstallMarker (ci_clear io) sync (nf_install f3) of (ok4, i4) \<Rightarrow>
                              if \<not> ok4 then (False, f3\<lparr>nf_install := i4\<rparr>)
                              else case remove_staged (ci_removeStaged io) (clearInstallConfig (ci_clearConfig io) i4) of
                                     (ok5, i5) \<Rightarrow> (ok5, f3\<lparr>nf_install := i5\<rparr>))))))"

subsection \<open>Installing in a running node\<close>

text \<open>The files of a running node; \<open>i\<close> are its install files.\<close>

definition running_files :: "DB Node \<Rightarrow> install_files \<Rightarrow> node_files" where
  "running_files n i = \<lparr>nf_data = db_disk (nd_store n), nf_raft = node_disk n, nf_install = i\<rparr>"

text \<open>
  \<open>cr_closed\<close>: whether closing the store succeeds; \<open>cr_reopen\<close>: whether one of the five attempts to open the
  swapped-in store meets no failure of the operating system; \<open>cr_rand\<close>: the randomness of its skip lists.
\<close>

record install_io = complete_io +
  cr_closed :: bool
  cr_reopen :: bool
  cr_rand :: "nat \<Rightarrow> nat \<Rightarrow> bool"
  cr_mkdir :: "Disk option option"
  cr_build :: "snap_point option"
  cr_writeConfig :: atomic_io
  cr_writeMarker :: atomic_io

text \<open>The last part of \<^verbatim>\<open>completeInstall\<close>, from the reset of the log on.  \<open>None\<close>: a nil log file panics.\<close>

definition ci_finish ::
  "install_io \<Rightarrow> u64 \<Rightarrow> u64 \<Rightarrow> NodeID set option \<Rightarrow> DB Node \<times> install_files \<Rightarrow> (bool \<times> DB Node \<times> install_files) option" where
  "ci_finish io idx trm newBase = (\<lambda>(n, i).
     case nd_logFile n of None \<Rightarrow> None
     | Some lf \<Rightarrow>
         Some (case lf_resetToBase (ci_reset io) idx trm lf of (e, lf') \<Rightarrow>
            let n1 = n\<lparr>nd_logFile := Some lf'\<rparr> in
            if e \<noteq> None then (False, n1, i)
            else let n2 = n1\<lparr>nd_log := rl_resetToBase idx trm (nd_log n1)\<rparr>;
                     n3 = (case newBase of None \<Rightarrow> n2
                           | Some c \<Rightarrow> n2\<lparr>nd_baseConfig := copyConfig (Some c), nd_config := Some (copyConfig (Some c))\<rparr>);
                     n4 = n3\<lparr>nd_commitIndex := idx, nd_lastApplied := idx, nd_installing := False\<rparr>
                 in case clearInstallMarker (ci_clear io) (nd_SyncOnWrite n) i of (ok, i1) \<Rightarrow>
                      if \<not> ok then (False, n4, i1)
                      else case remove_staged (ci_removeStaged io) (clearInstallConfig (ci_clearConfig io) i1) of
                             (ok2, i2) \<Rightarrow> (ok2, n4, i2)))"

text \<open>\<open>opts\<close> are the options of the node's store.\<close>

definition completeInstall ::
  "install_io \<Rightarrow> Options \<Rightarrow> u64 \<Rightarrow> u64 \<Rightarrow> DB Node \<times> install_files \<Rightarrow> (bool \<times> DB Node \<times> install_files) option" where
  "completeInstall io opts idx trm = (\<lambda>(n, i).
     let closed = db_Close (nd_store n); n1 = n\<lparr>nd_store := closed\<rparr> in
     if \<not> cr_closed io then Some (False, n1, i)
     else case swapInStagedDB (ci_swap io) (nd_SyncOnWrite n) (if_staged i) (db_disk closed) of (ok, d) \<Rightarrow>
            let n2 = n1\<lparr>nd_store := closed\<lparr>db_disk := d\<rparr>\<rparr> in
            if \<not> ok \<or> \<not> cr_reopen io then Some (False, n2, i)
            else case db_OpenWith (cr_rand io) opts d of
                   Inl _ \<Rightarrow> Some (False, n2, i)
                 | Inr newStore \<Rightarrow>
                     (case installStagedConfig (ci_config io) (nd_SyncOnWrite n) i (nd_configDisk n) of (r, cd) \<Rightarrow>
                        let n3 = n2\<lparr>nd_store := newStore, nd_configDisk := cd\<rparr> in
                        (case r of Inl _ \<Rightarrow> Some (False, n3, i)
                         | Inr newBase \<Rightarrow> ci_finish io idx trm newBase (n3, i))))"

text \<open>The result is \<^verbatim>\<open>recoverable\<close> and whether there was no error.\<close>

definition installSnapshot ::
  "install_io \<Rightarrow> Options \<Rightarrow> u64 \<Rightarrow> u64 \<Rightarrow> u64 \<Rightarrow> KV list \<Rightarrow> sessions \<Rightarrow> bytes \<Rightarrow> DB Node \<times> install_files \<Rightarrow>
     ((bool \<times> bool) \<times> DB Node \<times> install_files) option" where
  "installSnapshot io opts idx trm ts kvs sess config = (\<lambda>(n, i).
     case cr_mkdir io of Some left \<Rightarrow> Some ((True, False), n, i\<lparr>if_staged := left\<rparr>)
     | None \<Rightarrow>
         (case BuildSnapshotDB (cr_build io) kvs sess idx ts \<lparr>dk_wal = None, dk_ssts = [], dk_base = None, dk_sessions = None\<rparr> of (e, staged) \<Rightarrow>
            let i1 = i\<lparr>if_staged := Some staged\<rparr> in
            if e \<noteq> None then Some ((True, False), n, i1)
            else case (if config \<noteq> [] then writeInstallConfig (cr_writeConfig io) (nd_SyncOnWrite n) config i1 else (True, i1)) of (ok2, i2) \<Rightarrow>
              if \<not> ok2 then Some ((True, False), n, i2)
              else case writeInstallMarker (cr_writeMarker io) (nd_SyncOnWrite n)
                          \<lparr>im_lastIncludedIndex = idx, im_lastIncludedTerm = trm, im_snapshotTS = ts\<rparr> i2 of (ok3, i3) \<Rightarrow>
                if \<not> ok3 then Some ((True, False), n, i3)
                else map_option (\<lambda>(ok, n', i'). ((ok, ok), n', i')) (completeInstall io opts idx trm (n, i3))))"

definition install_response :: "'db Node \<Rightarrow> bool \<Rightarrow> u64 \<Rightarrow> Message" where
  "install_response n ok matched =
     (msg MsgInstallSnapshotResponse (nd_id n) (nd_currentTerm n))\<lparr>m_Success := ok, m_MatchIndex := matched\<rparr>"

fun sess_of :: "SessionKV list \<Rightarrow> sessions \<Rightarrow> sessions" where
  "sess_of [] m = m"
| "sess_of (s # ss) m = sess_of ss (sess_put (sk_Session s) (sk_Seq s) m)"

definition handleInstallSnapshot ::
  "atomic_io \<Rightarrow> install_io \<Rightarrow> Options \<Rightarrow> int \<Rightarrow> Message \<Rightarrow> DB Node \<times> install_files \<Rightarrow>
     (DB Node \<times> install_files \<times> sends) option" where
  "handleInstallSnapshot sio io opts now m = (\<lambda>(n, i).
     if m_Term m < nd_currentTerm n then Some (n, i, [(m_From m, install_response n False 0)])
     else let n1 = (if m_Term m > nd_currentTerm n then stepDownLocked sio (m_Term m) n else n);
              n2 = n1\<lparr>nd_role := Follower, nd_lastLeaderContact := Some now\<rparr>
       in if nd_installing n2 then Some (n2, i, [(m_From m, install_response n2 False 0)])
          else if m_LastIncludedIndex m \<le> nd_lastApplied n2
          then Some (n2, i, [(m_From m, install_response n2 True (m_LastIncludedIndex m))])
          else let kvs = map (\<lambda>kp. \<lparr>kv_Key = kp_Key kp, kv_Value = kp_Value kp\<rparr>) (m_Snapshot m);
                   sess = sess_of (m_Sessions m) []
            in case installSnapshot io opts (m_LastIncludedIndex m) (m_LastIncludedTerm m) (m_SnapshotTS m) kvs sess (m_Config m)
                      (n2\<lparr>nd_installing := True\<rparr>, i) of
                 None \<Rightarrow> None
               | Some ((recoverable, ok), n3, i3) \<Rightarrow>
                   Some (if ok then (n3, i3, [(m_From m, install_response n2 True (m_LastIncludedIndex m))])
                         else ((if recoverable then n3\<lparr>nd_installing := False\<rparr> else n3), i3, [(m_From m, install_response n2 False 0)])))"

subsection \<open>Starting a node\<close>

datatype node_error = NodeInstall | NodeOpen db_error | NodeBuild build_error

definition buildNode ::
  "complete_io \<Rightarrow> atomic_io \<Rightarrow> (nat \<Rightarrow> nat \<Rightarrow> bool) \<Rightarrow> Options \<Rightarrow> NodeID \<Rightarrow> NodeID list \<Rightarrow> NodeID set \<Rightarrow> ClusterConfig \<Rightarrow> node_files \<Rightarrow>
     ((node_error + DB Node) \<times> node_files) option" where
  "buildNode cio aio rnd opts self members bootstrapConfig cfg f =
     (case completeInstallIfPending cio (opt_SyncOnWrite opts) f of (ok, f1) \<Rightarrow>
        if \<not> ok then Some (Inl NodeInstall, f1)
        else case db_OpenWith rnd opts (nf_data f1) of
               Inl e \<Rightarrow> Some (Inl (NodeOpen e), f1)
             | Inr store \<Rightarrow>
                 map_option (\<lambda>(r, rd). (map_sum NodeBuild id r, f1\<lparr>nf_data := db_disk store, nf_raft := rd\<rparr>))
                   (build_raft aio self members bootstrapConfig cfg (opt_SyncOnWrite opts) store (db_recoveredApplied store) (nf_raft f1)))"

subsection \<open>The leader's side\<close>

text \<open>The three parts of \<^verbatim>\<open>sendSnapshot\<close>: the scan of the store, the message, and the answer.  In the first two
  the inner \<open>None\<close> is a return without sending, the outer one a panic or a scan that does not return.\<close>

record snapshot_capture =
  sn_kvs :: "KVPair list"
  sn_index :: u64
  sn_ts :: u64
  sn_sessions :: sessions

definition ss_capture :: "DB \<Rightarrow> snapshot_capture option option" where
  "ss_capture store =
     (case db_SnapshotScan store of
        None \<Rightarrow> None
      | Some (Inl _) \<Rightarrow> Some None
      | Some (Inr (it, lastIncludedIndex, snapshotTS)) \<Rightarrow>
          (case di_drain it [] of
             None \<Rightarrow> None
           | Some (kvs, it') \<Rightarrow>
               Some (if di_err it' \<noteq> None then None
                     else Some \<lparr>sn_kvs = map (\<lambda>(k, v). \<lparr>kp_Key = k, kp_Value = v\<rparr>) kvs, sn_index = lastIncludedIndex,
                                sn_ts = snapshotTS, sn_sessions = db_SessionTable store\<rparr>)))"

definition ss_message :: "u64 \<Rightarrow> snapshot_capture \<Rightarrow> 'db Node \<Rightarrow> Message option option" where
  "ss_message trm sn n =
     (if nd_role n \<noteq> Leader \<or> nd_currentTerm n \<noteq> trm then Some None
      else if sn_index sn < rl_baseIndex (nd_log n) then Some None
      else do { lastIncludedTerm \<leftarrow> rl_term (nd_log n) (sn_index sn);
                config \<leftarrow> configAsOfLocked (sn_index sn) n;
                Some (Some ((msg MsgInstallSnapshot (nd_id n) trm)
                 \<lparr>m_LastIncludedIndex := sn_index sn, m_LastIncludedTerm := lastIncludedTerm, m_SnapshotTS := sn_ts sn,
                  m_Snapshot := sn_kvs sn, m_Config := encodeConfig config,
                  m_Sessions := map (\<lambda>(s, q). \<lparr>sk_Session = s, sk_Seq = q\<rparr>) (sn_sessions sn),
                  m_LeaderCommit := nd_commitIndex n\<rparr>)) })"

definition ss_finish :: "atomic_io \<Rightarrow> NodeID \<Rightarrow> u64 \<Rightarrow> u64 \<Rightarrow> Message \<Rightarrow> 'db Node \<Rightarrow> 'db Node" where
  "ss_finish io p trm lastIncludedIndex resp n =
     (if m_Term resp > nd_currentTerm n then stepDownLocked io (m_Term resp) n
      else if nd_role n \<noteq> Leader \<or> nd_currentTerm n \<noteq> trm then n
      else if m_Success resp then
        n\<lparr>nd_matchIndex := (if lastIncludedIndex > mapget (nd_matchIndex n) p then (nd_matchIndex n)(p \<mapsto> lastIncludedIndex) else nd_matchIndex n),
          nd_nextIndex := (nd_nextIndex n)(p \<mapsto> lastIncludedIndex + 1)\<rparr>
      else n)"

end
