(* ===== verification/Install_Crash.thy ===== *)
theory Install_Crash
  imports Install
begin

section \<open>Crashes during an install\<close>

text \<open>
  Whatever step of an install fails or is cut by a crash, and however often the following starts fail, the
  node ends with the old state or with the whole snapshot.  The exception is a marker whose directory cannot
  be flushed: the node then goes on with the old state although the marker is on disk.
\<close>

subsection \<open>The swap\<close>

lemma remove_data_commute:
  "dk_ssts (fold remove_data fs d) = filter (\<lambda>p. FileSst (fst p) \<notin> set fs) (dk_ssts d)"
  "dk_base (fold remove_data fs d) = (if FileBase \<in> set fs then None else dk_base d)"
  "dk_wal (fold remove_data fs d) = (if FileWal \<in> set fs then None else dk_wal d)"
  "dk_sessions (fold remove_data fs d) = (if FileSessions \<in> set fs then None else dk_sessions d)"
proof (induction fs arbitrary: d)
  case (Cons f fs)
  { case 1 show ?case using Cons(1) by (cases f) (auto simp: sst_remove_file_def intro: filter_cong)
  next case 2 show ?case using Cons(2) by (cases f) (auto simp: sst_remove_file_def)
  next case 3 show ?case using Cons(3) by (cases f) (auto simp: sst_remove_file_def)
  next case 4 show ?case using Cons(4) by (cases f) (auto simp: sst_remove_file_def) }
qed simp_all

lemma cleared: "fold remove_data (data_files d) d = empty_disk"
proof -
  have "filter (\<lambda>p. FileSst (fst p) \<notin> set (data_files d)) (dk_ssts d) = []"
    by (auto simp: filter_empty_conv data_files_def)
  then have "dk_ssts (fold remove_data (data_files d) d) = []" "dk_base (fold remove_data (data_files d) d) = None"
    "dk_wal (fold remove_data (data_files d) d) = None" "dk_sessions (fold remove_data (data_files d) d) = None"
    unfolding remove_data_commute by (auto simp: data_files_def)
  then show ?thesis by (simp add: empty_disk_def)
qed

text \<open>A staged directory as \<^verbatim>\<open>BuildSnapshotDB\<close> leaves it: at most one table.\<close>

definition flat :: "Disk \<Rightarrow> bool" where
  "flat st \<longleftrightarrow> length (dk_ssts st) \<le> 1"

lemma swapped: "flat st \<Longrightarrow> fold (copyFileSync None st) (data_files st) empty_disk = st"
proof -
  assume "flat st"
  then have "dk_ssts st = [] \<or> (\<exists>i b. dk_ssts st = [(i, b)])" unfolding flat_def by (cases "dk_ssts st") auto
  then show ?thesis by (auto simp: data_files_def empty_disk_def cut_at_def)
qed


subsection \<open>The log and the configuration\<close>

definition log_opens :: "bytes option \<Rightarrow> bool" where
  "log_opens f \<longleftrightarrow> (let b = (case f of None \<Rightarrow> [] | Some d \<Rightarrow> d) in length b < 8 \<or> le_Uint64 (take 8 b) = raftLogMagic)"

lemma log_opens_iff: "log_opens f \<longleftrightarrow> (\<exists>r. openRaftLogFile f sync = Inr r)"
  by (auto simp: log_opens_def openRaftLogFile_def lf_load_def Let_def bslice_def split: prod.splits)

lemma lf_frames_cut: "off \<le> snd (lf_frames buf off)"
proof (induction buf off rule: lf_frames.induct)
  case (1 buf off)
  let ?e = "off + raftEntryHeaderSize + unat (le_Uint32 (drop (off + 9) buf))"
  have "off < length buf \<Longrightarrow> \<not> off + raftEntryHeaderSize > length buf \<Longrightarrow> \<not> ?e > length buf \<Longrightarrow> ?e \<le> snd (lf_frames buf ?e)"
    using 1 by simp
  then show ?case by (subst lf_frames.simps) (auto simp: Let_def split: prod.splits)
qed

lemma header_opens [simp]: "log_opens (Some (raft_header b t @ r))"
  by (simp add: log_opens_def raft_header_def Let_def)

lemma opened_log:
  assumes "openRaftLogFile f sync = Inr (lf, es)"
  shows "lf_open lf" "lf_path lf = None" "log_opens (Some (lf_disk lf))" "lf_sync lf = sync"
proof -
  let ?b = "case f of None \<Rightarrow> [] | Some d \<Rightarrow> d"
  let ?lf = "\<lparr>lf_f = \<lparr>f_data = ?b, f_pos = 0\<rparr>, lf_open = True, lf_path = None, lf_sync = sync, lf_baseIndex = 0, lf_baseTerm = 0,
    lf_offsets = [], lf_size = 0\<rparr>"
  have l: "lf_load ?lf = Inr (lf, es)" using assms by (simp add: openRaftLogFile_def)
  then show o: "lf_open lf" "lf_path lf = None" "lf_sync lf = sync"
    by (auto simp: lf_load_def lf_writeFreshHeader_def Let_def split: if_splits prod.splits)
  show "log_opens (Some (lf_disk lf))"
  proof (cases "length ?b < raftLogHeaderSize")
    case True
    then have "f_data (lf_f lf) = raft_header 0 0"
      using l by (auto simp: lf_load_def lf_writeFreshHeader_def Let_def raftLogHeaderSize_def split: if_splits)
    then show ?thesis using header_opens [of 0 0 "[]"] o(2) by (simp add: lf_disk_def)
  next
    case False
    then have "f_data (lf_f lf) = take (snd (lf_frames ?b raftLogHeaderSize)) ?b" "le_Uint64 (take 8 ?b) = raftLogMagic"
      using l by (auto simp: lf_load_def Let_def raftLogHeaderSize_def bslice_def split: if_splits prod.splits)
    then show ?thesis
      using o(2) lf_frames_cut [of raftLogHeaderSize ?b] False
      by (simp add: log_opens_def lf_disk_def Let_def raftLogHeaderSize_def min_def)
  qed
qed

lemma reset_log:
  assumes "log_opens f" "resetRaftLogFileTo io f idx t sync = (e, l)"
  shows "e = None \<longrightarrow> l = Some (raft_header idx t)" "log_opens l" "io = CompactOk \<longrightarrow> e = None"
proof -
  obtain lf es where o: "openRaftLogFile f sync = Inr (lf, es)" using assms(1) log_opens_iff [of f sync] by auto
  note lf = opened_log [OF o]
  show "e = None \<longrightarrow> l = Some (raft_header idx t)" "log_opens l" "io = CompactOk \<longrightarrow> e = None"
    using assms(2) o lf header_opens [of idx t "[]"]
    by (auto simp: resetRaftLogFileTo_def lf_compact_def Let_def lf_disk_def lf_close_def split: if_splits)
qed

definition new_config :: "bytes option \<Rightarrow> bytes option \<Rightarrow> bytes option" where
  "new_config c old = (case c of None \<Rightarrow> old | Some b \<Rightarrow> Some (encodeConfig (decodeConfig b)))"

lemma new_config_twice [simp]: "new_config c (new_config c old) = new_config c old"
  by (simp add: new_config_def split: option.splits)

lemma fold_config:
  assumes "installStagedConfig io sync i old = (r, cd)"
  shows "cd = old \<or> cd = new_config (if_config i) old" "r = Inr x \<longrightarrow> cd = new_config (if_config i) old" "io = AtomicOk \<longrightarrow> (\<exists>x. r = Inr x)"
  using assms by (auto simp: installStagedConfig_def writeBaseConfigFile_def write_atomic_eq new_config_def Let_def split: option.splits if_splits)

subsection \<open>Completions\<close>




lemma cleared_marker [simp]: "readInstallMarker (i\<lparr>if_marker := None\<rparr>) = None"
  by (simp add: readInstallMarker_def)

lemma read_marker_other [simp]:
  "readInstallMarker (i\<lparr>if_config := x\<rparr>) = readInstallMarker i" "readInstallMarker (i\<lparr>if_staged := y\<rparr>) = readInstallMarker i"
  by (simp_all add: readInstallMarker_def)





subsection \<open>The install itself\<close>

lemma marker_codec: "readInstallMarker (i\<lparr>if_marker := Some (marker_bytes m)\<rparr>) = Some m"
  by (simp add: readInstallMarker_def marker_bytes_def installMarkerSize_def)




lemma build_flat: "BuildSnapshotDB fault kvs sess idx ts empty_disk = (e, d) \<Longrightarrow> flat d \<and> dk_wal d = None"
  by (auto simp: BuildSnapshotDB_def snap_files_def flat_def empty_disk_def writeAppliedBase_def writeSessionsFile_def sst_write_file_def Let_def
      split: if_splits sum.splits)


lemma close_disk [simp]: "db_disk (db_Close db) = db_disk db"
  by (simp add: db_Close_def)




subsection \<open>Restarts\<close>

definition no_faults :: complete_io where
  "no_faults = \<lparr>ci_swap = SwapOk, ci_reset = CompactOk, ci_config = AtomicOk, ci_clear = RemoveOk, ci_clearConfig = True, ci_removeStaged = None\<rparr>"





lemma install_left_marker:
  assumes io: "cr_mkdir io = None" "cr_build io = None" "cr_writeConfig io = AtomicOk" "cr_writeMarker io = AtomicDirSyncFails"
    and n: "nd_SyncOnWrite n" and b: "BuildSnapshotDB None kvs sess idx ts empty_disk = (None, st)"
  shows "\<exists>i'. installSnapshot io opts idx trm ts kvs sess config (n, i) = Some ((True, False), n, i') \<and>
    readInstallMarker i' = Some \<lparr>im_lastIncludedIndex = idx, im_lastIncludedTerm = trm, im_snapshotTS = ts\<rparr> \<and> if_staged i' = Some st"
proof -
  let ?i2 = "if config = [] then i\<lparr>if_staged := Some st\<rparr> else i\<lparr>if_staged := Some st, if_config := Some config\<rparr>"
  let ?i3 = "?i2\<lparr>if_marker := Some (marker_bytes \<lparr>im_lastIncludedIndex = idx, im_lastIncludedTerm = trm, im_snapshotTS = ts\<rparr>)\<rparr>"
  have "installSnapshot io opts idx trm ts kvs sess config (n, i) = Some ((True, False), n, ?i3)"
    using io n b by (simp add: installSnapshot_def writeInstallConfig_def writeInstallMarker_def write_atomic_eq Let_def flip: empty_disk_def)
  moreover have "readInstallMarker ?i3 = Some \<lparr>im_lastIncludedIndex = idx, im_lastIncludedTerm = trm, im_snapshotTS = ts\<rparr>" by (rule marker_codec)
  moreover have "if_staged ?i3 = Some st" by simp
  ultimately show ?thesis by blast
qed


text \<open>The example: only the fsync of the directory behind the marker fails, and the first start stops in the
  middle of its swap.\<close>

definition torn_marker :: install_io where
  "torn_marker = \<lparr>ci_swap = SwapOk, ci_reset = CompactOk, ci_config = AtomicOk, ci_clear = RemoveOk, ci_clearConfig = True, ci_removeStaged = None,
     cr_closed = True, cr_reopen = True, cr_rand = (\<lambda>_ _. False), cr_mkdir = None, cr_build = None, cr_writeConfig = AtomicOk,
     cr_writeMarker = AtomicDirSyncFails\<rparr>"

definition fresh_follower :: "DB Node" where
  "fresh_follower = \<lparr>nd_id = 1, nd_store = projr (db_OpenWith (\<lambda>_ _. False) db_DefaultOptions empty_disk), nd_peers = [0, 2],
     nd_cfg = DefaultConfig, nd_SyncOnWrite = True, nd_installing = False, nd_role = Follower, nd_currentTerm = 3, nd_votedFor = noVote,
     nd_config = Some {0, 1, 2}, nd_baseConfig = {0, 1, 2}, nd_configPath = True, nd_configDisk = None, nd_transferring = False,
     nd_log = NewRaftLog, nd_logFile = Some (fst (projr (openRaftLogFile None True))), nd_stateFile = True,
     nd_stateDisk = snd (sf_save AtomicOk True 3 noVote None), nd_commitIndex = 0, nd_lastApplied = 0, nd_lastLeaderContact = None,
     nd_votesReceived = 0, nd_nextIndex = [0 \<mapsto> 1, 2 \<mapsto> 1], nd_matchIndex = [0 \<mapsto> 0, 2 \<mapsto> 0], nd_replSignal = {0, 2}\<rparr>"

definition no_install :: install_files where
  "no_install = \<lparr>if_marker = None, if_config = None, if_staged = None\<rparr>"

lemma built_empty: "BuildSnapshotDB None [] [] 5 7 empty_disk = (None, writeAppliedBase 5 empty_disk)"
  by (simp add: BuildSnapshotDB_def snap_files_def Let_def)



text \<open>C18: A marker that stays behind destroys later state.  When only the fsync of the directory after the rename of
  the marker fails, the install counts as recoverable: the node goes on with its old store and log and may
  acknowledge entries.  But the marker is on disk: whatever the files \<open>f0\<close> of the node are when it stops, the next start replaces the data by the
  old snapshot and resets the Raft log to it, so every entry acknowledged in between is gone.\<close>

theorem install_marker_left_behind:
  assumes "cr_mkdir io = None" "cr_build io = None" "cr_writeConfig io = AtomicOk" "cr_writeMarker io = AtomicDirSyncFails" "nd_SyncOnWrite n"
    and "m_Term m = nd_currentTerm n" "\<not> nd_installing n" "nd_lastApplied n < m_LastIncludedIndex m"
    and "BuildSnapshotDB None (map (\<lambda>kp. \<lparr>kv_Key = kp_Key kp, kv_Value = kp_Value kp\<rparr>) (m_Snapshot m)) (sess_of (m_Sessions m) [])
      (m_LastIncludedIndex m) (m_SnapshotTS m) empty_disk = (None, st)"
  shows "\<exists>n' i' out. handleInstallSnapshot sio io opts now m (n, i) = Some (n', i', out) \<and> \<not> nd_installing n' \<and>
    nd_store n' = nd_store n \<and> nd_log n' = nd_log n \<and> nd_logFile n' = nd_logFile n \<and>
    (\<forall>f0. nf_install f0 = i' \<longrightarrow> log_opens (rd_log (nf_raft f0)) \<longrightarrow>
       (\<exists>f. completeInstallIfPending no_faults sync f0 = (True, f) \<and> nf_data f = st \<and>
          rd_log (nf_raft f) = Some (raft_header (m_LastIncludedIndex m) (m_LastIncludedTerm m))))"
proof -
  let ?n = "n\<lparr>nd_role := Follower, nd_lastLeaderContact := Some now, nd_installing := True\<rparr>"
  let ?mk = "\<lparr>im_lastIncludedIndex = m_LastIncludedIndex m, im_lastIncludedTerm = m_LastIncludedTerm m, im_snapshotTS = m_SnapshotTS m\<rparr>"
  obtain i' where i': "installSnapshot io opts (m_LastIncludedIndex m) (m_LastIncludedTerm m) (m_SnapshotTS m)
      (map (\<lambda>kp. \<lparr>kv_Key = kp_Key kp, kv_Value = kp_Value kp\<rparr>) (m_Snapshot m)) (sess_of (m_Sessions m) []) (m_Config m) (?n, i) = Some ((True, False), ?n, i')"
    "readInstallMarker i' = Some ?mk" "if_staged i' = Some st"
    using install_left_marker [OF assms(1-4) _ assms(9), of ?n] assms(5) by fastforce
  have fl: "flat st" using build_flat [OF assms(9)] by simp
  have fin: "\<exists>f. completeInstallIfPending no_faults sync f0 = (True, f) \<and> nf_data f = st \<and>
      rd_log (nf_raft f) = Some (raft_header (m_LastIncludedIndex m) (m_LastIncludedTerm m))"
    if f0: "nf_install f0 = i'" "log_opens (rd_log (nf_raft f0))" for f0
  proof -
    have sw: "swapInStagedDB SwapOk sync (Some st) (nf_data f0) = (True, st)" using swapped [OF fl] by (simp add: swapInStagedDB_def cleared Let_def)
    obtain e l where rs: "resetRaftLogFileTo CompactOk (rd_log (nf_raft f0)) (m_LastIncludedIndex m) (m_LastIncludedTerm m) sync = (e, l)" by fastforce
    have el: "e = None" "l = Some (raft_header (m_LastIncludedIndex m) (m_LastIncludedTerm m))" using reset_log [OF f0(2) rs] by auto
    obtain q cd where cf: "installStagedConfig AtomicOk sync i' (rd_config (nf_raft f0)) = (q, cd)" by fastforce
    obtain r where "q = Inr r" using fold_config(3) [OF cf] by auto
    then show ?thesis using i'(2,3) f0(1) sw rs el cf
      by (simp add: completeInstallIfPending_def no_faults_def clearInstallMarker_def remove_staged_def Let_def)
  qed
  have "handleInstallSnapshot sio io opts now m (n, i) =
      Some (?n\<lparr>nd_installing := False\<rparr>, i', [(m_From m, install_response (n\<lparr>nd_role := Follower, nd_lastLeaderContact := Some now\<rparr>) False 0)])"
    using assms(6-8) i'(1) by (simp add: handleInstallSnapshot_def Let_def)
  then show ?thesis using fin by simp
qed

theorem install_marker_left_behind_witness:
  "\<exists>m n' i' out. handleInstallSnapshot AtomicOk torn_marker db_DefaultOptions 0 m (fresh_follower, no_install) = Some (n', i', out) \<and>
     m_LastIncludedIndex m = 5 \<and> \<not> nd_installing n' \<and> nd_log n' = nd_log fresh_follower \<and>
     (\<forall>f0. nf_install f0 = i' \<longrightarrow> log_opens (rd_log (nf_raft f0)) \<longrightarrow>
        (\<exists>f. completeInstallIfPending no_faults True f0 = (True, f) \<and> rd_log (nf_raft f) = Some (raft_header 5 2)))"
proof -
  define m where "m = (msg MsgInstallSnapshot 0 3)\<lparr>m_LastIncludedIndex := 5, m_LastIncludedTerm := 2, m_SnapshotTS := 7\<rparr>"
  have m: "m_Term m = nd_currentTerm fresh_follower" "\<not> nd_installing fresh_follower" "nd_lastApplied fresh_follower < m_LastIncludedIndex m" "nd_SyncOnWrite fresh_follower"
    "m_LastIncludedIndex m = 5" "m_LastIncludedTerm m = 2"
    by (simp_all add: m_def fresh_follower_def msg_def)
  have b: "BuildSnapshotDB None (map (\<lambda>kp. \<lparr>kv_Key = kp_Key kp, kv_Value = kp_Value kp\<rparr>) (m_Snapshot m)) (sess_of (m_Sessions m) [])
      (m_LastIncludedIndex m) (m_SnapshotTS m) empty_disk = (None, writeAppliedBase 5 empty_disk)"
    using built_empty by (simp add: m_def msg_def)
  show ?thesis
    using install_marker_left_behind [of torn_marker fresh_follower m, OF _ _ _ _ m(4,1-3) b, of AtomicOk db_DefaultOptions 0 no_install True] m(5,6)
    unfolding torn_marker_def by fastforce
qed

end
