(* ===== verification/Lincheck.thy ===== *)
theory Lincheck
  imports Prelude "HOL-Library.Monad_Syntax"
begin

section \<open>The linearizability checker (\<open>internal/lincheck\<close>)\<close>

text \<open>
  Operations, the register specification, the doubly linked event list, the bitset and the cache of
  \<^verbatim>\<open>linearize.go\<close>, and the search loop with \<open>Check\<close> of \<^verbatim>\<open>lincheck.go\<close>.  The event list lives in an explicit heap of nodes, so
  that \<^verbatim>\<open>lift\<close> and \<^verbatim>\<open>unlift\<close> are the pointer assignments of the source.  \<open>None\<close> is a nil dereference, an
  index out of range, or a search that does not end.  Ticks are \<^verbatim>\<open>int64\<close> values that are only compared.
\<close>

unbundle bit_operations_syntax

subsection \<open>Operations (\<open>lincheck.go\<close>)\<close>

definition Infinity :: int where "Infinity = 2 ^ 63 - 1"

datatype OpKind = Put | Get | Delete

record Op =
  op_Client :: int
  op_Kind :: OpKind
  op_Key :: bytes
  op_Value :: bytes
  op_Found :: bool
  op_Call :: int
  op_Return :: int

record regState =
  rs_value :: bytes
  rs_present :: bool

definition zero_regState :: regState where "zero_regState = \<lparr>rs_value = [], rs_present = False\<rparr>"

definition stepRegister :: "regState \<Rightarrow> Op \<Rightarrow> regState \<times> bool" where
  "stepRegister s op =
     (case op_Kind op of
        Put \<Rightarrow> (\<lparr>rs_value = op_Value op, rs_present = True\<rparr>, True)
      | Delete \<Rightarrow> (zero_regState, True)
      | Get \<Rightarrow> if op_Found op \<noteq> rs_present s then (s, False)
               else if op_Found op \<and> op_Value op \<noteq> rs_value s then (s, False)
               else (s, True))"

subsection \<open>The event list (\<open>linearize.go\<close>)\<close>

datatype entryKind = entryCall | entryReturn

type_synonym addr = nat

record node =
  ev_kind :: entryKind
  ev_id :: nat
  ev_tick :: int
  ev_op :: Op
  ev_match :: "addr option"
  ev_prev :: "addr option"
  ev_next :: "addr option"

type_synonym heap = "addr \<Rightarrow> node"

definition zero_Op :: Op where
  "zero_Op = \<lparr>op_Client = 0, op_Kind = Put, op_Key = [], op_Value = [], op_Found = False, op_Call = 0, op_Return = 0\<rparr>"

definition zero_node :: node where
  "zero_node = \<lparr>ev_kind = entryCall, ev_id = 0, ev_tick = 0, ev_op = zero_Op, ev_match = None, ev_prev = None, ev_next = None\<rparr>"

text \<open>The head sentinel has address 0, the nodes of operation \<open>i\<close> have the addresses \<open>2 i + 1\<close> and \<open>2 i + 2\<close>.\<close>

abbreviation head :: addr where "head \<equiv> 0"
abbreviation call_at :: "nat \<Rightarrow> addr" where "call_at i \<equiv> 2 * i + 1"
abbreviation ret_at :: "nat \<Rightarrow> addr" where "ret_at i \<equiv> 2 * i + 2"

primrec alloc_events :: "Op list \<Rightarrow> nat \<Rightarrow> heap \<Rightarrow> addr list \<Rightarrow> heap \<times> addr list" where
  "alloc_events [] i h evs = (h, evs)"
| "alloc_events (op # ops) i h evs =
     alloc_events ops (i + 1)
       (h(call_at i := zero_node\<lparr>ev_kind := entryCall, ev_id := i, ev_tick := op_Call op, ev_op := op, ev_match := Some (ret_at i)\<rparr>,
          ret_at i := zero_node\<lparr>ev_kind := entryReturn, ev_id := i, ev_tick := op_Return op\<rparr>))
       (evs @ [call_at i, ret_at i])"

primrec thread_events :: "addr list \<Rightarrow> addr \<Rightarrow> heap \<Rightarrow> heap" where
  "thread_events [] prev h = h"
| "thread_events (e # es) prev h =
     (let h1 = h(prev := (h prev)\<lparr>ev_next := Some e\<rparr>); h2 = h1(e := (h1 e)\<lparr>ev_prev := Some prev\<rparr>)
      in thread_events es e h2)"

definition buildEventList :: "Op list \<Rightarrow> heap" where
  "buildEventList ops =
     (let (h, events) = alloc_events ops 0 (\<lambda>_. zero_node) []
      in thread_events (sort_key (\<lambda>e. ev_tick (h e)) events) head h)"

definition lift :: "addr \<Rightarrow> heap \<Rightarrow> heap option" where
  "lift n h =
     do { p \<leftarrow> ev_prev (h n);
          let h1 = h(p := (h p)\<lparr>ev_next := ev_next (h n)\<rparr>);
          x \<leftarrow> ev_next (h1 n);
          let h2 = h1(x := (h1 x)\<lparr>ev_prev := ev_prev (h1 n)\<rparr>);
          m \<leftarrow> ev_match (h2 n);
          mp \<leftarrow> ev_prev (h2 m);
          let h3 = h2(mp := (h2 mp)\<lparr>ev_next := ev_next (h2 m)\<rparr>);
          (case ev_next (h3 m) of
             None \<Rightarrow> Some h3
           | Some mx \<Rightarrow> Some (h3(mx := (h3 mx)\<lparr>ev_prev := ev_prev (h3 m)\<rparr>))) }"

definition unlift :: "addr \<Rightarrow> heap \<Rightarrow> heap option" where
  "unlift n h =
     do { m \<leftarrow> ev_match (h n);
          mp \<leftarrow> ev_prev (h m);
          let h1 = h(mp := (h mp)\<lparr>ev_next := Some m\<rparr>);
          let h2 = (case ev_next (h1 m) of None \<Rightarrow> h1 | Some mx \<Rightarrow> h1(mx := (h1 mx)\<lparr>ev_prev := Some m\<rparr>));
          p \<leftarrow> ev_prev (h2 n);
          let h3 = h2(p := (h2 p)\<lparr>ev_next := Some n\<rparr>);
          x \<leftarrow> ev_next (h3 n);
          Some (h3(x := (h3 x)\<lparr>ev_prev := Some n\<rparr>)) }"

subsection \<open>Bitset and cache\<close>

type_synonym bitset = "u64 list"

definition newBitset :: "nat \<Rightarrow> bitset" where
  "newBitset n = replicate ((n + 63) div 64) 0"

definition bs_set :: "nat \<Rightarrow> bitset \<Rightarrow> bitset option" where
  "bs_set i b = (if i div 64 < length b then Some (b[i div 64 := (b ! (i div 64)) OR push_bit (i mod 64) 1]) else None)"

definition bs_clear :: "nat \<Rightarrow> bitset \<Rightarrow> bitset option" where
  "bs_clear i b = (if i div 64 < length b then Some (b[i div 64 := (b ! (i div 64)) AND NOT (push_bit (i mod 64) 1)]) else None)"

definition bs_hash :: "bitset \<Rightarrow> u64" where
  "bs_hash b = fold (\<lambda>w h. (h XOR w) * 1099511628211) b 1469598103934665603"

definition bs_equal :: "bitset \<Rightarrow> bitset \<Rightarrow> bool" where
  "bs_equal b o' = (length b = length o' \<and> list_all (\<lambda>i. b ! i = o' ! i) [0..<length b])"

record cacheEntry =
  ce_set :: bitset
  ce_state :: regState

type_synonym cache = "u64 \<Rightarrow> cacheEntry list"

definition cacheHas :: "cache \<Rightarrow> bitset \<Rightarrow> regState \<Rightarrow> bool" where
  "cacheHas c s st = list_ex (\<lambda>e. ce_state e = st \<and> bs_equal (ce_set e) s) (c (bs_hash s))"

definition cacheAdd :: "cache \<Rightarrow> bitset \<Rightarrow> regState \<Rightarrow> cache" where
  "cacheAdd c s st = (let h = bs_hash s in c(h := c h @ [\<lparr>ce_set = s, ce_state = st\<rparr>]))"

subsection \<open>The search\<close>

record frame =
  fr_call :: addr
  fr_state :: regState

text \<open>The variables of the loop; the head of \<open>sr_calls\<close> is the top of the stack.\<close>

record search =
  sr_heap :: heap
  sr_linearized :: bitset
  sr_cache :: cache
  sr_calls :: "frame list"
  sr_state :: regState
  sr_entry :: "addr option"

text \<open>One iteration of the loop: the answer, or the next state.\<close>

definition search_step :: "search \<Rightarrow> (bool + search) option" where
  "search_step s =
     (let h = sr_heap s in
      if ev_next (h head) = None then Some (Inl True)
      else do {
        entry \<leftarrow> sr_entry s;
        if ev_kind (h entry) = entryCall
        then do {
          let (newState, ok) = stepRegister (sr_state s) (ev_op (h entry));
          if ok
          then do {
            tentative \<leftarrow> bs_set (ev_id (h entry)) (sr_linearized s);
            if \<not> cacheHas (sr_cache s) tentative newState
            then do {
              lin \<leftarrow> bs_set (ev_id (h entry)) (sr_linearized s);
              h' \<leftarrow> lift entry h;
              Some (Inr \<lparr>sr_heap = h', sr_linearized = lin, sr_cache = cacheAdd (sr_cache s) tentative newState,
                         sr_calls = \<lparr>fr_call = entry, fr_state = sr_state s\<rparr> # sr_calls s, sr_state = newState,
                         sr_entry = ev_next (h' head)\<rparr>)
            }
            else Some (Inr (s\<lparr>sr_entry := ev_next (h entry)\<rparr>))
          }
          else Some (Inr (s\<lparr>sr_entry := ev_next (h entry)\<rparr>))
        }
        else (case sr_calls s of
                [] \<Rightarrow> Some (Inl False)
              | f # rest \<Rightarrow>
                  do { lin \<leftarrow> bs_clear (ev_id (h (fr_call f))) (sr_linearized s);
                       h' \<leftarrow> unlift (fr_call f) h;
                       Some (Inr (s\<lparr>sr_heap := h', sr_linearized := lin, sr_calls := rest, sr_state := fr_state f,
                                    sr_entry := ev_next (h' (fr_call f))\<rparr>)) })
      })"

partial_function (option) search_loop :: "search \<Rightarrow> bool option" where
  "search_loop s =
     (case search_step s of
        None \<Rightarrow> None
      | Some (Inl r) \<Rightarrow> Some r
      | Some (Inr s') \<Rightarrow> search_loop s')"

declare search_loop.simps [code]

definition search_start :: "Op list \<Rightarrow> search" where
  "search_start ops =
     (let h = buildEventList ops
      in \<lparr>sr_heap = h, sr_linearized = newBitset (length ops), sr_cache = (\<lambda>_. []), sr_calls = [],
          sr_state = zero_regState, sr_entry = ev_next (h head)\<rparr>)"

definition linearizableRegister :: "Op list \<Rightarrow> bool option" where
  "linearizableRegister ops = (if ops = [] then Some True else search_loop (search_start ops))"

subsection \<open>Whole histories (\<open>lincheck.go\<close>)\<close>

record Result =
  r_Linearizable :: bool
  r_Key :: bytes
  r_Witness :: "Op list"

definition sortedByCall :: "Op list \<Rightarrow> Op list" where
  "sortedByCall ops = sort_key op_Call (sort_key op_Return ops)"

text \<open>\<^verbatim>\<open>byKey\<close>: the operations on a key, in the order of the history; its keys, sorted.\<close>

definition byKey :: "Op list \<Rightarrow> bytes \<Rightarrow> Op list" where
  "byKey history k = filter (\<lambda>op. op_Key op = k) history"

fun check_keys :: "Op list \<Rightarrow> bytes list \<Rightarrow> Result option" where
  "check_keys history [] = Some \<lparr>r_Linearizable = True, r_Key = [], r_Witness = []\<rparr>"
| "check_keys history (k # ks) =
     do { ok \<leftarrow> linearizableRegister (byKey history k);
          if ok then check_keys history ks
          else Some \<lparr>r_Linearizable = False, r_Key = k, r_Witness = sortedByCall (byKey history k)\<rparr> }"

definition Check :: "Op list \<Rightarrow> Result option" where
  "Check history = check_keys history (sort (remdups (map op_Key history)))"

end
