(* ===== verification/Lincheck_List.thy ===== *)
theory Lincheck_List
  imports Lincheck
begin

section \<open>The event list of the checker\<close>

text \<open>
  The heap of \<open>Lincheck\<close> as a doubly linked list.  Removing a node leaves its own links intact, so that
  inserting it again restores the heap exactly; \<open>lift\<close> and \<open>unlift\<close> are two such steps each.  The list
  that \<open>buildEventList\<close> builds holds the calls and returns of the operations in the order of their ticks.
\<close>

subsection \<open>Doubly linked lists\<close>

fun seg :: "heap \<Rightarrow> addr list \<Rightarrow> bool" where
  "seg h (a # b # as) = (ev_next (h a) = Some b \<and> ev_prev (h b) = Some a \<and> seg h (b # as))"
| "seg h _ = True"

definition dl :: "heap \<Rightarrow> addr list \<Rightarrow> bool" where
  "dl h xs = (distinct (head # xs) \<and> seg h (head # xs) \<and> ev_next (h (last (head # xs))) = None)"

text \<open>The fields that no operation of the search changes.\<close>

definition static :: "heap \<Rightarrow> addr \<Rightarrow> entryKind \<times> nat \<times> int \<times> Op \<times> addr option" where
  "static h a = (ev_kind (h a), ev_id (h a), ev_tick (h a), ev_op (h a), ev_match (h a))"

lemma static_match: "static h' = static h \<Longrightarrow> ev_match (h' a) = ev_match (h a)"
  by (drule fun_cong [of _ _ a]) (simp add: static_def)

definition unlink :: "addr \<Rightarrow> heap \<Rightarrow> heap option" where
  "unlink a h =
     do { p \<leftarrow> ev_prev (h a);
          let h1 = h(p := (h p)\<lparr>ev_next := ev_next (h a)\<rparr>);
          (case ev_next (h1 a) of
             None \<Rightarrow> Some h1
           | Some x \<Rightarrow> Some (h1(x := (h1 x)\<lparr>ev_prev := ev_prev (h1 a)\<rparr>))) }"

definition relink :: "addr \<Rightarrow> heap \<Rightarrow> heap option" where
  "relink a h =
     do { p \<leftarrow> ev_prev (h a);
          let h1 = h(p := (h p)\<lparr>ev_next := Some a\<rparr>);
          (case ev_next (h1 a) of
             None \<Rightarrow> Some h1
           | Some x \<Rightarrow> Some (h1(x := (h1 x)\<lparr>ev_prev := Some a\<rparr>))) }"

lemma seg_append:
  "seg h (ps @ p # a # bs) \<longleftrightarrow> seg h (ps @ [p]) \<and> ev_next (h p) = Some a \<and> ev_prev (h a) = Some p \<and> seg h (a # bs)"
proof (induction ps)
  case (Cons q ps)
  then show ?case by (cases ps) auto
qed simp

lemma in_set_tl: "x \<in> set (tl xs) \<Longrightarrow> x \<in> set xs"
  by (cases xs) auto

lemma seg_cong:
  assumes "\<forall>a \<in> set (butlast xs). ev_next (h' a) = ev_next (h a)"
    and "\<forall>a \<in> set (tl xs). ev_prev (h' a) = ev_prev (h a)"
  shows "seg h' xs = seg h xs"
  using assms
proof (induction xs)
  case (Cons a ys)
  then show ?case by (cases ys) auto
qed simp

lemma next_upd_same [simp]: "ev_next (r :: node) = v \<Longrightarrow> r\<lparr>ev_next := v\<rparr> = r"
  by (cases r) simp

lemma prev_upd_same [simp]: "ev_prev (r :: node) = v \<Longrightarrow> r\<lparr>ev_prev := v\<rparr> = r"
  by (cases r) simp

lemma unlink_seg:
  assumes d: "distinct (ps @ p # a # bs)" and s: "seg h (ps @ p # a # bs)"
    and e: "ev_next (h (last (p # a # bs))) = None"
  obtains h' where "unlink a h = Some h'" "relink a h' = Some h" "static h' = static h" "h' a = h a"
    "seg h' (ps @ p # bs)" "ev_next (h' (last (p # bs))) = None"
proof (cases bs)
  case Nil
  let ?h' = "h(p := (h p)\<lparr>ev_next := None\<rparr>)"
  from assms Nil have l: "ev_next (h p) = Some a" "ev_prev (h a) = Some p" "seg h (ps @ [p])" "ev_next (h a) = None" "p \<noteq> a"
    by (auto simp: seg_append)
  have "seg ?h' (ps @ [p]) = seg h (ps @ [p])"
    using d by (intro seg_cong) (auto simp: butlast_append)
  moreover have "unlink a h = Some ?h'" using l by (simp add: unlink_def)
  moreover have "relink a ?h' = Some h" using l by (simp add: relink_def)
  moreover have "static ?h' = static h" by (rule ext) (simp add: static_def)
  ultimately show ?thesis using that [of ?h'] l Nil by simp
next
  case (Cons x bs')
  let ?h1 = "h(p := (h p)\<lparr>ev_next := Some x\<rparr>)"
  let ?h' = "?h1(x := (?h1 x)\<lparr>ev_prev := Some p\<rparr>)"
  from assms Cons have l: "ev_next (h p) = Some a" "ev_prev (h a) = Some p" "seg h (ps @ [p])" "ev_next (h a) = Some x"
      "ev_prev (h x) = Some a" "seg h (x # bs')" "p \<noteq> a" "p \<noteq> x" "a \<noteq> x"
    by (auto simp: seg_append)
  have "seg ?h' (ps @ [p]) = seg h (ps @ [p])"
    using d Cons by (intro seg_cong) (auto simp: butlast_append dest: in_set_tl)
  moreover have "seg ?h' (x # bs') = seg h (x # bs')"
    using d Cons by (intro seg_cong) (auto dest: in_set_butlastD split: if_splits)
  moreover have "ev_next (?h' (last (x # bs'))) = None"
    using e d Cons by (auto simp: last_in_set split: if_splits)
  moreover have "unlink a h = Some ?h'" using l by (simp add: unlink_def)
  moreover have "relink a ?h' = Some h" using l by (auto simp: relink_def fun_eq_iff)
  moreover have "static ?h' = static h" by (rule ext) (simp add: static_def)
  ultimately show ?thesis using that [of ?h'] l Cons by (simp add: seg_append)
qed

lemma unlink_dl:
  assumes "dl h (as @ a # bs)"
  obtains h' where "unlink a h = Some h'" "relink a h' = Some h" "static h' = static h" "h' a = h a" "dl h' (as @ bs)"
proof -
  obtain ps p where p: "head # as = ps @ [p]" by (metis append_butlast_last_id list.distinct(1))
  then have eqs: "head # as @ a # bs = ps @ p # a # bs" "head # as @ bs = ps @ p # bs" for bs
    by (metis append.assoc append_Cons append_Nil)+
  from assms have "distinct (ps @ p # a # bs)" "seg h (ps @ p # a # bs)" "ev_next (h (last (p # a # bs))) = None"
    unfolding dl_def by (simp_all only: eqs last_appendR list.distinct) simp
  then obtain h' where h': "unlink a h = Some h'" "relink a h' = Some h" "static h' = static h" "h' a = h a"
    "seg h' (ps @ p # bs)" "ev_next (h' (last (p # bs))) = None"
    by (rule unlink_seg)
  have "dl h' (as @ bs)"
    using assms h'(5,6) unfolding dl_def by (simp only: eqs last_appendR list.distinct) auto
  then show ?thesis using that h' by blast
qed

lemma dl_prev:
  assumes "dl h (as @ n # bs)"
  obtains p where "ev_prev (h n) = Some p" "p \<noteq> n"
proof -
  obtain ps p where "head # as = ps @ [p]" by (metis append_butlast_last_id list.distinct(1))
  then have "head # as @ n # bs = ps @ p # n # bs" by (metis append.assoc append_Cons append_Nil)
  with assms have "distinct (ps @ p # n # bs)" "seg h (ps @ p # n # bs)" unfolding dl_def by simp_all
  then show ?thesis using that by (auto simp: seg_append)
qed

lemma dl_next:
  assumes "dl h (as @ n # bs @ m # cs)"
  obtains x where "ev_next (h n) = Some x"
proof -
  obtain x zs where "bs @ m # cs = x # zs" by (cases bs) auto
  with assms have "seg h ((head # as) @ n # x # zs)" unfolding dl_def by simp
  then show ?thesis using that unfolding seg_append by blast
qed

lemma lift_unlink:
  assumes "ev_prev (h n) = Some p" "p \<noteq> n" "ev_next (h n) = Some x"
  shows "lift n h = do { h2 \<leftarrow> unlink n h; m \<leftarrow> ev_match (h2 n); unlink m h2 }"
proof -
  let ?h1 = "h(p := (h p)\<lparr>ev_next := ev_next (h n)\<rparr>)"
  have "ev_next (?h1 n) = Some x" using assms by simp
  then show ?thesis by (simp only: lift_def unlink_def Let_def assms(1) Option.bind_lunit option.case)
qed

lemma unlift_relink:
  assumes "ev_match (h n) = Some m" "relink m h = Some h2" "ev_prev (h2 n) = Some p" "p \<noteq> n" "ev_next (h2 n) = Some x"
  shows "unlift n h = relink n h2"
proof -
  from assms(2) obtain mp where mp: "ev_prev (h m) = Some mp"
    by (cases "ev_prev (h m)") (simp_all add: relink_def)
  let ?h1 = "h(mp := (h mp)\<lparr>ev_next := Some m\<rparr>)"
  have "h2 = (case ev_next (?h1 m) of None \<Rightarrow> ?h1 | Some mx \<Rightarrow> ?h1(mx := (?h1 mx)\<lparr>ev_prev := Some m\<rparr>))"
    using assms(2) mp by (auto simp: relink_def Let_def simp del: fun_upd_apply split: option.splits)
  then have "unlift n h = do { p \<leftarrow> ev_prev (h2 n); let h3 = h2(p := (h2 p)\<lparr>ev_next := Some n\<rparr>);
      x \<leftarrow> ev_next (h3 n); Some (h3(x := (h3 x)\<lparr>ev_prev := Some n\<rparr>)) }"
    using assms(1) mp by (simp add: unlift_def Let_def del: fun_upd_apply)
  then show ?thesis using assms(3-5) by (simp add: relink_def Let_def)
qed

text \<open>\<open>lift\<close> takes a call and its return out of the list, \<open>unlift\<close> restores the heap.\<close>

lemma lift_dl:
  assumes d: "dl h (as @ n # bs @ m # cs)" and m: "ev_match (h n) = Some m"
  obtains h' where "lift n h = Some h'" "unlift n h' = Some h" "static h' = static h" "dl h' (as @ bs @ cs)"
proof -
  obtain h2 where h2: "unlink n h = Some h2" "relink n h2 = Some h" "static h2 = static h" "h2 n = h n" "dl h2 (as @ bs @ m # cs)"
    using unlink_dl [OF d] by blast
  from h2(5) have "dl h2 ((as @ bs) @ m # cs)" by simp
  from unlink_dl [OF this]
  obtain h' where h': "unlink m h2 = Some h'" "relink m h' = Some h2" "static h' = static h2" "dl h' ((as @ bs) @ cs)" by blast
  obtain p where p: "ev_prev (h n) = Some p" "p \<noteq> n" using d by (rule dl_prev)
  obtain x where x: "ev_next (h n) = Some x" using d by (rule dl_next)
  have "ev_match (h' n) = Some m" using m static_match [OF h2(3)] static_match [OF h'(3)] by metis
  then have "unlift n h' = Some h" using unlift_relink [OF _ h'(2)] p x h2(2,4) by simp
  moreover have "lift n h = Some h'" using lift_unlink [of h n] p x h2(1,4) h'(1) m by simp
  ultimately show ?thesis using that h2(3) h'(3,4) by simp
qed

subsection \<open>Building the list\<close>

lemma thread_events_dl:
  assumes "distinct (p # es)" "\<forall>a \<in> set (p # es). ev_next (h a) = None"
  shows "seg (thread_events es p h) (p # es) \<and> ev_next (thread_events es p h (last (p # es))) = None \<and>
    (\<forall>a. a \<notin> set (p # es) \<longrightarrow> thread_events es p h a = h a) \<and>
    ev_prev (thread_events es p h p) = ev_prev (h p) \<and> static (thread_events es p h) = static h"
  using assms
proof (induction es arbitrary: p h)
  case (Cons e es)
  define h2 where "h2 = (h(p := (h p)\<lparr>ev_next := Some e\<rparr>))(e := ((h(p := (h p)\<lparr>ev_next := Some e\<rparr>)) e)\<lparr>ev_prev := Some p\<rparr>)"
  have t: "thread_events (e # es) p h = thread_events es e h2" by (simp only: thread_events.simps Let_def h2_def)
  have h2: "\<forall>a \<in> set (e # es). ev_next (h2 a) = None" "h2 p = (h p)\<lparr>ev_next := Some e\<rparr>" "ev_prev (h2 e) = Some p"
    "\<forall>a. a \<noteq> p \<and> a \<noteq> e \<longrightarrow> h2 a = h a"
    using Cons.prems by (auto simp: h2_def)
  have st: "static h2 = static h" by (rule ext) (simp add: static_def h2_def)
  have "distinct (e # es)" using Cons.prems(1) by simp
  note ih = Cons.IH [OF this h2(1)]
  then have "thread_events es e h2 p = h2 p" using Cons.prems(1) by simp
  then show ?case using ih h2(2-4) st t by simp
qed (simp add: static_def)

definition op_addrs :: "nat \<Rightarrow> nat \<Rightarrow> addr list" where
  "op_addrs i n = concat (map (\<lambda>j. [call_at j, ret_at j]) [i..<i + n])"

lemma op_addrs_Suc: "op_addrs i (Suc n) = [call_at i, ret_at i] @ op_addrs (Suc i) n"
  by (simp add: op_addrs_def upt_conv_Cons del: upt_Suc)

lemma set_op_addrs: "a \<in> set (op_addrs i n) \<longleftrightarrow> (\<exists>j. i \<le> j \<and> j < i + n \<and> (a = call_at j \<or> a = ret_at j))"
  by (auto simp: op_addrs_def)

lemma distinct_op_addrs: "distinct (op_addrs i n)"
proof (induction n arbitrary: i)
  case (Suc n)
  have "call_at i \<notin> set (op_addrs (Suc i) n)" "ret_at i \<notin> set (op_addrs (Suc i) n)"
    by (auto simp: set_op_addrs)
  then show ?case using Suc by (simp add: op_addrs_Suc)
qed (simp add: op_addrs_def)

lemma alloc_events_list: "snd (alloc_events ops i h evs) = evs @ op_addrs i (length ops)"
  by (induction ops arbitrary: i h evs) (simp_all add: op_addrs_Suc, simp add: op_addrs_def)

lemma alloc_events_before: "a \<le> 2 * i \<Longrightarrow> fst (alloc_events ops i h evs) a = h a"
  by (induction ops arbitrary: i h evs) auto

lemma alloc_events_nodes:
  assumes "j < length ops"
  shows "fst (alloc_events ops i h evs) (call_at (i + j)) =
      zero_node\<lparr>ev_kind := entryCall, ev_id := i + j, ev_tick := op_Call (ops ! j), ev_op := ops ! j, ev_match := Some (ret_at (i + j))\<rparr>"
    and "fst (alloc_events ops i h evs) (ret_at (i + j)) =
      zero_node\<lparr>ev_kind := entryReturn, ev_id := i + j, ev_tick := op_Return (ops ! j)\<rparr>"
  using assms
proof (induction ops arbitrary: i j h evs)
  case (Cons op ops)
  {
    case 1
    then show ?case using Cons.IH(1) [of "j - 1" "Suc i"] by (cases j) (simp_all add: alloc_events_before)
  next
    case 2
    then show ?case using Cons.IH(2) [of "j - 1" "Suc i"] by (cases j) (simp_all add: alloc_events_before)
  }
qed simp_all

text \<open>The operation of an address, its tick, and the list of all events.\<close>

definition opid :: "addr \<Rightarrow> nat" where "opid a = (a - 1) div 2"

definition tick_at :: "Op list \<Rightarrow> addr \<Rightarrow> int" where
  "tick_at ops a = (if odd a then op_Call (ops ! opid a) else op_Return (ops ! opid a))"

definition events :: "Op list \<Rightarrow> addr list" where
  "events ops = sort_key (tick_at ops) (op_addrs 0 (length ops))"

lemma opid_simps [simp]: "opid (call_at i) = i" "opid (ret_at i) = i" "opid (Suc (2 * i)) = i" "opid (Suc (Suc (2 * i))) = i"
  by (simp_all add: opid_def)

lemma tick_at_simps [simp]: "tick_at ops (call_at i) = op_Call (ops ! i)" "tick_at ops (ret_at i) = op_Return (ops ! i)"
    "tick_at ops (Suc (2 * i)) = op_Call (ops ! i)" "tick_at ops (Suc (Suc (2 * i))) = op_Return (ops ! i)"
  by (simp_all add: tick_at_def)

lemma set_events: "a \<in> set (events ops) \<longleftrightarrow> (\<exists>j < length ops. a = call_at j \<or> a = ret_at j)"
  by (simp add: events_def set_op_addrs)

lemma distinct_events: "distinct (events ops)"
  by (simp add: events_def distinct_op_addrs)

lemma sorted_events: "sorted (map (tick_at ops) (events ops))"
  by (simp add: events_def)

definition static_ok :: "Op list \<Rightarrow> heap \<Rightarrow> bool" where
  "static_ok ops h = (\<forall>j < length ops.
     static h (call_at j) = (entryCall, j, op_Call (ops ! j), ops ! j, Some (ret_at j)) \<and>
     static h (ret_at j) = (entryReturn, j, op_Return (ops ! j), zero_Op, None))"

lemma static_okD:
  assumes "static_ok ops h" "j < length ops"
  shows "ev_kind (h (call_at j)) = entryCall" "ev_id (h (call_at j)) = j" "ev_op (h (call_at j)) = ops ! j"
    "ev_match (h (call_at j)) = Some (ret_at j)" "ev_kind (h (ret_at j)) = entryReturn"
  using assms by (auto simp: static_ok_def static_def)

lemma static_ok_cong: "static h' = static h \<Longrightarrow> static_ok ops h' = static_ok ops h"
  by (simp add: static_ok_def)

lemma insort_key_agree: "f x = g x \<Longrightarrow> \<forall>y \<in> set xs. f y = g y \<Longrightarrow> insort_key f x xs = insort_key g x xs"
  by (induction xs) simp_all

lemma sort_key_agree: "\<forall>x \<in> set xs. f x = g x \<Longrightarrow> sort_key f xs = sort_key g xs"
proof (induction xs)
  case (Cons x xs)
  then have "insort_key f x (sort_key g xs) = insort_key g x (sort_key g xs)" by (intro insort_key_agree) simp_all
  then show ?case using Cons by simp
qed simp

lemma buildEventList_dl: "dl (buildEventList ops) (events ops)" "static_ok ops (buildEventList ops)"
proof -
  obtain h evs where a: "alloc_events ops 0 (\<lambda>_. zero_node) [] = (h, evs)" by fastforce
  have evs: "evs = op_addrs 0 (length ops)" using alloc_events_list [of ops 0 "\<lambda>_. zero_node" "[]"] a by simp
  have call: "h (call_at j) = zero_node\<lparr>ev_kind := entryCall, ev_id := j, ev_tick := op_Call (ops ! j), ev_op := ops ! j, ev_match := Some (ret_at j)\<rparr>"
    and ret: "h (ret_at j) = zero_node\<lparr>ev_kind := entryReturn, ev_id := j, ev_tick := op_Return (ops ! j)\<rparr>" if "j < length ops" for j
    using alloc_events_nodes [OF that, of 0 "\<lambda>_. zero_node" "[]"] a by simp_all
  have hd: "h head = zero_node" using alloc_events_before [of head 0 ops "\<lambda>_. zero_node" "[]"] a by simp
  have "\<forall>e \<in> set evs. ev_tick (h e) = tick_at ops e"
    using call ret by (auto simp: evs set_op_addrs)
  then have "sort_key (\<lambda>e. ev_tick (h e)) evs = events ops"
    unfolding events_def evs [symmetric] by (rule sort_key_agree)
  then have b: "buildEventList ops = thread_events (events ops) head h" by (simp add: buildEventList_def a)
  have d: "distinct (head # events ops)" by (auto simp: distinct_events set_events)
  have "\<forall>a \<in> set (head # events ops). ev_next (h a) = None"
    using call ret hd by (auto simp: set_events zero_node_def)
  note t = thread_events_dl [OF d this]
  show "dl (buildEventList ops) (events ops)" using t d by (simp add: dl_def b)
  have "static_ok ops h" using call ret by (simp add: static_ok_def static_def zero_node_def)
  then show "static_ok ops (buildEventList ops)" using t static_ok_cong b by metis
qed

subsection \<open>Histories and the events of the operations still to be placed\<close>

text \<open>
  The ticks of a history come from one counter: an operation is called before it returns, and no
  operation returns at the tick at which an operation is called.
\<close>

definition ticks_ok :: "Op list \<Rightarrow> bool" where
  "ticks_ok ops = ((\<forall>op \<in> set ops. op_Call op < op_Return op) \<and> (\<forall>a \<in> set ops. \<forall>b \<in> set ops. op_Return a \<noteq> op_Call b))"

definition pending :: "Op list \<Rightarrow> nat set \<Rightarrow> addr list" where
  "pending ops S = filter (\<lambda>a. opid a \<notin> S) (events ops)"

lemma set_pending: "a \<in> set (pending ops S) \<longleftrightarrow> (\<exists>j < length ops. j \<notin> S \<and> (a = call_at j \<or> a = ret_at j))"
  by (auto simp: pending_def set_events)

lemma pending_id: "a \<in> set (pending ops S) \<Longrightarrow> opid a < length ops \<and> opid a \<notin> S"
  by (auto simp: set_pending)

lemma distinct_pending: "distinct (pending ops S)"
  by (simp add: pending_def distinct_events)

lemma pending_order:
  assumes "pending ops S = as @ a # bs" "b \<in> set bs"
  shows "tick_at ops a \<le> tick_at ops b"
proof -
  have "sorted (map (tick_at ops) (pending ops S))" unfolding pending_def using sorted_events by (rule sorted_filter)
  then show ?thesis using assms by (auto simp: sorted_append)
qed

lemma pending_split:
  assumes "ticks_ok ops" "j < length ops" and p: "pending ops S = as @ call_at j # bs"
  obtains bs' cs where "bs = bs' @ ret_at j # cs" "pending ops (insert j S) = as @ bs' @ cs"
proof -
  have "j \<notin> S" using pending_id [of "call_at j" ops S] p by simp
  then have "ret_at j \<in> set (pending ops S)" using assms(2) by (auto simp: set_pending)
  moreover have "ret_at j \<notin> set as"
  proof
    assume "ret_at j \<in> set as"
    then obtain us vs where "as = us @ ret_at j # vs" by (auto simp: in_set_conv_decomp)
    then have "tick_at ops (ret_at j) \<le> tick_at ops (call_at j)" using p by (intro pending_order [of ops S us]) auto
    then show False using assms(1) nth_mem [OF assms(2)] by (fastforce simp: ticks_ok_def)
  qed
  ultimately have "ret_at j \<in> set bs" using p by auto
  then obtain bs' cs where bs: "bs = bs' @ ret_at j # cs" by (auto simp: in_set_conv_decomp)
  have d: "distinct (as @ call_at j # bs' @ ret_at j # cs)" using distinct_pending [of ops S] p bs by simp
  have "\<forall>a \<in> set (pending ops S). opid a = j \<longrightarrow> a = call_at j \<or> a = ret_at j"
    by (auto simp: set_pending)
  then have "\<forall>a \<in> set as \<union> set bs' \<union> set cs. opid a \<noteq> j" using d unfolding p bs by fastforce
  moreover have "pending ops (insert j S) = filter (\<lambda>a. opid a \<noteq> j) (pending ops S)"
    unfolding pending_def by (auto intro: filter_cong)
  ultimately have "pending ops (insert j S) = as @ bs' @ cs" using p bs by (simp add: filter_id_conv)
  then show ?thesis using that bs by blast
qed

text \<open>The heap after the operations of a path were lifted, the last one first in the path.\<close>

inductive lifted :: "Op list \<Rightarrow> heap \<Rightarrow> nat list \<Rightarrow> bool" for ops where
  start: "lifted ops (buildEventList ops) []"
| lift: "lifted ops h p \<Longrightarrow> j < length ops \<Longrightarrow> j \<notin> set p \<Longrightarrow> lift (call_at j) h = Some h' \<Longrightarrow> lifted ops h' (j # p)"

inductive_cases lifted_ConsE: "lifted ops h (j # p)"

lemma in_pending_split:
  assumes "ticks_ok ops" "j < length ops" "j \<notin> S"
  obtains as bs cs where "pending ops S = as @ call_at j # bs @ ret_at j # cs" "pending ops (insert j S) = as @ bs @ cs"
proof -
  have "call_at j \<in> set (pending ops S)" using assms(2,3) by (auto simp: set_pending)
  then obtain as bs where p: "pending ops S = as @ call_at j # bs" by (auto simp: in_set_conv_decomp)
  from pending_split [OF assms(1,2) p] that p show ?thesis by metis
qed

lemma lifted_dl:
  assumes "lifted ops h p" "ticks_ok ops"
  shows "dl h (pending ops (set p)) \<and> static_ok ops h"
  using assms(1)
proof induction
  case start
  then show ?case using buildEventList_dl [of ops] by (simp add: pending_def)
next
  case (lift h p j h')
  obtain as bs cs where p: "pending ops (set p) = as @ call_at j # bs @ ret_at j # cs" "pending ops (insert j (set p)) = as @ bs @ cs"
    using in_pending_split [OF assms(2) lift(2,3)] by blast
  have "dl h (as @ call_at j # bs @ ret_at j # cs)" "ev_match (h (call_at j)) = Some (ret_at j)"
    using lift.IH p(1) static_okD [OF _ lift(2)] by simp_all
  from lift_dl [OF this] lift(4) lift.IH show ?case using p(2) static_ok_cong by (metis list.simps(15) option.inject)
qed

lemma lifted_lift:
  assumes "lifted ops h p" "ticks_ok ops" "j < length ops" "j \<notin> set p"
  obtains h' where "lift (call_at j) h = Some h'" "unlift (call_at j) h' = Some h" "lifted ops h' (j # p)"
proof -
  obtain as bs cs where p: "pending ops (set p) = as @ call_at j # bs @ ret_at j # cs"
    using in_pending_split [OF assms(2-4)] by blast
  have "dl h (as @ call_at j # bs @ ret_at j # cs)" "ev_match (h (call_at j)) = Some (ret_at j)"
    using lifted_dl [OF assms(1,2)] p static_okD [OF _ assms(3)] by simp_all
  from lift_dl [OF this] lifted.lift [OF assms(1,3,4)] that show ?thesis by metis
qed

lemma lifted_unlift:
  assumes "lifted ops h (j # p)" "ticks_ok ops"
  obtains h0 where "unlift (call_at j) h = Some h0" "lifted ops h0 p" "j < length ops" "j \<notin> set p"
proof -
  from assms(1) obtain h0 where l: "lifted ops h0 p" "j < length ops" "j \<notin> set p" "lift (call_at j) h0 = Some h"
    by (rule lifted_ConsE) simp
  obtain h' where "lift (call_at j) h0 = Some h'" "unlift (call_at j) h' = Some h0"
    using lifted_lift [OF l(1) assms(2) l(2,3)] by blast
  then show ?thesis using that l by simp
qed

lemma dl_head: "dl h xs \<Longrightarrow> ev_next (h head) = (case xs of [] \<Rightarrow> None | x # _ \<Rightarrow> Some x)"
  by (cases xs) (simp_all add: dl_def)

lemma dl_next_at:
  assumes "dl h (as @ a # bs)"
  shows "ev_next (h a) = (case bs of [] \<Rightarrow> None | x # _ \<Rightarrow> Some x)"
proof (cases bs)
  case Nil
  then show ?thesis using assms by (simp add: dl_def)
next
  case (Cons x zs)
  have "seg h ((head # as) @ a # x # zs)" using assms Cons unfolding dl_def by simp
  then show ?thesis using Cons unfolding seg_append by simp
qed

end
