(* ===== verification/Lincheck_Search.thy ===== *)
theory Lincheck_Search
  imports Lincheck_List
begin

section \<open>Correctness of the search\<close>

text \<open>
  The search over one register always ends, and it answers whether the operations have an order that
  respects real time and the register.  The invariant describes the heap by the operations lifted so
  far, the stack by the scan each frame interrupted, and the cache by the pairs that are either on the
  current path or have no completion.
\<close>

unbundle bit_operations_syntax

subsection \<open>Bitsets\<close>

definition bs_repr :: "nat \<Rightarrow> nat set \<Rightarrow> bitset \<Rightarrow> bool" where
  "bs_repr n S b = (length b = (n + 63) div 64 \<and> (\<forall>w < length b. \<forall>k < 64. bit (b ! w) k \<longleftrightarrow> 64 * w + k \<in> S))"

definition bits :: "nat \<Rightarrow> nat set \<Rightarrow> bitset" where
  "bits n S = (THE b. bs_repr n S b)"

lemma index_in_bitset: "i < n \<Longrightarrow> i div 64 < (n + 63) div (64 :: nat)"
proof -
  assume "i < n"
  have "Suc (i div 64) * 64 = i div 64 * 64 + 64" by simp
  also have "\<dots> \<le> n + 63" using \<open>i < n\<close> div_times_less_eq_dividend [of i 64] by linarith
  finally have "Suc (i div 64) \<le> (n + 63) div 64" by (simp add: less_eq_div_iff_mult_less_eq)
  then show ?thesis by simp
qed

lemma addr_bits: "k < 64 \<Longrightarrow> 64 * w + k = i \<longleftrightarrow> w = i div 64 \<and> k = i mod (64 :: nat)"
  by auto

lemma bit_one_at: "k < 64 \<Longrightarrow> bit (2 ^ m :: u64) k \<longleftrightarrow> k = m"
  by (auto simp: bit_simps)

lemma bs_repr_unique:
  assumes "bs_repr n S b" "bs_repr n S b'"
  shows "b = b'"
proof (rule nth_equalityI)
  show "length b = length b'" using assms by (simp add: bs_repr_def)
  fix w
  assume "w < length b"
  then show "b ! w = b' ! w"
    using assms by (intro bit_word_eqI) (simp add: bs_repr_def)
qed

lemma bs_repr_inj:
  assumes "bs_repr n S b" "bs_repr n S' b" "S \<subseteq> {..<n}" "S' \<subseteq> {..<n}"
  shows "S = S'"
proof (rule set_eqI)
  fix i
  show "i \<in> S \<longleftrightarrow> i \<in> S'"
  proof (cases "i < n")
    case True
    then have "i div 64 < length b" using assms(1) index_in_bitset by (simp add: bs_repr_def)
    moreover have "64 * (i div 64) + i mod 64 = i" by simp
    ultimately show ?thesis using assms(1,2) unfolding bs_repr_def
      by (metis mod_less_divisor zero_less_numeral)
  next
    case False
    then show ?thesis using assms(3,4) by auto
  qed
qed

lemma bs_repr_empty: "bs_repr n {} (newBitset n)"
  by (simp add: bs_repr_def newBitset_def)

lemma bs_set_repr:
  assumes "bs_repr n S b" "i < n"
  obtains b' where "bs_set i b = Some b'" "bs_repr n (insert i S) b'"
proof -
  have i: "i div 64 < length b" using assms index_in_bitset by (simp add: bs_repr_def)
  then have "bs_repr n (insert i S) (b[i div 64 := (b ! (i div 64)) OR push_bit (i mod 64) 1])"
    using assms(1) by (auto simp: bs_repr_def nth_list_update bit_or_iff bit_one_at addr_bits)
  with i show ?thesis by (intro that [of "b[i div 64 := (b ! (i div 64)) OR push_bit (i mod 64) 1]"]) (simp_all only: bs_set_def if_True)
qed

lemma bs_clear_repr:
  assumes "bs_repr n S b" "i < n"
  obtains b' where "bs_clear i b = Some b'" "bs_repr n (S - {i}) b'"
proof -
  have i: "i div 64 < length b" using assms index_in_bitset by (simp add: bs_repr_def)
  then have "bs_repr n (S - {i}) (b[i div 64 := (b ! (i div 64)) AND NOT (push_bit (i mod 64) 1)])"
    using assms(1) by (auto simp: bs_repr_def nth_list_update bit_and_iff bit_not_iff bit_one_at addr_bits)
  with i show ?thesis by (intro that [of "b[i div 64 := (b ! (i div 64)) AND NOT (push_bit (i mod 64) 1)]"]) (simp_all only: bs_clear_def if_True)
qed

lemma bits_repr:
  assumes "S \<subseteq> {..<n}"
  shows "bs_repr n S (bits n S)"
proof -
  have "finite S" using assms finite_subset by blast
  then have "\<exists>b. bs_repr n S b" using assms
  proof induction
    case (insert i S)
    then obtain b where "bs_repr n S b" by auto
    from bs_set_repr [OF this, of i] insert.prems show ?case by (metis insert_subset lessThan_iff)
  qed (use bs_repr_empty in blast)
  then have "\<exists>!b. bs_repr n S b" using bs_repr_unique by blast
  then show ?thesis unfolding bits_def by (rule theI')
qed

lemma bits_eq: "S \<subseteq> {..<n} \<Longrightarrow> bs_repr n S b \<Longrightarrow> b = bits n S"
  using bits_repr bs_repr_unique by blast

lemma bits_inj: "S \<subseteq> {..<n} \<Longrightarrow> S' \<subseteq> {..<n} \<Longrightarrow> bits n S = bits n S' \<longleftrightarrow> S = S'"
  using bits_repr [of S n] bits_repr [of S' n] bs_repr_inj by metis

lemma bits_empty: "newBitset n = bits n {}"
  using bits_eq bs_repr_empty by blast

lemma bits_set: "S \<subseteq> {..<n} \<Longrightarrow> i < n \<Longrightarrow> bs_set i (bits n S) = Some (bits n (insert i S))"
  using bs_set_repr [OF bits_repr, of S n i] bits_eq [of "insert i S" n] by (metis insert_subset lessThan_iff)

lemma bits_clear: "S \<subseteq> {..<n} \<Longrightarrow> i < n \<Longrightarrow> bs_clear i (bits n S) = Some (bits n (S - {i}))"
  using bs_clear_repr [OF bits_repr, of S n i] bits_eq [of "S - {i}" n] by (metis Diff_subset subset_trans)

subsection \<open>The cache\<close>

lemma bs_equal_eq: "bs_equal b b' \<longleftrightarrow> b = b'"
  by (auto simp: bs_equal_def list_all_iff intro: nth_equalityI)

lemma cacheHas_empty: "\<not> cacheHas (\<lambda>_. []) b st"
  by (simp add: cacheHas_def)

lemma cacheHas_add: "cacheHas (cacheAdd c b st) b' st' \<longleftrightarrow> b' = b \<and> st' = st \<or> cacheHas c b' st'"
  by (auto simp: cacheHas_def cacheAdd_def Let_def bs_equal_eq)

definition cached :: "Op list \<Rightarrow> cache \<Rightarrow> nat set \<Rightarrow> regState \<Rightarrow> bool" where
  "cached ops c S st = cacheHas c (bits (length ops) S) st"

lemma cached_add:
  assumes "S \<subseteq> {..<length ops}" "S' \<subseteq> {..<length ops}"
  shows "cached ops (cacheAdd c (bits (length ops) S) st) S' st' \<longleftrightarrow> S' = S \<and> st' = st \<or> cached ops c S' st'"
  unfolding cached_def cacheHas_add bits_inj [OF assms(2,1)] ..

lemma cached_mono: "cached ops c S st \<Longrightarrow> cached ops (cacheAdd c b st') S st"
  by (simp add: cached_def cacheHas_add)

subsection \<open>Linearizations of a register history\<close>

text \<open>
  \<open>rt ops i j\<close>: operation \<open>i\<close> may come before \<open>j\<close>, since \<open>j\<close> did not return before \<open>i\<close> was called.  A
  completion orders the operations outside \<open>S\<close> from the state \<open>st\<close>; a linearization orders them all.
\<close>

definition rt :: "Op list \<Rightarrow> nat \<Rightarrow> nat \<Rightarrow> bool" where
  "rt ops i j = (\<not> op_Return (ops ! j) < op_Call (ops ! i))"

primrec legal :: "regState \<Rightarrow> Op list \<Rightarrow> bool" where
  "legal st [] = True"
| "legal st (op # ops) = (snd (stepRegister st op) \<and> legal (fst (stepRegister st op)) ops)"

definition completion :: "Op list \<Rightarrow> nat set \<Rightarrow> regState \<Rightarrow> nat list \<Rightarrow> bool" where
  "completion ops S st is = (distinct is \<and> set is = {..<length ops} - S \<and> sorted_wrt (rt ops) is \<and> legal st (map ((!) ops) is))"

definition completable :: "Op list \<Rightarrow> nat set \<Rightarrow> regState \<Rightarrow> bool" where
  "completable ops S st = (\<exists>is. completion ops S st is)"

lemma completion_Cons:
  assumes "completion ops S st (i # is)"
  shows "i < length ops" "i \<notin> S" "snd (stepRegister st (ops ! i))"
    "completion ops (insert i S) (fst (stepRegister st (ops ! i))) is" "\<And>j. j < length ops \<Longrightarrow> j \<notin> S \<Longrightarrow> j \<noteq> i \<Longrightarrow> rt ops i j"
  using assms by (auto simp: completion_def)

lemma completion_ConsI:
  assumes "i < length ops" "i \<notin> S" "stepRegister st (ops ! i) = (st', True)" "completion ops (insert i S) st' is"
    "\<forall>j < length ops. j \<notin> S \<longrightarrow> rt ops i j"
  shows "completion ops S st (i # is)"
  using assms by (auto simp: completion_def)

lemma completion_done: "{..<length ops} \<subseteq> S \<Longrightarrow> completion ops S st []"
  by (auto simp: completion_def)

text \<open>The first operation of a completion is called before any pending operation returns.\<close>

lemma first_in_prefix:
  assumes "ticks_ok ops" "completion ops S st (i # is)" "pending ops S = as @ ret_at j # bs"
  shows "call_at i \<in> set as"
proof -
  note c = completion_Cons [OF assms(2)]
  have j: "j < length ops" "j \<notin> S"
    using pending_id [of "ret_at j" ops S] assms(3) by simp_all
  have "call_at i \<in> set (pending ops S)" using c(1,2) by (auto simp: set_pending)
  moreover have "call_at i \<notin> set bs"
  proof
    assume "call_at i \<in> set bs"
    with pending_order [OF assms(3)] have "op_Return (ops ! j) \<le> op_Call (ops ! i)" by fastforce
    moreover have "op_Return (ops ! j) \<noteq> op_Call (ops ! i)" "op_Call (ops ! i) < op_Return (ops ! i)"
      using assms(1) j(1) c(1) by (auto simp: ticks_ok_def)
    ultimately show False using c(5) [OF j] by (cases "j = i") (auto simp: rt_def)
  qed
  moreover have "call_at i \<noteq> ret_at j" by presburger
  ultimately show ?thesis using assms(3) by auto
qed

text \<open>An operation whose call is preceded by calls only may come first.\<close>

lemma prefix_first:
  assumes "pending ops S = as @ call_at i # bs" "\<forall>a \<in> set as. \<exists>k. a = call_at k" "j < length ops" "j \<notin> S"
  shows "rt ops i j"
proof -
  have "ret_at j \<in> set (pending ops S)" using assms(3,4) by (auto simp: set_pending)
  moreover have "ret_at j \<noteq> call_at k" for k by presburger
  ultimately have "ret_at j \<in> set bs" using assms(1,2) by fastforce
  from pending_order [OF assms(1) this] show ?thesis by (simp add: rt_def)
qed

subsection \<open>The invariant\<close>

definition scanned :: "Op list \<Rightarrow> cache \<Rightarrow> nat set \<Rightarrow> regState \<Rightarrow> addr list \<Rightarrow> bool" where
  "scanned ops c S st as = (\<forall>a \<in> set as. \<exists>i. a = call_at i \<and>
     (\<not> snd (stepRegister st (ops ! i)) \<or> cached ops c (insert i S) (fst (stepRegister st (ops ! i)))))"

fun stack_ok :: "Op list \<Rightarrow> cache \<Rightarrow> nat list \<Rightarrow> frame list \<Rightarrow> regState \<Rightarrow> bool" where
  "stack_ok ops c [] [] st = (st = zero_regState)"
| "stack_ok ops c (i # p) (f # fs) st =
     (fr_call f = call_at i \<and> stepRegister (fr_state f) (ops ! i) = (st, True) \<and> i < length ops \<and> i \<notin> set p \<and>
      (\<exists>as bs. pending ops (set p) = as @ call_at i # bs \<and> scanned ops c (set p) (fr_state f) as) \<and>
      cached ops c (set (i # p)) st \<and> stack_ok ops c p fs (fr_state f))"
| "stack_ok ops c _ _ st = False"

fun path_pairs :: "nat list \<Rightarrow> frame list \<Rightarrow> regState \<Rightarrow> (nat set \<times> regState) set" where
  "path_pairs (i # p) (f # fs) st = insert (set (i # p), st) (path_pairs p fs (fr_state f))"
| "path_pairs _ _ st = {}"

definition cache_ok :: "Op list \<Rightarrow> cache \<Rightarrow> nat list \<Rightarrow> frame list \<Rightarrow> regState \<Rightarrow> bool" where
  "cache_ok ops c p fs st = (\<forall>S st'. S \<subseteq> {..<length ops} \<and> cached ops c S st' \<longrightarrow> \<not> completable ops S st' \<or> (S, st') \<in> path_pairs p fs st)"

definition search_inv :: "Op list \<Rightarrow> nat list \<Rightarrow> addr list \<Rightarrow> search \<Rightarrow> bool" where
  "search_inv ops p bs s = (lifted ops (sr_heap s) p \<and> sr_linearized s = bits (length ops) (set p) \<and>
     stack_ok ops (sr_cache s) p (sr_calls s) (sr_state s) \<and> cache_ok ops (sr_cache s) p (sr_calls s) (sr_state s) \<and>
     (\<exists>as. pending ops (set p) = as @ bs \<and> scanned ops (sr_cache s) (set p) (sr_state s) as) \<and>
     sr_entry s = (case bs of [] \<Rightarrow> None | a # _ \<Rightarrow> Some a))"

lemma scanned_calls: "scanned ops c S st as \<Longrightarrow> \<forall>a \<in> set as. \<exists>k. a = call_at k"
  by (auto simp: scanned_def)

lemma scanned_mono: "scanned ops c S st as \<Longrightarrow> scanned ops (cacheAdd c b st') S st as"
  unfolding scanned_def using cached_mono by blast

lemma stack_ok_mono: "stack_ok ops c p fs st \<Longrightarrow> stack_ok ops (cacheAdd c b st') p fs st"
proof (induction ops c p fs st rule: stack_ok.induct)
  case (2 ops c i p f fs st)
  then show ?case using scanned_mono cached_mono unfolding stack_ok.simps by blast
qed simp_all

lemma stack_ok_path: "stack_ok ops c p fs st \<Longrightarrow> distinct p \<and> set p \<subseteq> {..<length ops}"
  by (induction ops c p fs st rule: stack_ok.induct) auto

lemma path_pairs_card: "distinct p \<Longrightarrow> (S, st') \<in> path_pairs p fs st \<Longrightarrow> card S \<le> length p"
  by (induction p fs st rule: path_pairs.induct) (auto simp: distinct_card)

text \<open>The path is the beginning of a linearization, if the rest can be completed.\<close>

lemma path_completable: "stack_ok ops c p fs st \<Longrightarrow> completable ops (set p) st \<Longrightarrow> completable ops {} zero_regState"
proof (induction ops c p fs st rule: stack_ok.induct)
  case (2 ops c i p f fs st)
  then obtain "is" as bs where a: "completion ops (insert i (set p)) st is" "pending ops (set p) = as @ call_at i # bs"
    "scanned ops c (set p) (fr_state f) as" by (auto simp: completable_def)
  have "completion ops (set p) (fr_state f) (i # is)"
    using 2(2) a(1) prefix_first [OF a(2) scanned_calls [OF a(3)]] by (intro completion_ConsI) auto
  then show ?case using 2 by (auto simp: completable_def)
qed simp_all

text \<open>At a return every operation that could come first has been tried in vain.\<close>

lemma dead_end:
  assumes "ticks_ok ops" "stack_ok ops c p fs st" "cache_ok ops c p fs st" "scanned ops c (set p) st as"
    "pending ops (set p) = as @ ret_at j # bs"
  shows "\<not> completable ops (set p) st"
proof
  assume "completable ops (set p) st"
  then obtain "is" where c: "completion ops (set p) st is" by (auto simp: completable_def)
  note path = stack_ok_path [OF assms(2)]
  have "ret_at j \<in> set (pending ops (set p))" using assms(5) by simp
  then obtain k where "k < length ops" "k \<notin> set p" by (auto simp: set_pending)
  then obtain i js where i: "is = i # js" using c by (cases "is") (auto simp: completion_def)
  note ci = completion_Cons [OF c [unfolded i]]
  obtain k where k: "call_at i = call_at k" "\<not> snd (stepRegister st (ops ! k)) \<or> cached ops c (insert k (set p)) (fst (stepRegister st (ops ! k)))"
    using first_in_prefix [OF assms(1) c [unfolded i] assms(5)] assms(4) unfolding scanned_def by blast
  have "cached ops c (insert i (set p)) (fst (stepRegister st (ops ! i)))" using k ci(3) by simp
  moreover have "insert i (set p) \<subseteq> {..<length ops}" using path ci(1) by simp
  moreover have "completable ops (insert i (set p)) (fst (stepRegister st (ops ! i)))" using ci(4) by (auto simp: completable_def)
  ultimately have "(insert i (set p), fst (stepRegister st (ops ! i))) \<in> path_pairs p fs st"
    using assms(3) unfolding cache_ok_def by blast
  then have "card (insert i (set p)) \<le> length p" using path path_pairs_card by blast
  then show False using path ci(2) by (simp add: distinct_card)
qed

subsection \<open>Steps\<close>

lemma search_inv_dl:
  assumes "search_inv ops p bs s" "ticks_ok ops"
  shows "dl (sr_heap s) (pending ops (set p))" "static_ok ops (sr_heap s)"
  using assms lifted_dl by (auto simp: search_inv_def)

lemma pending_empty: "pending ops S = [] \<Longrightarrow> {..<length ops} \<subseteq> S"
proof
  fix i
  assume "pending ops S = []" "i \<in> {..<length ops}"
  then show "i \<in> S" using set_pending [of "call_at i" ops S] by auto
qed

lemma step_done:
  assumes "search_inv ops p bs s" "ticks_ok ops" "pending ops (set p) = []"
  shows "search_step s = Some (Inl True)" "completable ops {} zero_regState"
proof -
  show "search_step s = Some (Inl True)"
    using dl_head [OF search_inv_dl(1) [OF assms(1,2)]] assms(3) by (simp add: search_step_def)
  have "completable ops (set p) (sr_state s)"
    using completion_done [OF pending_empty [OF assms(3)]] by (auto simp: completable_def)
  then show "completable ops {} zero_regState" using path_completable assms(1) by (auto simp: search_inv_def)
qed

text \<open>The list is not empty, so the entry is never nil: a scanned list would consist of calls only.\<close>

lemma entry_exists:
  assumes "search_inv ops p bs s" "pending ops (set p) \<noteq> []"
  obtains j bs' where "j < length ops" "j \<notin> set p" "bs = call_at j # bs'" | j bs' where "bs = ret_at j # bs'"
proof (cases bs)
  case Nil
  then have as: "scanned ops (sr_cache s) (set p) (sr_state s) (pending ops (set p))" using assms(1) by (auto simp: search_inv_def)
  obtain a where "a \<in> set (pending ops (set p))" using assms(2) by (metis list.set_intros(1) neq_Nil_conv)
  then have "ret_at (opid a) \<in> set (pending ops (set p))" using pending_id set_pending by blast
  then obtain k where "ret_at (opid a) = call_at k" using scanned_calls [OF as] by blast
  then show ?thesis by presburger
next
  case (Cons a bs')
  then have "a \<in> set (pending ops (set p))" using assms(1) by (auto simp: search_inv_def)
  then show ?thesis using that Cons by (auto simp: set_pending)
qed

lemma search_step_call:
  assumes "search_inv ops p (call_at j # bs) s" "ticks_ok ops" "j < length ops" "j \<notin> set p"
  shows "search_step s = (let (newState, ok) = stepRegister (sr_state s) (ops ! j) in
      if ok \<and> \<not> cached ops (sr_cache s) (insert j (set p)) newState
      then do { h' \<leftarrow> lift (call_at j) (sr_heap s);
                Some (Inr \<lparr>sr_heap = h', sr_linearized = bits (length ops) (insert j (set p)),
                  sr_cache = cacheAdd (sr_cache s) (bits (length ops) (insert j (set p))) newState,
                  sr_calls = \<lparr>fr_call = call_at j, fr_state = sr_state s\<rparr> # sr_calls s, sr_state = newState,
                  sr_entry = ev_next (h' head)\<rparr>) }
      else Some (Inr (s\<lparr>sr_entry := (case bs of [] \<Rightarrow> None | a # _ \<Rightarrow> Some a)\<rparr>)))"
proof -
  obtain as where as: "pending ops (set p) = as @ call_at j # bs" using assms(1) by (auto simp: search_inv_def)
  note d = search_inv_dl [OF assms(1,2)]
  have sub: "set p \<subseteq> {..<length ops}" using assms(1) stack_ok_path unfolding search_inv_def by blast
  have "\<exists>a. ev_next (sr_heap s head) = Some a" using dl_head [OF d(1)] as by (auto split: list.splits)
  moreover have "ev_next (sr_heap s (call_at j)) = (case bs of [] \<Rightarrow> None | a # _ \<Rightarrow> Some a)"
    using d(1) unfolding as by (rule dl_next_at)
  moreover have "bs_set j (sr_linearized s) = Some (bits (length ops) (insert j (set p)))"
    using bits_set [OF sub assms(3)] assms(1) by (simp add: search_inv_def)
  moreover have "sr_entry s = Some (call_at j)" using assms(1) by (simp add: search_inv_def)
  ultimately show ?thesis
    using static_okD [OF d(2) assms(3)]
    by (cases "stepRegister (sr_state s) (ops ! j)") (auto simp: search_step_def cached_def Let_def)
qed

lemma step_skip:
  assumes "search_inv ops p (call_at j # bs) s" "ticks_ok ops" "j < length ops" "j \<notin> set p"
    and bad: "\<not> snd (stepRegister (sr_state s) (ops ! j)) \<or> cached ops (sr_cache s) (insert j (set p)) (fst (stepRegister (sr_state s) (ops ! j)))"
  obtains s' where "search_step s = Some (Inr s')" "search_inv ops p bs s'" "sr_cache s' = sr_cache s"
proof -
  let ?s' = "s\<lparr>sr_entry := (case bs of [] \<Rightarrow> None | a # _ \<Rightarrow> Some a)\<rparr>"
  have "search_step s = Some (Inr ?s')"
    using bad by (cases "stepRegister (sr_state s) (ops ! j)") (auto simp: search_step_call [OF assms(1-4)])
  moreover obtain as where as: "pending ops (set p) = as @ call_at j # bs" "scanned ops (sr_cache s) (set p) (sr_state s) as"
    using assms(1) by (auto simp: search_inv_def)
  have "scanned ops (sr_cache s) (set p) (sr_state s) (as @ [call_at j])" using as(2) bad unfolding scanned_def by fastforce
  then have "\<exists>as'. pending ops (set p) = as' @ bs \<and> scanned ops (sr_cache s) (set p) (sr_state s) as'"
    using as(1) by (intro exI [of _ "as @ [call_at j]"]) simp
  then have "search_inv ops p bs ?s'" using assms(1) by (simp add: search_inv_def)
  ultimately show ?thesis using that by simp
qed

lemma step_lift:
  assumes "search_inv ops p (call_at j # bs) s" "ticks_ok ops" "j < length ops" "j \<notin> set p"
    and good: "stepRegister (sr_state s) (ops ! j) = (st', True)" "\<not> cached ops (sr_cache s) (insert j (set p)) st'"
  obtains s' where "search_step s = Some (Inr s')" "search_inv ops (j # p) (pending ops (set (j # p))) s'"
    "sr_cache s' = cacheAdd (sr_cache s) (bits (length ops) (insert j (set p))) st'"
proof -
  let ?c = "cacheAdd (sr_cache s) (bits (length ops) (insert j (set p))) st'"
  let ?f = "\<lparr>fr_call = call_at j, fr_state = sr_state s\<rparr>"
  have i: "lifted ops (sr_heap s) p" "stack_ok ops (sr_cache s) p (sr_calls s) (sr_state s)"
    "cache_ok ops (sr_cache s) p (sr_calls s) (sr_state s)" using assms(1) by (simp_all add: search_inv_def)
  obtain as where as: "pending ops (set p) = as @ call_at j # bs" "scanned ops (sr_cache s) (set p) (sr_state s) as"
    using assms(1) by (auto simp: search_inv_def)
  obtain h' where h': "lift (call_at j) (sr_heap s) = Some h'" "lifted ops h' (j # p)"
    using lifted_lift [OF i(1) assms(2-4)] by blast
  have sub: "insert j (set p) \<subseteq> {..<length ops}" using stack_ok_path [OF i(2)] assms(3) by simp
  have "stack_ok ops ?c (j # p) (?f # sr_calls s) st'"
    using good(1) assms(3,4) as scanned_mono stack_ok_mono [OF i(2)] by (auto simp: cached_add [OF sub sub])
  moreover have "cache_ok ops ?c (j # p) (?f # sr_calls s) st'"
    using i(3) unfolding cache_ok_def by (auto simp: cached_add [OF sub])
  moreover have "ev_next (h' head) = (case pending ops (set (j # p)) of [] \<Rightarrow> None | a # _ \<Rightarrow> Some a)"
    using lifted_dl [OF h'(2) assms(2)] dl_head by blast
  ultimately show ?thesis
    using that [of "\<lparr>sr_heap = h', sr_linearized = bits (length ops) (insert j (set p)), sr_cache = ?c, sr_calls = ?f # sr_calls s,
      sr_state = st', sr_entry = ev_next (h' head)\<rparr>"] h' good
    by (simp add: search_step_call [OF assms(1-4)] search_inv_def scanned_def)
qed

lemma search_step_return:
  assumes "search_inv ops p (ret_at j # bs) s" "ticks_ok ops"
  shows "search_step s = (case sr_calls s of
      [] \<Rightarrow> Some (Inl False)
    | f # rest \<Rightarrow> do { lin \<leftarrow> bs_clear (ev_id (sr_heap s (fr_call f))) (sr_linearized s); h' \<leftarrow> unlift (fr_call f) (sr_heap s);
          Some (Inr (s\<lparr>sr_heap := h', sr_linearized := lin, sr_calls := rest, sr_state := fr_state f, sr_entry := ev_next (h' (fr_call f))\<rparr>)) })"
proof -
  obtain as where as: "pending ops (set p) = as @ ret_at j # bs" using assms(1) by (auto simp: search_inv_def)
  note d = search_inv_dl [OF assms(1,2)]
  have "j < length ops" using pending_id [of "ret_at j" ops "set p"] as by simp
  note k = static_okD [OF d(2) this]
  have "ev_next (sr_heap s head) \<noteq> None" using dl_head [OF d(1)] as by (auto split: list.splits)
  moreover have "sr_entry s = Some (ret_at j)" using assms(1) by (simp add: search_inv_def)
  ultimately show ?thesis using k(5) by (cases "sr_calls s") (auto simp: search_step_def Let_def)
qed

lemma return_dead:
  assumes "search_inv ops p (ret_at j # bs) s" "ticks_ok ops"
  shows "\<not> completable ops (set p) (sr_state s)"
proof -
  obtain as where "pending ops (set p) = as @ ret_at j # bs" "scanned ops (sr_cache s) (set p) (sr_state s) as"
    using assms(1) by (auto simp: search_inv_def)
  then show ?thesis using dead_end [OF assms(2)] assms(1) by (auto simp: search_inv_def)
qed

lemma step_fail:
  assumes "search_inv ops p (ret_at j # bs) s" "ticks_ok ops" "sr_calls s = []"
  shows "search_step s = Some (Inl False)" "\<not> completable ops {} zero_regState"
proof -
  show "search_step s = Some (Inl False)" using assms(3) by (simp add: search_step_return [OF assms(1,2)])
  have "stack_ok ops (sr_cache s) p [] (sr_state s)" using assms(1,3) by (simp add: search_inv_def)
  then have "p = []" "sr_state s = zero_regState" by (cases p; simp)+
  then show "\<not> completable ops {} zero_regState" using return_dead [OF assms(1,2)] by simp
qed

lemma step_pop:
  assumes "search_inv ops p (ret_at j # bs) s" "ticks_ok ops" "sr_calls s = f # fs"
  obtains s' p' bs' i where "search_step s = Some (Inr s')" "search_inv ops p' bs' s'" "p = i # p'" "sr_cache s' = sr_cache s"
proof -
  have inv: "lifted ops (sr_heap s) p" "sr_linearized s = bits (length ops) (set p)"
    "stack_ok ops (sr_cache s) p (f # fs) (sr_state s)" "cache_ok ops (sr_cache s) p (f # fs) (sr_state s)"
    using assms(1,3) by (simp_all add: search_inv_def)
  obtain i p' where p: "p = i # p'" using inv(3) by (cases p) simp_all
  obtain as bs' where st: "fr_call f = call_at i" "stepRegister (fr_state f) (ops ! i) = (sr_state s, True)" "i < length ops" "i \<notin> set p'"
    "pending ops (set p') = as @ call_at i # bs'" "scanned ops (sr_cache s) (set p') (fr_state f) as"
    "cached ops (sr_cache s) (insert i (set p')) (sr_state s)" "stack_ok ops (sr_cache s) p' fs (fr_state f)"
    using inv(3) p by auto
  obtain h' where h': "unlift (call_at i) (sr_heap s) = Some h'" "lifted ops h' p'"
    using lifted_unlift [OF _ assms(2)] inv(1) p by blast
  have "set p \<subseteq> {..<length ops}" using stack_ok_path [OF inv(3)] by simp
  then have "bs_clear i (sr_linearized s) = Some (bits (length ops) (set p - {i}))" using inv(2) st(3) by (simp add: bits_clear)
  then have clear: "bs_clear i (sr_linearized s) = Some (bits (length ops) (set p'))" using p st(4) by simp
  let ?s' = "s\<lparr>sr_heap := h', sr_linearized := bits (length ops) (set p'), sr_calls := fs, sr_state := fr_state f, sr_entry := ev_next (h' (call_at i))\<rparr>"
  have "search_step s = Some (Inr ?s')"
    using assms(3) st(1) h'(1) clear static_okD(2) [OF search_inv_dl(2) [OF assms(1,2)] st(3)]
    by (simp add: search_step_return [OF assms(1,2)])
  moreover have "cache_ok ops (sr_cache s) p' fs (fr_state f)"
    using inv(4) return_dead [OF assms(1,2)] unfolding cache_ok_def p by auto
  moreover have "scanned ops (sr_cache s) (set p') (fr_state f) (as @ [call_at i])"
    using st(2,6,7) unfolding scanned_def by fastforce
  moreover have "ev_next (h' (call_at i)) = (case bs' of [] \<Rightarrow> None | a # _ \<Rightarrow> Some a)"
    using lifted_dl [OF h'(2) assms(2)] unfolding st(5) by (intro dl_next_at) blast
  moreover have "pending ops (set p') = (as @ [call_at i]) @ bs'" using st(5) by simp
  ultimately show ?thesis using that [of ?s' p' bs' i] h'(2) st(8) p unfolding search_inv_def by fastforce
qed

subsection \<open>The loop\<close>

text \<open>Every lift adds a pair of a set of operations and a reachable state to the cache, of which there are finitely many.\<close>

definition reg_states :: "Op list \<Rightarrow> regState set" where
  "reg_states ops = insert zero_regState ((\<lambda>op. \<lparr>rs_value = op_Value op, rs_present = True\<rparr>) ` set ops)"

definition uncached :: "Op list \<Rightarrow> cache \<Rightarrow> (nat set \<times> regState) set" where
  "uncached ops c = {(S, st). S \<subseteq> {..<length ops} \<and> st \<in> reg_states ops \<and> \<not> cached ops c S st}"

lemma finite_uncached: "finite (uncached ops c)"
  by (rule finite_subset [of _ "Pow {..<length ops} \<times> reg_states ops"]) (auto simp: uncached_def reg_states_def)

lemma step_reg_states: "st \<in> reg_states ops \<Longrightarrow> i < length ops \<Longrightarrow> fst (stepRegister st (ops ! i)) \<in> reg_states ops"
  by (auto simp: reg_states_def stepRegister_def split: OpKind.splits)

lemma stack_reg_states: "stack_ok ops c p fs st \<Longrightarrow> st \<in> reg_states ops"
proof (induction ops c p fs st rule: stack_ok.induct)
  case (2 ops c i p f fs st)
  then show ?case using step_reg_states [of "fr_state f" ops i] by simp
qed (simp_all add: reg_states_def)

lemma uncached_add:
  assumes "S \<subseteq> {..<length ops}" "st \<in> reg_states ops" "\<not> cached ops c S st"
  shows "card (uncached ops (cacheAdd c (bits (length ops) S) st)) < card (uncached ops c)"
proof (rule psubset_card_mono [OF finite_uncached])
  have "(S, st) \<in> uncached ops c" "(S, st) \<notin> uncached ops (cacheAdd c (bits (length ops) S) st)"
    using assms by (auto simp: uncached_def cached_add)
  moreover have "uncached ops (cacheAdd c (bits (length ops) S) st) \<subseteq> uncached ops c"
    using cached_mono by (auto simp: uncached_def)
  ultimately show "uncached ops (cacheAdd c (bits (length ops) S) st) \<subset> uncached ops c" by blast
qed

definition search_measure :: "Op list \<Rightarrow> nat list \<Rightarrow> addr list \<Rightarrow> search \<Rightarrow> nat \<times> nat \<times> nat" where
  "search_measure ops p bs s = (card (uncached ops (sr_cache s)), length p, length bs)"

text \<open>One iteration: the right answer, or a smaller search.\<close>

lemma search_step_cases:
  assumes inv: "search_inv ops p bs s" and t: "ticks_ok ops"
  obtains "search_step s = Some (Inl (completable ops {} zero_regState))"
  | s' p' bs' where "search_step s = Some (Inr s')" "search_inv ops p' bs' s'"
      "(search_measure ops p' bs' s', search_measure ops p bs s) \<in> less_than <*lex*> less_than <*lex*> less_than"
proof (cases "pending ops (set p) = []")
  case True
  then show ?thesis using that(1) step_done [OF inv t] by simp
next
  case False
  with inv show ?thesis
  proof (cases rule: entry_exists)
    case (1 j bs')
    note inv' = inv [unfolded 1(3)]
    obtain st' ok where st': "stepRegister (sr_state s) (ops ! j) = (st', ok)" by fastforce
    show ?thesis
    proof (cases "ok \<and> \<not> cached ops (sr_cache s) (insert j (set p)) st'")
      case True
      have stack: "stack_ok ops (sr_cache s) p (sr_calls s) (sr_state s)" using inv by (simp add: search_inv_def)
      have "st' \<in> reg_states ops" using step_reg_states [OF stack_reg_states [OF stack] 1(1)] st' by simp
      moreover have "insert j (set p) \<subseteq> {..<length ops}" using stack_ok_path [OF stack] 1(1) by simp
      ultimately have less: "card (uncached ops (cacheAdd (sr_cache s) (bits (length ops) (insert j (set p))) st')) < card (uncached ops (sr_cache s))"
        using True by (intro uncached_add) simp_all
      obtain s' where "search_step s = Some (Inr s')" "search_inv ops (j # p) (pending ops (set (j # p))) s'"
        "sr_cache s' = cacheAdd (sr_cache s) (bits (length ops) (insert j (set p))) st'"
        using step_lift [OF inv' t 1(1,2), of st'] True st' by auto
      then show ?thesis using less by (intro that(2) [of s' "j # p" "pending ops (set (j # p))"]) (simp_all add: search_measure_def)
    next
      case False
      then obtain s' where "search_step s = Some (Inr s')" "search_inv ops p bs' s'" "sr_cache s' = sr_cache s"
        using step_skip [OF inv' t 1(1,2)] st' by auto
      then show ?thesis using 1(3) by (intro that(2) [of s' p bs']) (simp_all add: search_measure_def)
    qed
  next
    case (2 j bs')
    note inv' = inv [unfolded 2]
    show ?thesis
    proof (cases "sr_calls s")
      case Nil
      then show ?thesis using that(1) step_fail [OF inv' t] by simp
    next
      case (Cons f fs)
      obtain s' p' bs'' i where "search_step s = Some (Inr s')" "search_inv ops p' bs'' s'" "p = i # p'" "sr_cache s' = sr_cache s"
        using step_pop [OF inv' t Cons] by blast
      then show ?thesis by (intro that(2) [of s' p' bs'']) (simp_all add: search_measure_def)
    qed
  qed
qed

lemma search_loop_result:
  assumes "search_inv ops p bs s" "ticks_ok ops"
  shows "search_loop s = Some (completable ops {} zero_regState)"
  using assms(1)
proof (induction "search_measure ops p bs s" arbitrary: p bs s
    rule: wf_induct_rule [OF wf_lex_prod [OF wf_less_than wf_lex_prod [OF wf_less_than wf_less_than]]])
  case 1
  from 1(2) assms(2) show ?case
  proof (cases rule: search_step_cases)
    case 1
    then show ?thesis by (simp add: search_loop.simps [of s])
  next
    case (2 s' p' bs')
    then show ?thesis using "1.hyps" by (simp add: search_loop.simps [of s])
  qed
qed

lemma search_start_inv: "search_inv ops [] (events ops) (search_start ops)"
proof -
  have "pending ops {} = events ops" by (simp add: pending_def)
  then show ?thesis
    using dl_head [OF buildEventList_dl(1) [of ops]] lifted.start [of ops]
    by (simp add: search_inv_def search_start_def Let_def bits_empty scanned_def cache_ok_def cached_def cacheHas_empty)
qed

lemma register_search: "ticks_ok ops \<Longrightarrow> linearizableRegister ops = Some (completable ops {} zero_regState)"
  using search_loop_result [OF search_start_inv] completion_done [of "[]" "{}"]
  by (auto simp: linearizableRegister_def completable_def)

end
