(* ===== verification/Lincheck_Check.thy ===== *)
theory Lincheck_Check
  imports Lincheck_Search "HOL-Library.Multiset"
begin

section \<open>Correctness of the checker\<close>

text \<open>
  A history is linearizable when its operations have an order that respects real time and in which every
  read returns what the key/value store holds.  This reduces to the registers of the single keys: orders
  of the keys are merged by giving every operation a point between its call and its return.
\<close>

subsection \<open>Specification\<close>

definition may_precede :: "Op \<Rightarrow> Op \<Rightarrow> bool" where
  "may_precede a b = (\<not> op_Return b < op_Call a)"

definition register_linearizable :: "Op list \<Rightarrow> bool" where
  "register_linearizable ops = (\<exists>xs. mset xs = mset ops \<and> sorted_wrt may_precede xs \<and> legal zero_regState xs)"

primrec kv_legal :: "(bytes \<Rightarrow> regState) \<Rightarrow> Op list \<Rightarrow> bool" where
  "kv_legal st [] = True"
| "kv_legal st (op # ops) =
     (snd (stepRegister (st (op_Key op)) op) \<and> kv_legal (st(op_Key op := fst (stepRegister (st (op_Key op)) op))) ops)"

definition linearizable :: "Op list \<Rightarrow> bool" where
  "linearizable ops = (\<exists>xs. mset xs = mset ops \<and> sorted_wrt may_precede xs \<and> kv_legal (\<lambda>_. zero_regState) xs)"

subsection \<open>One register\<close>

lemma permutation_indices:
  assumes "finite S" "mset xs = image_mset ((!) ops) (mset_set S)"
  obtains "is" where "distinct is" "set is = S" "map ((!) ops) is = xs"
  using assms
proof (induction xs arbitrary: S thesis)
  case Nil
  then have "S = {}" by (simp add: mset_set_empty_iff)
  then show ?case using Nil.prems(1) [of "[]"] by simp
next
  case (Cons x xs)
  have "x \<in># image_mset ((!) ops) (mset_set S)" using Cons.prems(3) by (metis list.set_intros(1) set_mset_mset)
  then obtain i where i: "i \<in> S" "x = ops ! i" using Cons.prems(2) by auto
  then have "mset_set S = add_mset i (mset_set (S - {i}))"
    using Cons.prems(2) mset_set.remove by fastforce
  with Cons.prems(3) i have "mset xs = image_mset ((!) ops) (mset_set (S - {i}))" by simp
  then obtain "is" where "distinct is" "set is = S - {i}" "map ((!) ops) is = xs"
    using Cons.IH [of "S - {i}"] Cons.prems(2) by blast
  then show ?case using Cons.prems(1) [of "i # is"] i by auto
qed

lemma mset_indices: "image_mset ((!) ops) (mset_set {..<length ops}) = mset ops"
  by (metis atLeast0LessThan atLeast_upt map_nth mset_map mset_set_set distinct_upt)

lemma rt_may_precede: "rt ops = (\<lambda>i j. may_precede (ops ! i) (ops ! j))"
  by (simp add: fun_eq_iff rt_def may_precede_def)

lemma completable_linearizable: "completable ops {} zero_regState \<longleftrightarrow> register_linearizable ops"
proof
  assume "completable ops {} zero_regState"
  then obtain "is" where c: "distinct is" "set is = {..<length ops}" "sorted_wrt (rt ops) is" "legal zero_regState (map ((!) ops) is)"
    by (auto simp: completable_def completion_def)
  have "mset (map ((!) ops) is) = mset ops" using mset_indices [of ops] c(1,2) by (metis mset_map mset_set_set)
  moreover have "sorted_wrt may_precede (map ((!) ops) is)"
    using c(3) by (simp add: sorted_wrt_map rt_may_precede)
  ultimately show "register_linearizable ops" using c(4) unfolding register_linearizable_def by blast
next
  assume "register_linearizable ops"
  then obtain xs where xs: "mset xs = mset ops" "sorted_wrt may_precede xs" "legal zero_regState xs"
    by (auto simp: register_linearizable_def)
  obtain "is" where i: "distinct is" "set is = {..<length ops}" "map ((!) ops) is = xs"
    using permutation_indices [of "{..<length ops}" xs ops] xs(1) mset_indices [of ops] by auto
  have "sorted_wrt (rt ops) is" using xs(2) unfolding i(3) [symmetric] sorted_wrt_map rt_may_precede .
  then have "completion ops {} zero_regState is" using i xs(3) by (simp add: completion_def)
  then show "completable ops {} zero_regState" by (auto simp: completable_def)
qed

subsection \<open>Locality\<close>

lemma kv_legal_keys: "kv_legal st xs \<longleftrightarrow> (\<forall>k. legal (st k) (byKey xs k))"
proof (induction xs arbitrary: st)
  case (Cons op xs)
  show ?case
  proof
    assume "kv_legal st (op # xs)"
    then show "\<forall>k. legal (st k) (byKey (op # xs) k)"
      using Cons [of "st(op_Key op := fst (stepRegister (st (op_Key op)) op))"]
      by (auto simp: byKey_def split: if_splits)
  next
    assume a: "\<forall>k. legal (st k) (byKey (op # xs) k)"
    then have "\<forall>k. legal ((st(op_Key op := fst (stepRegister (st (op_Key op)) op))) k) (byKey xs k)"
      by (auto simp: byKey_def dest: spec [of _ "op_Key op"] split: if_splits)
    moreover have "snd (stepRegister (st (op_Key op)) op)" using a [rule_format, of "op_Key op"] by (simp add: byKey_def)
    ultimately show "kv_legal st (op # xs)" using Cons by simp
  qed
qed (simp add: byKey_def)

text \<open>The point of an operation: the latest call among the operations ordered up to it.\<close>

primrec points :: "int \<Rightarrow> Op list \<Rightarrow> (int \<times> Op) list" where
  "points m [] = []"
| "points m (op # ops) = (max m (op_Call op), op) # points (max m (op_Call op)) ops"

lemma map_snd_points [simp]: "map snd (points m xs) = xs"
  by (induction xs arbitrary: m) simp_all

lemma points_ge: "(t, op) \<in> set (points m xs) \<Longrightarrow> m \<le> t \<and> op_Call op \<le> t"
  by (induction xs arbitrary: m) fastforce+

lemma sorted_points: "sorted (map fst (points m xs))"
proof (induction xs arbitrary: m)
  case (Cons op xs)
  then show ?case using points_ge by fastforce
qed simp

lemma points_le:
  assumes "sorted_wrt may_precede xs" "\<forall>op \<in> set xs. op_Call op \<le> op_Return op" "\<forall>op \<in> set xs. m \<le> op_Return op"
    "(t, op) \<in> set (points m xs)"
  shows "t \<le> op_Return op"
  using assms
proof (induction xs arbitrary: m)
  case (Cons x xs)
  have "\<forall>y \<in> set xs. max m (op_Call x) \<le> op_Return y"
    using Cons.prems(1,3) by (auto simp: may_precede_def)
  with Cons.IH [of "max m (op_Call x)"] Cons.prems show ?case by (auto simp del: max.bounded_iff)
qed simp

lemma sorted_may_precede:
  assumes "sorted (map fst xs)" "\<forall>(t, op) \<in> set xs. op_Call op \<le> t \<and> t \<le> op_Return op"
  shows "sorted_wrt may_precede (map snd xs)"
  unfolding sorted_wrt_map may_precede_def
  using assms(1) unfolding sorted_wrt_map
proof (rule sorted_wrt_mono_rel [rotated])
  fix x y
  assume a: "x \<in> set xs" "y \<in> set xs" "fst x \<le> fst y"
  then have "op_Call (snd x) \<le> fst x" "fst y \<le> op_Return (snd y)" using assms(2) by (auto simp: split_beta)
  with a(3) show "\<not> op_Return (snd y) < op_Call (snd x)" by linarith
qed

lemma mset_filter_or:
  "(\<And>x. \<not> (P x \<and> Q x)) \<Longrightarrow> mset (filter (\<lambda>x. P x \<or> Q x) xs) = mset (filter P xs) + mset (filter Q xs)"
  by (induction xs) auto

lemma mset_by_keys: "distinct ks \<Longrightarrow> mset (concat (map (byKey xs) ks)) = mset (filter (\<lambda>op. op_Key op \<in> set ks) xs)"
proof (induction ks)
  case (Cons k ks)
  have "mset (filter (\<lambda>op. op_Key op = k \<or> op_Key op \<in> set ks) xs) = mset (byKey xs k) + mset (filter (\<lambda>op. op_Key op \<in> set ks) xs)"
    unfolding byKey_def using Cons.prems by (intro mset_filter_or) auto
  then show ?case using Cons by simp
qed simp

lemma filter_key_concat:
  assumes "distinct ks" "\<And>k op. op \<in> set (f k) \<Longrightarrow> op_Key (snd op) = k"
  shows "filter (\<lambda>x. op_Key (snd x) = k) (concat (map f ks)) = (if k \<in> set ks then f k else [])"
  using assms(1)
proof (induction ks)
  case (Cons j ks)
  have "filter (\<lambda>x. op_Key (snd x) = k) (f j) = (if j = k then f j else [])"
    using assms(2) by (auto simp: filter_id_conv filter_empty_conv)
  then show ?case using Cons by auto
qed simp

lemma linearizable_key:
  assumes "linearizable ops"
  shows "register_linearizable (byKey ops k)"
proof -
  from assms obtain xs where "mset xs = mset ops" "sorted_wrt may_precede xs" "kv_legal (\<lambda>_. zero_regState) xs"
    by (auto simp: linearizable_def)
  then have "mset (byKey xs k) = mset (byKey ops k)" "sorted_wrt may_precede (byKey xs k)" "legal zero_regState (byKey xs k)"
    by (simp_all add: byKey_def kv_legal_keys sorted_wrt_filter)
  then show ?thesis by (auto simp: register_linearizable_def)
qed

lemma keys_linearizable:
  assumes reg: "\<And>k. register_linearizable (byKey ops k)" and t: "\<forall>op \<in> set ops. op_Call op \<le> op_Return op"
  shows "linearizable ops"
proof -
  obtain f where f: "\<And>k. mset (f k) = mset (byKey ops k)" "\<And>k. sorted_wrt may_precede (f k)" "\<And>k. legal zero_regState (f k)"
    using reg unfolding register_linearizable_def by metis
  obtain m where m: "\<forall>op \<in> set ops. m \<le> op_Call op"
  proof (cases "ops = []")
    case False
    then show ?thesis using that [of "Min (op_Call ` set ops)"] by simp
  qed (use that in simp)
  define ks where "ks = remdups (map op_Key ops)"
  define xs where "xs = concat (map (\<lambda>k. points m (f k)) ks)"
  define ys where "ys = sort_key fst xs"
  have fk: "op \<in> set ops \<and> op_Key op = k" if "op \<in> set (f k)" for op k
    using that f(1) [of k] by (metis (mono_tags, lifting) byKey_def mem_Collect_eq set_filter set_mset_mset)
  have keys: "op_Key (snd op) = k" if "op \<in> set (points m (f k))" for k op
    using that fk [of "snd op" k] map_snd_points [of m "f k"] by (metis image_eqI list.set_map)
  have "map snd xs = concat (map f ks)" by (simp add: xs_def map_concat comp_def)
  then have "mset (map snd ys) = mset (concat (map f ks))" by (simp add: ys_def) (metis mset_map)
  also have "\<dots> = mset (concat (map (byKey ops) ks))"
    using f(1) by (induction ks) simp_all
  also have "\<dots> = mset (filter (\<lambda>op. op_Key op \<in> set ks) ops)" by (rule mset_by_keys) (simp add: ks_def)
  also have "filter (\<lambda>op. op_Key op \<in> set ks) ops = ops" by (auto simp: filter_id_conv ks_def)
  finally have 1: "mset (map snd ys) = mset ops" .
  have "op_Call op \<le> p \<and> p \<le> op_Return op" if "(p, op) \<in> set (points m (f k))" for p op k
    using points_ge [OF that] points_le [OF f(2) _ _ that] fk t m by (meson order_trans)
  then have "\<forall>(p, op) \<in> set ys. op_Call op \<le> p \<and> p \<le> op_Return op" by (auto simp: ys_def xs_def)
  then have 2: "sorted_wrt may_precede (map snd ys)" by (intro sorted_may_precede) (simp add: ys_def)
  have "byKey (map snd ys) k = (if k \<in> set ks then f k else [])" for k
  proof -
    have "byKey (map snd ys) k = map snd (sort_key fst (filter (\<lambda>x. op_Key (snd x) = k) xs))"
      by (simp add: byKey_def ys_def filter_map comp_def filter_sort)
    also have "filter (\<lambda>x. op_Key (snd x) = k) xs = (if k \<in> set ks then points m (f k) else [])"
      unfolding xs_def by (rule filter_key_concat) (auto simp: ks_def keys)
    finally show ?thesis using sorted_points [of m "f k"] by (simp add: sorted_sort_id sort_key_id_if_sorted)
  qed
  then have "kv_legal (\<lambda>_. zero_regState) (map snd ys)" using f(3) by (simp add: kv_legal_keys)
  then show ?thesis using 1 2 unfolding linearizable_def by blast
qed

lemma locality:
  "\<forall>op \<in> set ops. op_Call op \<le> op_Return op \<Longrightarrow> linearizable ops \<longleftrightarrow> (\<forall>k \<in> op_Key ` set ops. register_linearizable (byKey ops k))"
proof -
  assume t: "\<forall>op \<in> set ops. op_Call op \<le> op_Return op"
  have "register_linearizable (byKey ops k)" if "k \<notin> op_Key ` set ops" for k
  proof -
    have "byKey ops k = []" using that by (auto simp: byKey_def filter_empty_conv)
    then show ?thesis by (simp add: register_linearizable_def)
  qed
  then show ?thesis using linearizable_key keys_linearizable t by metis
qed

subsection \<open>The properties\<close>

lemma ticks_ok_byKey: "ticks_ok ops \<Longrightarrow> ticks_ok (byKey ops k)"
  by (auto simp: ticks_ok_def byKey_def)

lemma check_keys_result:
  assumes "ticks_ok ops"
  shows "\<exists>r. check_keys ops ks = Some r \<and>
    (if \<forall>k \<in> set ks. register_linearizable (byKey ops k) then r_Linearizable r
     else \<not> r_Linearizable r \<and> r_Key r \<in> set ks \<and> \<not> register_linearizable (byKey ops (r_Key r)) \<and>
          r_Witness r = sortedByCall (byKey ops (r_Key r)))"
proof (induction ks)
  case (Cons k ks)
  have "linearizableRegister (byKey ops k) = Some (register_linearizable (byKey ops k))"
    using register_search [OF ticks_ok_byKey [OF assms]] completable_linearizable by simp
  with Cons show ?case by (cases "register_linearizable (byKey ops k)") (auto split: if_splits)
qed simp

lemma sorted_sort_key_Return: "sorted (map op_Call (sortedByCall ops))"
  by (simp add: sortedByCall_def)

text \<open>C20: The search over one register returns for every history whose ticks come from one counter (an operation
  is called before it returns, and none returns at the tick of a call), and it answers whether the operations have an
  order that respects real time and in which every read returns the value of the register: the pointer surgery of
  lift and unlift, the bitset and the cache lose no order and invent none.\<close>

theorem linearizableRegister_correct: "ticks_ok ops \<Longrightarrow> linearizableRegister ops = Some (register_linearizable ops)"
  by (simp add: register_search completable_linearizable)

text \<open>C19: Check decides linearizability of whole histories: it returns, its verdict is whether the operations on all
  keys together have one order that respects real time and the key/value store, and when they do not, the key it names
  has a sub-history that is not linearizable, which is the witness it returns in the order of the calls.\<close>

theorem Check_correct:
  assumes "ticks_ok history"
  shows "\<exists>r. Check history = Some r \<and> (r_Linearizable r \<longleftrightarrow> linearizable history) \<and>
    (\<not> r_Linearizable r \<longrightarrow> \<not> register_linearizable (byKey history (r_Key r)) \<and>
       mset (r_Witness r) = mset (byKey history (r_Key r)) \<and> sorted (map op_Call (r_Witness r)))"
proof -
  have "\<forall>op \<in> set history. op_Call op \<le> op_Return op" using assms by (auto simp: ticks_ok_def less_imp_le)
  note l = locality [OF this]
  have "set (sort (remdups (map op_Key history))) = op_Key ` set history" by simp
  with check_keys_result [OF assms, of "sort (remdups (map op_Key history))"] l show ?thesis
    by (auto simp: Check_def sorted_sort_key_Return split: if_splits) (simp_all add: sortedByCall_def)
qed

text \<open>Two histories of the test suite: a read that overlaps two writes, and a read that goes back to absent.\<close>

definition put_op :: "int \<Rightarrow> bytes \<Rightarrow> bytes \<Rightarrow> int \<Rightarrow> int \<Rightarrow> Op" where
  "put_op client key val c r = \<lparr>op_Client = client, op_Kind = Put, op_Key = key, op_Value = val, op_Found = False, op_Call = c, op_Return = r\<rparr>"

definition get_op :: "int \<Rightarrow> bytes \<Rightarrow> bytes option \<Rightarrow> int \<Rightarrow> int \<Rightarrow> Op" where
  "get_op client key val c r = \<lparr>op_Client = client, op_Kind = Get, op_Key = key, op_Value = (case val of None \<Rightarrow> [] | Some v \<Rightarrow> v),
     op_Found = (val \<noteq> None), op_Call = c, op_Return = r\<rparr>"

definition reorderable :: "Op list" where
  "reorderable = [put_op 0 [120] [49] 0 5, put_op 1 [120] [50] 1 6, get_op 2 [120] (Some [49]) 2 3]"

definition regressing :: "Op list" where
  "regressing = [put_op 0 [120] [49] 0 3, get_op 1 [120] (Some [49]) 1 2, get_op 2 [120] None 4 5]"

theorem linearizableRegister_witness:
  "ticks_ok reorderable \<and> linearizableRegister reorderable = Some (register_linearizable reorderable) \<and> register_linearizable reorderable"
proof -
  have t: "ticks_ok reorderable" by code_simp
  have "linearizableRegister reorderable = Some True" by code_simp
  then show ?thesis using t linearizableRegister_correct [OF t] by simp
qed

theorem Check_correct_witness:
  "ticks_ok regressing \<and> Check regressing = Some \<lparr>r_Linearizable = False, r_Key = [120], r_Witness = regressing\<rparr> \<and> \<not> linearizable regressing"
proof -
  have t: "ticks_ok regressing" by code_simp
  have c: "Check regressing = Some \<lparr>r_Linearizable = False, r_Key = [120], r_Witness = regressing\<rparr>" by code_simp
  then show ?thesis using t Check_correct [OF t] by simp
qed

end
