(* ===== verification/Spec2Isabelle.thy ===== *)
theory Spec2Isabelle
  imports Prelude MvccKey Record_Format Bloom Skiplist Mvcc_Store Go_Heap Layer_Merge Memtable Wal Sstable Sstable_Iterator
    Db Db_Txn Db_Read Db_Flush Db_Open Db_Durable Db_Commit Db_Run Db_Faults Scan
    Compaction Compaction_Merge Compaction_Gc Compaction_Run Compaction_Reads Compaction_Faults Snapshot
    Raft_Log Raft_Log_File Raft_Config Raft_Node Raft_Cluster Raft_Election Raft_Safety Install Install_Crash
    Lincheck Lincheck_List Lincheck_Search Lincheck_Check
begin

text \<open>
  A verification development for littledb, a replicated multi-version key-value store in Go.  All paths are
  relative to \<^verbatim>\<open>src/internal\<close>.

  \<^bold>\<open>The program.\<close>  The storage engine (\<^verbatim>\<open>db\<close>) is a log-structured merge tree.  A transaction buffers its writes
  and reads at a snapshot timestamp.  A commit checks for conflicts, appends its records and a commit marker to
  the write-ahead log (\<^verbatim>\<open>wal\<close>, in the format of \<^verbatim>\<open>record\<close>) and applies them to the memtable (\<^verbatim>\<open>memtable\<close>, a
  \<^verbatim>\<open>skiplist\<close> over the versioned keys of \<^verbatim>\<open>mvcckey\<close>).  A full memtable is flushed into a sorted table (\<^verbatim>\<open>sstable\<close>,
  with a \<^verbatim>\<open>bloom\<close> filter).  Tables are compacted, and reads and scans merge all layers.  The cluster (\<^verbatim>\<open>cluster\<close>)
  replicates entries with Raft and feeds them to the engine of each node; a node that is too far behind gets a
  snapshot.  A separate checker (\<^verbatim>\<open>lincheck\<close>) decides whether a recorded history is linearizable.

  \<^bold>\<open>Conventions.\<close>  A byte is an \<open>8 word\<close>, timestamps, terms and indices are \<open>64 word\<close>s.  An error is the left
  side of a sum, a panic or a loop that does not return is \<open>None\<close> or an error value of its own (\<open>SstPanic\<close>,
  \<open>DecodePanic\<close>, \<open>DbPanic\<close>).  A method that runs under a lock is one step.  The outcome of a system call that
  can fail is an argument, and the files are part of the state, so a crash is opening what they hold.

  \<^bold>\<open>Theories and what they show.\<close>

  \<^item> \<open>Prelude\<close>: bytes, words, big-endian numbers, sorted association lists, and the interface \<open>ordered_store\<close>.

  \<^item> \<open>MvccKey\<close> (\<^verbatim>\<open>mvcckey.go\<close>), \<open>Record_Format\<close> (\<^verbatim>\<open>record.go\<close>), \<open>Bloom\<close> (\<^verbatim>\<open>bloom.go\<close>): codecs are inverse, a changed byte
    is detected by the checksum, a filter has no false negatives.  Extensions of a key sort before it.

  \<^item> \<open>Skiplist\<close> (\<^verbatim>\<open>skiplist.go\<close>): the pointer structure on a heap of nodes, with the coin flips as a stream; every
    operation returns and implements a sorted map.

  \<^item> \<open>Mvcc_Store\<close>: what a versioned store promises (\<open>version_source\<close>, \<open>version_cursor\<close>).  \<open>Memtable\<close> (\<^verbatim>\<open>memtable.go\<close>,
    \<^verbatim>\<open>scan.go\<close>) and \<open>Sstable\<close>, \<open>Sstable_Iterator\<close> (\<^verbatim>\<open>sstable.go\<close>, \<^verbatim>\<open>iterator.go\<close>) provide it: reads return the newest
    version at or before a snapshot, and a written table reads back.

  \<^item> \<open>Wal\<close> (\<^verbatim>\<open>wal.go\<close>): recovery keeps a prefix of whole records; the offsets after a failed write are wrong.

  \<^item> \<open>Go_Heap\<close>, \<open>Layer_Merge\<close>: Go's \<^verbatim>\<open>container/heap\<close> on lists, and the merge of sorted layers with it.

  \<^item> \<open>Db\<close>, \<open>Db_Txn\<close> (\<^verbatim>\<open>db.go\<close>, \<^verbatim>\<open>txn.go\<close>): the definitions of the engine.  \<open>Db_Read\<close>, \<open>Db_Flush\<close>, \<open>Db_Open\<close>, \<open>Db_Durable\<close>
    and \<open>Db_Commit\<close> hold the invariant and its preservation.  \<open>Db_Run\<close> has the runs (\<open>db_reach\<close>) and the main
    theorems: reads return what the history of commits says, commits are atomic under crashes, conflicts are
    detected, snapshots are isolated.  \<open>Db_Faults\<close> proves where failed commits and flushes break them.

  \<^item> \<open>Scan\<close> (\<^verbatim>\<open>db/scan.go\<close>): range scans, exact on prefix-free keys; a bounded scan can miss a key otherwise.

  \<^item> \<open>Compaction\<close> (\<^verbatim>\<open>compaction.go\<close>) with \<open>Compaction_Merge\<close> (what is written), \<open>Compaction_Gc\<close> (which versions may go),
    \<open>Compaction_Run\<close> and \<open>Compaction_Reads\<close> (compactions end and readers notice nothing), \<open>Compaction_Faults\<close> (what
    failures and crashes lose).

  \<^item> \<open>Snapshot\<close> (\<^verbatim>\<open>snapshot.go\<close>): a database built from a snapshot answers like its source.

  \<^item> \<open>Raft_Log\<close> (\<^verbatim>\<open>raftlog.go\<close>), \<open>Raft_Log_File\<close> (\<^verbatim>\<open>raftlogfile.go\<close>), \<open>Raft_Config\<close> (\<^verbatim>\<open>config.go\<close>, \<^verbatim>\<open>raftstate.go\<close>): the log in
    memory and on disk as two implementations of \<open>entry_log\<close> that stay in step, and the atomic hard state.

  \<^item> \<open>Raft_Node\<close> (\<^verbatim>\<open>election.go\<close>, \<^verbatim>\<open>replication.go\<close>, \<^verbatim>\<open>transport.go\<close>, \<^verbatim>\<open>cluster.go\<close>): one definition per handler or
    critical section.  \<open>Raft_Cluster\<close>: nodes and messages as a system of events.  \<open>Raft_Election\<close>, \<open>Raft_Safety\<close>: one
    leader per term with a fixed membership, and a run in which a late answer makes a committed entry vanish.

  \<^item> \<open>Install\<close> (\<^verbatim>\<open>install.go\<close>, and \<^verbatim>\<open>buildNode\<close> of \<^verbatim>\<open>cluster.go\<close>): receiving and installing a snapshot.  \<open>Install_Crash\<close>: an
    install is atomic under failures and crashes, and what a left-over marker destroys.

  \<^item> \<open>Lincheck\<close> (\<^verbatim>\<open>lincheck.go\<close>, \<^verbatim>\<open>linearize.go\<close>), \<open>Lincheck_List\<close>, \<open>Lincheck_Search\<close>, \<open>Lincheck_Check\<close>: the checker returns and
    its verdict is linearizability of the history.

  \<^bold>\<open>Bounds.\<close>  The theorems about reads assume user keys without the byte \<open>0xFF\<close> (\<open>ff_free\<close>) and timestamps below
  \<open>2 ^ 56\<close> (\<open>small_ts\<close>).  The first is a limit of the code: \<open>mt_GetAsOf_ff\<close> shows a lookup that fails without it.
  The second keeps the encoded timestamps starting with \<open>0xFF\<close>; it takes that many commits to leave it.  Files
  stay below \<open>2 ^ 48\<close> bytes and memtables below \<open>2 ^ 45\<close>, so that offsets and lengths fit their fields, and
  table numbers below one million, so that file names sort.  The size counter of a memtable is an unbounded
  integer, which these bounds keep inside 64 bits.  Loops are \<open>function\<close>s with a termination proof,
  or \<open>None\<close> when they do not return; the theorems say that they do.

  \<^bold>\<open>Not modelled.\<close>  Locks and the interleaving inside a critical section; the background goroutine of the
  compaction and the wake-up channels; the randomness of election timeouts; loss of unsynced data at a power
  failure (a crash keeps what was written); system-call failures while the Raft log is opened and in the table
  writer, beyond the failure points of a flush, a compaction and a snapshot build; the client side of the
  cluster (\<^verbatim>\<open>commit\<close>, \<^verbatim>\<open>readBarrier\<close>, the routing to the leader, sessions of clients); installs inside the
  event system of \<open>Raft_Cluster\<close>; \<^verbatim>\<open>lincheck/viz.go\<close> (rendering), \<^verbatim>\<open>repl\<close> and \<^verbatim>\<open>cmd/littledb\<close> (terminal I/O).
\<close>

end
